(* ===== verification/Prelude.thy ===== *)
theory Prelude
  imports Main "HOL-Library.Word" "HOL-Library.Multiset"
begin

text \<open>
  What every component of the CourtDB model shares: the machine integer types, byte buffers
  (the target of \<open>memcpy\<close>), the little-endian layout in which scalars are copied into
  buffers, the POSIX file calls that the disk and log managers make, and the collections of
  rewrite rules the component proofs use.
\<close>

section \<open>Machine integers\<close>

type_synonym u8 = "8 word"
type_synonym u16 = "16 word"
type_synonym u32 = "32 word"
type_synonym u64 = "64 word"

text \<open>
  \<open>word_nat\<close> collects the rules that read an unsigned word expression as a natural number
  when it does not wrap.
\<close>

named_theorems word_nat

lemma unat16_add [word_nat]: "unat (a :: u16) + unat b < 65536 \<Longrightarrow> unat (a + b) = unat a + unat b"
  by (simp add: unat_word_ariths)

lemma unat32_add [word_nat]: "unat (a :: u32) + unat b < 4294967296 \<Longrightarrow> unat (a + b) = unat a + unat b"
  by (simp add: unat_word_ariths)

lemma unat_sub_le [word_nat]: "unat (b :: 'a::len word) \<le> unat a \<Longrightarrow> unat (a - b) = unat a - unat b"
  by (simp add: unat_sub word_le_nat_alt)

lemma unat16_lt [simp]: "unat (a :: u16) < 65536"
  using unsigned_less [of a, where ?'a = nat] by simp

lemma unat32_lt [simp]: "unat (a :: u32) < 4294967296"
  using unsigned_less [of a, where ?'a = nat] by simp

lemma unat64_lt [simp]: "unat (a :: u64) < 18446744073709551616"
  using unsigned_less [of a, where ?'a = nat] by simp

lemma unat8_lt [simp]: "unat (a :: u8) < 256"
  using unsigned_less [of a, where ?'a = nat] by simp

lemma unat16_of_nat: "n < 65536 \<Longrightarrow> unat (of_nat n :: u16) = n"
  by (simp add: unat_of_nat)

lemma unat32_of_nat: "n < 4294967296 \<Longrightarrow> unat (of_nat n :: u32) = n"
  by (simp add: unat_of_nat)

lemma unat64_of_nat: "n < 18446744073709551616 \<Longrightarrow> unat (of_nat n :: u64) = n"
  by (simp add: unat_of_nat)

lemmas unat_of_nat_small [word_nat] = unat16_of_nat unat32_of_nat unat64_of_nat

lemma uint_unat_eq: "uint (a :: 'a::len word) = int (unat a)"
  by simp

section \<open>Byte buffers\<close>

text \<open>
  A byte array is a function from offsets to bytes. \<open>buf_write\<close> is a \<open>memcpy\<close> into it,
  \<open>buf_read\<close> a \<open>memcpy\<close> out of it. That no operation touches an offset outside the
  array is a theorem of the component that owns the array.
\<close>

type_synonym buf = "nat \<Rightarrow> u8"

definition buf_read :: "buf \<Rightarrow> nat \<Rightarrow> nat \<Rightarrow> u8 list" where
  "buf_read b off n = map b [off..<off + n]"

definition buf_write :: "buf \<Rightarrow> nat \<Rightarrow> u8 list \<Rightarrow> buf" where
  "buf_write b off bs = (\<lambda>i. if off \<le> i \<and> i < off + length bs then bs ! (i - off) else b i)"

lemma length_buf_read [simp]: "length (buf_read b off n) = n"
  by (simp add: buf_read_def)

lemma nth_buf_read [simp]: "i < n \<Longrightarrow> buf_read b off n ! i = b (off + i)"
  by (simp add: buf_read_def)

lemma buf_read_0 [simp]: "buf_read b off 0 = []"
  by (simp add: buf_read_def)

lemma buf_write_Nil [simp]: "buf_write b off [] = b"
  by (auto simp: buf_write_def fun_eq_iff)

lemma buf_write_other [simp]: "i < off \<or> off + length bs \<le> i \<Longrightarrow> buf_write b off bs i = b i"
  by (auto simp: buf_write_def)

lemma buf_write_at: "i < length bs \<Longrightarrow> buf_write b off bs (off + i) = bs ! i"
  by (simp add: buf_write_def)

lemma buf_read_write_same [simp]: "n = length bs \<Longrightarrow> buf_read (buf_write b off bs) off n = bs"
  by (rule nth_equalityI) (simp_all add: buf_write_at)

lemma buf_read_write_disjoint [simp]:
  "off + n \<le> off' \<or> off' + length bs \<le> off \<Longrightarrow> buf_read (buf_write b off' bs) off n = buf_read b off n"
  by (rule nth_equalityI) auto

lemma buf_read_cong:
  "(\<And>i. off \<le> i \<Longrightarrow> i < off + n \<Longrightarrow> b i = b' i) \<Longrightarrow> buf_read b off n = buf_read b' off n"
  by (simp add: buf_read_def)

lemma buf_read_eqD: "buf_read b off n = buf_read b' off n \<Longrightarrow> off \<le> i \<Longrightarrow> i < off + n \<Longrightarrow> b i = b' i"
  by (auto simp: buf_read_def)

lemma buf_read_append: "buf_read b off (m + n) = buf_read b off m @ buf_read b (off + m) n"
  by (rule nth_equalityI) (auto simp: nth_append add.assoc)

lemma buf_write_read_id [simp]: "buf_write b off (buf_read b off n) = b"
  by (auto simp: buf_write_def fun_eq_iff)

lemma buf_write_append:
  "buf_write (buf_write b off xs) (off + length xs) ys = buf_write b off (xs @ ys)"
  by (auto simp: buf_write_def fun_eq_iff nth_append)

lemma take_buf_read: "m \<le> n \<Longrightarrow> take m (buf_read b off n) = buf_read b off m"
  by (rule nth_equalityI) auto

lemma drop_buf_read: "m \<le> n \<Longrightarrow> drop m (buf_read b off n) = buf_read b (off + m) (n - m)"
  by (rule nth_equalityI) (auto simp: add.assoc)

section \<open>Scalars in buffers\<close>

text \<open>
  Scalars are copied with \<open>memcpy\<close> in host byte order; the model is that of a little-endian
  host, the order the record serializer writes by hand as well.
\<close>

primrec nat_to_le :: "nat \<Rightarrow> nat \<Rightarrow> u8 list" where
  "nat_to_le 0 x = []"
| "nat_to_le (Suc k) x = of_nat x # nat_to_le k (x div 256)"

primrec le_to_nat :: "u8 list \<Rightarrow> nat" where
  "le_to_nat [] = 0"
| "le_to_nat (b # bs) = unat b + 256 * le_to_nat bs"

lemma length_nat_to_le [simp]: "length (nat_to_le k x) = k"
  by (induction k arbitrary: x) auto

lemma le_to_nat_to_le: "x < 256 ^ k \<Longrightarrow> le_to_nat (nat_to_le k x) = x"
proof (induction k arbitrary: x)
  case 0
  then show ?case by simp
next
  case (Suc k)
  then have "le_to_nat (nat_to_le k (x div 256)) = x div 256"
    by (simp add: less_mult_imp_div_less mult.commute)
  then show ?case by (simp add: unat_of_nat)
qed

lemma nat_to_le_to_nat: "nat_to_le (length bs) (le_to_nat bs) = bs"
proof (induction bs)
  case Nil
  then show ?case by simp
next
  case (Cons b bs)
  have "(of_nat (unat b + 256 * le_to_nat bs) :: u8) = b"
    by (simp only: word_unat_eq_iff unat_of_nat) simp
  moreover have "(unat b + 256 * le_to_nat bs) div 256 = le_to_nat bs"
    using unat8_lt [of b] by simp
  ultimately show ?case using Cons by simp
qed

lemma le_to_nat_bound: "le_to_nat bs < 256 ^ length bs"
proof (induction bs)
  case Nil
  then show ?case by simp
next
  case (Cons b bs)
  have "unat b + 256 * le_to_nat bs < 256 * Suc (le_to_nat bs)"
    using unat8_lt [of b] by simp
  also have "\<dots> \<le> 256 * 256 ^ length bs"
    using Cons.IH by (intro mult_le_mono2) simp
  finally show ?case by simp
qed

definition le_bytes :: "nat \<Rightarrow> 'a::len word \<Rightarrow> u8 list" where
  "le_bytes k w = nat_to_le k (unat w)"

definition of_le_bytes :: "u8 list \<Rightarrow> 'a::len word" where
  "of_le_bytes bs = of_nat (le_to_nat bs)"

lemma length_le_bytes [simp]: "length (le_bytes k w) = k"
  by (simp add: le_bytes_def)

text \<open>
  A fixed-width codec: what the code relies on when it copies a scalar into a buffer and out
  again.
\<close>

locale codec =
  fixes enc :: "'a \<Rightarrow> u8 list" and dec :: "u8 list \<Rightarrow> 'a" and width :: nat
  assumes dec_enc: "dec (enc x) = x"
    and length_enc: "length (enc x) = width"
    and enc_dec: "length bs = width \<Longrightarrow> enc (dec bs) = bs"
begin

lemma read_back: "dec (buf_read (buf_write b off (enc x)) off width) = x"
  by (simp add: dec_enc length_enc)

lemma write_back: "buf_write b off (enc (dec (buf_read b off width))) = b"
  by (simp add: enc_dec)

lemma enc_inject: "enc x = enc y \<longleftrightarrow> x = y"
  by (metis dec_enc)

lemma dec_prefix: "dec (take width (enc x @ bs)) = x"
  by (simp add: dec_enc length_enc)

end

lemma le_bytes_roundtrip:
  "LENGTH('a::len) = 8 * k \<Longrightarrow> of_le_bytes (le_bytes k (w :: 'a word)) = w"
  using unsigned_less [of w, where ?'a = nat]
  by (simp add: le_bytes_def of_le_bytes_def le_to_nat_to_le power_mult)

lemma of_le_bytes_roundtrip:
  "LENGTH('a::len) = 8 * k \<Longrightarrow> length bs = k \<Longrightarrow> le_bytes k (of_le_bytes bs :: 'a word) = bs"
  using le_to_nat_bound [of bs] nat_to_le_to_nat [of bs]
  by (simp add: le_bytes_def of_le_bytes_def unat_of_nat power_mult)

interpretation c8: codec "le_bytes 1 :: u8 \<Rightarrow> u8 list" of_le_bytes 1
  by unfold_locales (simp_all add: le_bytes_roundtrip of_le_bytes_roundtrip)

interpretation c16: codec "le_bytes 2 :: u16 \<Rightarrow> u8 list" of_le_bytes 2
  by unfold_locales (simp_all add: le_bytes_roundtrip of_le_bytes_roundtrip)

interpretation c32: codec "le_bytes 4 :: u32 \<Rightarrow> u8 list" of_le_bytes 4
  by unfold_locales (simp_all add: le_bytes_roundtrip of_le_bytes_roundtrip)

interpretation c64: codec "le_bytes 8 :: u64 \<Rightarrow> u8 list" of_le_bytes 8
  by unfold_locales (simp_all add: le_bytes_roundtrip of_le_bytes_roundtrip)

text \<open>Reading and writing one scalar of a buffer.\<close>

abbreviation get16 :: "buf \<Rightarrow> nat \<Rightarrow> u16" where
  "get16 b off \<equiv> of_le_bytes (buf_read b off 2)"

abbreviation get32 :: "buf \<Rightarrow> nat \<Rightarrow> u32" where
  "get32 b off \<equiv> of_le_bytes (buf_read b off 4)"

abbreviation put16 :: "buf \<Rightarrow> nat \<Rightarrow> u16 \<Rightarrow> buf" where
  "put16 b off w \<equiv> buf_write b off (le_bytes 2 w)"

abbreviation put32 :: "buf \<Rightarrow> nat \<Rightarrow> u32 \<Rightarrow> buf" where
  "put32 b off w \<equiv> buf_write b off (le_bytes 4 w)"

lemma get_put [simp]:
  "get16 (put16 b off w) off = w" "get32 (put32 b off v) off = v"
  by (rule c16.read_back c32.read_back)+

lemma put_get [simp]:
  "put16 b off (get16 b off) = b" "put32 b off (get32 b off) = b"
  by (rule c16.write_back c32.write_back)+

section \<open>Lists\<close>

lemma length_filter_update:
  "i < length xs \<Longrightarrow>
   length (filter P (xs[i := x])) + (if P (xs ! i) then 1 else 0) =
   length (filter P xs) + (if P x then 1 else 0)"
proof (induction xs arbitrary: i)
  case Nil
  then show ?case by simp
next
  case (Cons y ys)
  then show ?case using Cons.IH [of "i - 1"] by (cases i) (auto split: if_splits)
qed

lemma find_upt_Some_iff:
  "find P [0..<n] = Some i \<longleftrightarrow> i < n \<and> P i \<and> (\<forall>j<i. \<not> P j)"
  by (auto simp: find_Some_iff)

lemma find_upt_None_iff: "find P [0..<n] = None \<longleftrightarrow> (\<forall>i<n. \<not> P i)"
  by (auto simp: find_None_iff)

text \<open>
  \<open>std::sort\<close> with a comparator \<open>lt\<close>: an insertion sort that keeps equivalent elements
  in their order. The standard leaves that order open; no theorem below depends on it.
\<close>

primrec insert_sorted :: "('a \<Rightarrow> 'a \<Rightarrow> bool) \<Rightarrow> 'a \<Rightarrow> 'a list \<Rightarrow> 'a list" where
  "insert_sorted lt x [] = [x]"
| "insert_sorted lt x (y # ys) = (if lt y x then y # insert_sorted lt x ys else x # y # ys)"

primrec std_sort :: "('a \<Rightarrow> 'a \<Rightarrow> bool) \<Rightarrow> 'a list \<Rightarrow> 'a list" where
  "std_sort lt [] = []"
| "std_sort lt (x # xs) = insert_sorted lt x (std_sort lt xs)"

lemma mset_insert_sorted: "mset (insert_sorted lt x xs) = add_mset x (mset xs)"
  by (induction xs) auto

lemma mset_std_sort [simp]: "mset (std_sort lt xs) = mset xs"
  by (induction xs) (auto simp: mset_insert_sorted)

lemma set_std_sort [simp]: "set (std_sort lt xs) = set xs"
  by (rule mset_eq_setD) simp

lemma length_std_sort [simp]: "length (std_sort lt xs) = length xs"
  by (rule mset_eq_length) simp

text \<open>What the standard asks of a comparator: a strict weak order.\<close>

locale strict_weak_order =
  fixes lt :: "'a \<Rightarrow> 'a \<Rightarrow> bool"
  assumes asym: "lt x y \<Longrightarrow> \<not> lt y x"
    and neg_trans: "\<not> lt x y \<Longrightarrow> \<not> lt y z \<Longrightarrow> \<not> lt x z"
begin

lemma sorted_insert:
  "sorted_wrt (\<lambda>x y. \<not> lt y x) xs \<Longrightarrow> sorted_wrt (\<lambda>x y. \<not> lt y x) (insert_sorted lt x xs)"
proof (induction xs)
  case Nil
  then show ?case by simp
next
  case (Cons y ys)
  have set: "set (insert_sorted lt x ys) = insert x (set ys)"
    by (metis mset_insert_sorted set_mset_add_mset_insert set_mset_mset)
  show ?case
  proof (cases "lt y x")
    case True
    then show ?thesis using Cons asym by (auto simp: set)
  next
    case False
    then show ?thesis using Cons.prems neg_trans by (auto 4 3)
  qed
qed

lemma sorted_std_sort: "sorted_wrt (\<lambda>x y. \<not> lt y x) (std_sort lt xs)"
  by (induction xs) (auto intro: sorted_insert)

end

section \<open>Files\<close>

text \<open>
  An open file is its contents. \<open>pread\<close> returns the bytes there are (fewer than asked for
  at the end of the file), \<open>pwrite\<close> fills a gap past the end with zeros, as POSIX does.
\<close>

type_synonym file_bytes = "u8 list"

definition pread :: "file_bytes \<Rightarrow> nat \<Rightarrow> nat \<Rightarrow> u8 list" where
  "pread f n off = take n (drop off f)"

definition pwrite :: "file_bytes \<Rightarrow> u8 list \<Rightarrow> nat \<Rightarrow> file_bytes" where
  "pwrite f bs off =
     (if bs = [] then f
      else take off (f @ replicate (off - length f) 0) @ bs @ drop (off + length bs) f)"

lemma length_pread: "length (pread f n off) = min n (length f - off)"
  by (auto simp: pread_def min_def)

lemma length_pwrite: "length (pwrite f bs off) = (if bs = [] then length f else max (length f) (off + length bs))"
  by (auto simp: pwrite_def max_def)

lemma pread_pwrite_same: "n = length bs \<Longrightarrow> pread (pwrite f bs off) n off = bs"
  by (auto simp: pread_def pwrite_def min_def)

lemma nth_pwrite_other:
  "i < length f \<Longrightarrow> i < off \<or> off + length bs \<le> i \<Longrightarrow> pwrite f bs off ! i = f ! i"
  by (auto simp: pwrite_def nth_append min_def)

lemma pread_pwrite_disjoint:
  assumes "off + n \<le> length f" and "off + n \<le> off' \<or> off' + length bs \<le> off"
  shows "pread (pwrite f bs off') n off = pread f n off"
proof (rule nth_equalityI)
  show len: "length (pread (pwrite f bs off') n off) = length (pread f n off)"
    using assms(1) by (simp add: length_pread length_pwrite)
  fix i
  assume "i < length (pread (pwrite f bs off') n off)"
  then have i: "i < n" "off + i < length f"
    using assms(1) by (simp_all add: length_pread)
  have "pwrite f bs off' ! (off + i) = f ! (off + i)"
    using i assms(2) by (intro nth_pwrite_other) auto
  moreover have "off + i < length (pwrite f bs off')"
    using i by (simp add: length_pwrite max_def)
  ultimately show "pread (pwrite f bs off') n off ! i = pread f n off ! i"
    using i by (simp add: pread_def)
qed

lemma pwrite_at_end: "pwrite f bs (length f) = f @ bs"
  by (simp add: pwrite_def)

lemma pread_full: "n = length f \<Longrightarrow> pread f n 0 = f"
  by (simp add: pread_def)

text \<open>The errors the code throws, all \<open>std::runtime_error\<close> in the source.\<close>

datatype db_error =
    FailedToOpen
  | BadMagic
  | FailedToReadHeader
  | FailedToWriteHeader
  | FailedToExtend
  | FailedToWriteLargeRecord
  | FailedToFlushLog

end
