(* ===== verification/Page.thy ===== *)
theory Page
  imports Prelude
begin

text \<open>
  The slotted page of \<open>include/storage/page.h\<close> and \<open>src/storage/page.cpp\<close>: a 4096 byte
  buffer with a decoded header and slot directory. Slots grow forward from byte 20, record data
  grows backward from byte 4096. The contract of a page is the partial map \<open>page_recs\<close> from
  slot numbers to record bytes: every operation is related to it, on every branch.
\<close>

section \<open>Data\<close>

definition PAGE_SIZE :: nat where
  "PAGE_SIZE = 4096"

definition INVALID_PAGE_ID :: u32 where
  "INVALID_PAGE_ID = 0xFFFFFFFF"

definition HEADER_SIZE :: u16 where
  "HEADER_SIZE = 20"

definition SLOT_ENTRY_SIZE :: u16 where
  "SLOT_ENTRY_SIZE = 4"

lemmas page_consts = PAGE_SIZE_def HEADER_SIZE_def SLOT_ENTRY_SIZE_def

lemma unat_page_consts [simp]: "unat HEADER_SIZE = 20" "unat SLOT_ENTRY_SIZE = 4"
  by (simp_all add: page_consts)

record slot_entry =
  se_offset :: u16
  se_length :: u16

definition SlotEntry_IsEmpty :: "slot_entry \<Rightarrow> bool" where
  "SlotEntry_IsEmpty e \<longleftrightarrow> se_offset e = 0 \<and> se_length e = 0"

record page_header =
  ph_page_id :: u32
  ph_num_slots :: u16
  ph_free_space_offset :: u16
  ph_free_space_end :: u16
  ph_num_records :: u16
  ph_next_page_id :: u32
  ph_flags :: u16

text \<open>The default member initialisers of \<open>PageHeader\<close>.\<close>

definition PageHeader_default :: page_header where
  "PageHeader_default =
     \<lparr>ph_page_id = INVALID_PAGE_ID, ph_num_slots = 0, ph_free_space_offset = 0,
      ph_free_space_end = of_nat PAGE_SIZE, ph_num_records = 0,
      ph_next_page_id = INVALID_PAGE_ID, ph_flags = 0\<rparr>"

datatype page_type = kData | kIndex | kOverflow | kMetadata | kFreeList

fun PageType_value :: "page_type \<Rightarrow> u16" where
  "PageType_value kData = 0x0001"
| "PageType_value kIndex = 0x0002"
| "PageType_value kOverflow = 0x0004"
| "PageType_value kMetadata = 0x0008"
| "PageType_value kFreeList = 0x0010"

record page =
  p_data :: buf
  p_header :: page_header
  p_slots :: "slot_entry list"

section \<open>Construction\<close>

definition Page_default :: page where
  "Page_default =
     \<lparr>p_data = (\<lambda>_. 0),
      p_header = PageHeader_default\<lparr>ph_free_space_offset := HEADER_SIZE,
                                    ph_free_space_end := of_nat PAGE_SIZE\<rparr>,
      p_slots = []\<rparr>"

definition Page_new :: "u32 \<Rightarrow> page" where
  "Page_new page_id = Page_default\<lparr>p_header := (p_header Page_default)\<lparr>ph_page_id := page_id\<rparr>\<rparr>"

text \<open>
  The move constructor gives the new page and what is left of the source; a moved-from
  \<open>std::vector\<close> is empty. The move assignment of distinct pages has the same effect.
\<close>

definition Page_move :: "page \<Rightarrow> page \<times> page" where
  "Page_move other =
     (\<lparr>p_data = p_data other, p_header = p_header other, p_slots = p_slots other\<rparr>,
      other\<lparr>p_slots := [], p_header := (p_header other)\<lparr>ph_page_id := INVALID_PAGE_ID\<rparr>\<rparr>)"

definition Page_move_assign :: "page \<Rightarrow> page \<Rightarrow> page \<times> page" where
  "Page_move_assign this other =
     (this\<lparr>p_data := p_data other, p_header := p_header other, p_slots := p_slots other\<rparr>,
      other\<lparr>p_slots := [], p_header := (p_header other)\<lparr>ph_page_id := INVALID_PAGE_ID\<rparr>\<rparr>)"

section \<open>Accessors\<close>

definition Page_GetPageId :: "page \<Rightarrow> u32" where
  "Page_GetPageId p = ph_page_id (p_header p)"

definition Page_SetPageId :: "u32 \<Rightarrow> page \<Rightarrow> page" where
  "Page_SetPageId i p = p\<lparr>p_header := (p_header p)\<lparr>ph_page_id := i\<rparr>\<rparr>"

definition Page_GetNumRecords :: "page \<Rightarrow> u16" where
  "Page_GetNumRecords p = ph_num_records (p_header p)"

definition Page_GetNumSlots :: "page \<Rightarrow> u16" where
  "Page_GetNumSlots p = ph_num_slots (p_header p)"

definition Page_GetNextPageId :: "page \<Rightarrow> u32" where
  "Page_GetNextPageId p = ph_next_page_id (p_header p)"

definition Page_SetNextPageId :: "u32 \<Rightarrow> page \<Rightarrow> page" where
  "Page_SetNextPageId i p = p\<lparr>p_header := (p_header p)\<lparr>ph_next_page_id := i\<rparr>\<rparr>"

definition Page_GetFlags :: "page \<Rightarrow> u16" where
  "Page_GetFlags p = ph_flags (p_header p)"

definition Page_SetFlags :: "u16 \<Rightarrow> page \<Rightarrow> page" where
  "Page_SetFlags fl p = p\<lparr>p_header := (p_header p)\<lparr>ph_flags := fl\<rparr>\<rparr>"

section \<open>Space management\<close>

definition Page_SlotDirectoryEnd :: "page \<Rightarrow> u16" where
  "Page_SlotDirectoryEnd p = HEADER_SIZE + ph_num_slots (p_header p) * SLOT_ENTRY_SIZE"

definition Page_FindEmptySlot :: "page \<Rightarrow> u16 option" where
  "Page_FindEmptySlot p =
     map_option of_nat
       (find (\<lambda>i. SlotEntry_IsEmpty (p_slots p ! i)) [0..<unat (ph_num_slots (p_header p))])"

definition Page_GetFreeSpace :: "page \<Rightarrow> u16" where
  "Page_GetFreeSpace p =
     (if ph_free_space_end (p_header p) \<le> ph_free_space_offset (p_header p) then 0
      else ph_free_space_end (p_header p) - ph_free_space_offset (p_header p))"

definition Page_HasSpaceFor :: "u16 \<Rightarrow> page \<Rightarrow> bool" where
  "Page_HasSpaceFor record_length p =
     (let total_needed = (if Page_FindEmptySlot p = None then record_length + SLOT_ENTRY_SIZE
                          else record_length)
      in total_needed \<le> Page_GetFreeSpace p)"

section \<open>Record operations\<close>

text \<open>
  A pointer and a length are \<open>u8 list option\<close> (\<open>None\<close> is \<open>nullptr\<close>) and a
  \<open>uint16_t\<close>; \<open>memcpy\<close> copies the first \<open>length\<close> bytes. The comparison with the
  free region is done in \<open>int\<close>, as C++ promotes both sides.
\<close>

definition Page_InsertRecord :: "u8 list option \<Rightarrow> u16 \<Rightarrow> page \<Rightarrow> u16 option \<times> page" where
  "Page_InsertRecord data len p =
     (case data of
        None \<Rightarrow> (None, p)
      | Some bytes \<Rightarrow>
          if len = 0 then (None, p)
          else
            let h = p_header p;
                empty_slot = Page_FindEmptySlot p;
                slot_id = (case empty_slot of Some s \<Rightarrow> s | None \<Rightarrow> ph_num_slots h);
                slot_overhead = (case empty_slot of Some _ \<Rightarrow> 0 | None \<Rightarrow> SLOT_ENTRY_SIZE)
            in
              if uint len + uint slot_overhead > uint (ph_free_space_end h) - uint (ph_free_space_offset h)
              then (None, p)
              else
                let record_offset = ph_free_space_end h - len;
                    data' = buf_write (p_data p) (unat record_offset) (take (unat len) bytes);
                    entry = \<lparr>se_offset = record_offset, se_length = len\<rparr>;
                    (slots', h1) =
                      (case empty_slot of
                         Some _ \<Rightarrow> ((p_slots p)[unat slot_id := entry], h)
                       | None \<Rightarrow> (p_slots p @ [entry],
                                  h\<lparr>ph_num_slots := ph_num_slots h + 1,
                                    ph_free_space_offset := ph_free_space_offset h + SLOT_ENTRY_SIZE\<rparr>));
                    h2 = h1\<lparr>ph_free_space_end := record_offset,
                            ph_num_records := ph_num_records h1 + 1\<rparr>
                in (Some slot_id, p\<lparr>p_data := data', p_header := h2, p_slots := slots'\<rparr>))"

definition Page_DeleteRecord :: "u16 \<Rightarrow> page \<Rightarrow> bool \<times> page" where
  "Page_DeleteRecord slot_id p =
     (if ph_num_slots (p_header p) \<le> slot_id then (False, p)
      else if SlotEntry_IsEmpty (p_slots p ! unat slot_id) then (False, p)
      else (True,
            p\<lparr>p_slots := (p_slots p)[unat slot_id := \<lparr>se_offset = 0, se_length = 0\<rparr>],
              p_header := (p_header p)\<lparr>ph_num_records := ph_num_records (p_header p) - 1\<rparr>\<rparr>))"

text \<open>The returned pointer \<open>data_ + offset\<close> is given by its offset in the page.\<close>

definition Page_GetRecord :: "u16 \<Rightarrow> page \<Rightarrow> (u16 \<times> u16) option" where
  "Page_GetRecord slot_id p =
     (if ph_num_slots (p_header p) \<le> slot_id then None
      else let slot = p_slots p ! unat slot_id
           in if SlotEntry_IsEmpty slot then None else Some (se_offset slot, se_length slot))"

definition Page_UpdateRecord :: "u16 \<Rightarrow> u8 list \<Rightarrow> u16 \<Rightarrow> page \<Rightarrow> bool \<times> page" where
  "Page_UpdateRecord slot_id data len p =
     (if ph_num_slots (p_header p) \<le> slot_id \<or> SlotEntry_IsEmpty (p_slots p ! unat slot_id)
      then (False, p)
      else
        let slot = p_slots p ! unat slot_id
        in if len \<le> se_length slot
           then (True,
                 p\<lparr>p_data := buf_write (p_data p) (unat (se_offset slot)) (take (unat len) data),
                   p_slots := (p_slots p)[unat slot_id := slot\<lparr>se_length := len\<rparr>]\<rparr>)
           else
             let new_space_needed = len - se_length slot
             in if Page_GetFreeSpace p < new_space_needed then (False, p)
                else
                  let new_offset = ph_free_space_end (p_header p) - len
                  in (True,
                      p\<lparr>p_data := buf_write (p_data p) (unat new_offset) (take (unat len) data),
                        p_slots := (p_slots p)[unat slot_id :=
                                     slot\<lparr>se_offset := new_offset, se_length := len\<rparr>],
                        p_header := (p_header p)\<lparr>ph_free_space_end := new_offset\<rparr>\<rparr>))"

section \<open>Compaction\<close>

record live_record =
  lr_slot_id :: u16
  lr_original_offset :: u16
  lr_length :: u16

definition Page_live_records :: "page \<Rightarrow> live_record list" where
  "Page_live_records p =
     map (\<lambda>i. \<lparr>lr_slot_id = of_nat i, lr_original_offset = se_offset (p_slots p ! i),
               lr_length = se_length (p_slots p ! i)\<rparr>)
       (filter (\<lambda>i. \<not> SlotEntry_IsEmpty (p_slots p ! i)) [0..<unat (ph_num_slots (p_header p))])"

definition compact_step ::
    "buf \<Rightarrow> buf \<times> slot_entry list \<times> u16 \<Rightarrow> live_record \<Rightarrow> buf \<times> slot_entry list \<times> u16" where
  "compact_step temp s r =
     (case s of (data, slots, write_pos) \<Rightarrow>
        let write_pos' = write_pos - lr_length r
        in (buf_write data (unat write_pos')
              (buf_read temp (unat (lr_original_offset r)) (unat (lr_length r))),
            slots[unat (lr_slot_id r) :=
              (slots ! unat (lr_slot_id r))\<lparr>se_offset := write_pos'\<rparr>],
            write_pos'))"

definition Page_Compact :: "page \<Rightarrow> page" where
  "Page_Compact p =
     (let live = std_sort (\<lambda>a b. lr_original_offset b < lr_original_offset a) (Page_live_records p);
          (data', slots', write_pos) =
            foldl (compact_step (p_data p)) (p_data p, p_slots p, of_nat PAGE_SIZE) live
      in p\<lparr>p_data := data', p_slots := slots',
           p_header := (p_header p)\<lparr>ph_free_space_end := write_pos\<rparr>\<rparr>)"

section \<open>Serialization\<close>

text \<open>The running position \<open>pos\<close> is a \<open>uint16_t\<close>.\<close>

primrec write_slots :: "buf \<Rightarrow> u16 \<Rightarrow> slot_entry list \<Rightarrow> buf" where
  "write_slots b pos [] = b"
| "write_slots b pos (e # es) =
     write_slots (put16 (put16 b (unat pos) (se_offset e)) (unat (pos + 2)) (se_length e))
       (pos + 4) es"

definition Page_SerializeToBuffer :: "page \<Rightarrow> page" where
  "Page_SerializeToBuffer p =
     (let h = p_header p;
          d0 = put32 (p_data p) 0 (ph_page_id h);
          d1 = put16 d0 4 (ph_num_slots h);
          d2 = put16 d1 6 (ph_free_space_offset h);
          d3 = put16 d2 8 (ph_free_space_end h);
          d4 = put16 d3 10 (ph_num_records h);
          d5 = put32 d4 12 (ph_next_page_id h);
          d6 = put16 d5 16 (ph_flags h)
      in p\<lparr>p_data := write_slots d6 HEADER_SIZE (take (unat (ph_num_slots h)) (p_slots p))\<rparr>)"

primrec read_slots :: "buf \<Rightarrow> u16 \<Rightarrow> nat \<Rightarrow> slot_entry list" where
  "read_slots b pos 0 = []"
| "read_slots b pos (Suc n) =
     \<lparr>se_offset = get16 b (unat pos), se_length = get16 b (unat (pos + 2))\<rparr>
       # read_slots b (pos + 4) n"

definition header_of_buf :: "buf \<Rightarrow> page_header" where
  "header_of_buf d =
     \<lparr>ph_page_id = get32 d 0, ph_num_slots = get16 d 4, ph_free_space_offset = get16 d 6,
      ph_free_space_end = get16 d 8, ph_num_records = get16 d 10,
      ph_next_page_id = get32 d 12, ph_flags = get16 d 16\<rparr>"

definition Page_DeserializeFromBuffer :: "page \<Rightarrow> page" where
  "Page_DeserializeFromBuffer p =
     (let h = header_of_buf (p_data p)
      in p\<lparr>p_header := h, p_slots := read_slots (p_data p) HEADER_SIZE (unat (ph_num_slots h))\<rparr>)"

section \<open>Slot directories\<close>

text \<open>
  The facts about slot directories that every record operation shares: where the live records
  lie (\<open>slots_ok\<close>), and the record map of a buffer and a directory (\<open>slot_recs\<close>).
\<close>

definition disjoint_slots :: "slot_entry \<Rightarrow> slot_entry \<Rightarrow> bool" where
  "disjoint_slots a b \<longleftrightarrow>
     unat (se_offset a) + unat (se_length a) \<le> unat (se_offset b) \<or>
     unat (se_offset b) + unat (se_length b) \<le> unat (se_offset a)"

definition slot_within :: "nat \<Rightarrow> slot_entry \<Rightarrow> bool" where
  "slot_within base e \<longleftrightarrow>
     base \<le> unat (se_offset e) \<and> unat (se_offset e) + unat (se_length e) \<le> PAGE_SIZE"

definition slots_ok :: "nat \<Rightarrow> slot_entry list \<Rightarrow> bool" where
  "slots_ok base slots \<longleftrightarrow>
     (\<forall>i<length slots. \<not> SlotEntry_IsEmpty (slots ! i) \<longrightarrow> slot_within base (slots ! i)) \<and>
     (\<forall>i<length slots. \<forall>j<length slots.
        i \<noteq> j \<longrightarrow> \<not> SlotEntry_IsEmpty (slots ! i) \<longrightarrow> \<not> SlotEntry_IsEmpty (slots ! j) \<longrightarrow>
        disjoint_slots (slots ! i) (slots ! j))"

definition slot_recs :: "buf \<Rightarrow> slot_entry list \<Rightarrow> nat \<Rightarrow> u8 list option" where
  "slot_recs data slots i =
     (if i < length slots \<and> \<not> SlotEntry_IsEmpty (slots ! i)
      then Some (buf_read data (unat (se_offset (slots ! i))) (unat (se_length (slots ! i))))
      else None)"

lemma slots_okD:
  assumes "slots_ok base slots" "i < length slots" "\<not> SlotEntry_IsEmpty (slots ! i)"
  shows "base \<le> unat (se_offset (slots ! i))"
    and "unat (se_offset (slots ! i)) + unat (se_length (slots ! i)) \<le> PAGE_SIZE"
  using assms by (auto simp: slots_ok_def slot_within_def)

lemma slots_ok_Nil [simp]: "slots_ok base []"
  by (simp add: slots_ok_def)

lemma slots_ok_mono: "slots_ok base slots \<Longrightarrow> base' \<le> base \<Longrightarrow> slots_ok base' slots"
  by (auto simp: slots_ok_def slot_within_def intro: order_trans)

lemma empty_entry [simp]: "SlotEntry_IsEmpty \<lparr>se_offset = 0, se_length = 0\<rparr>"
  by (simp add: SlotEntry_IsEmpty_def)

lemma slots_ok_update:
  assumes ok: "slots_ok base slots" and i: "i < length slots"
    and within: "\<not> SlotEntry_IsEmpty e \<Longrightarrow> slot_within base' e"
    and le: "base' \<le> base"
    and disj: "\<And>j. j < length slots \<Longrightarrow> j \<noteq> i \<Longrightarrow> \<not> SlotEntry_IsEmpty (slots ! j) \<Longrightarrow>
      \<not> SlotEntry_IsEmpty e \<Longrightarrow> disjoint_slots e (slots ! j)"
  shows "slots_ok base' (slots[i := e])"
proof -
  have sym: "disjoint_slots a b \<longleftrightarrow> disjoint_slots b a" for a b
    by (auto simp: disjoint_slots_def)
  have ok': "slots_ok base' slots" by (rule slots_ok_mono [OF ok le])
  show ?thesis
    using ok' within disj sym i by (auto simp: slots_ok_def nth_list_update)
qed

lemma slots_ok_append:
  assumes ok: "slots_ok base slots"
    and within: "slot_within base' e" and le: "base' \<le> base"
    and disj: "\<And>j. j < length slots \<Longrightarrow> \<not> SlotEntry_IsEmpty (slots ! j) \<Longrightarrow> disjoint_slots e (slots ! j)"
  shows "slots_ok base' (slots @ [e])"
proof -
  have sym: "disjoint_slots a b \<longleftrightarrow> disjoint_slots b a" for a b
    by (auto simp: disjoint_slots_def)
  have ok': "slots_ok base' slots" by (rule slots_ok_mono [OF ok le])
  show ?thesis
    using ok' within disj sym by (auto simp: slots_ok_def nth_append less_Suc_eq)
qed

lemma slot_below_disjoint:
  assumes "slots_ok base slots" "j < length slots" "\<not> SlotEntry_IsEmpty (slots ! j)"
    and "unat (se_offset e) + unat (se_length e) \<le> base"
  shows "disjoint_slots e (slots ! j)"
  using slots_okD [OF assms(1-3)] assms(4) by (auto simp: disjoint_slots_def)

lemma slot_recs_write_below:
  assumes "slots_ok base slots" "off + length bs \<le> base"
  shows "slot_recs (buf_write data off bs) slots = slot_recs data slots"
  using assms by (auto simp: slot_recs_def fun_eq_iff dest: slots_okD(1))

lemma slot_recs_update:
  "i < length slots \<Longrightarrow>
   slot_recs data (slots[i := e]) =
     (slot_recs data slots)(i := if SlotEntry_IsEmpty e then None
        else Some (buf_read data (unat (se_offset e)) (unat (se_length e))))"
  by (auto simp: slot_recs_def fun_eq_iff nth_list_update)

lemma slot_recs_append:
  "\<not> SlotEntry_IsEmpty e \<Longrightarrow>
   slot_recs data (slots @ [e]) =
     (slot_recs data slots)(length slots \<mapsto> buf_read data (unat (se_offset e)) (unat (se_length e)))"
  by (auto simp: slot_recs_def fun_eq_iff nth_append)

section \<open>The page invariant and its record map\<close>

definition page_inv :: "page \<Rightarrow> bool" where
  "page_inv p \<longleftrightarrow>
     length (p_slots p) = unat (ph_num_slots (p_header p)) \<and>
     unat (ph_free_space_offset (p_header p)) = 20 + 4 * length (p_slots p) \<and>
     ph_free_space_offset (p_header p) \<le> ph_free_space_end (p_header p) \<and>
     unat (ph_free_space_end (p_header p)) \<le> PAGE_SIZE \<and>
     unat (ph_num_records (p_header p)) =
       length (filter (\<lambda>e. \<not> SlotEntry_IsEmpty e) (p_slots p)) \<and>
     slots_ok (unat (ph_free_space_end (p_header p))) (p_slots p)"

definition page_recs :: "page \<Rightarrow> nat \<Rightarrow> u8 list option" where
  "page_recs p = slot_recs (p_data p) (p_slots p)"

definition page_free :: "page \<Rightarrow> nat" where
  "page_free p = unat (ph_free_space_end (p_header p)) - unat (ph_free_space_offset (p_header p))"

lemma page_invD:
  assumes "page_inv p"
  shows "length (p_slots p) = unat (ph_num_slots (p_header p))"
    and "unat (ph_free_space_offset (p_header p)) = 20 + 4 * length (p_slots p)"
    and "unat (ph_free_space_offset (p_header p)) \<le> unat (ph_free_space_end (p_header p))"
    and "unat (ph_free_space_end (p_header p)) \<le> 4096"
    and "unat (ph_num_records (p_header p)) = length (filter (\<lambda>e. \<not> SlotEntry_IsEmpty e) (p_slots p))"
    and "slots_ok (unat (ph_free_space_end (p_header p))) (p_slots p)"
    and "length (p_slots p) \<le> 1019"
  using assms by (auto simp: page_inv_def page_consts word_le_nat_alt)

lemma Page_SlotDirectoryEnd_eq:
  assumes inv: "page_inv p"
  shows "Page_SlotDirectoryEnd p = ph_free_space_offset (p_header p)"
proof -
  let ?n = "unat (ph_num_slots (p_header p))"
  have n: "?n \<le> 1019" using page_invD(1,7) [OF inv] by simp
  then have "unat (Page_SlotDirectoryEnd p) = 20 + 4 * ?n"
    by (simp add: Page_SlotDirectoryEnd_def page_consts unat_word_ariths)
  then show ?thesis using page_invD(1,2) [OF inv] by (simp add: word_unat_eq_iff)
qed

lemma page_inv_new [simp]: "page_inv (Page_new pid)"
  by (simp add: page_inv_def Page_new_def Page_default_def PageHeader_default_def page_consts)

lemma page_recs_new [simp]: "page_recs (Page_new pid) = (\<lambda>_. None)"
  by (simp add: page_recs_def slot_recs_def Page_new_def Page_default_def fun_eq_iff)

lemma unat_GetFreeSpace: "page_inv p \<Longrightarrow> unat (Page_GetFreeSpace p) = page_free p"
  by (auto simp: Page_GetFreeSpace_def page_free_def word_le_nat_alt unat_sub_le page_invD)

lemma FindEmptySlot_Some:
  assumes "page_inv p" "Page_FindEmptySlot p = Some s"
  shows "unat s < length (p_slots p)" "SlotEntry_IsEmpty (p_slots p ! unat s)"
    "\<forall>j<unat s. \<not> SlotEntry_IsEmpty (p_slots p ! j)"
proof -
  from assms(2) obtain i where i: "i < unat (ph_num_slots (p_header p))" "s = of_nat i"
    "SlotEntry_IsEmpty (p_slots p ! i)" "\<forall>j<i. \<not> SlotEntry_IsEmpty (p_slots p ! j)"
    by (auto simp: Page_FindEmptySlot_def find_upt_Some_iff)
  have "i < 65536"
    using i(1) unat16_lt [of "ph_num_slots (p_header p)"] by linarith
  then have "unat s = i"
    using i(2) by (simp add: unat_of_nat_small)
  then show "unat s < length (p_slots p)" "SlotEntry_IsEmpty (p_slots p ! unat s)"
    "\<forall>j<unat s. \<not> SlotEntry_IsEmpty (p_slots p ! j)"
    using i assms(1) by (simp_all add: page_invD(1))
qed

lemma FindEmptySlot_None:
  "page_inv p \<Longrightarrow> Page_FindEmptySlot p = None \<longleftrightarrow> (\<forall>e\<in>set (p_slots p). \<not> SlotEntry_IsEmpty e)"
  by (auto simp: Page_FindEmptySlot_def find_upt_None_iff page_invD(1) [symmetric] all_set_conv_all_nth)

lemma page_recs_GetRecord:
  "page_inv p \<Longrightarrow>
   page_recs p (unat s) =
     map_option (\<lambda>(off, len). buf_read (p_data p) (unat off) (unat len)) (Page_GetRecord s p)"
  by (auto simp: page_recs_def slot_recs_def Page_GetRecord_def Let_def word_le_nat_alt page_invD(1))

section \<open>InsertRecord\<close>

definition insert_fits :: "u16 \<Rightarrow> page \<Rightarrow> bool" where
  "insert_fits len p \<longleftrightarrow>
     len \<noteq> 0 \<and> unat len + (if Page_FindEmptySlot p = None then 4 else 0) \<le> page_free p"

lemma fits_cond:
  assumes "page_inv p"
  shows "uint (ph_free_space_end (p_header p)) - uint (ph_free_space_offset (p_header p)) < uint len + uint ov
     \<longleftrightarrow> page_free p < unat len + unat (ov :: u16)"
proof -
  have "int (page_free p) = uint (ph_free_space_end (p_header p)) - uint (ph_free_space_offset (p_header p))"
    using page_invD(3) [OF assms] by (simp add: page_free_def of_nat_diff)
  moreover have "int (unat len + unat ov) = uint len + uint ov" by simp
  ultimately show ?thesis by (metis of_nat_less_iff)
qed

lemma insert_fits_off:
  assumes "insert_fits len p"
  shows "unat (ph_free_space_end (p_header p) - len) = unat (ph_free_space_end (p_header p)) - unat len"
    and "unat len \<le> unat (ph_free_space_end (p_header p))"
proof -
  show "unat len \<le> unat (ph_free_space_end (p_header p))"
    using assms by (auto simp: insert_fits_def page_free_def split: if_splits)
  then show "unat (ph_free_space_end (p_header p) - len) = unat (ph_free_space_end (p_header p)) - unat len"
    by (simp add: unat_sub_le)
qed

lemma InsertRecord_no_fit:
  assumes "page_inv p" "\<not> insert_fits len p"
  shows "Page_InsertRecord data len p = (None, p)"
  using assms
  by (auto simp: Page_InsertRecord_def insert_fits_def fits_cond Let_def page_consts
      split: option.splits)

lemma InsertRecord_reuse:
  assumes "page_inv p" "insert_fits len p" "Page_FindEmptySlot p = Some s"
  shows "Page_InsertRecord (Some bytes) len p =
    (Some s,
     p\<lparr>p_data := buf_write (p_data p) (unat (ph_free_space_end (p_header p)) - unat len) (take (unat len) bytes),
       p_header := (p_header p)\<lparr>ph_free_space_end := ph_free_space_end (p_header p) - len,
                               ph_num_records := ph_num_records (p_header p) + 1\<rparr>,
       p_slots := (p_slots p)[unat s := \<lparr>se_offset = ph_free_space_end (p_header p) - len, se_length = len\<rparr>]\<rparr>)"
proof -
  show ?thesis
    using assms insert_fits_off [OF assms(2)] by (simp add: Page_InsertRecord_def insert_fits_def fits_cond [of p len 0, simplified] Let_def)
qed

lemma InsertRecord_fresh:
  assumes "page_inv p" "insert_fits len p" "Page_FindEmptySlot p = None"
  shows "Page_InsertRecord (Some bytes) len p =
    (Some (ph_num_slots (p_header p)),
     p\<lparr>p_data := buf_write (p_data p) (unat (ph_free_space_end (p_header p)) - unat len) (take (unat len) bytes),
       p_header := (p_header p)\<lparr>ph_num_slots := ph_num_slots (p_header p) + 1,
                               ph_free_space_offset := ph_free_space_offset (p_header p) + SLOT_ENTRY_SIZE,
                               ph_free_space_end := ph_free_space_end (p_header p) - len,
                               ph_num_records := ph_num_records (p_header p) + 1\<rparr>,
       p_slots := p_slots p @ [\<lparr>se_offset = ph_free_space_end (p_header p) - len, se_length = len\<rparr>]\<rparr>)"
proof -
  show ?thesis
    using assms insert_fits_off [OF assms(2)] by (simp add: Page_InsertRecord_def insert_fits_def fits_cond Let_def)
qed

lemma InsertRecord_fits_iff:
  assumes "page_inv p"
  shows "(\<exists>s p'. Page_InsertRecord (Some bytes) len p = (Some s, p')) \<longleftrightarrow> insert_fits len p"
  using assms
  by (cases "insert_fits len p"; cases "Page_FindEmptySlot p")
     (auto simp: InsertRecord_no_fit InsertRecord_reuse InsertRecord_fresh)

text \<open>What a successful insertion does to the directory, for both kinds of slot.\<close>

text \<open>The 16 bit sum in \<open>HasSpaceFor\<close> wraps for lengths from 65532 on.\<close>

lemma HasSpaceFor_fits:
  assumes inv: "page_inv p" and len: "0 < len" "len \<le> 65531"
  shows "Page_HasSpaceFor len p \<longleftrightarrow> insert_fits len p"
proof -
  have "unat (len + SLOT_ENTRY_SIZE) = unat len + 4"
    using len(2) by (simp add: unat16_add word_le_nat_alt)
  then show ?thesis
    using len(1) unat_GetFreeSpace [OF inv]
    by (auto simp: insert_fits_def Page_HasSpaceFor_def word_le_nat_alt Let_def)
qed

text \<open>
  Writing the bytes of a record right below the data area, and a directory entry \<open>e\<close> for them:
  what insertions and growing updates share.
\<close>

lemma write_below:
  assumes inv: "page_inv p" and len: "len \<noteq> 0" "unat len \<le> page_free p" "unat len \<le> length bytes"
    and e: "se_offset e = ph_free_space_end (p_header p) - len" "se_length e = len"
  shows "unat (se_offset e) = unat (ph_free_space_end (p_header p)) - unat len"
    and "slot_within (unat (se_offset e)) e" "\<not> SlotEntry_IsEmpty e"
    and "unat (se_offset e) \<le> unat (ph_free_space_end (p_header p))"
    and "j < length (p_slots p) \<Longrightarrow> \<not> SlotEntry_IsEmpty (p_slots p ! j) \<Longrightarrow> disjoint_slots e (p_slots p ! j)"
    and "slot_recs (buf_write (p_data p) (unat (se_offset e)) (take (unat len) bytes)) (p_slots p) = page_recs p"
    and "buf_read (buf_write (p_data p) (unat (se_offset e)) (take (unat len) bytes)) (unat (se_offset e)) (unat len) =
      take (unat len) bytes"
    and "PAGE_SIZE \<le> i \<or> i < unat (se_offset e) \<Longrightarrow>
      buf_write (p_data p) (unat (se_offset e)) (take (unat len) bytes) i = p_data p i"
proof -
  note D = page_invD [OF inv]
  have le: "unat len \<le> unat (ph_free_space_end (p_header p))" using len(2) by (simp add: page_free_def)
  show off: "unat (se_offset e) = unat (ph_free_space_end (p_header p)) - unat len"
    using le by (simp add: e(1) unat_sub_le)
  have lbs: "length (take (unat len) bytes) = unat len" using len(3) by simp
  show "slot_within (unat (se_offset e)) e" using off le D(4) e(2) by (simp add: slot_within_def page_consts)
  show "\<not> SlotEntry_IsEmpty e" using len(1) e(2) by (simp add: SlotEntry_IsEmpty_def)
  show "unat (se_offset e) \<le> unat (ph_free_space_end (p_header p))" using off by simp
  show "disjoint_slots e (p_slots p ! j)" if "j < length (p_slots p)" "\<not> SlotEntry_IsEmpty (p_slots p ! j)"
    by (rule slot_below_disjoint [OF D(6) that]) (use off le e(2) in simp)
  show "slot_recs (buf_write (p_data p) (unat (se_offset e)) (take (unat len) bytes)) (p_slots p) = page_recs p"
    unfolding page_recs_def by (rule slot_recs_write_below [OF D(6)]) (use off lbs le in simp)
  show "buf_read (buf_write (p_data p) (unat (se_offset e)) (take (unat len) bytes)) (unat (se_offset e)) (unat len) =
      take (unat len) bytes"
    by (rule buf_read_write_same) (simp only: lbs)
  show "buf_write (p_data p) (unat (se_offset e)) (take (unat len) bytes) i = p_data p i"
    if "PAGE_SIZE \<le> i \<or> i < unat (se_offset e)"
    by (rule buf_write_other) (use that lbs off D(4) le in \<open>auto simp: PAGE_SIZE_def\<close>)
qed

definition inserted :: "page \<Rightarrow> u16 \<Rightarrow> u8 list \<Rightarrow> page \<Rightarrow> bool" where
  "inserted p s bs p' \<longleftrightarrow> page_inv p' \<and> page_recs p (unat s) = None \<and> page_recs p' = (page_recs p)(unat s \<mapsto> bs) \<and>
     (\<forall>i\<ge>PAGE_SIZE. p_data p' i = p_data p i) \<and>
     (\<forall>i<unat (ph_free_space_offset (p_header p')). p_data p' i = p_data p i)"

lemma insertedI:
  assumes "page_inv p'" "page_recs p (unat s) = None" "page_recs p' = (page_recs p)(unat s \<mapsto> bs)"
    and "\<And>i. PAGE_SIZE \<le> i \<or> i < unat (ph_free_space_end (p_header p')) \<Longrightarrow> p_data p' i = p_data p i"
  shows "inserted p s bs p'"
  using assms page_invD(3) [OF assms(1)] by (simp add: inserted_def)

lemma insert_fresh_step:
  assumes inv: "page_inv p" and fits: "insert_fits len p" and none: "Page_FindEmptySlot p = None"
    and bytes: "unat len \<le> length bytes" and ins: "Page_InsertRecord (Some bytes) len p = (Some s, p')"
  shows "inserted p s (take (unat len) bytes) p'"
proof -
  let ?h = "p_header p" and ?bs = "take (unat len) bytes"
  let ?e = "\<lparr>se_offset = ph_free_space_end ?h - len, se_length = len\<rparr>"
  let ?d = "buf_write (p_data p) (unat (se_offset ?e)) ?bs"
  have room: "unat len + 4 \<le> page_free p" and len: "len \<noteq> 0" "unat len \<le> page_free p"
    using fits none by (auto simp: insert_fits_def)
  note D = page_invD [OF inv] and W = write_below [OF inv len bytes slot_entry.select_convs(1,2)]
  note W' = W [simplified]
  have s: "s = ph_num_slots ?h" and p': "p' = p\<lparr>p_data := ?d,
     p_header := ?h\<lparr>ph_num_slots := ph_num_slots ?h + 1,
                   ph_free_space_offset := ph_free_space_offset ?h + SLOT_ENTRY_SIZE,
                   ph_free_space_end := se_offset ?e, ph_num_records := ph_num_records ?h + 1\<rparr>,
     p_slots := p_slots p @ [?e]\<rparr>"
    using ins InsertRecord_fresh [OF inv fits none, of bytes] W'(1) by auto
  have us: "unat s = length (p_slots p)" using s D(1) by simp
  have fso: "unat (ph_free_space_offset ?h + SLOT_ENTRY_SIZE) = 24 + 4 * length (p_slots p)"
    using D(2,7) by (simp add: page_consts unat16_add)
  have nrec: "length (filter (\<lambda>e. \<not> SlotEntry_IsEmpty e) (p_slots p)) \<le> 1019"
    using D(7) length_filter_le [of "\<lambda>e. \<not> SlotEntry_IsEmpty e" "p_slots p"] by linarith
  show ?thesis
  proof (rule insertedI)
    show "page_inv p'"
      unfolding page_inv_def p'
      using D nrec W(3) room W'(1) slots_ok_append [OF D(6) W(2,4,5)] fso
      by (auto simp: unat16_add page_free_def word_le_nat_alt page_consts)
    show "page_recs p (unat s) = None" by (simp add: page_recs_def slot_recs_def us)
    show "page_recs p' = (page_recs p)(unat s \<mapsto> ?bs)"
      using slot_recs_append [OF W(3), of ?d "p_slots p"] W'(6,7) by (simp add: page_recs_def p' us)
    show "p_data p' i = p_data p i" if "PAGE_SIZE \<le> i \<or> i < unat (ph_free_space_end (p_header p'))" for i
      using W(8) [of i] that by (simp add: p')
  qed
qed

lemma insert_reuse_step:
  assumes inv: "page_inv p" and fits: "insert_fits len p" and slot: "Page_FindEmptySlot p = Some t"
    and bytes: "unat len \<le> length bytes" and ins: "Page_InsertRecord (Some bytes) len p = (Some s, p')"
  shows "inserted p s (take (unat len) bytes) p'"
proof -
  let ?h = "p_header p" and ?bs = "take (unat len) bytes"
  let ?e = "\<lparr>se_offset = ph_free_space_end ?h - len, se_length = len\<rparr>"
  let ?d = "buf_write (p_data p) (unat (se_offset ?e)) ?bs"
  note F = FindEmptySlot_Some [OF inv slot]
  have len: "len \<noteq> 0" "unat len \<le> page_free p" using fits slot by (auto simp: insert_fits_def)
  note D = page_invD [OF inv] and W = write_below [OF inv len bytes slot_entry.select_convs(1,2)]
  note W' = W [simplified]
  have s: "s = t" and p': "p' = p\<lparr>p_data := ?d,
     p_header := ?h\<lparr>ph_free_space_end := se_offset ?e, ph_num_records := ph_num_records ?h + 1\<rparr>,
     p_slots := (p_slots p)[unat s := ?e]\<rparr>"
    using ins InsertRecord_reuse [OF inv fits slot, of bytes] W'(1) by auto
  have cnt: "length (filter (\<lambda>e. \<not> SlotEntry_IsEmpty e) ((p_slots p)[unat s := ?e])) =
      Suc (length (filter (\<lambda>e. \<not> SlotEntry_IsEmpty e) (p_slots p)))"
    using length_filter_update [OF F(1), of "\<lambda>e. \<not> SlotEntry_IsEmpty e" ?e] F(2) W(3) s by simp
  have nrec: "length (filter (\<lambda>e. \<not> SlotEntry_IsEmpty e) (p_slots p)) \<le> 1019"
    using D(7) length_filter_le [of "\<lambda>e. \<not> SlotEntry_IsEmpty e" "p_slots p"] by linarith
  show ?thesis
  proof (rule insertedI)
    show "page_inv p'"
      unfolding page_inv_def p'
      using D nrec cnt len(2) W'(1) F(1) slots_ok_update [OF D(6) F(1) W(2,4,5)] s
      by (auto simp: unat16_add page_free_def word_le_nat_alt page_consts)
    show "page_recs p (unat s) = None" using F(2) s by (simp add: page_recs_def slot_recs_def)
    show "page_recs p' = (page_recs p)(unat s \<mapsto> ?bs)"
      using slot_recs_update [OF F(1), of ?d ?e] W(3) W'(6,7) s by (simp add: page_recs_def p')
    show "p_data p' i = p_data p i" if "PAGE_SIZE \<le> i \<or> i < unat (ph_free_space_end (p_header p'))" for i
      using W(8) [of i] that by (simp add: p')
  qed
qed

lemma InsertRecord_step:
  assumes inv: "page_inv p" and ins: "Page_InsertRecord (Some bytes) len p = (Some s, p')"
    and bytes: "unat len \<le> length bytes"
  shows "page_inv p' \<and> page_recs p (unat s) = None \<and>
     page_recs p' = (page_recs p)(unat s \<mapsto> take (unat len) bytes) \<and>
     (\<forall>i\<ge>PAGE_SIZE. p_data p' i = p_data p i) \<and>
     (\<forall>i<unat (ph_free_space_offset (p_header p')). p_data p' i = p_data p i)"
proof -
  have fits: "insert_fits len p" using InsertRecord_fits_iff [OF inv] ins by blast
  show ?thesis
    using insert_fresh_step [OF inv fits _ bytes ins] insert_reuse_step [OF inv fits _ bytes ins]
    unfolding inserted_def by (metis not_None_eq)
qed

section \<open>DeleteRecord and GetRecord\<close>

definition page_live :: "page \<Rightarrow> u16 \<Rightarrow> bool" where
  "page_live p s \<longleftrightarrow> s < ph_num_slots (p_header p) \<and> \<not> SlotEntry_IsEmpty (p_slots p ! unat s)"

lemma page_live_recs: "page_inv p \<Longrightarrow> page_live p s \<longleftrightarrow> page_recs p (unat s) \<noteq> None"
  by (auto simp: page_live_def page_recs_def slot_recs_def word_less_nat_alt page_invD(1))

lemma page_liveD:
  assumes "page_inv p" "page_live p s"
  shows "unat s < length (p_slots p)" "\<not> SlotEntry_IsEmpty (p_slots p ! unat s)"
    "\<not> ph_num_slots (p_header p) \<le> s"
  using assms by (auto simp: page_live_def word_less_nat_alt word_le_nat_alt page_invD(1))

lemma DeleteRecord_dead: "\<not> page_live p s \<Longrightarrow> Page_DeleteRecord s p = (False, p)"
  by (auto simp: page_live_def Page_DeleteRecord_def)

lemma DeleteRecord_live:
  assumes inv: "page_inv p" and live: "page_live p s"
  obtains p' where "Page_DeleteRecord s p = (True, p')" "page_inv p'"
    "page_recs p' = (page_recs p)(unat s := None)" "p_data p' = p_data p"
    "Page_FindEmptySlot p' \<noteq> None" "page_free p' = page_free p"
proof -
  let ?e = "\<lparr>se_offset = 0, se_length = 0\<rparr>"
  note L = page_liveD [OF inv live] and D = page_invD [OF inv]
  define p' where "p' = snd (Page_DeleteRecord s p)"
  have p': "p' = p\<lparr>p_slots := (p_slots p)[unat s := ?e],
      p_header := (p_header p)\<lparr>ph_num_records := ph_num_records (p_header p) - 1\<rparr>\<rparr>"
    and del: "Page_DeleteRecord s p = (True, p')"
    using L by (simp_all add: p'_def Page_DeleteRecord_def)
  have cnt: "Suc (length (filter (\<lambda>e. \<not> SlotEntry_IsEmpty e) ((p_slots p)[unat s := ?e]))) =
      length (filter (\<lambda>e. \<not> SlotEntry_IsEmpty e) (p_slots p))"
    using length_filter_update [OF L(1), of "\<lambda>e. \<not> SlotEntry_IsEmpty e" ?e] L(2) by simp
  have ok: "slots_ok (unat (ph_free_space_end (p_header p))) ((p_slots p)[unat s := ?e])"
    by (rule slots_ok_update [OF D(6) L(1)]) simp_all
  have num: "unat (ph_num_records (p_header p) - 1) = unat (ph_num_records (p_header p)) - 1"
    using D(5) cnt by (subst unat_sub_le) auto
  have inv': "page_inv p'"
    using D cnt ok num by (simp add: page_inv_def p' page_consts word_le_nat_alt)
  have "?e \<in> set (p_slots p')"
    using L(1) by (simp add: p' set_update_memI)
  then have "Page_FindEmptySlot p' \<noteq> None"
    using empty_entry by (auto simp only: FindEmptySlot_None [OF inv'])
  moreover have "page_recs p' = (page_recs p)(unat s := None)"
    using slot_recs_update [OF L(1), of "p_data p" ?e] by (simp add: page_recs_def p')
  ultimately show thesis
    using that [OF del inv'] by (simp add: p' page_free_def)
qed

section \<open>UpdateRecord\<close>

lemma UpdateRecord_dead: "\<not> page_live p s \<Longrightarrow> Page_UpdateRecord s data len p = (False, p)"
  by (auto simp: page_live_def Page_UpdateRecord_def)

lemma slots_ok_resize:
  assumes ok: "slots_ok base slots" and i: "i < length slots" "\<not> SlotEntry_IsEmpty (slots ! i)"
    and len: "len \<le> se_length (slots ! i)"
  shows "slots_ok base (slots[i := (slots ! i)\<lparr>se_length := len\<rparr>])"
proof (rule slots_ok_update [OF ok i(1)])
  show "slot_within base ((slots ! i)\<lparr>se_length := len\<rparr>)"
    using slots_okD [OF ok i] len by (simp add: slot_within_def word_le_nat_alt)
  fix j
  assume j: "j < length slots" "j \<noteq> i" "\<not> SlotEntry_IsEmpty (slots ! j)"
  then have "disjoint_slots (slots ! i) (slots ! j)"
    using ok i by (auto simp: slots_ok_def)
  then show "disjoint_slots ((slots ! i)\<lparr>se_length := len\<rparr>) (slots ! j)"
    using len by (auto simp: disjoint_slots_def word_le_nat_alt)
qed simp

lemma slot_recs_write_inside:
  assumes ok: "slots_ok base slots" and i: "i < length slots" "\<not> SlotEntry_IsEmpty (slots ! i)"
    and bs: "length bs \<le> unat (se_length (slots ! i))" and j: "j \<noteq> i"
  shows "slot_recs (buf_write data (unat (se_offset (slots ! i))) bs) slots j = slot_recs data slots j"
proof (cases "j < length slots \<and> \<not> SlotEntry_IsEmpty (slots ! j)")
  case True
  then have "disjoint_slots (slots ! i) (slots ! j)"
    using ok i j by (auto simp: slots_ok_def)
  then show ?thesis
    using bs True by (auto simp: slot_recs_def disjoint_slots_def intro!: buf_read_write_disjoint)
next
  case False
  then show ?thesis by (auto simp: slot_recs_def)
qed

lemma UpdateRecord_shrink:
  assumes inv: "page_inv p" and live: "page_live p s"
    and len: "len \<le> se_length (p_slots p ! unat s)" and bytes: "unat len \<le> length data"
  obtains p' where "Page_UpdateRecord s data len p = (True, p')" "page_inv p'"
    "page_recs p' = (page_recs p)(unat s \<mapsto> take (unat len) data)"
    "\<forall>i. i < 20 + 4 * length (p_slots p') \<or> PAGE_SIZE \<le> i \<longrightarrow> p_data p' i = p_data p i"
proof -
  let ?e = "p_slots p ! unat s" and ?bs = "take (unat len) data"
  let ?d = "buf_write (p_data p) (unat (se_offset ?e)) ?bs"
  note L = page_liveD [OF inv live] and D = page_invD [OF inv]
  note B = slots_okD [OF D(6) L(1,2)]
  have lbs: "length ?bs = unat len" using bytes by simp
  have le: "unat len \<le> unat (se_length ?e)" using len by (simp add: word_le_nat_alt)
  define p' where "p' = snd (Page_UpdateRecord s data len p)"
  have p': "p' = p\<lparr>p_data := ?d, p_slots := (p_slots p)[unat s := ?e\<lparr>se_length := len\<rparr>]\<rparr>"
    and upd: "Page_UpdateRecord s data len p = (True, p')"
    using L len by (simp_all add: p'_def Page_UpdateRecord_def Let_def)
  have ne: "\<not> SlotEntry_IsEmpty (?e\<lparr>se_length := len\<rparr>)"
    using B D(2,3) by (auto simp: SlotEntry_IsEmpty_def)
  have cnt: "length (filter (\<lambda>e. \<not> SlotEntry_IsEmpty e) ((p_slots p)[unat s := ?e\<lparr>se_length := len\<rparr>])) =
      length (filter (\<lambda>e. \<not> SlotEntry_IsEmpty e) (p_slots p))"
    using length_filter_update [OF L(1), of "\<lambda>e. \<not> SlotEntry_IsEmpty e" "?e\<lparr>se_length := len\<rparr>"] L(2) ne by simp
  have inv': "page_inv p'"
    using D cnt slots_ok_resize [OF D(6) L(1,2) len]
    by (simp add: page_inv_def p' page_consts word_le_nat_alt)
  have rd: "buf_read ?d (unat (se_offset ?e)) (unat len) = ?bs"
    by (rule buf_read_write_same) (simp only: lbs)
  have others: "slot_recs ?d (p_slots p) j = slot_recs (p_data p) (p_slots p) j" if "j \<noteq> unat s" for j
    using slot_recs_write_inside [OF D(6) L(1,2) _ that] lbs le by auto
  have recs: "page_recs p' = (page_recs p)(unat s \<mapsto> ?bs)"
    using slot_recs_update [OF L(1), of ?d "?e\<lparr>se_length := len\<rparr>"] ne
    by (auto simp: page_recs_def p' fun_eq_iff rd others)
  have frame: "?d i = p_data p i" if "i < 20 + 4 * length (p_slots p') \<or> PAGE_SIZE \<le> i" for i
  proof (rule buf_write_other)
    show "i < unat (se_offset ?e) \<or> unat (se_offset ?e) + length ?bs \<le> i"
      using that B D(2,3) lbs le by (auto simp: p' PAGE_SIZE_def)
  qed
  show thesis
    using that [OF upd inv' recs] frame by (simp add: p')
qed

lemma UpdateRecord_grow:
  assumes inv: "page_inv p" and live: "page_live p s"
    and len: "se_length (p_slots p ! unat s) < len" and fits: "unat len \<le> page_free p"
    and bytes: "unat len \<le> length data"
  obtains p' where "Page_UpdateRecord s data len p = (True, p')" "page_inv p'"
    "page_recs p' = (page_recs p)(unat s \<mapsto> take (unat len) data)"
    "\<forall>i. i < 20 + 4 * length (p_slots p') \<or> PAGE_SIZE \<le> i \<longrightarrow> p_data p' i = p_data p i"
proof -
  let ?off = "ph_free_space_end (p_header p) - len" and ?bs = "take (unat len) data"
  let ?e = "(p_slots p ! unat s)\<lparr>se_offset := ?off, se_length := len\<rparr>"
  let ?d = "buf_write (p_data p) (unat ?off) ?bs"
  note L = page_liveD [OF inv live] and D = page_invD [OF inv]
  have len0: "len \<noteq> 0" using len by auto
  have e: "se_offset ?e = ?off" "se_length ?e = len" by simp_all
  note W = write_below [OF inv len0 fits bytes e]
  note W' = W [simplified]
  have need: "\<not> Page_GetFreeSpace p < len - se_length (p_slots p ! unat s)"
    using fits len unat_GetFreeSpace [OF inv] by (simp add: word_less_nat_alt unat_sub_le)
  define p' where "p' = snd (Page_UpdateRecord s data len p)"
  have p': "p' = p\<lparr>p_data := ?d, p_slots := (p_slots p)[unat s := ?e],
      p_header := (p_header p)\<lparr>ph_free_space_end := ?off\<rparr>\<rparr>"
    and upd: "Page_UpdateRecord s data len p = (True, p')"
    using L len need by (simp_all add: p'_def Page_UpdateRecord_def Let_def not_le)
  have cnt: "length (filter (\<lambda>e. \<not> SlotEntry_IsEmpty e) ((p_slots p)[unat s := ?e])) =
      length (filter (\<lambda>e. \<not> SlotEntry_IsEmpty e) (p_slots p))"
    using length_filter_update [OF L(1), of "\<lambda>e. \<not> SlotEntry_IsEmpty e" ?e] L(2) W(3) by simp
  have inv': "page_inv p'"
    using D cnt slots_ok_update [OF D(6) L(1) W(2,4,5)] W'(1) fits
    by (auto simp: page_inv_def p' page_consts word_le_nat_alt page_free_def)
  have recs: "page_recs p' = (page_recs p)(unat s \<mapsto> ?bs)"
    using slot_recs_update [OF L(1), of ?d ?e] W(3) W'(6,7) by (simp add: page_recs_def p')
  have frame: "?d i = p_data p i" if "i < 20 + 4 * length (p_slots p') \<or> PAGE_SIZE \<le> i" for i
  proof (rule W(8) [of i, unfolded e])
    show "PAGE_SIZE \<le> i \<or> i < unat ?off" using that W'(1) D(2,3) fits by (auto simp: p' page_free_def)
  qed
  show thesis
    using that [OF upd inv' recs] frame by (simp add: p')
qed

text \<open>
  The guard of the growing case compares only the difference of the lengths with the free
  space, while the whole new record is written below \<open>free_space_end\<close>.
\<close>

lemma UpdateRecord_overlap:
  assumes inv: "page_inv p" and live: "page_live p s"
    and len: "se_length (p_slots p ! unat s) < len"
    and guard: "unat len - unat (se_length (p_slots p ! unat s)) \<le> page_free p"
    and over: "page_free p < unat len"
  shows "fst (Page_UpdateRecord s data len p)" "\<not> page_inv (snd (Page_UpdateRecord s data len p))"
proof -
  let ?fse = "ph_free_space_end (p_header p)" and ?fso = "ph_free_space_offset (p_header p)"
  note L = page_liveD [OF inv live] and D = page_invD [OF inv]
  have need: "\<not> Page_GetFreeSpace p < len - se_length (p_slots p ! unat s)"
    using guard len unat_GetFreeSpace [OF inv] by (simp add: word_less_nat_alt unat_sub_le)
  then show "fst (Page_UpdateRecord s data len p)"
    using L len by (simp add: Page_UpdateRecord_def Let_def not_le)
  have "unat (se_length (p_slots p ! unat s)) \<le> 4096"
    using slots_okD(2) [OF D(6) L(1,2)] by (simp add: PAGE_SIZE_def)
  then have small: "unat len \<le> 8192"
    using guard D(4) by (simp add: page_free_def)
  have bad: "unat (?fse - len) < unat ?fso \<or> 4096 < unat (?fse - len)"
  proof (cases "unat len \<le> unat ?fse")
    case True
    then show ?thesis using over D(3) by (simp add: unat_sub_le page_free_def) linarith
  next
    case False
    then have "unat (?fse - len) = 65536 + unat ?fse - unat len"
      by (simp add: unat_sub_if_size word_size)
    then show ?thesis using small by arith
  qed
  show "\<not> page_inv (snd (Page_UpdateRecord s data len p))"
    using L len need bad
    by (auto simp: Page_UpdateRecord_def Let_def leD page_inv_def page_consts word_le_nat_alt)
qed

section \<open>Compact\<close>

abbreviation lr_id :: "live_record \<Rightarrow> nat" where
  "lr_id r \<equiv> unat (lr_slot_id r)"

definition total_length :: "live_record list \<Rightarrow> nat" where
  "total_length rs = sum_list (map (\<lambda>r. unat (lr_length r)) rs)"

text \<open>
  The repacking loop from any state with enough room: what it does to one slot, and that it
  leaves everything outside \<open>[write_pos', write_pos)\<close> alone.
\<close>

lemma compact_step_simp:
  "compact_step temp (data, slots, wp) r =
     (buf_write data (unat (wp - lr_length r))
        (buf_read temp (unat (lr_original_offset r)) (unat (lr_length r))),
      slots[lr_id r := (slots ! lr_id r)\<lparr>se_offset := wp - lr_length r\<rparr>],
      wp - lr_length r)"
  by (simp add: compact_step_def Let_def)

text \<open>Where the repacking has put the bytes of one record.\<close>

definition repacked :: "buf \<Rightarrow> buf \<Rightarrow> nat \<Rightarrow> nat \<Rightarrow> slot_entry \<Rightarrow> live_record \<Rightarrow> slot_entry \<Rightarrow> bool" where
  "repacked temp data lo hi e r e' \<longleftrightarrow>
     (\<exists>w. e' = e\<lparr>se_offset := w\<rparr> \<and> lo \<le> unat w \<and> unat w + unat (lr_length r) \<le> hi \<and>
        buf_read data (unat w) (unat (lr_length r)) = buf_read temp (unat (lr_original_offset r)) (unat (lr_length r)))"

lemma repacked_mono: "repacked temp data lo hi e r e' \<Longrightarrow> hi \<le> hi' \<Longrightarrow> repacked temp data lo hi' e r e'"
  by (auto simp: repacked_def intro: order.trans)

lemma repacked_disjoint:
  assumes "repacked temp data lo (unat w) e q e'" "lr_length q = se_length e"
  shows "disjoint_slots (f\<lparr>se_offset := w\<rparr>) e'" "disjoint_slots e' (f\<lparr>se_offset := w\<rparr>)"
  using assms by (auto simp: repacked_def disjoint_slots_def)

lemma compact_frame:
  assumes "foldl (compact_step temp) (data, slots, wp) rs = (data', slots', wp')" "total_length rs \<le> unat wp"
  shows "unat wp' + total_length rs = unat wp \<and> length slots' = length slots \<and>
    (\<forall>i. i \<notin> lr_id ` set rs \<longrightarrow> slots' ! i = slots ! i) \<and>
    (\<forall>i. i < unat wp' \<or> unat wp \<le> i \<longrightarrow> data' i = data i)"
  using assms
proof (induction rs arbitrary: data slots wp)
  case Nil
  then show ?case by (simp add: total_length_def)
next
  case (Cons r rs)
  let ?w = "wp - lr_length r"
  let ?bs = "buf_read temp (unat (lr_original_offset r)) (unat (lr_length r))"
  let ?s = "slots[lr_id r := (slots ! lr_id r)\<lparr>se_offset := ?w\<rparr>]"
  have w: "unat ?w + unat (lr_length r) = unat wp" and room: "total_length rs \<le> unat ?w"
    using Cons.prems(2) by (auto simp: total_length_def unat_sub_le)
  have IH: "unat wp' + total_length rs = unat ?w" "length slots' = length ?s"
    "\<And>i. i \<notin> lr_id ` set rs \<Longrightarrow> slots' ! i = ?s ! i"
    "\<And>i. i < unat wp' \<or> unat ?w \<le> i \<Longrightarrow> data' i = buf_write data (unat ?w) ?bs i"
    using Cons.IH [OF Cons.prems(1) [simplified, unfolded compact_step_simp] room] by blast+
  have "data' i = data i" if "i < unat wp' \<or> unat wp \<le> i" for i
  proof -
    have "i < unat ?w \<or> unat ?w + length ?bs \<le> i" using that IH(1) w by auto
    then have "buf_write data (unat ?w) ?bs i = data i" by (rule buf_write_other)
    moreover have "i < unat wp' \<or> unat ?w \<le> i" using that w by auto
    ultimately show ?thesis using IH(4) by simp
  qed
  then show ?case using IH(1-3) w by (simp add: total_length_def)
qed

lemma compact_fold:
  assumes "foldl (compact_step temp) (data, slots, wp) rs = (data', slots', wp')"
    and "total_length rs \<le> unat wp" and "distinct (map lr_id rs)"
    and "\<forall>r\<in>set rs. lr_id r < length slots \<and> lr_length r = se_length (slots ! lr_id r)"
  shows "(\<forall>r\<in>set rs. repacked temp data' (unat wp') (unat wp) (slots ! lr_id r) r (slots' ! lr_id r)) \<and>
    (\<forall>r\<in>set rs. \<forall>q\<in>set rs. lr_id r \<noteq> lr_id q \<longrightarrow> disjoint_slots (slots' ! lr_id r) (slots' ! lr_id q))"
  using assms
proof (induction rs arbitrary: data slots wp)
  case Nil
  then show ?case by simp
next
  case (Cons r rs)
  let ?w = "wp - lr_length r"
  let ?bs = "buf_read temp (unat (lr_original_offset r)) (unat (lr_length r))"
  let ?d = "buf_write data (unat ?w) ?bs"
  let ?s = "slots[lr_id r := (slots ! lr_id r)\<lparr>se_offset := ?w\<rparr>]"
  have w: "unat ?w + unat (lr_length r) = unat wp" and room: "total_length rs \<le> unat ?w"
    using Cons.prems(2) by (auto simp: total_length_def unat_sub_le)
  have notin: "lr_id r \<notin> lr_id ` set rs" and dist: "distinct (map lr_id rs)"
    using Cons.prems(3) by auto
  have fold: "foldl (compact_step temp) (?d, ?s, ?w) rs = (data', slots', wp')"
    using Cons.prems(1) by (simp add: compact_step_simp)
  have nth_s: "?s ! lr_id q = slots ! lr_id q" if "q \<in> set rs" for q
    using notin that by (metis image_eqI nth_list_update_neq)
  have ok: "\<forall>q\<in>set rs. lr_id q < length ?s \<and> lr_length q = se_length (?s ! lr_id q)"
    using Cons.prems(4) nth_s by simp
  note F = compact_frame [OF fold room] and IH = Cons.IH [OF fold room dist ok]
  have rest: "repacked temp data' (unat wp') (unat ?w) (slots ! lr_id q) q (slots' ! lr_id q)" if "q \<in> set rs" for q
    using IH that nth_s by simp
  have here: "slots' ! lr_id r = (slots ! lr_id r)\<lparr>se_offset := ?w\<rparr>"
    using F notin Cons.prems(4) by simp
  have "buf_read data' (unat ?w) (unat (lr_length r)) = buf_read ?d (unat ?w) (unat (lr_length r))"
    using F by (intro buf_read_cong) simp
  then have mine: "repacked temp data' (unat wp') (unat wp) (slots ! lr_id r) r (slots' ! lr_id r)"
    unfolding repacked_def using here F w by (intro exI [of _ ?w]) simp
  have sep: "disjoint_slots (slots' ! lr_id r) (slots' ! lr_id q)" "disjoint_slots (slots' ! lr_id q) (slots' ! lr_id r)"
    if "q \<in> set rs" for q
    unfolding here using repacked_disjoint [OF rest [OF that]] Cons.prems(4) that by simp_all
  show ?case
    using mine rest repacked_mono [of temp data' "unat wp'" "unat ?w" _ _ _ "unat wp"] w IH sep by auto
qed

text \<open>The live records of a page: their slots, and the bytes they take.\<close>

definition live_bytes :: "page \<Rightarrow> nat" where
  "live_bytes p = sum_list (map (\<lambda>e. unat (se_length e))
     (filter (\<lambda>e. \<not> SlotEntry_IsEmpty e) (p_slots p)))"

lemma live_records_facts:
  assumes inv: "page_inv p"
  shows "lr_id ` set (Page_live_records p) =
      {i. i < length (p_slots p) \<and> \<not> SlotEntry_IsEmpty (p_slots p ! i)}"
    and "distinct (map lr_id (Page_live_records p))"
    and "r \<in> set (Page_live_records p) \<Longrightarrow>
      lr_id r < length (p_slots p) \<and> lr_original_offset r = se_offset (p_slots p ! lr_id r) \<and>
      lr_length r = se_length (p_slots p ! lr_id r)"
proof -
  let ?is = "filter (\<lambda>i. \<not> SlotEntry_IsEmpty (p_slots p ! i)) [0..<length (p_slots p)]"
  have n: "unat (ph_num_slots (p_header p)) = length (p_slots p)"
    by (simp add: page_invD(1) [OF inv])
  have small: "unat (of_nat i :: u16) = i" if "i < length (p_slots p)" for i
    using that page_invD(7) [OF inv] by (simp add: unat_of_nat_small)
  have ids: "map lr_id (Page_live_records p) = ?is"
    unfolding Page_live_records_def n by (simp add: comp_def small cong: map_cong) (rule map_idI, simp add: small)
  show "distinct (map lr_id (Page_live_records p))"
    unfolding ids by simp
  show "lr_id ` set (Page_live_records p) =
      {i. i < length (p_slots p) \<and> \<not> SlotEntry_IsEmpty (p_slots p ! i)}"
    using arg_cong [OF ids, of set] by auto
  show "lr_id r < length (p_slots p) \<and> lr_original_offset r = se_offset (p_slots p ! lr_id r) \<and>
      lr_length r = se_length (p_slots p ! lr_id r)" if "r \<in> set (Page_live_records p)"
    using that unfolding Page_live_records_def n by (auto simp: small)
qed

lemma total_length_live: "page_inv p \<Longrightarrow> total_length (Page_live_records p) = live_bytes p"
proof -
  assume inv: "page_inv p"
  have "map (\<lambda>r. unat (lr_length r)) (Page_live_records p) =
      map (\<lambda>i. unat (se_length (p_slots p ! i)))
        (filter (\<lambda>i. \<not> SlotEntry_IsEmpty (p_slots p ! i)) [0..<length (p_slots p)])"
    by (simp add: Page_live_records_def page_invD(1) [OF inv])
  also have "\<dots> = map (\<lambda>e. unat (se_length e))
      (filter (\<lambda>e. \<not> SlotEntry_IsEmpty e) (map (\<lambda>i. p_slots p ! i) [0..<length (p_slots p)]))"
    by (simp add: filter_map comp_def)
  finally show ?thesis by (simp add: total_length_def live_bytes_def map_nth)
qed

lemma total_length_sort: "total_length (std_sort lt rs) = total_length rs"
  unfolding total_length_def by (simp flip: sum_mset_sum_list)

text \<open>Live records are disjoint ranges of the data area, so they fit in it.\<close>

lemma live_bytes_bound:
  assumes inv: "page_inv p"
  shows "live_bytes p \<le> PAGE_SIZE - unat (ph_free_space_end (p_header p))"
proof -
  let ?L = "{i. i < length (p_slots p) \<and> \<not> SlotEntry_IsEmpty (p_slots p ! i)}"
  let ?I = "\<lambda>i. {unat (se_offset (p_slots p ! i))..<unat (se_offset (p_slots p ! i)) + unat (se_length (p_slots p ! i))}"
  note D = page_invD [OF inv]
  have "live_bytes p = sum_list (map (\<lambda>i. unat (se_length (p_slots p ! i)))
      (filter (\<lambda>i. \<not> SlotEntry_IsEmpty (p_slots p ! i)) [0..<length (p_slots p)]))"
    using total_length_live [OF inv]
    by (simp add: total_length_def Page_live_records_def comp_def D(1))
  also have "\<dots> = (\<Sum>i\<in>?L. unat (se_length (p_slots p ! i)))"
    by (subst sum_list_distinct_conv_sum_set) (auto intro: sum.cong)
  also have "\<dots> = (\<Sum>i\<in>?L. card (?I i))" by simp
  also have "\<dots> = card (\<Union>i\<in>?L. ?I i)"
  proof (rule card_UN_disjoint [symmetric])
    show "\<forall>i\<in>?L. \<forall>j\<in>?L. i \<noteq> j \<longrightarrow> ?I i \<inter> ?I j = {}"
    proof (intro ballI impI)
      fix i j
      assume "i \<in> ?L" "j \<in> ?L" "i \<noteq> j"
      then have "disjoint_slots (p_slots p ! i) (p_slots p ! j)"
        using D(6) by (auto simp: slots_ok_def)
      then show "?I i \<inter> ?I j = {}" by (auto simp: disjoint_slots_def)
    qed
  qed auto
  also have "\<dots> \<le> card {unat (ph_free_space_end (p_header p))..<PAGE_SIZE}"
    using slots_okD [OF D(6)] by (intro card_mono) fastforce+
  finally show ?thesis by simp
qed

text \<open>The state of the page after the loop, slot by slot.\<close>

lemma Compact_slots:
  assumes inv: "page_inv p"
  obtains data' slots' wp' where
    "Page_Compact p = p\<lparr>p_data := data', p_slots := slots', p_header := (p_header p)\<lparr>ph_free_space_end := wp'\<rparr>\<rparr>"
    "unat wp' = 4096 - live_bytes p" "unat (ph_free_space_end (p_header p)) \<le> unat wp'"
    "length slots' = length (p_slots p)" "\<And>i. i < unat wp' \<or> 4096 \<le> i \<Longrightarrow> data' i = p_data p i"
    "\<And>i. i < length (p_slots p) \<Longrightarrow> SlotEntry_IsEmpty (p_slots p ! i) \<Longrightarrow> slots' ! i = p_slots p ! i"
    "\<And>i. i < length (p_slots p) \<Longrightarrow> \<not> SlotEntry_IsEmpty (p_slots p ! i) \<Longrightarrow>
       \<exists>w. slots' ! i = (p_slots p ! i)\<lparr>se_offset := w\<rparr> \<and> unat wp' \<le> unat w \<and>
         unat w + unat (se_length (p_slots p ! i)) \<le> 4096 \<and>
         buf_read data' (unat w) (unat (se_length (p_slots p ! i))) =
           buf_read (p_data p) (unat (se_offset (p_slots p ! i))) (unat (se_length (p_slots p ! i)))"
    "\<And>i j. i < length (p_slots p) \<Longrightarrow> j < length (p_slots p) \<Longrightarrow> i \<noteq> j \<Longrightarrow>
       \<not> SlotEntry_IsEmpty (p_slots p ! i) \<Longrightarrow> \<not> SlotEntry_IsEmpty (p_slots p ! j) \<Longrightarrow>
       disjoint_slots (slots' ! i) (slots' ! j)"
proof -
  let ?rs = "std_sort (\<lambda>a b. lr_original_offset b < lr_original_offset a) (Page_live_records p)"
  note D = page_invD [OF inv] and R = live_records_facts [OF inv]
  obtain data' slots' wp' where fold:
    "foldl (compact_step (p_data p)) (p_data p, p_slots p, of_nat PAGE_SIZE) ?rs = (data', slots', wp')"
    by (metis prod_cases3)
  have tot: "total_length ?rs = live_bytes p"
    using total_length_live [OF inv] by (simp add: total_length_sort)
  have bound: "live_bytes p \<le> 4096 - unat (ph_free_space_end (p_header p))"
    using live_bytes_bound [OF inv] by (simp add: PAGE_SIZE_def)
  have dist: "distinct (map lr_id ?rs)"
    using R(2) by (metis mset_eq_imp_distinct_iff mset_map mset_std_sort)
  have top: "unat (of_nat PAGE_SIZE :: u16) = 4096" by (simp add: PAGE_SIZE_def)
  have room: "total_length ?rs \<le> unat (of_nat PAGE_SIZE :: u16)"
    using bound by (simp add: tot top)
  have rs: "\<forall>r\<in>set ?rs. lr_id r < length (p_slots p) \<and> lr_length r = se_length (p_slots p ! lr_id r)"
    using R(3) by simp
  note F = compact_frame [OF fold room, unfolded top tot] and M = compact_fold [OF fold room dist rs, unfolded top]
  have at: "\<exists>r\<in>set (Page_live_records p). lr_id r = i"
    if "i < length (p_slots p)" "\<not> SlotEntry_IsEmpty (p_slots p ! i)" for i
    using that R(1) by (metis (mono_tags, lifting) imageE mem_Collect_eq)
  show thesis
  proof (rule that)
    show "Page_Compact p = p\<lparr>p_data := data', p_slots := slots', p_header := (p_header p)\<lparr>ph_free_space_end := wp'\<rparr>\<rparr>"
      using fold by (simp add: Page_Compact_def Let_def)
    show wp': "unat wp' = 4096 - live_bytes p" using F by linarith
    show "unat (ph_free_space_end (p_header p)) \<le> unat wp'" using wp' bound D(4) by simp
    show "length slots' = length (p_slots p)" "\<And>i. i < unat wp' \<or> 4096 \<le> i \<Longrightarrow> data' i = p_data p i" using F by blast+
    show "slots' ! i = p_slots p ! i" if "i < length (p_slots p)" "SlotEntry_IsEmpty (p_slots p ! i)" for i
      using F R(1) that by simp
  next
    fix i assume "i < length (p_slots p)" "\<not> SlotEntry_IsEmpty (p_slots p ! i)"
    then obtain r where r: "r \<in> set (Page_live_records p)" "lr_id r = i" using at by blast
    then show "\<exists>w. slots' ! i = (p_slots p ! i)\<lparr>se_offset := w\<rparr> \<and> unat wp' \<le> unat w \<and>
         unat w + unat (se_length (p_slots p ! i)) \<le> 4096 \<and>
         buf_read data' (unat w) (unat (se_length (p_slots p ! i))) =
           buf_read (p_data p) (unat (se_offset (p_slots p ! i))) (unat (se_length (p_slots p ! i)))"
      using bspec [OF conjunct1 [OF M], of r] R(3) [OF r(1)] r by (simp add: repacked_def)
  next
    fix i j assume "i < length (p_slots p)" "j < length (p_slots p)" "i \<noteq> j"
      "\<not> SlotEntry_IsEmpty (p_slots p ! i)" "\<not> SlotEntry_IsEmpty (p_slots p ! j)"
    then show "disjoint_slots (slots' ! i) (slots' ! j)" using M at by (metis set_std_sort)
  qed
qed

lemma Compact_spec:
  assumes inv: "page_inv p"
  shows "page_inv (Page_Compact p) \<and> page_recs (Page_Compact p) = page_recs p \<and>
    unat (ph_free_space_end (p_header (Page_Compact p))) = PAGE_SIZE - live_bytes p \<and>
    length (p_slots (Page_Compact p)) = length (p_slots p) \<and>
    (\<forall>i. i < 20 + 4 * length (p_slots p) \<or> PAGE_SIZE \<le> i \<longrightarrow> p_data (Page_Compact p) i = p_data p i)"
proof -
  note D = page_invD [OF inv]
  obtain data' slots' wp' where
    p': "Page_Compact p = p\<lparr>p_data := data', p_slots := slots', p_header := (p_header p)\<lparr>ph_free_space_end := wp'\<rparr>\<rparr>"
    and wp': "unat wp' = 4096 - live_bytes p" and ge: "unat (ph_free_space_end (p_header p)) \<le> unat wp'"
    and len: "length slots' = length (p_slots p)" and frame: "\<And>i. i < unat wp' \<or> 4096 \<le> i \<Longrightarrow> data' i = p_data p i"
    and dead: "\<And>i. i < length (p_slots p) \<Longrightarrow> SlotEntry_IsEmpty (p_slots p ! i) \<Longrightarrow> slots' ! i = p_slots p ! i"
    and live: "\<And>i. i < length (p_slots p) \<Longrightarrow> \<not> SlotEntry_IsEmpty (p_slots p ! i) \<Longrightarrow>
       \<exists>w. slots' ! i = (p_slots p ! i)\<lparr>se_offset := w\<rparr> \<and> unat wp' \<le> unat w \<and>
         unat w + unat (se_length (p_slots p ! i)) \<le> 4096 \<and>
         buf_read data' (unat w) (unat (se_length (p_slots p ! i))) =
           buf_read (p_data p) (unat (se_offset (p_slots p ! i))) (unat (se_length (p_slots p ! i)))"
    and sep: "\<And>i j. i < length (p_slots p) \<Longrightarrow> j < length (p_slots p) \<Longrightarrow> i \<noteq> j \<Longrightarrow>
       \<not> SlotEntry_IsEmpty (p_slots p ! i) \<Longrightarrow> \<not> SlotEntry_IsEmpty (p_slots p ! j) \<Longrightarrow>
       disjoint_slots (slots' ! i) (slots' ! j)"
    by (rule Compact_slots [OF inv]) blast
  have pos: "0 < unat wp'" using ge D(2,3) by simp
  have iff: "SlotEntry_IsEmpty (slots' ! i) \<longleftrightarrow> SlotEntry_IsEmpty (p_slots p ! i)"
    if "i < length (p_slots p)" for i
    using dead [OF that] live [OF that] pos
    by (cases "SlotEntry_IsEmpty (p_slots p ! i)") (auto simp: SlotEntry_IsEmpty_def)
  have "slot_within (unat wp') (slots' ! i)" if "i < length slots'" "\<not> SlotEntry_IsEmpty (slots' ! i)" for i
    using that live [of i] iff [of i] len by (auto simp: slot_within_def PAGE_SIZE_def)
  then have ok: "slots_ok (unat wp') slots'"
    unfolding slots_ok_def using sep iff len by simp
  have cnt: "length (filter (\<lambda>e. \<not> SlotEntry_IsEmpty e) slots') =
      length (filter (\<lambda>e. \<not> SlotEntry_IsEmpty e) (p_slots p))"
    unfolding length_filter_conv_card len using iff by (intro arg_cong [where f = card]) auto
  have "page_inv (Page_Compact p)"
    using D ok cnt ge wp' len by (simp add: page_inv_def p' page_consts word_le_nat_alt)
  moreover have "page_recs (Page_Compact p) i = page_recs p i" for i
    using live [of i] iff [of i] by (auto simp: page_recs_def slot_recs_def p' len)
  ultimately show ?thesis
    using frame wp' len ge D(2,3) by (auto simp: p' PAGE_SIZE_def)
qed

section \<open>Serialization and its inverse\<close>

lemma write_slots_other:
  "unat pos + 4 * length es < 65536 \<Longrightarrow> i < unat pos \<or> unat pos + 4 * length es \<le> i \<Longrightarrow>
   write_slots b pos es i = b i"
proof (induction es arbitrary: b pos)
  case Nil
  then show ?case by simp
next
  case (Cons e es)
  have p2: "unat (pos + 2) = unat pos + 2" and p4: "unat (pos + 4) = unat pos + 4"
    using Cons.prems(1) by (simp_all add: unat16_add)
  show ?case using Cons.prems by (auto simp: Cons.IH p2 p4)
qed

lemma read_slots_cong:
  "unat pos + 4 * n < 65536 \<Longrightarrow>
   (\<And>i. unat pos \<le> i \<Longrightarrow> i < unat pos + 4 * n \<Longrightarrow> b i = b' i) \<Longrightarrow>
   read_slots b pos n = read_slots b' pos n"
proof (induction n arbitrary: pos)
  case 0
  then show ?case by simp
next
  case (Suc n)
  have p2: "unat (pos + 2) = unat pos + 2" and p4: "unat (pos + 4) = unat pos + 4"
    using Suc.prems(1) by (simp_all add: unat16_add)
  have "buf_read b (unat pos) 2 = buf_read b' (unat pos) 2"
    "buf_read b (unat pos + 2) 2 = buf_read b' (unat pos + 2) 2"
    using Suc.prems by (auto intro!: buf_read_cong)
  moreover have "read_slots b (pos + 4) n = read_slots b' (pos + 4) n"
    using Suc.prems by (intro Suc.IH) (simp_all add: p4)
  ultimately show ?case by (simp add: p2)
qed

lemma read_write_slots:
  "unat pos + 4 * length es < 65536 \<Longrightarrow> n = length es \<Longrightarrow> read_slots (write_slots b pos es) pos n = es"
proof (induction es arbitrary: b pos n)
  case Nil
  then show ?case by simp
next
  case (Cons e es)
  have p2: "unat (pos + 2) = unat pos + 2" and p4: "unat (pos + 4) = unat pos + 4"
    using Cons.prems(1) by (simp_all add: unat16_add)
  let ?b = "put16 (put16 b (unat pos) (se_offset e)) (unat pos + 2) (se_length e)"
  have keep: "buf_read (write_slots ?b (pos + 4) es) off 2 = buf_read ?b off 2"
    if "off + 2 \<le> unat pos + 4" for off
    using that Cons.prems(1) by (intro buf_read_cong) (simp add: write_slots_other p4)
  show ?case
    using Cons.prems Cons.IH [of "pos + 4" "length es" ?b]
    by (simp add: p2 p4 keep c16.dec_enc del: add_2_eq_Suc')
qed

lemma write_read_slots: "unat pos + 4 * n < 65536 \<Longrightarrow> write_slots b pos (read_slots b pos n) = b"
proof (induction n arbitrary: pos)
  case 0
  then show ?case by simp
next
  case (Suc n)
  then show ?case by (simp add: unat16_add)
qed

lemma length_read_slots [simp]: "length (read_slots b pos n) = n"
  by (induction n arbitrary: pos) auto

text \<open>What has to hold of a page for its directory to fit in the buffer.\<close>

definition page_ser_ok :: "page \<Rightarrow> bool" where
  "page_ser_ok p \<longleftrightarrow>
     length (p_slots p) = unat (ph_num_slots (p_header p)) \<and> unat (ph_num_slots (p_header p)) \<le> 1019"

lemma page_inv_ser_ok [simp]: "page_inv p \<Longrightarrow> page_ser_ok p"
  using page_invD(1,7) [of p] by (simp add: page_ser_ok_def)

lemma page_ser_ok_new [simp]: "page_ser_ok (Page_new pid)"
  by simp

lemma Serialize_fields [simp]:
  "p_header (Page_SerializeToBuffer p) = p_header p" "p_slots (Page_SerializeToBuffer p) = p_slots p"
  by (simp_all add: Page_SerializeToBuffer_def Let_def)

definition write_header :: "buf \<Rightarrow> page_header \<Rightarrow> buf" where
  "write_header b h =
     put16 (put32 (put16 (put16 (put16 (put16 (put32 b 0 (ph_page_id h)) 4 (ph_num_slots h))
       6 (ph_free_space_offset h)) 8 (ph_free_space_end h)) 10 (ph_num_records h))
       12 (ph_next_page_id h)) 16 (ph_flags h)"

lemma Serialize_data:
  assumes "page_ser_ok p"
  shows "p_data (Page_SerializeToBuffer p) = write_slots (write_header (p_data p) (p_header p)) HEADER_SIZE (p_slots p)"
  using assms by (simp add: Page_SerializeToBuffer_def write_header_def Let_def page_ser_ok_def)

lemma header_of_write_header: "header_of_buf (write_header b h) = h"
  by (simp add: header_of_buf_def write_header_def c16.dec_enc c32.dec_enc)

lemma write_header_of_buf: "write_header b (header_of_buf b) = b"
  by (simp add: header_of_buf_def write_header_def)

lemma header_of_buf_cong:
  assumes "\<And>i. i < 18 \<Longrightarrow> b i = b' i"
  shows "header_of_buf b = header_of_buf b'"
proof -
  have "buf_read b off n = buf_read b' off n" if "off + n \<le> 18" for off n
    using that assms by (intro buf_read_cong) auto
  then show ?thesis by (simp add: header_of_buf_def)
qed

lemma write_header_other: "18 \<le> i \<Longrightarrow> write_header b h i = b i"
  by (simp add: write_header_def)

lemma Serialize_other:
  assumes "page_ser_ok p" and "i \<in> {18, 19} \<or> 20 + 4 * length (p_slots p) \<le> i"
  shows "p_data (Page_SerializeToBuffer p) i = p_data p i"
proof -
  have fit: "unat HEADER_SIZE + 4 * length (p_slots p) < 65536"
    using assms(1) by (simp add: page_ser_ok_def)
  have "i < unat HEADER_SIZE \<or> unat HEADER_SIZE + 4 * length (p_slots p) \<le> i"
    using assms(2) by auto
  then have "p_data (Page_SerializeToBuffer p) i = write_header (p_data p) (p_header p) i"
    by (simp add: Serialize_data [OF assms(1)] write_slots_other [OF fit])
  then show ?thesis using assms(2) by (auto simp: write_header_other)
qed

lemma header_of_serialized:
  assumes ok: "page_ser_ok p"
  shows "header_of_buf (p_data (Page_SerializeToBuffer p)) = p_header p"
proof -
  have "unat HEADER_SIZE + 4 * length (p_slots p) < 65536"
    using ok by (simp add: page_ser_ok_def)
  then have "header_of_buf (p_data (Page_SerializeToBuffer p)) =
      header_of_buf (write_header (p_data p) (p_header p))"
    by (intro header_of_buf_cong) (simp add: Serialize_data [OF ok] write_slots_other)
  then show ?thesis by (simp add: header_of_write_header)
qed

lemma Deserialize_Serialize:
  assumes ok: "page_ser_ok p"
  shows "Page_DeserializeFromBuffer (q\<lparr>p_data := p_data (Page_SerializeToBuffer p)\<rparr>) =
     Page_SerializeToBuffer p"
proof -
  have "read_slots (p_data (Page_SerializeToBuffer p)) HEADER_SIZE (unat (ph_num_slots (p_header p))) = p_slots p"
    using ok by (simp add: Serialize_data [OF ok] read_write_slots page_ser_ok_def)
  then show ?thesis
    by (simp add: Page_DeserializeFromBuffer_def header_of_serialized [OF ok] Let_def)
qed

lemma Deserialize_fields [simp]:
  "p_data (Page_DeserializeFromBuffer p) = p_data p"
  "p_header (Page_DeserializeFromBuffer p) = header_of_buf (p_data p)"
  "p_slots (Page_DeserializeFromBuffer p) =
     read_slots (p_data p) HEADER_SIZE (unat (ph_num_slots (header_of_buf (p_data p))))"
  by (simp_all add: Page_DeserializeFromBuffer_def Let_def)

lemma Deserialize_ser_ok:
  "unat (get16 (p_data p) 4) \<le> 1019 \<Longrightarrow> page_ser_ok (Page_DeserializeFromBuffer p)"
  by (simp add: page_ser_ok_def header_of_buf_def)

lemma Serialize_Deserialize:
  assumes "unat (get16 (p_data p) 4) \<le> 1019"
  shows "p_data (Page_SerializeToBuffer (Page_DeserializeFromBuffer p)) = p_data p"
proof -
  have "unat HEADER_SIZE + 4 * unat (ph_num_slots (header_of_buf (p_data p))) < 65536"
    using assms by (simp add: header_of_buf_def)
  then show ?thesis
    by (simp add: Serialize_data [OF Deserialize_ser_ok [OF assms]] write_header_of_buf write_read_slots)
qed

lemma page_inv_Serialize [simp]: "page_inv (Page_SerializeToBuffer p) = page_inv p"
  by (simp add: page_inv_def)

lemma page_recs_Serialize:
  assumes inv: "page_inv p"
  shows "page_recs (Page_SerializeToBuffer p) = page_recs p"
proof -
  note D = page_invD [OF inv]
  have "buf_read (p_data (Page_SerializeToBuffer p)) (unat (se_offset (p_slots p ! i))) n =
      buf_read (p_data p) (unat (se_offset (p_slots p ! i))) n"
    if "i < length (p_slots p)" "\<not> SlotEntry_IsEmpty (p_slots p ! i)" for i n
    using slots_okD(1) [OF D(6) that] D(2,3) inv
    by (intro buf_read_cong Serialize_other) auto
  then show ?thesis by (auto simp: page_recs_def slot_recs_def fun_eq_iff)
qed

text \<open>
  The comparator of \<open>Compact\<close> is a strict weak order, so the records are repacked from the
  highest original offset down.
\<close>

interpretation compact_order: strict_weak_order
  "\<lambda>a b. lr_original_offset b < lr_original_offset a"
  by unfold_locales auto

lemma live_records_repack_order:
  "sorted_wrt (\<lambda>a b. lr_original_offset b \<le> lr_original_offset a)
     (std_sort (\<lambda>a b. lr_original_offset b < lr_original_offset a) (Page_live_records p))"
  using compact_order.sorted_std_sort by (simp add: not_less)

section \<open>Properties\<close>

text \<open>
  C26. \<open>Page::InsertRecord\<close> succeeds exactly when the length is positive and the record, with a
  slot entry if no tombstone is free, fits between the directory and the data. It then returns a
  slot that held nothing, binds it to the bytes given, leaves every other record as it was, keeps
  the page invariant and writes nothing outside the 4096 bytes; otherwise the page is unchanged.
\<close>

theorem page_insert_correct:
  assumes "page_inv p" and "unat len \<le> length bytes"
  shows "case Page_InsertRecord (Some bytes) len p of
      (None, p') \<Rightarrow> p' = p \<and> \<not> insert_fits len p
    | (Some s, p') \<Rightarrow> insert_fits len p \<and> page_inv p' \<and> page_recs p (unat s) = None \<and>
        page_recs p' = (page_recs p)(unat s \<mapsto> take (unat len) bytes) \<and>
        (\<forall>i\<ge>PAGE_SIZE. p_data p' i = p_data p i)"
proof (cases "insert_fits len p")
  case False
  then show ?thesis using InsertRecord_no_fit [OF assms(1)] by simp
next
  case True
  then obtain s p' where "Page_InsertRecord (Some bytes) len p = (Some s, p')"
    using InsertRecord_fits_iff [OF assms(1)] by blast
  with True InsertRecord_step [OF assms(1) this assms(2)] show ?thesis by simp
qed

lemma Page_new_fields [simp]:
  "p_slots (Page_new pid) = []" "p_data (Page_new pid) = (\<lambda>_. 0)"
  "p_header (Page_new pid) = \<lparr>ph_page_id = pid, ph_num_slots = 0, ph_free_space_offset = 20,
     ph_free_space_end = 4096, ph_num_records = 0, ph_next_page_id = INVALID_PAGE_ID, ph_flags = 0\<rparr>"
  by (simp_all add: Page_new_def Page_default_def PageHeader_default_def page_consts)

lemma Page_new_FindEmptySlot [simp]: "Page_FindEmptySlot (Page_new pid) = None"
  by (simp add: Page_FindEmptySlot_def)

lemma page_free_new [simp]: "page_free (Page_new pid) = 4076"
  by (simp add: page_free_def)

lemma insert_into_new:
  "len \<noteq> 0 \<Longrightarrow> unat len \<le> 4072 \<Longrightarrow> \<exists>p'. Page_InsertRecord (Some bytes) len (Page_new pid) = (Some 0, p')"
  using InsertRecord_fresh [of "Page_new pid" len bytes] by (simp add: insert_fits_def)

theorem page_insert_correct_witness:
  "\<exists>p'. Page_InsertRecord (Some [1, 2, 3]) 3 (Page_new 7) = (Some 0, p') \<and> page_inv p' \<and>
     page_recs p' = [0 \<mapsto> [1, 2, 3]]"
proof -
  obtain p' where p': "Page_InsertRecord (Some [1, 2, 3]) 3 (Page_new 7) = (Some 0, p')"
    using insert_into_new [of 3] by auto
  then show ?thesis using page_insert_correct [of "Page_new 7" 3 "[1, 2, 3]"] by simp
qed

text \<open>
  On a page that satisfies the invariant, \<open>Page::DeleteRecord\<close> returns whether the slot held a
  record; if so, exactly that record disappears and the invariant is kept, otherwise the page
  is unchanged.
\<close>

theorem page_delete_correct:
  assumes "page_inv p"
  shows "page_inv (snd (Page_DeleteRecord s p)) \<and>
    (fst (Page_DeleteRecord s p) \<longleftrightarrow> page_recs p (unat s) \<noteq> None) \<and>
    page_recs (snd (Page_DeleteRecord s p)) = (page_recs p)(unat s := None)"
proof (cases "page_live p s")
  case True
  then have "page_recs p (unat s) \<noteq> None" using page_live_recs [OF assms] by blast
  moreover obtain p' where "Page_DeleteRecord s p = (True, p')" "page_inv p'"
    "page_recs p' = (page_recs p)(unat s := None)"
    using DeleteRecord_live [OF assms True] by metis
  ultimately show ?thesis by simp
next
  case False
  then have "page_recs p (unat s) = None" using page_live_recs [OF assms] by blast
  then show ?thesis using assms False by (simp add: DeleteRecord_dead fun_upd_idem)
qed

theorem page_delete_correct_witness:
  "\<exists>p. page_recs p = [0 \<mapsto> [1, 2, 3]] \<and> fst (Page_DeleteRecord 0 p) \<and>
     page_recs (snd (Page_DeleteRecord 0 p)) = (\<lambda>_. None)"
proof -
  obtain p where "page_inv p" "page_recs p = [0 \<mapsto> [1, 2, 3]]"
    using InsertRecord_step [of "Page_new 7" "[1, 2, 3]" 3 0] insert_into_new [of 3 "[1, 2, 3]" 7] by auto
  then show ?thesis using page_delete_correct [of p 0] by (intro exI [of _ p]) simp
qed

text \<open>
  \<open>Page::UpdateRecord\<close> of a slot without a record fails and changes nothing. When the new
  length is at most the old one, or fits whole in the free space, it succeeds, binds the slot to the new bytes, leaves
  every other record as it was and keeps the page invariant.
\<close>

theorem page_update_correct:
  assumes "page_inv p" and "unat len \<le> length data"
    and "len \<le> se_length (p_slots p ! unat s) \<or> unat len \<le> page_free p"
  shows "if page_recs p (unat s) = None then Page_UpdateRecord s data len p = (False, p)
    else fst (Page_UpdateRecord s data len p) \<and> page_inv (snd (Page_UpdateRecord s data len p)) \<and>
      page_recs (snd (Page_UpdateRecord s data len p)) = (page_recs p)(unat s \<mapsto> take (unat len) data) \<and>
      (\<forall>i\<ge>PAGE_SIZE. p_data (snd (Page_UpdateRecord s data len p)) i = p_data p i)"
proof (cases "page_live p s")
  case True
  then have "page_recs p (unat s) \<noteq> None" using page_live_recs [OF assms(1)] by blast
  moreover obtain p' where "Page_UpdateRecord s data len p = (True, p')" "page_inv p'"
    "page_recs p' = (page_recs p)(unat s \<mapsto> take (unat len) data)"
    "\<forall>i. i < 20 + 4 * length (p_slots p') \<or> PAGE_SIZE \<le> i \<longrightarrow> p_data p' i = p_data p i"
    using UpdateRecord_shrink [OF assms(1) True _ assms(2)]
      UpdateRecord_grow [OF assms(1) True _ _ assms(2)] assms(3) by (metis not_le)
  ultimately show ?thesis by simp
next
  case False
  then have "page_recs p (unat s) = None" using page_live_recs [OF assms(1)] by blast
  then show ?thesis using False by (simp add: UpdateRecord_dead)
qed

theorem page_update_correct_witness:
  "\<exists>p. page_recs p = [0 \<mapsto> [1, 2, 3]] \<and> fst (Page_UpdateRecord 0 [9, 8] 2 p) \<and>
     page_recs (snd (Page_UpdateRecord 0 [9, 8] 2 p)) = [0 \<mapsto> [9, 8]]"
proof -
  obtain p where ins: "Page_InsertRecord (Some [1, 2, 3]) 3 (Page_new 7) = (Some 0, p)"
    using insert_into_new [of 3] by auto
  then have p: "page_inv p" "page_recs p = [0 \<mapsto> [1, 2, 3]]"
    using InsertRecord_step [of "Page_new 7" "[1, 2, 3]" 3 0] by auto
  have "p_slots p = [\<lparr>se_offset = 4093, se_length = 3\<rparr>]"
    using ins InsertRecord_fresh [of "Page_new 7" 3 "[1, 2, 3]"] by (auto simp: insert_fits_def)
  then show ?thesis using p page_update_correct [of p 2 "[9, 8]" 0] by (intro exI [of _ p]) simp
qed

text \<open>
  The guard of the growing case of \<open>Page::UpdateRecord\<close> admits more than fits: whenever the
  difference of the lengths is within the free space but the new length is not, the update
  reports success and leaves a page that violates the invariant (the record overlaps the slot
  directory or lies outside the page).
\<close>

theorem page_update_overlap:
  assumes "page_inv p" and "page_recs p (unat s) = Some old"
    and "length old < unat len" and "unat len - length old \<le> page_free p" and "page_free p < unat len"
  shows "fst (Page_UpdateRecord s data len p) \<and> \<not> page_inv (snd (Page_UpdateRecord s data len p))"
proof -
  have live: "page_live p s" using assms(2) page_live_recs [OF assms(1)] by simp
  have "length old = unat (se_length (p_slots p ! unat s))"
    using assms(2) by (auto simp: page_recs_def slot_recs_def split: if_splits)
  then show ?thesis
    using UpdateRecord_overlap [OF assms(1) live] assms(3-5) by (simp add: word_less_nat_alt)
qed

theorem page_update_overlap_witness:
  "\<exists>p. page_inv p \<and> fst (Page_UpdateRecord 0 (replicate 4050 7) 4050 p) \<and>
     \<not> page_inv (snd (Page_UpdateRecord 0 (replicate 4050 7) 4050 p))"
proof -
  let ?old = "replicate 4000 (1 :: u8)"
  obtain p where ins: "Page_InsertRecord (Some ?old) 4000 (Page_new 7) = (Some 0, p)"
    using insert_into_new [of 4000] by auto
  then have p: "page_inv p" "page_recs p (unat (0 :: u16)) = Some ?old"
    using InsertRecord_step [of "Page_new 7" ?old 4000 0 p] by auto
  have "page_free p = 72"
    using ins InsertRecord_fresh [of "Page_new 7" 4000 ?old] by (auto simp: insert_fits_def page_free_def page_consts)
  then show ?thesis using p page_update_overlap [OF p, of 4050 "replicate 4050 7"] by auto
qed

text \<open>
  C31. \<open>Page::Compact\<close> keeps every record under its slot number and the page invariant, moves the
  start of the data area to exactly the sum of the live record lengths below the end of the
  page, and writes nothing outside the data area.
\<close>

theorem page_compact_correct:
  assumes "page_inv p"
  shows "page_inv (Page_Compact p) \<and> page_recs (Page_Compact p) = page_recs p \<and>
    unat (ph_free_space_end (p_header (Page_Compact p))) = PAGE_SIZE - live_bytes p \<and>
    page_free p \<le> page_free (Page_Compact p) \<and>
    (\<forall>i. i < 20 + 4 * length (p_slots p) \<or> PAGE_SIZE \<le> i \<longrightarrow> p_data (Page_Compact p) i = p_data p i)"
proof -
  note C = Compact_spec [OF assms]
  have "page_free p \<le> page_free (Page_Compact p)"
    using C live_bytes_bound [OF assms] page_invD(2,4) [OF assms] page_invD(2) [of "Page_Compact p"]
    by (simp add: page_free_def PAGE_SIZE_def)
  with C show ?thesis by simp
qed

theorem page_compact_correct_witness:
  "\<exists>p. page_recs (Page_Compact p) = [0 \<mapsto> [1, 2, 3]] \<and> page_inv (Page_Compact p)"
proof -
  obtain p where "page_inv p" "page_recs p = [0 \<mapsto> [1, 2, 3]]"
    using InsertRecord_step [of "Page_new 7" "[1, 2, 3]" 3 0] insert_into_new [of 3 "[1, 2, 3]" 7] by auto
  then show ?thesis using page_compact_correct [of p] by (intro exI [of _ p]) simp
qed

text \<open>
  C28. What \<open>SerializeToBuffer\<close> writes, \<open>DeserializeFromBuffer\<close> reads back in any frame: the
  header, the slot directory and every record of a page that satisfies the invariant survive
  the trip through the buffer.
\<close>

theorem page_serialize_roundtrip:
  assumes "page_inv p"
  shows "Page_DeserializeFromBuffer (q\<lparr>p_data := p_data (Page_SerializeToBuffer p)\<rparr>) = Page_SerializeToBuffer p \<and>
    p_header (Page_SerializeToBuffer p) = p_header p \<and> p_slots (Page_SerializeToBuffer p) = p_slots p \<and>
    page_recs (Page_SerializeToBuffer p) = page_recs p"
  using Deserialize_Serialize [of p q] page_recs_Serialize [OF assms] assms by simp

theorem page_serialize_roundtrip_witness:
  "p_header (Page_DeserializeFromBuffer
      (Page_default\<lparr>p_data := p_data (Page_SerializeToBuffer (Page_new 7))\<rparr>)) = p_header (Page_new 7)"
  using page_serialize_roundtrip [of "Page_new 7" Page_default] by simp

text \<open>
  \<open>Page::HasSpaceFor\<close> predicts \<open>Page::InsertRecord\<close>: for lengths from 1 to 65531 it holds
  exactly when the insertion succeeds.
\<close>

theorem page_has_space_predicts_insert:
  assumes "page_inv p" and "0 < len" and "len \<le> 65531"
  shows "Page_HasSpaceFor len p \<longleftrightarrow> (\<exists>s p'. Page_InsertRecord (Some bytes) len p = (Some s, p'))"
  using HasSpaceFor_fits [OF assms] InsertRecord_fits_iff [OF assms(1)] by simp

theorem page_has_space_predicts_insert_witness:
  "Page_HasSpaceFor 4072 (Page_new 7) \<and> \<not> Page_HasSpaceFor 4073 (Page_new 7)"
  using page_has_space_predicts_insert [of "Page_new 7" 4072 "[]"]
    page_has_space_predicts_insert [of "Page_new 7" 4073 "[]"]
  by (simp add: InsertRecord_fits_iff insert_fits_def)

end
