(* ===== verification/LogRecord.thy ===== *)
theory LogRecord
  imports Page
begin

text \<open>
  Records of the write-ahead log (\<open>include/recovery/log_record.h\<close>, \<open>src/recovery/log_record.cpp\<close>): the factory
  functions, the byte format, and the access to payloads. Where the code reads or writes outside a
  vector the value is \<open>None\<close>.
\<close>

section \<open>Data\<close>

definition INVALID_LSN :: u64 where
  "INVALID_LSN = 0"

text \<open>\<open>LogRecordType\<close> has an underlying byte; what is read from a file need not be one of the names.\<close>

definition kInvalid :: u8 where "kInvalid = 0"
definition kInsert :: u8 where "kInsert = 1"
definition kDelete :: u8 where "kDelete = 2"
definition kUpdate :: u8 where "kUpdate = 3"
definition kNewPage :: u8 where "kNewPage = 4"
definition kCheckpointBegin :: u8 where "kCheckpointBegin = 5"
definition kCheckpointEnd :: u8 where "kCheckpointEnd = 6"

lemmas log_types = kInvalid_def kInsert_def kDelete_def kUpdate_def kNewPage_def kCheckpointBegin_def
  kCheckpointEnd_def

record log_header =
  lh_total_size :: u32
  lh_lsn :: u64
  lh_type :: u8
  lh_page_id :: u32
  lh_slot_id :: u16
  lh_payload_size :: u16

definition LogRecordHeader_default :: log_header where
  "LogRecordHeader_default =
     \<lparr>lh_total_size = 0, lh_lsn = INVALID_LSN, lh_type = kInvalid, lh_page_id = INVALID_PAGE_ID, lh_slot_id = 0,
      lh_payload_size = 0\<rparr>"

definition LOG_HEADER_SIZE :: u32 where
  "LOG_HEADER_SIZE = 21"

record log_record =
  lg_header :: log_header
  lg_payload :: "u8 list"

definition LogRecord_default :: log_record where
  "LogRecord_default = \<lparr>lg_header = LogRecordHeader_default, lg_payload = []\<rparr>"

section \<open>Factory functions\<close>

definition LogRecord_MakeInsert :: "u64 \<Rightarrow> u32 \<Rightarrow> u16 \<Rightarrow> u8 list \<Rightarrow> u16 \<Rightarrow> log_record" where
  "LogRecord_MakeInsert lsn page_id slot_id data len =
     \<lparr>lg_header = LogRecordHeader_default\<lparr>lh_type := kInsert, lh_lsn := lsn, lh_page_id := page_id, lh_slot_id := slot_id,
        lh_payload_size := len, lh_total_size := LOG_HEADER_SIZE + ucast len\<rparr>,
      lg_payload = take (unat len) data\<rparr>"

definition LogRecord_MakeDelete :: "u64 \<Rightarrow> u32 \<Rightarrow> u16 \<Rightarrow> u8 list \<Rightarrow> u16 \<Rightarrow> log_record" where
  "LogRecord_MakeDelete lsn page_id slot_id old_data old_len =
     \<lparr>lg_header = LogRecordHeader_default\<lparr>lh_type := kDelete, lh_lsn := lsn, lh_page_id := page_id, lh_slot_id := slot_id,
        lh_payload_size := old_len, lh_total_size := LOG_HEADER_SIZE + ucast old_len\<rparr>,
      lg_payload = take (unat old_len) old_data\<rparr>"

text \<open>
  The payload size is computed in 16 bits. When the sum does not fit, the copies run past the
  end of the vector.
\<close>

definition LogRecord_MakeUpdate ::
    "u64 \<Rightarrow> u32 \<Rightarrow> u16 \<Rightarrow> u8 list \<Rightarrow> u16 \<Rightarrow> u8 list \<Rightarrow> u16 \<Rightarrow> log_record option" where
  "LogRecord_MakeUpdate lsn page_id slot_id old_data old_len new_data new_len =
     (let payload_size = 2 + old_len + 2 + new_len
      in if unat payload_size < 2 + unat old_len + 2 + unat new_len then None
         else Some \<lparr>lg_header = LogRecordHeader_default\<lparr>lh_type := kUpdate, lh_lsn := lsn, lh_page_id := page_id,
                lh_slot_id := slot_id, lh_payload_size := payload_size,
                lh_total_size := LOG_HEADER_SIZE + ucast payload_size\<rparr>,
              lg_payload = le_bytes 2 old_len @ take (unat old_len) old_data @
                le_bytes 2 new_len @ take (unat new_len) new_data\<rparr>)"

definition LogRecord_MakeNewPage :: "u64 \<Rightarrow> u32 \<Rightarrow> log_record" where
  "LogRecord_MakeNewPage lsn page_id =
     \<lparr>lg_header = LogRecordHeader_default\<lparr>lh_type := kNewPage, lh_lsn := lsn, lh_page_id := page_id, lh_slot_id := 0,
        lh_payload_size := 0, lh_total_size := LOG_HEADER_SIZE\<rparr>,
      lg_payload = []\<rparr>"

definition LogRecord_MakeCheckpointBegin :: "u64 \<Rightarrow> log_record" where
  "LogRecord_MakeCheckpointBegin lsn =
     \<lparr>lg_header = LogRecordHeader_default\<lparr>lh_type := kCheckpointBegin, lh_lsn := lsn, lh_page_id := INVALID_PAGE_ID,
        lh_slot_id := 0, lh_payload_size := 0, lh_total_size := LOG_HEADER_SIZE\<rparr>,
      lg_payload = []\<rparr>"

definition LogRecord_MakeCheckpointEnd :: "u64 \<Rightarrow> (u32 \<times> u64) list \<Rightarrow> log_record option" where
  "LogRecord_MakeCheckpointEnd lsn dirty_pages =
     (let count = of_nat (length dirty_pages) :: u32;
          payload_size = ucast (4 + count * 12) :: u16
      in if unat payload_size < 4 + 12 * length dirty_pages then None
         else Some \<lparr>lg_header = LogRecordHeader_default\<lparr>lh_type := kCheckpointEnd, lh_lsn := lsn,
                lh_page_id := INVALID_PAGE_ID, lh_slot_id := 0, lh_payload_size := payload_size,
                lh_total_size := LOG_HEADER_SIZE + ucast payload_size\<rparr>,
              lg_payload = le_bytes 4 count @
                concat (map (\<lambda>(pid, page_lsn). le_bytes 4 pid @ le_bytes 8 page_lsn) dirty_pages)\<rparr>)"

section \<open>Serialization\<close>

definition log_header_bytes :: "log_header \<Rightarrow> u8 list" where
  "log_header_bytes h =
     le_bytes 4 (lh_total_size h) @ le_bytes 8 (lh_lsn h) @ [lh_type h] @ le_bytes 4 (lh_page_id h) @
     le_bytes 2 (lh_slot_id h) @ le_bytes 2 (lh_payload_size h)"

text \<open>The buffer has \<open>total_size\<close> zero bytes; header and payload are copied to its start.\<close>

definition LogRecord_Serialize :: "log_record \<Rightarrow> u8 list option" where
  "LogRecord_Serialize r =
     (let total = unat (lh_total_size (lg_header r));
          bytes = log_header_bytes (lg_header r) @ lg_payload r
      in if total < length bytes then None else Some (bytes @ replicate (total - length bytes) 0))"

definition LogRecord_Deserialize :: "u8 list \<Rightarrow> log_record option" where
  "LogRecord_Deserialize data =
     (if length data < unat LOG_HEADER_SIZE then None
      else
        let h = \<lparr>lh_total_size = of_le_bytes (take 4 data), lh_lsn = of_le_bytes (take 8 (drop 4 data)),
                 lh_type = data ! 12, lh_page_id = of_le_bytes (take 4 (drop 13 data)),
                 lh_slot_id = of_le_bytes (take 2 (drop 17 data)),
                 lh_payload_size = of_le_bytes (take 2 (drop 19 data))\<rparr>;
            n = unat (lh_payload_size h)
        in Some \<lparr>lg_header = h,
                 lg_payload = (if 0 < n \<and> 21 + n \<le> length data then take n (drop 21 data) else [])\<rparr>)"

section \<open>Access to payloads\<close>

text \<open>The pair of a pointer and a length; \<open>None\<close> where the assertion fails or the length exceeds the payload.\<close>

definition LogRecord_GetInsertData :: "log_record \<Rightarrow> (u8 list \<times> u16) option" where
  "LogRecord_GetInsertData r =
     (if lh_type (lg_header r) \<noteq> kInsert then None else Some (lg_payload r, lh_payload_size (lg_header r)))"

definition LogRecord_GetDeleteData :: "log_record \<Rightarrow> (u8 list \<times> u16) option" where
  "LogRecord_GetDeleteData r =
     (if lh_type (lg_header r) \<noteq> kDelete then None else Some (lg_payload r, lh_payload_size (lg_header r)))"

definition LogRecord_GetUpdateData :: "log_record \<Rightarrow> (u8 list \<times> u16 \<times> u8 list \<times> u16) option" where
  "LogRecord_GetUpdateData r =
     (if lh_type (lg_header r) \<noteq> kUpdate \<or> length (lg_payload r) < 2 then None
      else
        let old_len = of_le_bytes (take 2 (lg_payload r)) :: u16;
            offset = 2 + old_len
        in if length (lg_payload r) < unat offset + 2 then None
           else Some (drop 2 (lg_payload r), old_len, drop (unat offset + 2) (lg_payload r),
                  of_le_bytes (take 2 (drop (unat offset) (lg_payload r)))))"

primrec read_dirty :: "u8 list \<Rightarrow> nat \<Rightarrow> u16 \<Rightarrow> (u32 \<times> u64) list option" where
  "read_dirty payload 0 offset = Some []"
| "read_dirty payload (Suc n) offset =
     (if length payload < unat offset + 12 then None
      else map_option (\<lambda>t. (of_le_bytes (take 4 (drop (unat offset) payload)),
                            of_le_bytes (take 8 (drop (unat (offset + 4)) payload))) # t)
             (read_dirty payload n (offset + 4 + 8)))"

definition LogRecord_GetDirtyPageTable :: "log_record \<Rightarrow> (u32 \<times> u64) list option" where
  "LogRecord_GetDirtyPageTable r =
     (if lh_type (lg_header r) \<noteq> kCheckpointEnd then None
      else if lg_payload r = [] then Some []
      else if length (lg_payload r) < 4 then None
      else read_dirty (lg_payload r) (unat (of_le_bytes (take 4 (lg_payload r)) :: u32)) 4)"

section \<open>Well-formed records\<close>

definition log_ok :: "log_record \<Rightarrow> bool" where
  "log_ok r \<longleftrightarrow>
     unat (lh_total_size (lg_header r)) = 21 + length (lg_payload r) \<and>
     unat (lh_payload_size (lg_header r)) = length (lg_payload r) \<and> lh_type (lg_header r) \<noteq> kInvalid"

text \<open>The bytes of a record in the log file.\<close>

definition log_bytes :: "log_record \<Rightarrow> u8 list" where
  "log_bytes r = log_header_bytes (lg_header r) @ lg_payload r"

lemma length_log_header_bytes [simp]: "length (log_header_bytes h) = 21"
  by (simp add: log_header_bytes_def)

lemma length_log_bytes [simp]: "length (log_bytes r) = 21 + length (lg_payload r)"
  by (simp add: log_bytes_def)

lemma Serialize_ok: "log_ok r \<Longrightarrow> LogRecord_Serialize r = Some (log_bytes r)"
  by (simp add: LogRecord_Serialize_def log_ok_def log_bytes_def)

lemma unat_ucast_16_32: "unat (ucast (n :: u16) :: u32) = unat n"
  by (simp add: unsigned_ucast_eq take_bit_nat_eq_self less_trans [OF unat16_lt])

lemma total_size_16: "unat (LOG_HEADER_SIZE + ucast (n :: u16)) = 21 + unat n"
proof -
  have "unat (LOG_HEADER_SIZE) + unat (ucast n :: u32) < 4294967296"
    using unat16_lt [of n] by (simp add: LOG_HEADER_SIZE_def unat_ucast_16_32 del: unat16_lt)
  then show ?thesis by (simp add: unat32_add unat_ucast_16_32) (simp add: LOG_HEADER_SIZE_def)
qed

lemma Deserialize_log_bytes:
  assumes ok: "log_ok r"
  shows "LogRecord_Deserialize (log_bytes r @ rest) = Some r"
proof -
  obtain h p where r: "r = \<lparr>lg_header = h, lg_payload = p\<rparr>" by (cases r) auto
  let ?d = "log_bytes r @ rest"
  have d: "?d = le_bytes 4 (lh_total_size h) @ le_bytes 8 (lh_lsn h) @ [lh_type h] @ le_bytes 4 (lh_page_id h) @
     le_bytes 2 (lh_slot_id h) @ le_bytes 2 (lh_payload_size h) @ p @ rest"
    by (simp add: log_bytes_def log_header_bytes_def r)
  have "take 4 ?d = le_bytes 4 (lh_total_size h)" "take 8 (drop 4 ?d) = le_bytes 8 (lh_lsn h)" "?d ! 12 = lh_type h"
    "take 4 (drop 13 ?d) = le_bytes 4 (lh_page_id h)" "take 2 (drop 17 ?d) = le_bytes 2 (lh_slot_id h)"
    "take 2 (drop 19 ?d) = le_bytes 2 (lh_payload_size h)" "drop 21 ?d = p @ rest"
    unfolding d by (simp_all add: nth_append)
  moreover have "21 + length p \<le> length ?d" by (simp add: r)
  moreover have "unat (lh_payload_size h) = length p" using ok by (simp add: log_ok_def r)
  ultimately show ?thesis
    unfolding LogRecord_Deserialize_def
    by (cases h) (simp add: r LOG_HEADER_SIZE_def Let_def c16.dec_enc c32.dec_enc c64.dec_enc)
qed

lemma Make_ok:
  "unat len \<le> length data \<Longrightarrow> log_ok (LogRecord_MakeInsert lsn p s data len)"
  "unat len \<le> length data \<Longrightarrow> log_ok (LogRecord_MakeDelete lsn p s data len)"
  "log_ok (LogRecord_MakeNewPage lsn p)" "log_ok (LogRecord_MakeCheckpointBegin lsn)"
  by (simp_all add: log_ok_def LogRecord_MakeInsert_def LogRecord_MakeDelete_def LogRecord_MakeNewPage_def
      LogRecord_MakeCheckpointBegin_def log_types total_size_16)
    (simp_all add: LOG_HEADER_SIZE_def)

lemma MakeUpdate_Some:
  assumes "4 + unat old_len + unat new_len < 65536"
  shows "LogRecord_MakeUpdate lsn p s old_data old_len new_data new_len =
     Some \<lparr>lg_header = LogRecordHeader_default\<lparr>lh_type := kUpdate, lh_lsn := lsn, lh_page_id := p,
                lh_slot_id := s, lh_payload_size := 2 + old_len + 2 + new_len,
                lh_total_size := LOG_HEADER_SIZE + ucast (2 + old_len + 2 + new_len)\<rparr>,
              lg_payload = le_bytes 2 old_len @ take (unat old_len) old_data @
                le_bytes 2 new_len @ take (unat new_len) new_data\<rparr>"
    and "unat (2 + old_len + 2 + new_len) = 4 + unat old_len + unat new_len"
proof -
  show "unat (2 + old_len + 2 + new_len) = 4 + unat old_len + unat new_len"
    using assms by (simp add: unat_word_ariths)
  then show "LogRecord_MakeUpdate lsn p s old_data old_len new_data new_len =
     Some \<lparr>lg_header = LogRecordHeader_default\<lparr>lh_type := kUpdate, lh_lsn := lsn, lh_page_id := p,
                lh_slot_id := s, lh_payload_size := 2 + old_len + 2 + new_len,
                lh_total_size := LOG_HEADER_SIZE + ucast (2 + old_len + 2 + new_len)\<rparr>,
              lg_payload = le_bytes 2 old_len @ take (unat old_len) old_data @
                le_bytes 2 new_len @ take (unat new_len) new_data\<rparr>"
    by (simp add: LogRecord_MakeUpdate_def Let_def)
qed

lemma MakeUpdate_None: "65536 \<le> 4 + unat old_len + unat new_len \<Longrightarrow>
    LogRecord_MakeUpdate lsn p s old_data old_len new_data new_len = None"
  using unat16_lt [of "2 + old_len + 2 + new_len"]
  by (simp add: LogRecord_MakeUpdate_def Let_def del: unat16_lt)

lemma MakeUpdate_ok:
  assumes "LogRecord_MakeUpdate lsn p s old_data old_len new_data new_len = Some r"
    and "unat old_len \<le> length old_data" "unat new_len \<le> length new_data"
  shows "log_ok r"
    and "\<exists>od nd. LogRecord_GetUpdateData r = Some (od, old_len, nd, new_len) \<and>
      take (unat old_len) od = take (unat old_len) old_data \<and> take (unat new_len) nd = take (unat new_len) new_data"
proof -
  have small: "4 + unat old_len + unat new_len < 65536"
    using MakeUpdate_None [of old_len new_len] assms(1) by (metis not_le option.distinct(1))
  note U = MakeUpdate_Some [OF small]
  have r: "r = \<lparr>lg_header = LogRecordHeader_default\<lparr>lh_type := kUpdate, lh_lsn := lsn, lh_page_id := p,
                lh_slot_id := s, lh_payload_size := 2 + old_len + 2 + new_len,
                lh_total_size := LOG_HEADER_SIZE + ucast (2 + old_len + 2 + new_len)\<rparr>,
              lg_payload = le_bytes 2 old_len @ take (unat old_len) old_data @
                le_bytes 2 new_len @ take (unat new_len) new_data\<rparr>"
    using assms(1) U(1) by simp
  have lens: "length (take (unat old_len) old_data) = unat old_len" "length (take (unat new_len) new_data) = unat new_len"
    using assms(2,3) by simp_all
  show "log_ok r"
    unfolding r using U(2) by (simp add: log_ok_def total_size_16 lens log_types del: length_take)
  have o: "unat (2 + old_len) = 2 + unat old_len" using small by (simp add: unat16_add)
  show "\<exists>od nd. LogRecord_GetUpdateData r = Some (od, old_len, nd, new_len) \<and>
      take (unat old_len) od = take (unat old_len) old_data \<and> take (unat new_len) nd = take (unat new_len) new_data"
    unfolding r LogRecord_GetUpdateData_def
    using assms(2,3) by (simp add: log_types o lens Let_def c16.dec_enc del: length_take)
qed

abbreviation dirty_entry :: "u32 \<times> u64 \<Rightarrow> u8 list" where
  "dirty_entry \<equiv> \<lambda>(pid, page_lsn). le_bytes 4 pid @ le_bytes 8 page_lsn"

lemma length_dirty_entries [simp]: "length (concat (map dirty_entry ps)) = 12 * length ps"
  by (induction ps) (auto split: prod.splits)

lemma read_dirty_entries:
  assumes "unat off = length pre" "length pre + 12 * length ps < 65536"
  shows "read_dirty (pre @ concat (map dirty_entry ps)) (length ps) off = Some ps"
  using assms
proof (induction ps arbitrary: pre off)
  case (Cons x ps)
  obtain pid lsn where x: "x = (pid, lsn)" by fastforce
  let ?d = "pre @ concat (map dirty_entry (x # ps))"
  have o4: "unat (off + 4) = length pre + 4" using Cons.prems by (simp add: unat16_add)
  have o12: "unat (off + 4 + 8) = length (pre @ dirty_entry x)" using Cons.prems o4 by (simp add: unat16_add x)
  have "take 4 (drop (unat off) ?d) = le_bytes 4 pid" "take 8 (drop (unat (off + 4)) ?d) = le_bytes 8 lsn"
    using Cons.prems(1) unfolding o4 by (simp_all add: x)
  moreover have "read_dirty ?d (length ps) (off + 4 + 8) = Some ps"
    using Cons.IH [OF o12] Cons.prems(2) by (simp add: x)
  moreover have "\<not> length ?d < unat off + 12" using Cons.prems(1) by (simp add: x)
  ultimately show ?case
    by (simp only: read_dirty.simps list.size add_Suc_right add_0_right if_False option.map c32.dec_enc c64.dec_enc x)
qed simp

lemma MakeCheckpointEnd_ok:
  assumes n: "4 + 12 * length ps < 65536"
  obtains r where "LogRecord_MakeCheckpointEnd lsn ps = Some r" "log_ok r" "LogRecord_GetDirtyPageTable r = Some ps"
proof -
  let ?c = "of_nat (length ps) :: u32" and ?s = "ucast (4 + of_nat (length ps) * 12 :: u32) :: u16"
  have c: "unat ?c = length ps" using n by (simp add: unat32_of_nat)
  have "unat (4 + ?c * 12) = 4 + 12 * length ps" using n c by (simp add: unat_word_ariths)
  then have s: "unat ?s = 4 + 12 * length ps"
    using n by (simp add: unsigned_ucast_eq take_bit_nat_eq_self)
  let ?r = "\<lparr>lg_header = LogRecordHeader_default\<lparr>lh_type := kCheckpointEnd, lh_lsn := lsn, lh_page_id := INVALID_PAGE_ID,
      lh_slot_id := 0, lh_payload_size := ?s, lh_total_size := LOG_HEADER_SIZE + ucast ?s\<rparr>,
    lg_payload = le_bytes 4 ?c @ concat (map dirty_entry ps)\<rparr>"
  have "LogRecord_MakeCheckpointEnd lsn ps = Some ?r"
    using s by (simp add: LogRecord_MakeCheckpointEnd_def Let_def)
  moreover have "log_ok ?r" using s total_size_16 [of ?s] by (simp add: log_ok_def log_types)
  moreover have "LogRecord_GetDirtyPageTable ?r = Some ps"
  proof -
    have four: "unat (4 :: u16) = length (le_bytes 4 ?c)" by simp
    have "read_dirty (le_bytes 4 ?c @ concat (map dirty_entry ps)) (length ps) 4 = Some ps"
      by (rule read_dirty_entries [OF four]) (use n in simp)
    moreover have "le_bytes 4 ?c \<noteq> []"
      by (metis length_le_bytes list.size(3) zero_neq_numeral)
    ultimately show ?thesis
      by (simp add: LogRecord_GetDirtyPageTable_def log_types c32.dec_enc c)
  qed
  ultimately show ?thesis using that by blast
qed

section \<open>Properties\<close>

text \<open>
  C33. What \<open>Serialize\<close> makes of a well-formed log record, \<open>Deserialize\<close> reads back, whatever
  follows it in the buffer; the bytes are as many as \<open>total_size\<close> says.
\<close>

theorem log_record_roundtrip:
  assumes "log_ok r"
  shows "\<exists>bytes. LogRecord_Serialize r = Some bytes \<and> length bytes = unat (lh_total_size (lg_header r)) \<and>
    LogRecord_Deserialize (bytes @ rest) = Some r"
  using Serialize_ok [OF assms] Deserialize_log_bytes [OF assms] assms by (simp add: log_ok_def)

theorem log_record_roundtrip_witness:
  "\<exists>bytes. LogRecord_Serialize (LogRecord_MakeInsert 0 7 2 [1, 2, 3] 3) = Some bytes \<and> length bytes = 24 \<and>
     LogRecord_Deserialize (bytes @ [0]) = Some (LogRecord_MakeInsert 0 7 2 [1, 2, 3] 3)"
  using log_record_roundtrip [OF Make_ok(1) [of 3 "[1, 2, 3]" 0 7 2], of "[0]"] Make_ok(1) [of 3 "[1, 2, 3]" 0 7 2]
  by (auto simp: log_ok_def LogRecord_MakeInsert_def)

text \<open>
  \<open>MakeUpdate\<close> stays inside its payload exactly when both lengths and their prefixes fit
  in 16 bits; then the record is well formed and \<open>GetUpdateData\<close> gives back both versions.
  With longer data it writes past the end of the payload.
\<close>

theorem log_update_payload:
  assumes "unat old_len \<le> length old_data" and "unat new_len \<le> length new_data"
  shows "case LogRecord_MakeUpdate lsn p s old_data old_len new_data new_len of
      None \<Rightarrow> 65536 \<le> 4 + unat old_len + unat new_len
    | Some r \<Rightarrow> 4 + unat old_len + unat new_len < 65536 \<and> log_ok r \<and>
        (\<exists>od nd. LogRecord_GetUpdateData r = Some (od, old_len, nd, new_len) \<and>
          take (unat old_len) od = take (unat old_len) old_data \<and> take (unat new_len) nd = take (unat new_len) new_data)"
proof (cases "LogRecord_MakeUpdate lsn p s old_data old_len new_data new_len")
  case None
  then show ?thesis using MakeUpdate_Some(1) [of old_len new_len] by (metis (no_types, lifting) not_le option.case(1) option.distinct(1))
next
  case (Some r)
  then have "4 + unat old_len + unat new_len < 65536"
    using MakeUpdate_None [of old_len new_len] by (metis not_le option.distinct(1))
  then show ?thesis using MakeUpdate_ok [OF Some assms] Some by simp
qed

theorem log_update_payload_witness:
  "LogRecord_MakeUpdate 0 7 2 (replicate 40000 1) 40000 (replicate 30000 2) 30000 = None \<and>
   LogRecord_MakeUpdate 0 7 2 [1] 1 [2] 1 \<noteq> None"
proof -
  have big: "4 + unat (40000 :: u16) + unat (30000 :: u16) = 70004" and
    small: "4 + unat (1 :: u16) + unat (1 :: u16) = 6" by simp_all
  have "LogRecord_MakeUpdate 0 7 2 (replicate 40000 1) 40000 (replicate 30000 2) 30000 = None"
    using log_update_payload [of 40000 "replicate 40000 1" 30000 "replicate 30000 2" 0 7 2] big
    by (cases "LogRecord_MakeUpdate 0 7 2 (replicate 40000 1) 40000 (replicate 30000 2) 30000") simp_all
  moreover have "LogRecord_MakeUpdate 0 7 2 [1] 1 [2] 1 \<noteq> None"
    using log_update_payload [of 1 "[1]" 1 "[2]" 0 7 2] small
    by (cases "LogRecord_MakeUpdate 0 7 2 [1] 1 [2] 1") simp_all
  ultimately show ?thesis by blast
qed

end
