(* ===== verification/LogManager.thy ===== *)
theory LogManager
  imports LogRecord
begin

text \<open>
  The write-ahead log manager (\<open>include/recovery/log_manager.h\<close>, \<open>src/recovery/log_manager.cpp\<close>): a buffer in
  front of an append-only file, and the iterator that reads the file back. The file that survives
  a crash is \<open>lm_durable\<close> plus any part of what was written since; \<open>lm_io\<close> scripts how many bytes
  the next \<open>pwrite\<close>s manage to write (none left in the script: all of them).
\<close>

section \<open>State\<close>

definition DEFAULT_LOG_BUFFER_SIZE :: u32 where
  "DEFAULT_LOG_BUFFER_SIZE = 65536"

record log_manager =
  lm_file :: file_bytes
  lm_durable :: file_bytes
  lm_next_lsn :: u64
  lm_flushed_lsn :: u64
  lm_buffer :: buf
  lm_buffer_offset :: u32
  lm_io :: "nat list"

definition log_pwrite :: "u8 list \<Rightarrow> nat \<Rightarrow> log_manager \<Rightarrow> nat \<times> log_manager" where
  "log_pwrite bs off m =
     (let (n, io) = (case lm_io m of [] \<Rightarrow> (length bs, []) | k # ks \<Rightarrow> (min k (length bs), ks))
      in (n, m\<lparr>lm_file := pwrite (lm_file m) (take n bs) off, lm_io := io\<rparr>))"

definition log_fsync :: "log_manager \<Rightarrow> log_manager" where
  "log_fsync m = m\<lparr>lm_durable := lm_file m\<rparr>"

section \<open>Operations\<close>

text \<open>The constructor; the argument is the contents of the file, \<open>None\<close> when it cannot be opened.\<close>

definition LogManager_open :: "file_bytes option \<Rightarrow> db_error + log_manager" where
  "LogManager_open file =
     (case file of
        None \<Rightarrow> Inl FailedToOpen
      | Some f \<Rightarrow> Inr \<lparr>lm_file = f, lm_durable = f, lm_next_lsn = of_nat (length f), lm_flushed_lsn = of_nat (length f),
                      lm_buffer = (\<lambda>_. 0), lm_buffer_offset = 0, lm_io = []\<rparr>)"

definition LogManager_FlushBuffer :: "log_manager \<Rightarrow> (db_error + unit) \<times> log_manager" where
  "LogManager_FlushBuffer m =
     (if lm_buffer_offset m = 0 then (Inr (), m)
      else
        let n = unat (lm_buffer_offset m);
            (written, m1) = log_pwrite (buf_read (lm_buffer m) 0 n) (unat (lm_flushed_lsn m)) m
        in if written \<noteq> n then (Inl FailedToFlushLog, m1)
           else (Inr (), m1\<lparr>lm_flushed_lsn := lm_flushed_lsn m1 + ucast (lm_buffer_offset m1), lm_buffer_offset := 0\<rparr>))"

text \<open>What \<open>AppendLogRecord\<close> does after the buffer has been flushed if need be.\<close>

definition append_bytes :: "u8 list \<Rightarrow> u64 \<Rightarrow> log_manager \<Rightarrow> (db_error + u64) \<times> log_manager" where
  "append_bytes bytes assigned_lsn m =
     (let record_size = of_nat (length bytes) :: u32
      in if DEFAULT_LOG_BUFFER_SIZE < record_size
         then let (written, m1) = log_pwrite bytes (unat assigned_lsn) m
              in if written \<noteq> length bytes then (Inl FailedToWriteLargeRecord, m1)
                 else (Inr assigned_lsn, m1\<lparr>lm_flushed_lsn := lm_next_lsn m1\<rparr>)
         else (Inr assigned_lsn,
               m\<lparr>lm_buffer := buf_write (lm_buffer m) (unat (lm_buffer_offset m)) bytes,
                 lm_buffer_offset := lm_buffer_offset m + record_size\<rparr>))"

definition LogManager_AppendLogRecord :: "log_record \<Rightarrow> log_manager \<Rightarrow> ((db_error + u64) \<times> log_manager) option" where
  "LogManager_AppendLogRecord r m =
     (case LogRecord_Serialize r of
        None \<Rightarrow> None
      | Some bytes \<Rightarrow>
          let record_size = of_nat (length bytes) :: u32;
              assigned_lsn = lm_next_lsn m;
              m1 = m\<lparr>lm_next_lsn := lm_next_lsn m + ucast record_size\<rparr>;
              (res, m2) = (if DEFAULT_LOG_BUFFER_SIZE < lm_buffer_offset m1 + record_size
                           then LogManager_FlushBuffer m1 else (Inr (), m1))
          in Some (case res of Inl e \<Rightarrow> (Inl e, m2) | Inr _ \<Rightarrow> append_bytes bytes assigned_lsn m2))"

definition LogManager_Flush :: "log_manager \<Rightarrow> (db_error + unit) \<times> log_manager" where
  "LogManager_Flush m =
     (case (if lm_buffer_offset m > 0 then LogManager_FlushBuffer m else (Inr (), m)) of
        (Inl e, m1) \<Rightarrow> (Inl e, m1)
      | (Inr _, m1) \<Rightarrow> (Inr (), log_fsync m1))"

definition LogManager_FlushUpTo :: "u64 \<Rightarrow> log_manager \<Rightarrow> (db_error + unit) \<times> log_manager" where
  "LogManager_FlushUpTo lsn m =
     (if lm_flushed_lsn m \<le> lsn \<and> lm_buffer_offset m > 0
      then case LogManager_FlushBuffer m of
             (Inl e, m1) \<Rightarrow> (Inl e, m1)
           | (Inr _, m1) \<Rightarrow> (Inr (), log_fsync m1)
      else (Inr (), m))"

definition LogManager_GetLogFileSize :: "log_manager \<Rightarrow> u64" where
  "LogManager_GetLogFileSize m = of_nat (length (lm_file m))"

definition LogManager_Truncate :: "log_manager \<Rightarrow> log_manager" where
  "LogManager_Truncate m =
     m\<lparr>lm_buffer_offset := 0, lm_file := [], lm_next_lsn := 0, lm_flushed_lsn := 0\<rparr>"

text \<open>The destructor; an exception out of it ends the program.\<close>

definition LogManager_close :: "log_manager \<Rightarrow> (db_error + unit) \<times> log_manager" where
  "LogManager_close m = (if lm_buffer_offset m > 0 then LogManager_FlushBuffer m else (Inr (), m))"

section \<open>Iteration\<close>

record log_iter =
  li_file_size :: u64
  li_offset :: u64
  li_current :: log_record
  li_valid :: bool

text \<open>\<open>None\<close>: a total size below the header size makes \<open>Deserialize\<close> read past the end of the buffer.\<close>

definition LogIterator_ReadCurrentRecord :: "file_bytes \<Rightarrow> log_iter \<Rightarrow> log_iter option" where
  "LogIterator_ReadCurrentRecord f it =
     (if li_file_size it \<le> li_offset it then Some (it\<lparr>li_valid := False\<rparr>)
      else
        let bs = pread f 4 (unat (li_offset it));
            total_size = of_le_bytes bs :: u32
        in if length bs \<noteq> 4 \<or> total_size = 0 then Some (it\<lparr>li_valid := False\<rparr>)
           else if li_file_size it < li_offset it + ucast total_size then Some (it\<lparr>li_valid := False\<rparr>)
           else
             let buf = pread f (unat total_size) (unat (li_offset it))
             in if length buf \<noteq> unat total_size then Some (it\<lparr>li_valid := False\<rparr>)
                else map_option (\<lambda>r. it\<lparr>li_current := r, li_valid := lh_type (lg_header r) \<noteq> kInvalid\<rparr>)
                       (LogRecord_Deserialize buf))"

definition LogIterator_new :: "file_bytes \<Rightarrow> u64 \<Rightarrow> log_iter option" where
  "LogIterator_new f file_size =
     (let it = \<lparr>li_file_size = file_size, li_offset = 0, li_current = LogRecord_default, li_valid = False\<rparr>
      in if 0 < file_size then LogIterator_ReadCurrentRecord f it else Some it)"

definition LogIterator_Next :: "file_bytes \<Rightarrow> log_iter \<Rightarrow> log_iter option" where
  "LogIterator_Next f it =
     (if \<not> li_valid it then Some it
      else
        let it1 = it\<lparr>li_offset := li_offset it + ucast (lh_total_size (lg_header (li_current it)))\<rparr>
        in if li_file_size it1 \<le> li_offset it1 then Some (it1\<lparr>li_valid := False\<rparr>)
           else LogIterator_ReadCurrentRecord f it1)"

definition LogManager_Begin :: "log_manager \<Rightarrow> ((db_error + log_iter) \<times> log_manager) option" where
  "LogManager_Begin m =
     (case LogManager_Flush m of
        (Inl e, m1) \<Rightarrow> Some (Inl e, m1)
      | (Inr _, m1) \<Rightarrow>
          map_option (\<lambda>it. (Inr it, m1)) (LogIterator_new (lm_file m1) (LogManager_GetLogFileSize m1)))"

definition LogManager_BeginAt :: "u64 \<Rightarrow> log_manager \<Rightarrow> ((db_error + log_iter) \<times> log_manager) option" where
  "LogManager_BeginAt start_lsn m =
     (case LogManager_Flush m of
        (Inl e, m1) \<Rightarrow> Some (Inl e, m1)
      | (Inr _, m1) \<Rightarrow>
          Option.bind (LogIterator_new (lm_file m1) (LogManager_GetLogFileSize m1))
            (\<lambda>it. map_option (\<lambda>it'. (Inr it', m1))
               (LogIterator_ReadCurrentRecord (lm_file m1) (it\<lparr>li_offset := start_lsn\<rparr>))))"

text \<open>The loop of a client: every record from the iterator on.\<close>

partial_function (option) log_scan :: "file_bytes \<Rightarrow> log_iter \<Rightarrow> log_record list option" where
  "log_scan f it =
     (if \<not> li_valid it then Some []
      else case LogIterator_Next f it of
        None \<Rightarrow> None
      | Some it' \<Rightarrow> Option.bind (log_scan f it') (\<lambda>rs. Some (li_current it # rs)))"

section \<open>The contents of the log\<close>

definition log_contents :: "log_manager \<Rightarrow> u8 list" where
  "log_contents m = lm_file m @ buf_read (lm_buffer m) 0 (unat (lm_buffer_offset m))"

definition log_inv :: "log_manager \<Rightarrow> bool" where
  "log_inv m \<longleftrightarrow>
     unat (lm_next_lsn m) = length (log_contents m) \<and> unat (lm_flushed_lsn m) = length (lm_file m) \<and>
     unat (lm_buffer_offset m) \<le> 65536 \<and> take (length (lm_durable m)) (lm_file m) = lm_durable m"

lemma length_log_contents: "length (log_contents m) = length (lm_file m) + unat (lm_buffer_offset m)"
  by (simp add: log_contents_def)

lemma take_self_length: "take (length xs) ys = xs \<Longrightarrow> length xs \<le> length ys"
  by (metis length_take min.cobounded1)

lemma log_open_inv:
  assumes "length f < 2 ^ 64"
  shows "\<exists>m. LogManager_open (Some f) = Inr m \<and> log_inv m \<and> log_contents m = f \<and> lm_durable m = f \<and> lm_io m = []"
  using assms by (simp add: LogManager_open_def log_inv_def log_contents_def unat64_of_nat)

lemma unat64_add [word_nat]: "unat (a :: u64) + unat b < 2 ^ 64 \<Longrightarrow> unat (a + b) = unat a + unat b"
  by (simp add: unat_word_ariths)

lemma unat_ucast_32_64: "unat (ucast (n :: u32) :: u64) = unat n"
proof -
  have "unat n < 2 ^ 64" using unat32_lt [of n] by (simp del: unat32_lt)
  then show ?thesis by (simp add: unsigned_ucast_eq take_bit_nat_eq_self)
qed

lemma flush_buffer:
  assumes inv: "log_inv m" and io: "lm_io m = []" and size: "length (log_contents m) < 2 ^ 63"
  obtains m' where "LogManager_FlushBuffer m = (Inr (), m')" "log_inv m'" "log_contents m' = log_contents m"
    "lm_file m' = log_contents m" "lm_buffer_offset m' = 0" "lm_io m' = []" "lm_durable m' = lm_durable m"
    "lm_next_lsn m' = lm_next_lsn m"
proof (cases "lm_buffer_offset m = 0")
  case True
  then show ?thesis
    by (intro that [of m]) (use inv io in \<open>simp_all add: LogManager_FlushBuffer_def log_contents_def\<close>)
next
  case False
  let ?n = "unat (lm_buffer_offset m)"
  let ?f = "lm_file m @ buf_read (lm_buffer m) 0 ?n"
  let ?m' = "m\<lparr>lm_file := ?f, lm_flushed_lsn := lm_flushed_lsn m + ucast (lm_buffer_offset m), lm_buffer_offset := 0\<rparr>"
  have fl: "unat (lm_flushed_lsn m) = length (lm_file m)" using inv by (simp add: log_inv_def)
  have "pwrite (lm_file m) (buf_read (lm_buffer m) 0 ?n) (unat (lm_flushed_lsn m)) = ?f"
    unfolding fl by (rule pwrite_at_end)
  then have flush: "LogManager_FlushBuffer m = (Inr (), ?m')"
    using False io by (simp add: LogManager_FlushBuffer_def log_pwrite_def Let_def)
  have "unat (lm_flushed_lsn m + ucast (lm_buffer_offset m)) = length ?f"
    using size fl by (simp add: unat64_add unat_ucast_32_64 length_log_contents)
  moreover have "take (length (lm_durable m)) ?f = lm_durable m"
  proof -
    have d: "take (length (lm_durable m)) (lm_file m) = lm_durable m" using inv by (simp add: log_inv_def)
    then show ?thesis using take_self_length [OF d] by simp
  qed
  moreover have "log_contents ?m' = ?f" "log_contents m = ?f" by (simp_all add: log_contents_def)
  ultimately have "log_inv ?m'" using inv by (simp add: log_inv_def)
  then show ?thesis
    by (intro that [OF flush]) (use io in \<open>simp_all add: log_contents_def\<close>)
qed

text \<open>An append has advanced the LSN; then the buffer is flushed when the record does not fit.\<close>

lemma append_room:
  assumes inv: "log_inv m" and io: "lm_io m = []" and size: "length (log_contents m) < 2 ^ 63"
    and n: "unat n = k" "k \<le> 65556"
  obtains m2 where "(if DEFAULT_LOG_BUFFER_SIZE < lm_buffer_offset m + n
      then LogManager_FlushBuffer (m\<lparr>lm_next_lsn := next\<rparr>) else (Inr (), m\<lparr>lm_next_lsn := next\<rparr>)) = (Inr (), m2)"
    "log_contents m2 = log_contents m" "unat (lm_flushed_lsn m2) = length (lm_file m2)" "lm_io m2 = []"
    "take (length (lm_durable m2)) (lm_file m2) = lm_durable m2" "lm_next_lsn m2 = next" "lm_durable m2 = lm_durable m"
    "unat (lm_buffer_offset m2) + k \<le> 65536 \<or> lm_buffer_offset m2 = 0"
proof -
  have "unat (lm_buffer_offset m) \<le> 65536" using inv by (simp add: log_inv_def)
  then have cmp: "DEFAULT_LOG_BUFFER_SIZE < lm_buffer_offset m + n \<longleftrightarrow> 65536 < unat (lm_buffer_offset m) + k"
    using n by (simp add: DEFAULT_LOG_BUFFER_SIZE_def word_less_nat_alt unat32_add)
  show ?thesis
  proof (cases "65536 < unat (lm_buffer_offset m) + k")
    case True
    obtain m' where F: "LogManager_FlushBuffer m = (Inr (), m')" "log_inv m'" "log_contents m' = log_contents m"
      "lm_file m' = log_contents m" "lm_buffer_offset m' = 0" "lm_io m' = []" "lm_durable m' = lm_durable m"
      "lm_next_lsn m' = lm_next_lsn m"
      by (rule flush_buffer [OF inv io size])
    have "LogManager_FlushBuffer (m\<lparr>lm_next_lsn := next\<rparr>) = (Inr (), m'\<lparr>lm_next_lsn := next\<rparr>)"
      using F(1) by (auto simp: LogManager_FlushBuffer_def log_pwrite_def Let_def io split: if_splits)
    then show ?thesis
      by (intro that [of "m'\<lparr>lm_next_lsn := next\<rparr>"]) (use F True cmp in \<open>simp_all add: log_inv_def log_contents_def\<close>)
  next
    case False
    then show ?thesis
      by (intro that [of "m\<lparr>lm_next_lsn := next\<rparr>"])
        (use cmp inv io in \<open>simp_all add: log_inv_def log_contents_def\<close>)
  qed
qed

text \<open>The bytes then go into the buffer, or into the file when they are more than a buffer.\<close>

lemma append_bytes_step:
  assumes len: "unat (of_nat (length bytes) :: u32) = length bytes" and lsn: "unat lsn = length (log_contents m)"
    and nx: "unat (lm_next_lsn m) = length (log_contents m) + length bytes" and io: "lm_io m = []"
    and fl: "unat (lm_flushed_lsn m) = length (lm_file m)" "take (length (lm_durable m)) (lm_file m) = lm_durable m"
    and off: "unat (lm_buffer_offset m) + length bytes \<le> 65536 \<or> lm_buffer_offset m = 0"
  obtains m' where "append_bytes bytes lsn m = (Inr lsn, m')" "log_inv m'" "lm_io m' = []"
    "log_contents m' = log_contents m @ bytes" "lm_durable m' = lm_durable m"
proof -
  have big: "DEFAULT_LOG_BUFFER_SIZE < (of_nat (length bytes) :: u32) \<longleftrightarrow> 65536 < length bytes"
    using len by (simp add: DEFAULT_LOG_BUFFER_SIZE_def word_less_nat_alt)
  show ?thesis
  proof (cases "65536 < length bytes")
    case True
    then have z: "lm_buffer_offset m = 0" using off by simp
    then have fc: "log_contents m = lm_file m" by (simp add: log_contents_def)
    let ?m' = "m\<lparr>lm_file := lm_file m @ bytes, lm_flushed_lsn := lm_next_lsn m\<rparr>"
    have "append_bytes bytes lsn m = (Inr lsn, ?m')"
      using big True io pwrite_at_end [of "lm_file m" bytes] lsn fc
      by (simp add: append_bytes_def log_pwrite_def Let_def)
    moreover have "log_inv ?m'"
      using nx z fc fl take_self_length [OF fl(2)] by (simp add: log_inv_def log_contents_def)
    ultimately show ?thesis using that [of ?m'] io z by (simp add: log_contents_def)
  next
    case False
    let ?m' = "m\<lparr>lm_buffer := buf_write (lm_buffer m) (unat (lm_buffer_offset m)) bytes,
      lm_buffer_offset := lm_buffer_offset m + of_nat (length bytes)\<rparr>"
    have ap: "append_bytes bytes lsn m = (Inr lsn, ?m')" using big False by (simp add: append_bytes_def Let_def)
    have "unat (lm_buffer_offset m) + length bytes \<le> 65536" using off False by auto
    then have o: "unat (lm_buffer_offset ?m') = unat (lm_buffer_offset m) + length bytes" "unat (lm_buffer_offset ?m') \<le> 65536"
      using len by (simp_all add: unat32_add)
    have c: "log_contents ?m' = log_contents m @ bytes"
      using o(1) by (simp add: log_contents_def buf_read_append)
    then have "log_inv ?m'" using nx o(2) fl by (simp add: log_inv_def)
    then show ?thesis using that [OF ap] c io by simp
  qed
qed

lemma log_append:
  assumes inv: "log_inv m" and io: "lm_io m = []" and r: "log_ok r"
    and size: "length (log_contents m) + length (log_bytes r) < 2 ^ 63"
  obtains lsn m' where "LogManager_AppendLogRecord r m = Some (Inr lsn, m')" "log_inv m'" "lm_io m' = []"
    "log_contents m' = log_contents m @ log_bytes r" "unat lsn = length (log_contents m)"
    "lm_durable m' = lm_durable m"
proof -
  let ?lsn = "lm_next_lsn m" and ?n = "of_nat (length (log_bytes r)) :: u32"
  let ?next = "?lsn + ucast ?n"
  define bytes where "bytes = log_bytes r"
  note th = that [folded bytes_def] and size = size [folded bytes_def]
  have ser: "LogRecord_Serialize r = Some bytes" using Serialize_ok [OF r] by (simp add: bytes_def)
  have small: "length bytes \<le> 65556"
    using r unat16_lt [of "lh_payload_size (lg_header r)"] by (simp add: bytes_def log_ok_def del: unat16_lt)
  then have sz: "unat (of_nat (length bytes) :: u32) = length bytes" by (intro unat32_of_nat) simp
  have lsn: "unat ?lsn = length (log_contents m)" using inv by (simp add: log_inv_def)
  have nx: "unat ?next = length (log_contents m) + length bytes"
    using lsn size sz by (simp add: unat64_add unat_ucast_32_64 bytes_def)
  have "length (log_contents m) < 2 ^ 63" using size by simp
  then obtain m2 where M: "(if DEFAULT_LOG_BUFFER_SIZE < lm_buffer_offset m + of_nat (length bytes)
      then LogManager_FlushBuffer (m\<lparr>lm_next_lsn := ?next\<rparr>) else (Inr (), m\<lparr>lm_next_lsn := ?next\<rparr>)) = (Inr (), m2)"
    "log_contents m2 = log_contents m" "unat (lm_flushed_lsn m2) = length (lm_file m2)" "lm_io m2 = []"
    "take (length (lm_durable m2)) (lm_file m2) = lm_durable m2" "lm_next_lsn m2 = ?next" "lm_durable m2 = lm_durable m"
    "unat (lm_buffer_offset m2) + length bytes \<le> 65536 \<or> lm_buffer_offset m2 = 0"
    by (rule append_room [OF inv io _ sz small])
  obtain m' where A: "append_bytes bytes ?lsn m2 = (Inr ?lsn, m')" "log_inv m'" "lm_io m' = []"
    "log_contents m' = log_contents m2 @ bytes" "lm_durable m' = lm_durable m2"
    by (rule append_bytes_step [OF sz _ _ M(4,3,5,8), of ?lsn]) (use lsn nx M(2,6) in simp_all)
  have "LogManager_AppendLogRecord r m = Some (append_bytes bytes ?lsn m2)"
    using M(1) unfolding LogManager_AppendLogRecord_def ser Let_def by (simp add: bytes_def)
  then show ?thesis using th [OF _ A(2,3) _ lsn] A(1,4,5) M(2,7) by simp
qed

lemma log_flush:
  assumes inv: "log_inv m" and io: "lm_io m = []" and size: "length (log_contents m) < 2 ^ 63"
  obtains m' where "LogManager_Flush m = (Inr (), m')" "log_inv m'" "log_contents m' = log_contents m"
    "lm_file m' = log_contents m" "lm_durable m' = log_contents m" "lm_io m' = []" "lm_buffer_offset m' = 0"
proof -
  obtain m1 where F: "LogManager_FlushBuffer m = (Inr (), m1)" "log_inv m1" "log_contents m1 = log_contents m"
    "lm_file m1 = log_contents m" "lm_buffer_offset m1 = 0" "lm_io m1 = []"
    by (rule flush_buffer [OF inv io size])
  have "LogManager_Flush m = (Inr (), log_fsync m1)"
  proof (cases "lm_buffer_offset m = 0")
    case True
    then have "m1 = m" using F(1) by (simp add: LogManager_FlushBuffer_def)
    then show ?thesis using True by (simp add: LogManager_Flush_def)
  next
    case False
    then have "0 < lm_buffer_offset m" by (simp add: word_gt_0)
    then show ?thesis using F(1) by (simp add: LogManager_Flush_def)
  qed
  moreover have "log_inv (log_fsync m1)" using F(2) by (simp add: log_inv_def log_fsync_def log_contents_def)
  ultimately show ?thesis
    by (intro that [of "log_fsync m1"]) (use F in \<open>simp_all add: log_fsync_def log_contents_def\<close>)
qed

section \<open>Reading the log back\<close>

text \<open>The end of a file that was cut in the middle of a record, or right after one.\<close>

definition torn :: "u8 list \<Rightarrow> bool" where
  "torn tail \<longleftrightarrow> (\<exists>r rest. log_ok r \<and> log_bytes r = tail @ rest \<and> rest \<noteq> [])"

lemma Next_read:
  "li_valid it \<Longrightarrow> LogIterator_Next f it =
     LogIterator_ReadCurrentRecord f
       (it\<lparr>li_offset := li_offset it + ucast (lh_total_size (lg_header (li_current it)))\<rparr>)"
  by (simp add: LogIterator_Next_def LogIterator_ReadCurrentRecord_def Let_def)

lemma log_bytes_total: "take 4 (log_bytes r @ xs) = le_bytes 4 (lh_total_size (lg_header r))"
  by (simp add: log_bytes_def log_header_bytes_def)

lemma read_torn:
  assumes tail: "torn tail" and f: "f = pre @ tail" "unat (li_file_size it) = length f" "unat (li_offset it) = length pre"
    and len: "length f < 2 ^ 63"
  shows "LogIterator_ReadCurrentRecord f it = Some (it\<lparr>li_valid := False\<rparr>)"
proof (cases "length tail < 4")
  case True
  then have "length (pread f 4 (unat (li_offset it))) \<noteq> 4" using f by (simp add: pread_def)
  then show ?thesis by (simp add: LogIterator_ReadCurrentRecord_def Let_def)
next
  case False
  obtain r rest where r: "log_ok r" "log_bytes r = tail @ rest" "rest \<noteq> []" using tail by (auto simp: torn_def)
  have "take 4 tail = take 4 (log_bytes r @ [])" using False r(2) by simp
  then have t: "pread f 4 (unat (li_offset it)) = le_bytes 4 (lh_total_size (lg_header r))"
    unfolding log_bytes_total using f(1,3) by (simp add: pread_def)
  have total: "unat (lh_total_size (lg_header r)) = length tail + length rest"
    using r(1,2) length_log_bytes [of r] by (simp add: log_ok_def)
  have "0 < length rest" using r(3) by simp
  moreover have "unat (li_offset it + ucast (lh_total_size (lg_header r))) =
      length pre + unat (lh_total_size (lg_header r))"
    using f(1,3) len unat32_lt [of "lh_total_size (lg_header r)"]
    by (simp add: unat64_add unat_ucast_32_64 del: unat32_lt)
  ultimately have "li_file_size it < li_offset it + ucast (lh_total_size (lg_header r))"
    using f(1,2) total by (simp add: word_less_nat_alt)
  then show ?thesis using t by (simp add: LogIterator_ReadCurrentRecord_def Let_def c32.dec_enc)
qed

lemma read_record:
  assumes r: "log_ok r" and f: "f = pre @ log_bytes r @ suf" "unat (li_file_size it) = length f"
      "unat (li_offset it) = length pre" and len: "length f < 2 ^ 63"
  shows "LogIterator_ReadCurrentRecord f it = Some (it\<lparr>li_current := r, li_valid := True\<rparr>)"
proof -
  let ?n = "lh_total_size (lg_header r)"
  have n: "unat ?n = length (log_bytes r)" using r by (simp add: log_ok_def)
  have t: "pread f 4 (unat (li_offset it)) = le_bytes 4 ?n"
    using f(1,3) log_bytes_total [of r suf] by (simp add: pread_def)
  have "?n \<noteq> 0" using n by (auto simp: unat_eq_0)
  moreover have "\<not> li_file_size it \<le> li_offset it"
    using f by (simp add: word_le_nat_alt)
  moreover have "unat (li_offset it + ucast ?n) = length pre + unat ?n"
    using f(1,3) len n by (simp add: unat64_add unat_ucast_32_64)
  then have "\<not> li_file_size it < li_offset it + ucast ?n"
    using f(1,2) n by (simp add: word_less_nat_alt)
  moreover have "pread f (unat ?n) (unat (li_offset it)) = log_bytes r"
    using f(1,3) n by (simp add: pread_def)
  moreover have "LogRecord_Deserialize (log_bytes r) = Some r" using Deserialize_log_bytes [OF r, of "[]"] by simp
  ultimately show ?thesis
    using t n r by (simp add: LogIterator_ReadCurrentRecord_def Let_def c32.dec_enc log_ok_def)
qed

abbreviation log_image :: "log_record list \<Rightarrow> u8 list" where
  "log_image rs \<equiv> concat (map log_bytes rs)"

lemma scan_from:
  assumes "\<forall>r\<in>set rs. log_ok r" "torn tail" "f = pre @ log_image rs @ tail" "unat (li_file_size it) = length f"
    "unat (li_offset it) = length pre" "length f < 2 ^ 63"
  shows "\<exists>it'. LogIterator_ReadCurrentRecord f it = Some it' \<and> log_scan f it' = Some rs"
  using assms
proof (induction rs arbitrary: pre it)
  case Nil
  then have "LogIterator_ReadCurrentRecord f it = Some (it\<lparr>li_valid := False\<rparr>)"
    by (intro read_torn [where pre = pre and tail = tail]) simp_all
  then show ?case by (simp add: log_scan.simps)
next
  case (Cons r rs)
  have r: "log_ok r" and rs: "\<forall>r\<in>set rs. log_ok r" using Cons.prems(1) by simp_all
  have f: "f = pre @ log_bytes r @ (log_image rs @ tail)" using Cons.prems(3) by simp
  let ?it = "it\<lparr>li_current := r, li_valid := True\<rparr>"
  have read: "LogIterator_ReadCurrentRecord f it = Some ?it"
    by (rule read_record [OF r f Cons.prems(4-6)])
  let ?it2 = "?it\<lparr>li_offset := li_offset it + ucast (lh_total_size (lg_header r))\<rparr>"
  have f2: "f = (pre @ log_bytes r) @ log_image rs @ tail" using f by simp
  have "unat (lh_total_size (lg_header r)) = length (log_bytes r)" using r by (simp add: log_ok_def)
  then have "unat (li_offset ?it2) = length (pre @ log_bytes r)"
    using Cons.prems(5,6) f by (simp add: unat64_add unat_ucast_32_64 del: length_log_bytes)
  then obtain it' where it': "LogIterator_ReadCurrentRecord f ?it2 = Some it'" "log_scan f it' = Some rs"
    using Cons.IH [OF rs Cons.prems(2) f2, of ?it2] Cons.prems(4,6) by auto
  have "LogIterator_Next f ?it = Some it'" using it'(1) Next_read [of ?it f] by simp
  then have "log_scan f ?it = Some (r # rs)" using it'(2) by (subst log_scan.simps) simp
  then show ?case using read by blast
qed

lemma torn_Nil: "torn []"
proof -
  have "log_ok (LogRecord_MakeNewPage 0 0)" by (rule Make_ok)
  moreover have "log_bytes (LogRecord_MakeNewPage 0 0) \<noteq> []"
    by (metis length_log_bytes add_is_0 list.size(3) zero_neq_numeral)
  ultimately show ?thesis by (auto simp: torn_def)
qed

text \<open>A prefix of the image of a log is some of its records and a torn tail.\<close>

lemma log_image_prefix:
  assumes "\<forall>r\<in>set rs. log_ok r" "n \<le> length (log_image rs)"
  shows "\<exists>j tail. j \<le> length rs \<and> take n (log_image rs) = log_image (take j rs) @ tail \<and> torn tail \<and>
    (j < length rs \<longrightarrow> n < length (log_image (take (Suc j) rs)))"
  using assms
proof (induction rs arbitrary: n)
  case Nil
  then show ?case using torn_Nil by auto
next
  case (Cons r rs)
  have r: "log_ok r" and rs: "\<forall>r\<in>set rs. log_ok r" using Cons.prems(1) by simp_all
  show ?case
  proof (cases "n < length (log_bytes r)")
    case True
    have "torn (take n (log_bytes r))"
      unfolding torn_def using r True by (intro exI [of _ r] exI [of _ "drop n (log_bytes r)"]) simp
    then show ?thesis
      using True by (intro exI [of _ 0] exI [of _ "take n (log_bytes r)"]) (simp del: length_log_bytes)
  next
    case False
    let ?k = "n - length (log_bytes r)"
    have "?k \<le> length (log_image rs)" using Cons.prems(2) by simp
    then obtain j tail where J: "j \<le> length rs" "take ?k (log_image rs) = log_image (take j rs) @ tail" "torn tail"
      "j < length rs \<longrightarrow> ?k < length (log_image (take (Suc j) rs))"
      using Cons.IH [OF rs] by blast
    have "take n (log_image (r # rs)) = log_image (take (Suc j) (r # rs)) @ tail"
      using False J(2) by (simp del: length_log_bytes)
    moreover have "Suc j < length (r # rs) \<longrightarrow> n < length (log_image (take (Suc (Suc j)) (r # rs)))"
      using False J(4) by (simp del: length_log_bytes take_Suc_Cons add: take_Suc_Cons [of "Suc j"]) linarith
    ultimately show ?thesis using J(1,3) by (intro exI [of _ "Suc j"] exI [of _ tail]) simp
  qed
qed

lemma begin_scan:
  assumes "\<forall>r\<in>set rs. log_ok r" "torn tail" "f = log_image rs @ tail" "length f < 2 ^ 63"
  shows "\<exists>it. LogIterator_new f (of_nat (length f)) = Some it \<and> log_scan f it = Some rs"
proof -
  have n: "unat (of_nat (length f) :: u64) = length f" using assms(4) by (intro unat64_of_nat) simp
  show ?thesis
  proof (cases "f = []")
    case True
    have "rs = []"
    proof (rule ccontr)
      assume "rs \<noteq> []"
      then have "length (log_image rs) \<noteq> 0" by (cases rs) simp_all
      then show False using True assms(3) by simp
    qed
    then show ?thesis using True by (simp add: LogIterator_new_def log_scan.simps)
  next
    case False
    then have "0 < length f" by simp
    then have pos: "0 < (of_nat (length f) :: u64)" using n by (simp add: word_less_nat_alt)
    let ?it = "\<lparr>li_file_size = of_nat (length f), li_offset = 0, li_current = LogRecord_default, li_valid = False\<rparr>"
    have "f = [] @ log_image rs @ tail" "unat (li_file_size ?it) = length f" "unat (li_offset ?it) = length ([] :: u8 list)"
      using assms(3) n by simp_all
    then obtain it' where "LogIterator_ReadCurrentRecord f ?it = Some it'" "log_scan f it' = Some rs"
      using scan_from [OF assms(1,2) _ _ _ assms(4)] by blast
    then show ?thesis using pos by (simp add: LogIterator_new_def Let_def)
  qed
qed

section \<open>Sequences of operations\<close>

datatype log_op = LAppend log_record | LFlush | LFlushUpTo u64

fun log_exec :: "log_op \<Rightarrow> log_manager \<Rightarrow> log_manager option" where
  "log_exec (LAppend r) m = map_option snd (LogManager_AppendLogRecord r m)"
| "log_exec LFlush m = Some (snd (LogManager_Flush m))"
| "log_exec (LFlushUpTo lsn) m = Some (snd (LogManager_FlushUpTo lsn m))"

fun log_run :: "log_op list \<Rightarrow> log_manager \<Rightarrow> log_manager option" where
  "log_run [] m = Some m"
| "log_run (c # cs) m = Option.bind (log_exec c m) (log_run cs)"

definition appended_records :: "log_op list \<Rightarrow> log_record list" where
  "appended_records cs = List.map_filter (\<lambda>c. case c of LAppend r \<Rightarrow> Some r | _ \<Rightarrow> None) cs"

lemma appended_records_simps [simp]:
  "appended_records [] = []" "appended_records (LAppend r # cs) = r # appended_records cs"
  "appended_records (LFlush # cs) = appended_records cs" "appended_records (LFlushUpTo l # cs) = appended_records cs"
  by (simp_all add: appended_records_def map_filter_simps)

lemma log_flush_up_to:
  assumes inv: "log_inv m" and io: "lm_io m = []" and size: "length (log_contents m) < 2 ^ 63"
  obtains m' where "LogManager_FlushUpTo lsn m = (Inr (), m')" "log_inv m'" "log_contents m' = log_contents m"
    "lm_io m' = []" "length (lm_durable m) \<le> length (lm_durable m')"
proof (cases "lm_flushed_lsn m \<le> lsn \<and> lm_buffer_offset m > 0")
  case True
  obtain m1 where F: "LogManager_FlushBuffer m = (Inr (), m1)" "log_inv m1" "log_contents m1 = log_contents m"
    "lm_file m1 = log_contents m" "lm_io m1 = []" "lm_buffer_offset m1 = 0"
    by (rule flush_buffer [OF inv io size])
  have d: "length (lm_durable m) \<le> length (lm_file m)" using inv take_self_length by (auto simp: log_inv_def)
  show ?thesis
    by (intro that [of "log_fsync m1"])
      (use True F d in \<open>simp_all add: LogManager_FlushUpTo_def log_fsync_def log_inv_def log_contents_def\<close>)
next
  case False
  then show ?thesis by (intro that [of m]) (use inv io in \<open>auto simp: LogManager_FlushUpTo_def\<close>)
qed

lemma log_run_contents:
  assumes "log_inv m" "lm_io m = []" "\<forall>r\<in>set (appended_records cs). log_ok r"
    "length (log_contents m) + length (log_image (appended_records cs)) < 2 ^ 63"
  shows "\<exists>m'. log_run cs m = Some m' \<and> log_inv m' \<and> lm_io m' = [] \<and>
    log_contents m' = log_contents m @ log_image (appended_records cs) \<and> length (lm_durable m) \<le> length (lm_durable m')"
  using assms
proof (induction cs arbitrary: m)
  case (Cons c cs)
  have size: "length (log_contents m) < 2 ^ 63" using Cons.prems(4) by simp
  show ?case
  proof (cases c)
    case (LAppend r)
    have ok: "log_ok r" and sz: "length (log_contents m) + length (log_bytes r) < 2 ^ 63"
      using Cons.prems(3,4) LAppend by simp_all
    obtain lsn m1 where A: "LogManager_AppendLogRecord r m = Some (Inr lsn, m1)" "log_inv m1" "lm_io m1 = []"
      "log_contents m1 = log_contents m @ log_bytes r" "lm_durable m1 = lm_durable m"
      by (rule log_append [OF Cons.prems(1,2) ok sz])
    then show ?thesis using Cons.IH [OF A(2,3)] Cons.prems(3,4) LAppend by (simp del: length_log_bytes)
  next
    case LFlush
    obtain m1 where A: "LogManager_Flush m = (Inr (), m1)" "log_inv m1" "log_contents m1 = log_contents m"
      "lm_durable m1 = log_contents m" "lm_io m1 = []"
      by (rule log_flush [OF Cons.prems(1,2) size])
    have "length (lm_durable m) \<le> length (lm_durable m1)"
      using Cons.prems(1) take_self_length [of "lm_durable m" "lm_file m"] A(4) by (simp add: log_inv_def length_log_contents)
    then show ?thesis using Cons.IH [OF A(2,5)] Cons.prems(3,4) A LFlush by fastforce
  next
    case (LFlushUpTo lsn)
    obtain m1 where A: "LogManager_FlushUpTo lsn m = (Inr (), m1)" "log_inv m1" "log_contents m1 = log_contents m"
      "lm_io m1 = []" "length (lm_durable m) \<le> length (lm_durable m1)"
      by (rule log_flush_up_to [OF Cons.prems(1,2) size])
    then show ?thesis using Cons.IH [OF A(2,4)] Cons.prems(3,4) LFlushUpTo by fastforce
  qed
qed simp

section \<open>Properties\<close>

text \<open>
  \<open>AppendLogRecord\<close> of a well-formed record adds exactly its bytes to the log (file and buffer
  together), whichever of its three paths it takes, and returns the byte offset of the record.
\<close>

theorem log_append_correct:
  assumes "log_inv m" and "lm_io m = []" and "log_ok r"
    and "length (log_contents m) + length (log_bytes r) < 2 ^ 63"
  shows "\<exists>lsn m'. LogManager_AppendLogRecord r m = Some (Inr lsn, m') \<and> log_inv m' \<and>
    log_contents m' = log_contents m @ log_bytes r \<and> unat lsn = length (log_contents m)"
  by (rule log_append [OF assms]) blast

theorem log_append_correct_witness:
  "\<exists>m lsn m'. LogManager_open (Some []) = Inr m \<and>
     LogManager_AppendLogRecord (LogRecord_MakeNewPage 0 7) m = Some (Inr lsn, m') \<and> lsn = 0 \<and>
     length (log_contents m') = 21"
proof -
  obtain m where m: "LogManager_open (Some []) = Inr m" "log_inv m" "log_contents m = []" "lm_io m = []"
    using log_open_inv [of "[]"] by auto
  have "length (log_contents m) + length (log_bytes (LogRecord_MakeNewPage 0 7)) < 2 ^ 63"
    using m(3) by (simp add: LogRecord_MakeNewPage_def)
  then obtain lsn m' where "LogManager_AppendLogRecord (LogRecord_MakeNewPage 0 7) m = Some (Inr lsn, m')"
    "log_contents m' = log_contents m @ log_bytes (LogRecord_MakeNewPage 0 7)" "unat lsn = length (log_contents m)"
    using log_append_correct [OF m(2,4) Make_ok(3)] by blast
  then show ?thesis using m(1,3) by (auto simp: LogRecord_MakeNewPage_def unat_eq_0)
qed

text \<open>
  C10. After any sequence of appends and flushes and a crash that keeps at least the synced part of the
  file, opening and scanning the log ends and returns the first records appended, in order and unchanged:
  all that lie within what survived, and nothing of a record that was cut.
\<close>

theorem log_crash_recovers_prefix:
  assumes "LogManager_open (Some []) = Inr m" and "\<forall>r\<in>set (appended_records cs). log_ok r"
    and "length (log_image (appended_records cs)) < 2 ^ 63"
    and "log_run cs m = Some m'" and "length (lm_durable m') \<le> n" and "n \<le> length (log_contents m')"
  shows "\<exists>m2 it j. LogManager_open (Some (take n (log_contents m'))) = Inr m2 \<and>
    LogManager_Begin m2 = Some (Inr it, m2) \<and>
    log_scan (lm_file m2) it = Some (take j (appended_records cs)) \<and> j \<le> length (appended_records cs) \<and>
    length (log_image (take j (appended_records cs))) \<le> n \<and>
    (j < length (appended_records cs) \<longrightarrow> n < length (log_image (take (Suc j) (appended_records cs))))"
proof -
  let ?rs = "appended_records cs"
  have m: "log_inv m" "log_contents m = []" "lm_io m = []"
    using log_open_inv [of "[]"] assms(1) by auto
  have c: "log_contents m' = log_image ?rs"
    using log_run_contents [OF m(1,3) assms(2)] assms(3,4) m(2) by simp
  let ?f = "take n (log_image ?rs)"
  have nle: "n \<le> length (log_image ?rs)" using assms(6) c by simp
  obtain j tail where J: "j \<le> length ?rs" "?f = log_image (take j ?rs) @ tail" "torn tail"
    "j < length ?rs \<longrightarrow> n < length (log_image (take (Suc j) ?rs))"
    using log_image_prefix [OF assms(2) nle] by blast
  have f: "length ?f < 2 ^ 63" using assms(3) by simp
  obtain m2 where m2: "LogManager_open (Some ?f) = Inr m2" "lm_file m2 = ?f" "lm_durable m2 = ?f"
    "lm_buffer_offset m2 = 0"
    by (simp add: LogManager_open_def)
  have rs: "\<forall>r\<in>set (take j ?rs). log_ok r" using assms(2) by (meson in_set_takeD)
  obtain it where it: "LogIterator_new ?f (of_nat (length ?f)) = Some it" "log_scan ?f it = Some (take j ?rs)"
    using begin_scan [OF rs J(3,2) f] by blast
  have "LogManager_Begin m2 = Some (Inr it, m2)"
    using it(1) m2 by (simp add: LogManager_Begin_def LogManager_Flush_def LogManager_GetLogFileSize_def log_fsync_def)
  moreover have "length (log_image (take j ?rs)) \<le> n"
    using arg_cong [OF J(2), of length] nle by simp
  ultimately show ?thesis using m2(1,2) it(2) J(1,4) c by metis
qed

text \<open>A log of one record that was flushed and one that was not, cut in the second.\<close>

theorem log_crash_recovers_prefix_witness:
  "\<exists>m m' m2 it. LogManager_open (Some []) = Inr m \<and>
     log_run [LAppend (LogRecord_MakeNewPage 0 7), LFlush, LAppend (LogRecord_MakeNewPage 0 8)] m = Some m' \<and>
     LogManager_open (Some (take 30 (log_contents m'))) = Inr m2 \<and> LogManager_Begin m2 = Some (Inr it, m2) \<and>
     log_scan (lm_file m2) it = Some [LogRecord_MakeNewPage 0 7]"
proof -
  let ?a = "LogRecord_MakeNewPage 0 7" and ?b = "LogRecord_MakeNewPage 0 8"
  let ?cs = "[LAppend ?a, LFlush, LAppend ?b]"
  obtain m where m: "LogManager_open (Some []) = Inr m" "log_inv m" "log_contents m = []" "lm_io m = []" "lm_durable m = []"
    using log_open_inv [of "[]"] by auto
  have len: "length (log_bytes ?a) = 21" "length (log_bytes ?b) = 21" by (simp_all add: LogRecord_MakeNewPage_def)
  obtain m' where m': "log_run ?cs m = Some m'" "log_contents m' = log_bytes ?a @ log_bytes ?b"
    using log_run_contents [OF m(2,4), of ?cs] m(3) len Make_ok(3) by auto
  have d: "length (lm_durable m') \<le> 30"
  proof -
    obtain l1 m1 where A: "LogManager_AppendLogRecord ?a m = Some (Inr l1, m1)" "log_inv m1" "lm_io m1 = []"
      "log_contents m1 = log_bytes ?a"
      by (rule log_append [OF m(2,4) Make_ok(3) [of 0 7]]) (use m(3) len in simp_all)
    obtain m2 where B: "LogManager_Flush m1 = (Inr (), m2)" "log_inv m2" "log_contents m2 = log_bytes ?a"
      "lm_durable m2 = log_bytes ?a" "lm_io m2 = []"
      by (rule log_flush [OF A(2,3)]) (use A(4) len in simp_all)
    obtain l3 m3 where "LogManager_AppendLogRecord ?b m2 = Some (Inr l3, m3)" "lm_durable m3 = log_bytes ?a"
      by (rule log_append [OF B(2,5) Make_ok(3) [of 0 8]]) (use B(3,4) len in simp_all)
    then show ?thesis using m'(1) A(1) B(1) len by simp
  qed
  obtain m2 it j where R: "LogManager_open (Some (take 30 (log_contents m'))) = Inr m2"
    "LogManager_Begin m2 = Some (Inr it, m2)" "log_scan (lm_file m2) it = Some (take j [?a, ?b])" "j \<le> 2"
    "length (log_image (take j [?a, ?b])) \<le> 30" "j < 2 \<longrightarrow> 30 < length (log_image (take (Suc j) [?a, ?b]))"
    using log_crash_recovers_prefix [OF m(1) _ _ m'(1) d] m'(2) len Make_ok(3) by auto
  have "j = 1"
  proof -
    have "j = 0 \<or> j = 1 \<or> j = 2" using R(4) by auto
    then show ?thesis using R(5,6) len by (auto simp del: length_log_bytes simp: numeral_2_eq_2)
  qed
  then show ?thesis using R(1-3) m(1) m'(1) by auto
qed

end
