(* ===== verification/DiskManager.thy ===== *)
theory DiskManager
  imports Page
begin

text \<open>
  The disk manager of \<open>include/disk/disk_manager.h\<close> and \<open>src/disk/disk_manager.cpp\<close>: page I/O on
  the database file, the header in page 0 and the free list threaded through deallocated pages.
  The state holds the open file, what of it an \<open>fsync\<close> has made durable, the cached header and
  the counters. \<open>dm_io\<close> is the outcome of the system calls to come: each \<open>pread\<close> or \<open>pwrite\<close>
  takes one entry, \<open>False\<close> makes it fail (nothing is transferred), and an exhausted list means
  that all further calls succeed.
\<close>

section \<open>State\<close>

record database_header =
  dh_magic :: u32
  dh_version :: u32
  dh_page_count :: u32
  dh_free_list_head :: u32
  dh_free_page_count :: u32

definition DatabaseHeader_MAGIC :: u32 where
  "DatabaseHeader_MAGIC = 0x434F5552"

definition DatabaseHeader_VERSION :: u32 where
  "DatabaseHeader_VERSION = 1"

definition DatabaseHeader_default :: database_header where
  "DatabaseHeader_default =
     \<lparr>dh_magic = DatabaseHeader_MAGIC, dh_version = DatabaseHeader_VERSION, dh_page_count = 1,
      dh_free_list_head = INVALID_PAGE_ID, dh_free_page_count = 0\<rparr>"

record disk =
  dm_file :: file_bytes
  dm_durable :: file_bytes
  dm_is_open :: bool
  dm_header :: database_header
  dm_num_writes :: u32
  dm_num_reads :: u32
  dm_io :: "bool list"

section \<open>System calls\<close>

definition os_pread :: "nat \<Rightarrow> nat \<Rightarrow> disk \<Rightarrow> u8 list \<times> disk" where
  "os_pread n off d =
     (case dm_io d of
        [] \<Rightarrow> (pread (dm_file d) n off, d)
      | ok # io \<Rightarrow> (if ok then pread (dm_file d) n off else [], d\<lparr>dm_io := io\<rparr>))"

definition os_pwrite :: "u8 list \<Rightarrow> nat \<Rightarrow> disk \<Rightarrow> nat \<times> disk" where
  "os_pwrite bs off d =
     (case dm_io d of
        [] \<Rightarrow> (length bs, d\<lparr>dm_file := pwrite (dm_file d) bs off\<rparr>)
      | ok # io \<Rightarrow> (if ok then (length bs, d\<lparr>dm_io := io, dm_file := pwrite (dm_file d) bs off\<rparr>)
                    else (0, d\<lparr>dm_io := io\<rparr>)))"

definition os_fsync :: "disk \<Rightarrow> disk" where
  "os_fsync d = d\<lparr>dm_durable := dm_file d\<rparr>"

section \<open>Page I/O\<close>

definition PageOffset :: "u32 \<Rightarrow> u64" where
  "PageOffset page_id = ucast page_id * of_nat PAGE_SIZE"

definition DiskManager_ReadPage :: "u32 \<Rightarrow> buf \<Rightarrow> disk \<Rightarrow> bool \<times> buf \<times> disk" where
  "DiskManager_ReadPage page_id buffer d =
     (if dh_page_count (dm_header d) \<le> page_id then (False, buffer, d)
      else
        let (bs, d1) = os_pread PAGE_SIZE (unat (PageOffset page_id)) d;
            buffer' = buf_write buffer 0 bs
        in if length bs \<noteq> PAGE_SIZE then (False, buffer', d1)
           else (True, buffer', d1\<lparr>dm_num_reads := dm_num_reads d1 + 1\<rparr>))"

definition DiskManager_WritePage :: "u32 \<Rightarrow> buf \<Rightarrow> disk \<Rightarrow> bool \<times> disk" where
  "DiskManager_WritePage page_id buffer d =
     (if dh_page_count (dm_header d) \<le> page_id then (False, d)
      else
        let (written, d1) = os_pwrite (buf_read buffer 0 PAGE_SIZE) (unat (PageOffset page_id)) d
        in if written \<noteq> PAGE_SIZE then (False, d1)
           else (True, d1\<lparr>dm_num_writes := dm_num_writes d1 + 1\<rparr>))"

section \<open>The header page\<close>

definition header_buffer :: "database_header \<Rightarrow> buf" where
  "header_buffer h =
     put32 (put32 (put32 (put32 (put32 (\<lambda>_. 0) 0 (dh_magic h)) 4 (dh_version h)) 8 (dh_page_count h))
       12 (dh_free_list_head h)) 16 (dh_free_page_count h)"

definition header_of_buffer :: "buf \<Rightarrow> database_header" where
  "header_of_buffer b =
     \<lparr>dh_magic = get32 b 0, dh_version = get32 b 4, dh_page_count = get32 b 8,
      dh_free_list_head = get32 b 12, dh_free_page_count = get32 b 16\<rparr>"

definition DiskManager_WriteHeader :: "disk \<Rightarrow> (db_error + unit) \<times> disk" where
  "DiskManager_WriteHeader d =
     (let (written, d1) = os_pwrite (buf_read (header_buffer (dm_header d)) 0 PAGE_SIZE) 0 d
      in if written \<noteq> PAGE_SIZE then (Inl FailedToWriteHeader, d1) else (Inr (), d1))"

definition DiskManager_ReadHeader :: "disk \<Rightarrow> (db_error + unit) \<times> disk" where
  "DiskManager_ReadHeader d =
     (let (bs, d1) = os_pread PAGE_SIZE 0 d
      in if length bs \<noteq> PAGE_SIZE then (Inl FailedToReadHeader, d1)
         else (Inr (), d1\<lparr>dm_header := header_of_buffer (buf_write (\<lambda>_. 0) 0 bs)\<rparr>))"

definition DiskManager_InitializeNewFile :: "disk \<Rightarrow> (db_error + unit) \<times> disk" where
  "DiskManager_InitializeNewFile d = DiskManager_WriteHeader (d\<lparr>dm_header := DatabaseHeader_default\<rparr>)"

section \<open>Construction and destruction\<close>

text \<open>
  What \<open>::open\<close> finds: the file, no file (and whether it can be created), or another error.
\<close>

datatype open_outcome = Exists file_bytes | Enoent bool | OpenError

definition disk_of_file :: "file_bytes \<Rightarrow> bool list \<Rightarrow> disk" where
  "disk_of_file f io =
     \<lparr>dm_file = f, dm_durable = f, dm_is_open = True, dm_header = DatabaseHeader_default,
      dm_num_writes = 0, dm_num_reads = 0, dm_io = io\<rparr>"

definition DiskManager_open :: "open_outcome \<Rightarrow> bool list \<Rightarrow> db_error + disk" where
  "DiskManager_open res io =
     (case res of
        OpenError \<Rightarrow> Inl FailedToOpen
      | Enoent False \<Rightarrow> Inl FailedToOpen
      | Enoent True \<Rightarrow>
          (case DiskManager_InitializeNewFile (disk_of_file [] io) of
             (Inl e, _) \<Rightarrow> Inl e | (Inr _, d) \<Rightarrow> Inr d)
      | Exists f \<Rightarrow>
          (case DiskManager_ReadHeader (disk_of_file f io) of
             (Inl e, _) \<Rightarrow> Inl e
           | (Inr _, d) \<Rightarrow>
               if dh_magic (dm_header d) \<noteq> DatabaseHeader_MAGIC then Inl BadMagic else Inr d))"

text \<open>An error here leaves a destructor, which terminates the program.\<close>

definition DiskManager_close :: "disk \<Rightarrow> (db_error + unit) \<times> disk" where
  "DiskManager_close d =
     (if dm_is_open d then
        (case DiskManager_WriteHeader d of
           (Inl e, d1) \<Rightarrow> (Inl e, d1)
         | (Inr _, d1) \<Rightarrow> (Inr (), (os_fsync d1)\<lparr>dm_is_open := False\<rparr>))
      else (Inr (), d))"

definition DiskManager_Flush :: "disk \<Rightarrow> disk" where
  "DiskManager_Flush d = (if dm_is_open d then os_fsync d else d)"

section \<open>Allocation\<close>

definition DiskManager_AllocatePage :: "disk \<Rightarrow> (db_error + u32) \<times> disk" where
  "DiskManager_AllocatePage d =
     (let h = dm_header d;
          (r, d') =
            (if dh_free_list_head h \<noteq> INVALID_PAGE_ID then
               let new_page_id = dh_free_list_head h;
                   (ok, buffer, d1) = DiskManager_ReadPage new_page_id (\<lambda>_. 0) d;
                   d2 = (if ok then d1\<lparr>dm_header := (dm_header d1)
                             \<lparr>dh_free_list_head := get32 buffer 0,
                              dh_free_page_count := dh_free_page_count (dm_header d1) - 1\<rparr>\<rparr>
                         else d1);
                   (_, d3) = DiskManager_WritePage new_page_id (\<lambda>_. 0) d2
               in (Inr new_page_id, d3)
             else
               let new_page_id = dh_page_count h;
                   d1 = d\<lparr>dm_header := h\<lparr>dh_page_count := dh_page_count h + 1\<rparr>\<rparr>;
                   (written, d2) = os_pwrite (replicate PAGE_SIZE 0) (unat (PageOffset new_page_id)) d1
               in if written \<noteq> PAGE_SIZE
                  then (Inl FailedToExtend,
                        d2\<lparr>dm_header := (dm_header d2)\<lparr>dh_page_count := dh_page_count (dm_header d2) - 1\<rparr>\<rparr>)
                  else (Inr new_page_id, d2))
      in case r of
           Inl e \<Rightarrow> (Inl e, d')
         | Inr new_page_id \<Rightarrow>
             (case DiskManager_WriteHeader d' of
                (Inl e, d'') \<Rightarrow> (Inl e, d'') | (Inr _, d'') \<Rightarrow> (Inr new_page_id, d'')))"

definition DiskManager_DeallocatePage :: "u32 \<Rightarrow> disk \<Rightarrow> (db_error + bool) \<times> disk" where
  "DiskManager_DeallocatePage page_id d =
     (if page_id = 0 \<or> dh_page_count (dm_header d) \<le> page_id then (Inr False, d)
      else
        let buffer = put32 (\<lambda>_. 0) 0 (dh_free_list_head (dm_header d));
            (ok, d1) = DiskManager_WritePage page_id buffer d
        in if \<not> ok then (Inr False, d1)
           else
             let d2 = d1\<lparr>dm_header := (dm_header d1)
                        \<lparr>dh_free_list_head := page_id,
                         dh_free_page_count := dh_free_page_count (dm_header d1) + 1\<rparr>\<rparr>
             in case DiskManager_WriteHeader d2 of
                  (Inl e, d3) \<Rightarrow> (Inl e, d3) | (Inr _, d3) \<Rightarrow> (Inr True, d3))"

section \<open>Accessors\<close>

definition DiskManager_GetPageCount :: "disk \<Rightarrow> u32" where
  "DiskManager_GetPageCount d = dh_page_count (dm_header d)"

definition DiskManager_GetFreePageCount :: "disk \<Rightarrow> u32" where
  "DiskManager_GetFreePageCount d = dh_free_page_count (dm_header d)"

definition DiskManager_GetFileSize :: "disk \<Rightarrow> u64" where
  "DiskManager_GetFileSize d = of_nat (length (dm_file d))"

section \<open>Pages of the file\<close>

definition file_page :: "file_bytes \<Rightarrow> u32 \<Rightarrow> u8 list" where
  "file_page f p = pread f PAGE_SIZE (unat p * PAGE_SIZE)"

abbreviation disk_page :: "disk \<Rightarrow> u32 \<Rightarrow> u8 list" where
  "disk_page d p \<equiv> file_page (dm_file d) p"

lemma unat_PageOffset [simp]: "unat (PageOffset p) = unat p * PAGE_SIZE"
proof -
  have "unat (ucast p :: u64) = unat p"
    using unat32_lt [of p] by (simp add: unsigned_ucast_eq take_bit_nat_eq_self_iff [THEN iffD2] del: unat32_lt)
  then show ?thesis
    using unat32_lt [of p] by (simp add: PageOffset_def PAGE_SIZE_def unat_word_ariths del: unat32_lt)
qed

lemma page_slot_disjoint:
  "p \<noteq> q \<Longrightarrow> unat q * PAGE_SIZE + PAGE_SIZE \<le> unat p * PAGE_SIZE \<or>
     unat p * PAGE_SIZE + PAGE_SIZE \<le> unat q * PAGE_SIZE" for p q :: u32
proof -
  assume "p \<noteq> q"
  then have "Suc (unat q) \<le> unat p \<or> Suc (unat p) \<le> unat q"
    by (metis Suc_leI nat_neq_iff word_unat_eq_iff)
  then show ?thesis
    by (metis add.commute mult_Suc mult_le_mono1)
qed

lemma page_end_le: "unat p < n \<Longrightarrow> unat p * PAGE_SIZE + PAGE_SIZE \<le> n * PAGE_SIZE"
  by (metis Suc_leI add.commute mult_Suc mult_le_mono1)

lemma length_file_page [simp]:
  "unat p < n \<Longrightarrow> n * PAGE_SIZE \<le> length f \<Longrightarrow> length (file_page f p) = PAGE_SIZE"
  using page_end_le [of p n] by (simp add: file_page_def length_pread)

lemma file_page_write_same:
  "length bs = PAGE_SIZE \<Longrightarrow> file_page (pwrite f bs (unat p * PAGE_SIZE)) p = bs"
  by (simp add: file_page_def pread_pwrite_same)

lemma file_page_write_other:
  assumes "p \<noteq> q" "length bs = PAGE_SIZE" "unat q < n" "n * PAGE_SIZE \<le> length f"
  shows "file_page (pwrite f bs (unat p * PAGE_SIZE)) q = file_page f q"
  unfolding file_page_def
  using page_slot_disjoint [OF assms(1)] page_end_le [OF assms(3)] assms
  by (intro pread_pwrite_disjoint) auto

lemma length_write_page:
  "unat p < n \<Longrightarrow> n * PAGE_SIZE = length f \<Longrightarrow> length bs = PAGE_SIZE \<Longrightarrow>
   length (pwrite f bs (unat p * PAGE_SIZE)) = length f"
  using page_end_le [of p n] by (simp add: length_pwrite max_def)

section \<open>The operations without I/O errors\<close>

definition header_bytes :: "database_header \<Rightarrow> u8 list" where
  "header_bytes h = buf_read (header_buffer h) 0 PAGE_SIZE"

lemma length_header_bytes [simp]: "length (header_bytes h) = PAGE_SIZE"
  by (simp add: header_bytes_def)

lemma header_of_header_bytes: "header_of_buffer (buf_write b 0 (header_bytes h)) = h"
proof -
  have eq: "get32 (buf_write b 0 (header_bytes h)) off = get32 (header_buffer h) off"
    if "off + 4 \<le> PAGE_SIZE" for off
    using that by (intro arg_cong [where f = of_le_bytes] buf_read_cong)
      (simp add: buf_write_def header_bytes_def)
  show ?thesis
    by (simp add: header_of_buffer_def eq PAGE_SIZE_def) (simp add: header_buffer_def c32.dec_enc)
qed

definition next_free :: "file_bytes \<Rightarrow> u32 \<Rightarrow> u32" where
  "next_free f p = of_le_bytes (take 4 (file_page f p))"

lemma get32_of_page:
  "length bs = PAGE_SIZE \<Longrightarrow> get32 (buf_write b 0 bs) 0 = of_le_bytes (take 4 bs)"
  by (intro arg_cong [where f = of_le_bytes] nth_equalityI) (auto simp: PAGE_SIZE_def buf_write_def)

lemma WriteHeader_ok:
  "dm_io d = [] \<Longrightarrow>
   DiskManager_WriteHeader d = (Inr (), d\<lparr>dm_file := pwrite (dm_file d) (header_bytes (dm_header d)) 0\<rparr>)"
  by (simp add: DiskManager_WriteHeader_def os_pwrite_def header_bytes_def)

lemma ReadPage_ok:
  "dm_io d = [] \<Longrightarrow> p < dh_page_count (dm_header d) \<Longrightarrow>
   unat (dh_page_count (dm_header d)) * PAGE_SIZE \<le> length (dm_file d) \<Longrightarrow>
   DiskManager_ReadPage p b d = (True, buf_write b 0 (disk_page d p), d\<lparr>dm_num_reads := dm_num_reads d + 1\<rparr>)"
  using length_file_page [of p "unat (dh_page_count (dm_header d))" "dm_file d"]
  by (simp add: DiskManager_ReadPage_def os_pread_def file_page_def word_less_nat_alt word_le_nat_alt)

lemma WritePage_ok:
  "dm_io d = [] \<Longrightarrow> p < dh_page_count (dm_header d) \<Longrightarrow>
   DiskManager_WritePage p b d =
     (True, d\<lparr>dm_file := pwrite (dm_file d) (buf_read b 0 PAGE_SIZE) (unat p * PAGE_SIZE),
              dm_num_writes := dm_num_writes d + 1\<rparr>)"
  by (simp add: DiskManager_WritePage_def os_pwrite_def word_less_nat_alt word_le_nat_alt)

section \<open>The disk invariant\<close>

text \<open>
  The free list as the chain of deallocated pages gives it, and the invariant between
  operations: the file is exactly \<open>page_count\<close> pages long, page 0 holds the header in memory,
  and the chain from \<open>free_list_head\<close> visits \<open>free_page_count\<close> distinct data pages and ends.
\<close>

primrec free_walk :: "file_bytes \<Rightarrow> nat \<Rightarrow> u32 \<Rightarrow> u32 list" where
  "free_walk f 0 p = []"
| "free_walk f (Suc n) p = p # free_walk f n (next_free f p)"

primrec free_chain :: "file_bytes \<Rightarrow> u32 \<Rightarrow> u32 list \<Rightarrow> bool" where
  "free_chain f h [] = (h = INVALID_PAGE_ID)"
| "free_chain f h (p # ps) = (h = p \<and> free_chain f (next_free f p) ps)"

definition disk_free :: "disk \<Rightarrow> u32 list" where
  "disk_free d =
     free_walk (dm_file d) (unat (dh_free_page_count (dm_header d))) (dh_free_list_head (dm_header d))"

abbreviation disk_pages :: "disk \<Rightarrow> nat" where
  "disk_pages d \<equiv> unat (dh_page_count (dm_header d))"

definition disk_rep :: "disk \<Rightarrow> u32 list \<Rightarrow> bool" where
  "disk_rep d fl \<longleftrightarrow>
     dm_is_open d \<and> dm_io d = [] \<and> 1 \<le> disk_pages d \<and>
     length (dm_file d) = disk_pages d * PAGE_SIZE \<and>
     disk_page d 0 = header_bytes (dm_header d) \<and>
     dh_magic (dm_header d) = DatabaseHeader_MAGIC \<and>
     free_chain (dm_file d) (dh_free_list_head (dm_header d)) fl \<and> distinct fl \<and>
     (\<forall>p\<in>set fl. p \<noteq> 0 \<and> unat p < disk_pages d) \<and>
     unat (dh_free_page_count (dm_header d)) = length fl"

definition disk_inv :: "disk \<Rightarrow> bool" where
  "disk_inv d \<longleftrightarrow> disk_rep d (disk_free d)"

lemma free_chain_walk: "free_chain f h fl \<Longrightarrow> free_walk f (length fl) h = fl"
  by (induction fl arbitrary: h) auto

lemma disk_rep_free: "disk_rep d fl \<Longrightarrow> disk_free d = fl"
  by (simp add: disk_rep_def disk_free_def free_chain_walk)

lemma disk_inv_iff: "disk_rep d fl \<longleftrightarrow> disk_inv d \<and> disk_free d = fl"
  by (auto simp: disk_inv_def disk_rep_free)

lemma valid_not_INVALID: "unat p < disk_pages d \<Longrightarrow> p \<noteq> INVALID_PAGE_ID"
  using unat32_lt [of "dh_page_count (dm_header d)"] by (auto simp: INVALID_PAGE_ID_def simp del: unat32_lt)

lemma free_chain_cong:
  "(\<And>p. p \<in> set fl \<Longrightarrow> file_page f' p = file_page f p) \<Longrightarrow> free_chain f h fl \<Longrightarrow> free_chain f' h fl"
  by (induction fl arbitrary: h) (auto simp: next_free_def)

lemma disk_repD:
  assumes "disk_rep d fl"
  shows "dm_io d = []" "dm_is_open d" "1 \<le> disk_pages d"
    and "length (dm_file d) = disk_pages d * PAGE_SIZE"
    and "disk_page d 0 = header_bytes (dm_header d)"
    and "free_chain (dm_file d) (dh_free_list_head (dm_header d)) fl" "distinct fl"
    and "\<And>p. p \<in> set fl \<Longrightarrow> p \<noteq> 0 \<and> unat p < disk_pages d"
    and "unat (dh_free_page_count (dm_header d)) = length fl"
    and "dh_magic (dm_header d) = DatabaseHeader_MAGIC"
  using assms by (auto simp: disk_rep_def)

text \<open>
  The last step of every operation that changes the header: page 0 gets the new header, no
  other page changes.
\<close>

lemma persist_header:
  assumes "1 \<le> n" "length f = n * PAGE_SIZE"
  shows "length (pwrite f (header_bytes h) 0) = n * PAGE_SIZE"
    and "file_page (pwrite f (header_bytes h) 0) 0 = header_bytes h"
    and "q \<noteq> 0 \<Longrightarrow> unat q < n \<Longrightarrow> file_page (pwrite f (header_bytes h) 0) q = file_page f q"
  using length_write_page [of 0 n f "header_bytes h"] file_page_write_same [of "header_bytes h" f 0]
    file_page_write_other [of 0 q "header_bytes h" n f] assms
  by simp_all

text \<open>A page and then the header are written.\<close>

definition commit :: "file_bytes \<Rightarrow> u32 \<Rightarrow> u8 list \<Rightarrow> database_header \<Rightarrow> file_bytes" where
  "commit f p bs h = pwrite (pwrite f bs (unat p * PAGE_SIZE)) (header_bytes h) 0"

lemma commit_pages:
  assumes "p \<noteq> 0" "unat p < n" "length f = n * PAGE_SIZE" "length bs = PAGE_SIZE"
  shows "length (commit f p bs h) = n * PAGE_SIZE"
    and "file_page (commit f p bs h) 0 = header_bytes h"
    and "file_page (commit f p bs h) p = bs"
    and "q \<noteq> 0 \<Longrightarrow> q \<noteq> p \<Longrightarrow> unat q < n \<Longrightarrow> file_page (commit f p bs h) q = file_page f q"
proof -
  have len: "length (pwrite f bs (unat p * PAGE_SIZE)) = n * PAGE_SIZE" and n: "1 \<le> n"
    using assms by (simp_all add: length_write_page)
  show "length (commit f p bs h) = n * PAGE_SIZE" "file_page (commit f p bs h) 0 = header_bytes h"
    using persist_header [OF n len] by (simp_all add: commit_def)
  show "file_page (commit f p bs h) p = bs"
    using persist_header(3) [OF n len] assms by (simp add: commit_def file_page_write_same)
  show "file_page (commit f p bs h) q = file_page f q" if "q \<noteq> 0" "q \<noteq> p" "unat q < n"
    using persist_header(3) [OF n len] that assms by (simp add: commit_def file_page_write_other)
qed

lemma commit_chain:
  assumes "free_chain f k fl" "\<forall>q\<in>set fl. q \<noteq> 0 \<and> unat q < n" "p \<notin> set fl"
    and "p \<noteq> 0" "unat p < n" "length f = n * PAGE_SIZE" "length bs = PAGE_SIZE"
  shows "free_chain (commit f p bs h) k fl"
  using assms by (intro free_chain_cong [OF _ assms(1)] commit_pages(4)) auto

lemma zero_page: "buf_read (\<lambda>_. 0) 0 PAGE_SIZE = replicate PAGE_SIZE 0"
  by (rule nth_equalityI) auto

lemma AllocatePage_head:
  assumes "dm_io d = []" "length (dm_file d) = disk_pages d * PAGE_SIZE"
    and "dh_free_list_head (dm_header d) = p" "unat p < disk_pages d"
  defines "h' \<equiv> (dm_header d)\<lparr>dh_free_list_head := next_free (dm_file d) p,
                  dh_free_page_count := dh_free_page_count (dm_header d) - 1\<rparr>"
  shows "DiskManager_AllocatePage d =
    (Inr p, d\<lparr>dm_header := h', dm_file := commit (dm_file d) p (replicate PAGE_SIZE 0) h',
               dm_num_reads := dm_num_reads d + 1, dm_num_writes := dm_num_writes d + 1\<rparr>)"
proof -
  have len: "length (disk_page d p) = PAGE_SIZE"
    using assms(2,4) by simp
  show ?thesis
    using assms(1-4) valid_not_INVALID [OF assms(4)]
    by (simp add: DiskManager_AllocatePage_def Let_def ReadPage_ok WritePage_ok WriteHeader_ok word_less_nat_alt
        get32_of_page [OF len] zero_page next_free_def commit_def h'_def)
qed

lemmas AllocatePage_reuse = AllocatePage_head [OF disk_repD(1,4)]

lemma AllocatePage_extend:
  assumes rep: "disk_rep d []" 
  defines "h' \<equiv> (dm_header d)\<lparr>dh_page_count := dh_page_count (dm_header d) + 1\<rparr>"
  shows "DiskManager_AllocatePage d =
    (Inr (dh_page_count (dm_header d)),
     d\<lparr>dm_header := h',
       dm_file := pwrite (dm_file d @ replicate PAGE_SIZE 0) (header_bytes h') 0\<rparr>)"
  using disk_repD(1,4,6) [OF rep]
  by (simp add: DiskManager_AllocatePage_def Let_def os_pwrite_def WriteHeader_ok h'_def pwrite_at_end
      flip: disk_repD(4) [OF rep])

lemma file_page_append:
  "unat q < n \<Longrightarrow> length f = n * PAGE_SIZE \<Longrightarrow> file_page (f @ bs) q = file_page f q"
  using page_end_le [of q n] by (simp add: file_page_def pread_def)

lemma file_page_append_new:
  "length f = unat p * PAGE_SIZE \<Longrightarrow> length bs = PAGE_SIZE \<Longrightarrow> file_page (f @ bs) p = bs"
  by (simp add: file_page_def pread_def)

definition free_page :: "u32 \<Rightarrow> u8 list" where
  "free_page h = buf_read (put32 (\<lambda>_. 0) 0 h) 0 PAGE_SIZE"

lemma length_free_page [simp]: "length (free_page h) = PAGE_SIZE"
  by (simp add: free_page_def)

lemma free_page_next: "file_page f p = free_page h \<Longrightarrow> next_free f p = h"
  by (simp add: next_free_def free_page_def take_buf_read PAGE_SIZE_def c32.dec_enc)

lemma DeallocatePage_valid:
  assumes "dm_io d = []" "p \<noteq> 0" "unat p < disk_pages d"
  defines "h' \<equiv> (dm_header d)\<lparr>dh_free_list_head := p,
                  dh_free_page_count := dh_free_page_count (dm_header d) + 1\<rparr>"
  shows "DiskManager_DeallocatePage p d =
    (Inr True, d\<lparr>dm_header := h',
       dm_file := commit (dm_file d) p (free_page (dh_free_list_head (dm_header d))) h',
       dm_num_writes := dm_num_writes d + 1\<rparr>)"
  using assms(1-3)
  by (simp add: DiskManager_DeallocatePage_def Let_def WritePage_ok WriteHeader_ok word_less_nat_alt
      word_le_nat_alt free_page_def commit_def h'_def)

lemma free_list_short:
  fixes fl :: "u32 list"
  assumes "distinct fl" "\<forall>p\<in>set fl. p \<noteq> 0 \<and> unat p < n" "0 < n"
  shows "length fl < n"
proof -
  have "unat p \<noteq> 0" if "p \<in> set fl" for p
    using that assms(2) word_unat_eq_iff [of p 0] by auto
  then have "set (map unat fl) \<subseteq> {1..<n}"
    using assms(2) by (auto simp: Suc_le_eq)
  then have "card (set (map unat fl)) \<le> n - 1"
    using card_mono [of "{1..<n}"] by fastforce
  moreover have "distinct (map unat fl)"
    using assms(1) by (simp add: distinct_map inj_on_def word_unat_eq_iff)
  ultimately show ?thesis
    using distinct_card [of "map unat fl"] assms(3) by simp
qed

lemma rep_reuse:
  assumes rep: "disk_rep d (p # fl)" and alloc: "DiskManager_AllocatePage d = (r, d')"
  shows "r = Inr p" "disk_rep d' fl" "dh_page_count (dm_header d') = dh_page_count (dm_header d)"
    and "disk_page d' p = replicate PAGE_SIZE 0"
    and "q \<noteq> 0 \<Longrightarrow> q \<noteq> p \<Longrightarrow> unat q < disk_pages d \<Longrightarrow> disk_page d' q = disk_page d q"
proof -
  have p: "p \<noteq> 0" "unat p < disk_pages d" and fl: "\<forall>q\<in>set fl. q \<noteq> 0 \<and> unat q < disk_pages d"
    and dist: "p \<notin> set fl" "distinct fl"
    and chain: "free_chain (dm_file d) (next_free (dm_file d) p) fl"
    and cnt: "unat (dh_free_page_count (dm_header d)) = Suc (length fl)"
    using disk_repD(6-9) [OF rep] by auto
  note c = commit_pages [OF p disk_repD(4) [OF rep], of "replicate PAGE_SIZE 0"]
  have "dh_free_list_head (dm_header d) = p" using disk_repD(6) [OF rep] by simp
  note alloc' = alloc [unfolded AllocatePage_reuse [OF rep rep this p(2)]]
  show "r = Inr p" "dh_page_count (dm_header d') = dh_page_count (dm_header d)"
    "disk_page d' p = replicate PAGE_SIZE 0"
    using alloc' c(3) by auto
  show "disk_page d' q = disk_page d q" if "q \<noteq> 0" "q \<noteq> p" "unat q < disk_pages d"
    using alloc' c(4) that by auto
  have "free_chain (commit (dm_file d) p (replicate PAGE_SIZE 0) h) (next_free (dm_file d) p) fl" for h
    using commit_chain [OF chain fl dist(1) p disk_repD(4) [OF rep]] by simp
  then show "disk_rep d' fl"
    using alloc' c(1,2) dist fl cnt disk_repD(1,2,3,10) [OF rep]
    by (auto simp: disk_rep_def word_nat)
qed

lemma rep_extend:
  assumes rep: "disk_rep d []" and room: "Suc (disk_pages d) < 4294967296"
    and alloc: "DiskManager_AllocatePage d = (r, d')"
  shows "r = Inr (dh_page_count (dm_header d))" "disk_rep d' []" "disk_pages d' = Suc (disk_pages d)"
    and "disk_page d' (dh_page_count (dm_header d)) = replicate PAGE_SIZE 0"
    and "q \<noteq> 0 \<Longrightarrow> unat q < disk_pages d \<Longrightarrow> disk_page d' q = disk_page d q"
proof -
  let ?p = "dh_page_count (dm_header d)" and ?f = "dm_file d @ replicate PAGE_SIZE 0"
  have suc: "unat (?p + 1) = Suc (unat ?p)" using room by (simp add: word_nat)
  have len: "length ?f = Suc (disk_pages d) * PAGE_SIZE" and p0: "?p \<noteq> 0"
    using disk_repD(3,4) [OF rep] by auto
  note w = persist_header [OF _ len, simplified]
  note alloc' = alloc [unfolded AllocatePage_extend [OF rep]]
  show "r = Inr ?p" "disk_pages d' = Suc (disk_pages d)" using alloc' suc by auto
  show "disk_page d' ?p = replicate PAGE_SIZE 0"
    using alloc' w(3) [of ?p] p0 disk_repD(4) [OF rep] by (auto simp: file_page_append_new)
  show "disk_page d' q = disk_page d q" if "q \<noteq> 0" "unat q < disk_pages d"
    using alloc' w(3) [of q] that disk_repD(4) [OF rep] by (auto simp: file_page_append)
  show "disk_rep d' []"
    using alloc' w(1,2) suc disk_repD [OF rep] by (auto simp: disk_rep_def)
qed

lemma rep_deallocate:
  assumes rep: "disk_rep d fl" and p: "p \<noteq> 0" "unat p < disk_pages d" and fresh: "p \<notin> set fl"
    and dealloc: "DiskManager_DeallocatePage p d = (r, d')"
  shows "r = Inr True" "disk_rep d' (p # fl)" "dh_page_count (dm_header d') = dh_page_count (dm_header d)"
    and "q \<noteq> 0 \<Longrightarrow> q \<noteq> p \<Longrightarrow> unat q < disk_pages d \<Longrightarrow> disk_page d' q = disk_page d q"
proof -
  note c = commit_pages [OF p disk_repD(4) [OF rep], of "free_page (dh_free_list_head (dm_header d))"]
  note dealloc' = dealloc [unfolded DeallocatePage_valid [OF disk_repD(1) [OF rep] p]]
  show "r = Inr True" "dh_page_count (dm_header d') = dh_page_count (dm_header d)"
    using dealloc' by auto
  show "disk_page d' q = disk_page d q" if "q \<noteq> 0" "q \<noteq> p" "unat q < disk_pages d"
    using dealloc' c(4) that by auto
  have fl: "\<forall>q\<in>set fl. q \<noteq> 0 \<and> unat q < disk_pages d" using disk_repD(8) [OF rep] by blast
  have chain: "free_chain (commit (dm_file d) p (free_page k) h) (dh_free_list_head (dm_header d)) fl" for k h
    using commit_chain [OF disk_repD(6) [OF rep] fl fresh p disk_repD(4) [OF rep]] by simp
  have "length (p # fl) < disk_pages d"
    using free_list_short [of "p # fl"] fresh disk_repD(7) [OF rep] fl p by simp
  then have "Suc (length fl) < 4294967296"
    using unat32_lt [of "dh_page_count (dm_header d)"] by (simp del: unat32_lt)
  then show "disk_rep d' (p # fl)"
    using dealloc' c(1,2) c(3) [THEN free_page_next] chain fl p fresh disk_repD(1-3,7,9,10) [OF rep]
    by (auto simp: disk_rep_def word_nat)
qed

section \<open>Allocators\<close>

text \<open>
  What the layers above rely on when they allocate pages: while there is room, an allocation
  succeeds and its page is not one that is in use.
\<close>

primrec alloc_many :: "('s \<Rightarrow> ('e + 'p) \<times> 's) \<Rightarrow> nat \<Rightarrow> 's \<Rightarrow> ('e + 'p list) \<times> 's" where
  "alloc_many alloc 0 s = (Inr [], s)"
| "alloc_many alloc (Suc n) s =
     (case alloc s of
        (Inl e, s') \<Rightarrow> (Inl e, s')
      | (Inr p, s') \<Rightarrow>
          (case alloc_many alloc n s' of
             (Inl e, s'') \<Rightarrow> (Inl e, s'') | (Inr ps, s'') \<Rightarrow> (Inr (p # ps), s'')))"

locale page_allocator =
  fixes alloc :: "'s \<Rightarrow> ('e + 'p) \<times> 's"
    and inv :: "'s \<Rightarrow> bool" and used :: "'s \<Rightarrow> 'p set" and room :: "'s \<Rightarrow> nat"
  assumes alloc_succeeds: "inv s \<Longrightarrow> 0 < room s \<Longrightarrow> \<exists>p s'. alloc s = (Inr p, s')"
    and alloc_fresh: "inv s \<Longrightarrow> 0 < room s \<Longrightarrow> alloc s = (Inr p, s') \<Longrightarrow>
      inv s' \<and> p \<notin> used s \<and> used s' = insert p (used s) \<and> Suc (room s') = room s"
begin

lemma alloc_many_fresh:
  "inv s \<Longrightarrow> n \<le> room s \<Longrightarrow>
   \<exists>ps s'. alloc_many alloc n s = (Inr ps, s') \<and> inv s' \<and> length ps = n \<and> distinct ps \<and>
     set ps \<inter> used s = {} \<and> used s' = set ps \<union> used s"
proof (induction n arbitrary: s)
  case 0
  then show ?case by simp
next
  case (Suc n)
  then obtain p s1 where p: "alloc s = (Inr p, s1)"
    using alloc_succeeds [of s] by auto
  note s1 = alloc_fresh [OF Suc.prems(1) _ p]
  obtain ps s2 where "alloc_many alloc n s1 = (Inr ps, s2)" "inv s2" "length ps = n" "distinct ps"
    "set ps \<inter> used s1 = {}" "used s2 = set ps \<union> used s1"
    using Suc.IH [of s1] Suc.prems s1 by auto
  then show ?case using p s1 Suc.prems by auto
qed

end

definition disk_used :: "disk \<Rightarrow> u32 set" where
  "disk_used d = {p. unat p < disk_pages d} - set (disk_free d)"

definition disk_room :: "disk \<Rightarrow> nat" where
  "disk_room d = length (disk_free d) + (4294967295 - disk_pages d)"

lemma disk_alloc_step:
  assumes inv: "disk_inv d" and room: "0 < disk_room d"
    and alloc: "DiskManager_AllocatePage d = (r, d')"
  obtains p where "r = Inr p" "disk_inv d'" "p \<notin> disk_used d" "p \<noteq> 0"
    "disk_used d' = insert p (disk_used d)" "Suc (disk_room d') = disk_room d"
    "disk_page d' p = replicate PAGE_SIZE 0" "disk_pages d \<le> disk_pages d'" "unat p < disk_pages d'"
    "\<And>q. q \<in> disk_used d \<Longrightarrow> q \<noteq> 0 \<Longrightarrow> disk_page d' q = disk_page d q"
proof (cases "disk_free d")
  case Nil
  then have rep: "disk_rep d []" using inv by (simp add: disk_inv_def)
  have sm: "Suc (disk_pages d) < 4294967296" using room Nil by (simp add: disk_room_def)
  note e = rep_extend [OF rep sm alloc]
  have "{p. unat p < Suc (disk_pages d)} = insert (dh_page_count (dm_header d)) {p. unat p < disk_pages d}"
    by (auto simp: less_Suc_eq word_unat_eq_iff)
  then have used: "disk_used d' = insert (dh_page_count (dm_header d)) (disk_used d)"
    by (simp add: disk_used_def disk_rep_free [OF e(2)] Nil e(3))
  have inv': "disk_inv d'" "disk_free d' = []"
    using e(2) by (simp_all add: disk_inv_iff)
  have p: "dh_page_count (dm_header d) \<notin> disk_used d" "dh_page_count (dm_header d) \<noteq> 0"
    using disk_repD(3) [OF rep] by (auto simp: disk_used_def)
  show ?thesis
    by (rule that [OF e(1) inv'(1) p used _ e(4)])
      (use sm in \<open>simp_all add: e(3) inv'(2) Nil disk_room_def e(5) disk_used_def\<close>)
next
  case (Cons p fl)
  then have rep: "disk_rep d (p # fl)" using inv by (simp add: disk_inv_def)
  note e = rep_reuse [OF rep alloc]
  have p: "p \<noteq> 0" "unat p < disk_pages d" "p \<notin> set fl"
    using disk_repD(7,8) [OF rep] by auto
  have inv': "disk_inv d'" "disk_free d' = fl"
    using e(2) by (simp_all add: disk_inv_iff)
  have used: "disk_used d' = insert p (disk_used d)" "p \<notin> disk_used d"
    using p by (auto simp: disk_used_def inv'(2) Cons e(3))
  show ?thesis
    by (rule that [OF e(1) inv'(1) used(2) p(1) used(1) _ e(4)])
      (use p(2) in \<open>auto simp: e(3) inv'(2) Cons disk_room_def e(5) disk_used_def\<close>)
qed

interpretation disk_alloc: page_allocator DiskManager_AllocatePage disk_inv disk_used disk_room
proof
  fix s assume "disk_inv s" "0 < disk_room s"
  then show "\<exists>p s'. DiskManager_AllocatePage s = (Inr p, s')"
    by (metis disk_alloc_step surj_pair)
next
  fix s p s'
  assume "disk_inv s" "0 < disk_room s" "DiskManager_AllocatePage s = (Inr p, s')"
  then show "disk_inv s' \<and> p \<notin> disk_used s \<and> disk_used s' = insert p (disk_used s) \<and>
      Suc (disk_room s') = disk_room s"
    by (rule disk_alloc_step) auto
qed

section \<open>Page I/O under the invariant\<close>

lemma disk_rep_counters [simp]:
  "disk_rep (d\<lparr>dm_num_reads := n\<rparr>) fl = disk_rep d fl" "disk_free (d\<lparr>dm_num_reads := n\<rparr>) = disk_free d"
  "disk_rep (d\<lparr>dm_durable := f\<rparr>) fl = disk_rep d fl" "disk_free (d\<lparr>dm_durable := f\<rparr>) = disk_free d"
  by (simp_all add: disk_rep_def disk_free_def)

lemma disk_inv_counters [simp]:
  "disk_inv (d\<lparr>dm_num_reads := n\<rparr>) = disk_inv d" "disk_used (d\<lparr>dm_num_reads := n\<rparr>) = disk_used d"
  "disk_inv (d\<lparr>dm_durable := f\<rparr>) = disk_inv d" "disk_used (d\<lparr>dm_durable := f\<rparr>) = disk_used d"
  by (simp_all add: disk_inv_def disk_used_def)

lemma disk_invD:
  "disk_inv d \<Longrightarrow> dm_io d = []" "disk_inv d \<Longrightarrow> length (dm_file d) = disk_pages d * PAGE_SIZE"
  "disk_inv d \<Longrightarrow> 1 \<le> disk_pages d"
  using disk_repD(1,3,4) by (auto simp: disk_inv_def)

lemma disk_read_page:
  "disk_inv d \<Longrightarrow> unat p < disk_pages d \<Longrightarrow>
   DiskManager_ReadPage p b d = (True, buf_write b 0 (disk_page d p), d\<lparr>dm_num_reads := dm_num_reads d + 1\<rparr>)"
  by (simp add: ReadPage_ok disk_invD word_less_nat_alt)

lemma disk_read_invalid:
  "disk_pages d \<le> unat p \<Longrightarrow> DiskManager_ReadPage p b d = (False, b, d)"
  by (simp add: DiskManager_ReadPage_def word_le_nat_alt)

lemma disk_write_page:
  assumes inv: "disk_inv d" and p: "unat p < disk_pages d"
    and wr: "DiskManager_WritePage p b d = (ok, d')"
  shows "ok" "dm_header d' = dm_header d" "dm_durable d' = dm_durable d" "disk_page d' p = buf_read b 0 PAGE_SIZE"
    and "length (dm_file d') = length (dm_file d)"
    and "unat q < disk_pages d \<Longrightarrow> q \<noteq> p \<Longrightarrow> disk_page d' q = disk_page d q"
    and "p \<noteq> 0 \<Longrightarrow> p \<notin> set (disk_free d) \<Longrightarrow> disk_inv d' \<and> disk_free d' = disk_free d"
    and "unat q < disk_pages d \<Longrightarrow> DiskManager_ReadPage q b' d' =
           (True, buf_write b' 0 (disk_page d' q), d'\<lparr>dm_num_reads := dm_num_reads d' + 1\<rparr>)"
proof -
  have rep: "disk_rep d (disk_free d)" using inv by (simp add: disk_inv_def)
  have d': "ok" "d' = d\<lparr>dm_file := pwrite (dm_file d) (buf_read b 0 PAGE_SIZE) (unat p * PAGE_SIZE),
      dm_num_writes := dm_num_writes d + 1\<rparr>"
    using wr p disk_repD(1) [OF rep] by (auto simp: WritePage_ok word_less_nat_alt)
  have len: "length (dm_file d') = disk_pages d * PAGE_SIZE"
    using length_write_page [of p "disk_pages d" "dm_file d"] disk_repD(4) [OF rep] p d'(2) by simp
  show ok "dm_header d' = dm_header d" "dm_durable d' = dm_durable d" "length (dm_file d') = length (dm_file d)"
    "disk_page d' p = buf_read b 0 PAGE_SIZE"
    using d' len disk_repD(4) [OF rep] by (simp_all add: file_page_write_same)
  have other: "disk_page d' q = disk_page d q" if "unat q < disk_pages d" "q \<noteq> p" for q
    using file_page_write_other [of p q "buf_read b 0 PAGE_SIZE"] that disk_repD(4) [OF rep] d'(2) by auto
  then show "unat q < disk_pages d \<Longrightarrow> q \<noteq> p \<Longrightarrow> disk_page d' q = disk_page d q" .
  show "disk_inv d' \<and> disk_free d' = disk_free d" if p0: "p \<noteq> 0" "p \<notin> set (disk_free d)"
  proof -
    have "free_chain (dm_file d') (dh_free_list_head (dm_header d)) (disk_free d)"
      using free_chain_cong [OF _ disk_repD(6) [OF rep]] other disk_repD(8) [OF rep] p0 by metis
    then have "disk_rep d' (disk_free d)"
      using rep len other [of 0] p0 disk_repD(3) [OF rep] d'(2) by (auto simp: disk_rep_def)
    then show ?thesis by (simp add: disk_inv_iff)
  qed
  show "DiskManager_ReadPage q b' d' =
      (True, buf_write b' 0 (disk_page d' q), d'\<lparr>dm_num_reads := dm_num_reads d' + 1\<rparr>)"
    if "unat q < disk_pages d"
    using ReadPage_ok [of d' q b'] that d'(2) len disk_repD(1) [OF rep] by (simp add: word_less_nat_alt)
qed

section \<open>Opening and closing\<close>

definition new_disk :: disk where
  "new_disk = disk_of_file (header_bytes DatabaseHeader_default) []\<lparr>dm_durable := []\<rparr>"

lemma new_disk_fields [simp]:
  "dm_file new_disk = header_bytes DatabaseHeader_default" "dm_header new_disk = DatabaseHeader_default"
  "dm_io new_disk = []" "dm_is_open new_disk"
  by (simp_all add: new_disk_def disk_of_file_def)

lemma default_header_fields [simp]:
  "dh_page_count DatabaseHeader_default = 1" "dh_free_list_head DatabaseHeader_default = INVALID_PAGE_ID"
  "dh_free_page_count DatabaseHeader_default = 0" "dh_magic DatabaseHeader_default = DatabaseHeader_MAGIC"
  by (simp_all add: DatabaseHeader_default_def)

lemma open_new: "DiskManager_open (Enoent True) [] = Inr new_disk"
  using WriteHeader_ok [of "disk_of_file [] []\<lparr>dm_header := DatabaseHeader_default\<rparr>"]
  by (simp add: DiskManager_open_def DiskManager_InitializeNewFile_def disk_of_file_def new_disk_def
      pwrite_def PAGE_SIZE_def header_bytes_def buf_read_def)

lemma new_disk_rep: "disk_rep new_disk []"
  by (simp add: disk_rep_def file_page_def pread_full)

lemma new_disk_inv [simp]: "disk_inv new_disk" "disk_free new_disk = []"
  using new_disk_rep by (simp_all add: disk_inv_iff)

lemma new_disk_room [simp]: "disk_room new_disk = 4294967294"
  by (simp add: disk_room_def)

lemma reopen:
  assumes rep: "disk_rep d fl"
  shows "DiskManager_open (Exists (dm_file d)) [] =
    Inr ((disk_of_file (dm_file d) [])\<lparr>dm_header := dm_header d\<rparr>)"
proof -
  have "PAGE_SIZE \<le> length (dm_file d)"
    using disk_repD(3,4) [OF rep] by simp
  moreover have "pread (dm_file d) PAGE_SIZE 0 = header_bytes (dm_header d)"
    using disk_repD(5) [OF rep] by (simp add: file_page_def)
  ultimately show ?thesis
    using disk_repD(10) [OF rep] header_of_header_bytes
    by (simp add: DiskManager_open_def DiskManager_ReadHeader_def os_pread_def disk_of_file_def)
qed

lemma rewrite_header: "disk_rep d fl \<Longrightarrow> pwrite (dm_file d) (header_bytes (dm_header d)) 0 = dm_file d"
proof -
  assume rep: "disk_rep d fl"
  have "take PAGE_SIZE (dm_file d) = header_bytes (dm_header d)"
    using disk_repD(5) [OF rep] by (simp add: file_page_def pread_def)
  then show ?thesis
    by (auto simp: pwrite_def) (metis append_take_drop_id)
qed

lemma close_rep:
  "disk_rep d fl \<Longrightarrow> DiskManager_close d = (Inr (), d\<lparr>dm_durable := dm_file d, dm_is_open := False\<rparr>)"
  using rewrite_header [of d fl] disk_repD(1,2) [of d fl]
  by (simp add: DiskManager_close_def WriteHeader_ok os_fsync_def)

section \<open>Properties\<close>

text \<open>
  C25. Without I/O errors and while page ids remain, \<open>AllocatePage\<close> returns a page that is not in
  use and never page 0, the header page: the head of the free list, or a new last page. The page
  reads as zeros, no page in use changes, the new header is persisted in page 0 and the free list
  stays a proper chain.
\<close>

theorem disk_allocate_correct:
  assumes "disk_inv d" and "0 < disk_room d"
  shows "\<exists>p d'. DiskManager_AllocatePage d = (Inr p, d') \<and> disk_inv d' \<and>
    p \<noteq> 0 \<and> p \<notin> disk_used d \<and> disk_used d' = insert p (disk_used d) \<and>
    Suc (disk_room d') = disk_room d \<and> disk_page d' p = replicate PAGE_SIZE 0 \<and>
    (\<forall>q\<in>disk_used d. q \<noteq> 0 \<longrightarrow> disk_page d' q = disk_page d q)"
  by (rule disk_alloc_step [OF assms surjective_pairing]) (auto simp: prod_eq_iff)

theorem disk_allocate_correct_witness:
  "\<exists>p d'. DiskManager_AllocatePage new_disk = (Inr p, d') \<and> disk_inv d' \<and> p \<notin> disk_used new_disk"
  using disk_allocate_correct [of new_disk] by auto

text \<open>
  Any number of allocations for which there is room succeed, and return pairwise distinct
  pages none of which was in use.
\<close>

theorem disk_allocations_distinct:
  assumes "disk_inv d" and "n \<le> disk_room d"
  shows "\<exists>ps d'. alloc_many DiskManager_AllocatePage n d = (Inr ps, d') \<and> disk_inv d' \<and>
    length ps = n \<and> distinct ps \<and> set ps \<inter> disk_used d = {} \<and> disk_used d' = set ps \<union> disk_used d"
  by (rule disk_alloc.alloc_many_fresh [OF assms])

theorem disk_allocations_distinct_witness:
  "\<exists>ps d'. alloc_many DiskManager_AllocatePage 1000 new_disk = (Inr ps, d') \<and> length ps = 1000 \<and> distinct ps"
  using disk_allocations_distinct [of new_disk 1000] by auto

text \<open>
  \<open>DeallocatePage\<close> refuses page 0 and pages past the end, changing nothing; a page in use is
  pushed on the free list, so that it is the next page allocated, and no other page changes.
\<close>

theorem disk_deallocate_correct:
  assumes "disk_inv d" and "p \<notin> set (disk_free d)"
  shows "case DiskManager_DeallocatePage p d of
      (Inl e, d') \<Rightarrow> False
    | (Inr False, d') \<Rightarrow> d' = d \<and> (p = 0 \<or> disk_pages d \<le> unat p)
    | (Inr True, d') \<Rightarrow> p \<noteq> 0 \<and> p \<in> disk_used d \<and> disk_inv d' \<and> disk_free d' = p # disk_free d \<and>
        disk_used d' = disk_used d - {p} \<and> fst (DiskManager_AllocatePage d') = Inr p \<and>
        (\<forall>q\<in>disk_used d'. q \<noteq> 0 \<longrightarrow> disk_page d' q = disk_page d q)"
proof (cases "p = 0 \<or> disk_pages d \<le> unat p")
  case True
  then show ?thesis by (auto simp: DiskManager_DeallocatePage_def word_le_nat_alt)
next
  case False
  have rep: "disk_rep d (disk_free d)" using assms(1) by (simp add: disk_inv_def)
  obtain r d' where rd: "DiskManager_DeallocatePage p d = (r, d')" by fastforce
  note e = rep_deallocate [OF rep _ _ assms(2) rd]
  have rep': "disk_rep d' (p # disk_free d)" and r: "r = Inr True" using e False by auto
  have d': "disk_inv d'" "disk_free d' = p # disk_free d" using rep' by (simp_all add: disk_inv_iff)
  have "fst (DiskManager_AllocatePage d') = Inr p"
    using disk_repD(6,8) [OF rep'] by (simp add: AllocatePage_reuse [OF rep' rep'])
  moreover have "disk_used d' = disk_used d - {p}" "p \<in> disk_used d"
    using e(3) False assms(2) d'(2) by (auto simp: disk_used_def)
  moreover have "\<forall>q\<in>disk_used d'. q \<noteq> 0 \<longrightarrow> disk_page d' q = disk_page d q"
    using e(3,4) False d'(2) by (auto simp: disk_used_def)
  ultimately show ?thesis using rd r d' False by simp
qed

lemma one_page_disk:
  obtains d where "DiskManager_AllocatePage new_disk = (Inr 1, d)" "disk_inv d" "disk_free d = []"
    "disk_pages d = 2"
proof -
  obtain r d where rd: "DiskManager_AllocatePage new_disk = (r, d)" by fastforce
  note e = rep_extend [OF new_disk_rep _ rd]
  have "r = Inr 1" "disk_rep d []" "disk_pages d = 2" using e(1-3) by simp_all
  then show ?thesis using that rd by (simp add: disk_inv_iff)
qed

theorem disk_deallocate_correct_witness:
  "\<exists>d d'. snd (DiskManager_AllocatePage new_disk) = d \<and> DiskManager_DeallocatePage 1 d = (Inr True, d') \<and>
     disk_inv d' \<and> disk_free d' = [1]"
proof -
  obtain d where d: "DiskManager_AllocatePage new_disk = (Inr 1, d)" "disk_inv d" "disk_free d = []"
    "disk_pages d = 2" by (rule one_page_disk)
  obtain r d' where rd: "DiskManager_DeallocatePage 1 d = (r, d')" by fastforce
  show ?thesis
    using disk_deallocate_correct [of d 1] rd d by (auto split: sum.splits bool.splits)
qed

text \<open>
  C30. Opening the file of a disk between any two operations, as after a crash of the process,
  or what \<open>fsync\<close> made durable when it was closed, succeeds and gives back the header, the free
  list and every page.
\<close>

theorem disk_reopen_restores:
  assumes "disk_inv d" and "f \<in> {dm_file d, dm_durable (snd (DiskManager_close d))}"
  shows "\<exists>d'. DiskManager_open (Exists f) [] = Inr d' \<and> disk_inv d' \<and> dm_header d' = dm_header d \<and>
    disk_free d' = disk_free d \<and> dm_file d' = dm_file d"
proof -
  have rep: "disk_rep d (disk_free d)" using assms(1) by (simp add: disk_inv_def)
  have f: "f = dm_file d" using assms(2) close_rep [OF rep] by auto
  let ?d' = "(disk_of_file (dm_file d) [])\<lparr>dm_header := dm_header d\<rparr>"
  have "disk_rep ?d' (disk_free d)" using rep by (auto simp: disk_rep_def disk_of_file_def)
  then have "disk_inv ?d' \<and> disk_free ?d' = disk_free d" by (simp add: disk_inv_iff)
  then show ?thesis using reopen [OF rep] f by (auto simp: disk_of_file_def)
qed

theorem disk_reopen_restores_witness:
  "\<exists>d'. DiskManager_open (Exists (dm_durable (snd (DiskManager_close new_disk)))) [] = Inr d' \<and>
     disk_inv d' \<and> dm_file d' = header_bytes DatabaseHeader_default"
  using disk_reopen_restores [of new_disk "dm_durable (snd (DiskManager_close new_disk))"] by auto

text \<open>
  Page I/O: both operations refuse exactly the pages past the end and then change nothing;
  otherwise a page read back is the page written, every other page is unchanged, the file does
  not grow, and a write to a page in use other than the header page keeps the disk invariant.
\<close>

theorem disk_page_io:
  assumes "disk_inv d"
  shows "if disk_pages d \<le> unat p
    then DiskManager_WritePage p b d = (False, d) \<and> DiskManager_ReadPage p b d = (False, b, d)
    else \<exists>d'. DiskManager_WritePage p b d = (True, d') \<and>
      length (dm_file d') = length (dm_file d) \<and>
      (\<forall>b'. \<exists>d''. DiskManager_ReadPage p b' d' = (True, buf_write b' 0 (buf_read b 0 PAGE_SIZE), d'')) \<and>
      (\<forall>q b'. unat q < disk_pages d \<longrightarrow> q \<noteq> p \<longrightarrow>
         fst (snd (DiskManager_ReadPage q b' d')) = fst (snd (DiskManager_ReadPage q b' d))) \<and>
      (p \<noteq> 0 \<longrightarrow> p \<notin> set (disk_free d) \<longrightarrow> disk_inv d' \<and> disk_free d' = disk_free d)"
proof (cases "disk_pages d \<le> unat p")
  case True
  then show ?thesis
    by (simp add: DiskManager_WritePage_def disk_read_invalid word_le_nat_alt)
next
  case False
  then have p: "unat p < disk_pages d" by simp
  obtain ok d' where w: "DiskManager_WritePage p b d = (ok, d')" by fastforce
  note e = disk_write_page [OF assms p w]
  show ?thesis
    using False p w e disk_read_page [OF assms] by auto
qed

theorem disk_page_io_witness:
  "\<exists>d'. DiskManager_WritePage 0 (\<lambda>_. 7) new_disk = (True, d') \<and> length (dm_file d') = length (dm_file new_disk)"
  using disk_page_io [of new_disk 0 "\<lambda>_. 7"] by auto

text \<open>
  If the write that extends the file fails, \<open>AllocatePage\<close> reports the error and rolls back:
  file and header are as before.
\<close>

theorem disk_extend_failure_rolls_back:
  assumes "dh_free_list_head (dm_header d) = INVALID_PAGE_ID" and "dm_io d = False # io"
  shows "DiskManager_AllocatePage d = (Inl FailedToExtend, d\<lparr>dm_io := io\<rparr>)"
  using assms by (simp add: DiskManager_AllocatePage_def os_pwrite_def Let_def PAGE_SIZE_def)

theorem disk_extend_failure_rolls_back_witness:
  "DiskManager_AllocatePage (new_disk\<lparr>dm_io := [False]\<rparr>) = (Inl FailedToExtend, new_disk\<lparr>dm_io := []\<rparr>)"
  using disk_extend_failure_rolls_back [of "new_disk\<lparr>dm_io := [False]\<rparr>" "[]"] by simp

text \<open>
  \<open>DeallocatePage\<close> does not notice that a page is on the free list already: after
  deallocating a page twice, both calls reporting success, the next two allocations return that
  same page, and the third returns page 0, the header page.
\<close>

theorem disk_double_free_aliases:
  assumes "disk_inv d" and "p \<in> disk_used d" and "p \<noteq> 0"
  shows "\<exists>d1 d2 d3. DiskManager_DeallocatePage p d = (Inr True, d1) \<and>
    DiskManager_DeallocatePage p d1 = (Inr True, d2) \<and>
    alloc_many DiskManager_AllocatePage 3 d2 = (Inr [p, p, 0], d3)"
proof -
  have rep: "disk_rep d (disk_free d)" using assms(1) by (simp add: disk_inv_def)
  have p: "unat p < disk_pages d" "p \<notin> set (disk_free d)" using assms(2) by (auto simp: disk_used_def)
  note c = commit_pages [OF assms(3)] and D = DeallocatePage_valid [OF _ assms(3)]
  obtain r d1 where d1: "DiskManager_DeallocatePage p d = (r, d1)" by fastforce
  note e = rep_deallocate [OF rep assms(3) p d1]
  have p1: "unat p < disk_pages d1" using e(3) p(1) by simp
  have head1: "dh_free_list_head (dm_header d1) = p" using disk_repD(6) [OF e(2)] by simp
  note d2 = D [OF disk_repD(1) [OF e(2)] p1, unfolded head1]
  let ?d2 = "snd (DiskManager_DeallocatePage p d1)"
  have d2': "dm_io ?d2 = []" "dm_header ?d2 = (dm_header d1)\<lparr>dh_free_list_head := p,
      dh_free_page_count := dh_free_page_count (dm_header d1) + 1\<rparr>"
    "length (dm_file ?d2) = disk_pages d1 * PAGE_SIZE" "next_free (dm_file ?d2) p = p"
    using d2 disk_repD(1,4) [OF e(2)] p1 c by (simp_all add: free_page_next)
  have zero: "next_free f q = 0" if "file_page f q = replicate PAGE_SIZE 0" for f q
    by (simp add: next_free_def that PAGE_SIZE_def of_le_bytes_def eval_nat_numeral)
  obtain d3 where d3: "DiskManager_AllocatePage ?d2 = (Inr p, d3)"
    "dm_io d3 = []" "dh_free_list_head (dm_header d3) = p" "disk_pages d3 = disk_pages d1"
    "length (dm_file d3) = disk_pages d3 * PAGE_SIZE" "disk_page d3 p = replicate PAGE_SIZE 0"
    using AllocatePage_head [of ?d2 p] d2' p1 c(1,3) by simp
  obtain d4 where d4: "DiskManager_AllocatePage d3 = (Inr p, d4)"
    "dm_io d4 = []" "dh_free_list_head (dm_header d4) = 0" "disk_pages d4 = disk_pages d1"
    "length (dm_file d4) = disk_pages d4 * PAGE_SIZE"
    using AllocatePage_head [of d3 p] d3 p1 c(1) zero by simp
  obtain d5 where "DiskManager_AllocatePage d4 = (Inr 0, d5)"
    using AllocatePage_head [of d4 0] d4 disk_repD(3) [OF e(2)] by simp
  then show ?thesis
    using d1 e(1) d2 d3(1) d4(1) by (auto simp: eval_nat_numeral)
qed

theorem disk_double_free_aliases_witness:
  "\<exists>d d1 d2 d3. DiskManager_AllocatePage new_disk = (Inr 1, d) \<and>
     DiskManager_DeallocatePage 1 d = (Inr True, d1) \<and> DiskManager_DeallocatePage 1 d1 = (Inr True, d2) \<and>
     alloc_many DiskManager_AllocatePage 3 d2 = (Inr [1, 1, 0], d3)"
proof -
  obtain d where d: "DiskManager_AllocatePage new_disk = (Inr 1, d)" "disk_inv d" "disk_free d = []"
    "disk_pages d = 2" by (rule one_page_disk)
  then show ?thesis using disk_double_free_aliases [of d 1] by (auto simp: disk_used_def)
qed

end
