(* ===== verification/BufferPool.thy ===== *)
theory BufferPool
  imports DiskManager
begin

text \<open>
  The buffer pool of \<open>include/buffer/buffer_pool_manager.h\<close> and
  \<open>src/buffer/buffer_pool_manager.cpp\<close>: a fixed array of page frames that caches pages of the
  disk manager, with pin counts, dirty flags and LRU replacement. A \<open>Page*\<close> that an operation
  returns is the number of its frame (\<open>None\<close> is \<open>nullptr\<close>). The latch serialises the public
  methods, so the model runs them one after the other.
\<close>

section \<open>The LRU replacer\<close>

definition INVALID_FRAME_ID :: u32 where
  "INVALID_FRAME_ID = 0xFFFFFFFF"

text \<open>
  \<open>lru_list\<close> is the list, most recent frame first; \<open>lru_frames\<close> is the domain of
  \<open>frame_map_\<close>, whose iterators point at the frames themselves.
\<close>

record lru_replacer =
  lru_list :: "u32 list"
  lru_frames :: "u32 set"

definition LRUReplacer_new :: lru_replacer where
  "LRUReplacer_new = \<lparr>lru_list = [], lru_frames = {}\<rparr>"

definition LRUReplacer_RecordAccess :: "u32 \<Rightarrow> lru_replacer \<Rightarrow> lru_replacer" where
  "LRUReplacer_RecordAccess f r =
     (if f \<in> lru_frames r then r\<lparr>lru_list := f # remove1 f (lru_list r)\<rparr>
      else r\<lparr>lru_list := f # lru_list r, lru_frames := insert f (lru_frames r)\<rparr>)"

definition LRUReplacer_Remove :: "u32 \<Rightarrow> lru_replacer \<Rightarrow> lru_replacer" where
  "LRUReplacer_Remove f r =
     (if f \<in> lru_frames r
      then r\<lparr>lru_list := remove1 f (lru_list r), lru_frames := lru_frames r - {f}\<rparr> else r)"

definition LRUReplacer_Evict :: "lru_replacer \<Rightarrow> u32 \<times> lru_replacer" where
  "LRUReplacer_Evict r =
     (if lru_list r = [] then (INVALID_FRAME_ID, r)
      else let victim = last (lru_list r)
           in (victim, r\<lparr>lru_list := butlast (lru_list r), lru_frames := lru_frames r - {victim}\<rparr>))"

definition LRUReplacer_Size :: "lru_replacer \<Rightarrow> u32" where
  "LRUReplacer_Size r = of_nat (length (lru_list r))"

section \<open>State\<close>

record frame_metadata =
  fm_page_id :: u32
  fm_pin_count :: u32
  fm_is_dirty :: bool

definition FrameMetadata_default :: frame_metadata where
  "FrameMetadata_default = \<lparr>fm_page_id = INVALID_PAGE_ID, fm_pin_count = 0, fm_is_dirty = False\<rparr>"

definition FrameMetadata_IsOccupied :: "frame_metadata \<Rightarrow> bool" where
  "FrameMetadata_IsOccupied m \<longleftrightarrow> fm_page_id m \<noteq> INVALID_PAGE_ID"

definition FrameMetadata_IsEvictable :: "frame_metadata \<Rightarrow> bool" where
  "FrameMetadata_IsEvictable m \<longleftrightarrow> FrameMetadata_IsOccupied m \<and> fm_pin_count m = 0"

record bp_stats =
  st_hits :: u64
  st_misses :: u64
  st_evictions :: u64
  st_flushes :: u64

definition Stats_default :: bp_stats where
  "Stats_default = \<lparr>st_hits = 0, st_misses = 0, st_evictions = 0, st_flushes = 0\<rparr>"

record bpm =
  bp_pool_size :: u32
  bp_disk :: disk
  bp_pages :: "page list"
  bp_meta :: "frame_metadata list"
  bp_free :: "u32 list"
  bp_table :: "u32 \<Rightarrow> u32 option"
  bp_lru :: lru_replacer
  bp_stat :: bp_stats

definition BufferPoolManager_new :: "u32 \<Rightarrow> disk \<Rightarrow> bpm" where
  "BufferPoolManager_new pool_size d =
     \<lparr>bp_pool_size = pool_size, bp_disk = d,
      bp_pages = replicate (unat pool_size) Page_default,
      bp_meta = replicate (unat pool_size) FrameMetadata_default,
      bp_free = map of_nat [0..<unat pool_size], bp_table = (\<lambda>_. None),
      bp_lru = LRUReplacer_new, bp_stat = Stats_default\<rparr>"

abbreviation frame_page :: "bpm \<Rightarrow> u32 \<Rightarrow> page" where
  "frame_page b f \<equiv> bp_pages b ! unat f"

abbreviation frame_meta :: "bpm \<Rightarrow> u32 \<Rightarrow> frame_metadata" where
  "frame_meta b f \<equiv> bp_meta b ! unat f"

definition set_page :: "u32 \<Rightarrow> page \<Rightarrow> bpm \<Rightarrow> bpm" where
  "set_page f p b = b\<lparr>bp_pages := (bp_pages b)[unat f := p]\<rparr>"

definition set_meta :: "u32 \<Rightarrow> frame_metadata \<Rightarrow> bpm \<Rightarrow> bpm" where
  "set_meta f m b = b\<lparr>bp_meta := (bp_meta b)[unat f := m]\<rparr>"

section \<open>Finding a frame\<close>

text \<open>
  Writing a frame back, which \<open>EvictFrame\<close>, \<open>FlushPage\<close> and \<open>FlushAllPages\<close> share: the
  page is serialized into its buffer and written; the result of \<open>WritePage\<close> is ignored.
\<close>

definition write_back :: "u32 \<Rightarrow> u32 \<Rightarrow> bpm \<Rightarrow> bpm" where
  "write_back page_id f b =
     (let page = Page_SerializeToBuffer (frame_page b f);
          (_, d) = DiskManager_WritePage page_id (p_data page) (bp_disk b)
      in set_meta f ((frame_meta b f)\<lparr>fm_is_dirty := False\<rparr>)
           ((set_page f page b)\<lparr>bp_disk := d,
              bp_stat := (bp_stat b)\<lparr>st_flushes := st_flushes (bp_stat b) + 1\<rparr>\<rparr>))"

definition BufferPoolManager_EvictFrame :: "u32 \<Rightarrow> bpm \<Rightarrow> bpm" where
  "BufferPoolManager_EvictFrame f b =
     (let b1 = (if fm_is_dirty (frame_meta b f) then write_back (fm_page_id (frame_meta b f)) f b else b)
      in set_meta f FrameMetadata_default
           (b1\<lparr>bp_table := (bp_table b1)(fm_page_id (frame_meta b1 f) := None)\<rparr>))"

definition BufferPoolManager_FindFreeFrame :: "bpm \<Rightarrow> u32 \<times> bpm" where
  "BufferPoolManager_FindFreeFrame b =
     (case bp_free b of
        f # fs \<Rightarrow> (f, b\<lparr>bp_free := fs\<rparr>)
      | [] \<Rightarrow>
          let (victim, lru) = LRUReplacer_Evict (bp_lru b);
              b1 = b\<lparr>bp_lru := lru\<rparr>
          in if victim = INVALID_FRAME_ID then (INVALID_FRAME_ID, b1)
             else let b2 = BufferPoolManager_EvictFrame victim b1
                  in (victim, b2\<lparr>bp_stat := (bp_stat b2)\<lparr>st_evictions := st_evictions (bp_stat b2) + 1\<rparr>\<rparr>))"

section \<open>Page access\<close>

definition BufferPoolManager_FetchPage :: "u32 \<Rightarrow> bpm \<Rightarrow> u32 option \<times> bpm" where
  "BufferPoolManager_FetchPage page_id b =
     (case bp_table b page_id of
        Some f \<Rightarrow>
          let meta = (frame_meta b f)\<lparr>fm_pin_count := fm_pin_count (frame_meta b f) + 1\<rparr>;
              b1 = set_meta f meta b;
              b2 = (if fm_pin_count meta = 1 then b1\<lparr>bp_lru := LRUReplacer_Remove f (bp_lru b1)\<rparr> else b1)
          in (Some f, b2\<lparr>bp_stat := (bp_stat b2)\<lparr>st_hits := st_hits (bp_stat b2) + 1\<rparr>\<rparr>)
      | None \<Rightarrow>
          let (f, b1) = BufferPoolManager_FindFreeFrame
                (b\<lparr>bp_stat := (bp_stat b)\<lparr>st_misses := st_misses (bp_stat b) + 1\<rparr>\<rparr>)
          in if f = INVALID_FRAME_ID then (None, b1)
             else
               let (ok, data, d) = DiskManager_ReadPage page_id (p_data (frame_page b1 f)) (bp_disk b1);
                   page = (frame_page b1 f)\<lparr>p_data := data\<rparr>;
                   b2 = (set_page f page b1)\<lparr>bp_disk := d\<rparr>
               in if \<not> ok then (None, b2\<lparr>bp_free := bp_free b2 @ [f]\<rparr>)
                  else
                    let b3 = set_meta f \<lparr>fm_page_id = page_id, fm_pin_count = 1, fm_is_dirty = False\<rparr>
                               (set_page f (Page_DeserializeFromBuffer page) b2)
                    in (Some f, b3\<lparr>bp_table := (bp_table b3)(page_id \<mapsto> f)\<rparr>))"

definition BufferPoolManager_UnpinPage :: "u32 \<Rightarrow> bool \<Rightarrow> bpm \<Rightarrow> bool \<times> bpm" where
  "BufferPoolManager_UnpinPage page_id is_dirty b =
     (case bp_table b page_id of
        None \<Rightarrow> (False, b)
      | Some f \<Rightarrow>
          let meta = frame_meta b f
          in if fm_pin_count meta = 0 then (False, b)
             else
               let meta1 = meta\<lparr>fm_pin_count := fm_pin_count meta - 1\<rparr>;
                   meta2 = (if is_dirty then meta1\<lparr>fm_is_dirty := True\<rparr> else meta1);
                   b1 = set_meta f meta2 b
               in (True, if fm_pin_count meta2 = 0
                         then b1\<lparr>bp_lru := LRUReplacer_RecordAccess f (bp_lru b1)\<rparr> else b1))"

section \<open>Page creation and deletion\<close>

text \<open>An error thrown by \<open>AllocatePage\<close> leaves \<open>NewPage\<close> after the frame was taken.\<close>

definition BufferPoolManager_NewPage :: "bpm \<Rightarrow> (db_error + u32 option) \<times> bpm" where
  "BufferPoolManager_NewPage b =
     (let (f, b1) = BufferPoolManager_FindFreeFrame b
      in if f = INVALID_FRAME_ID then (Inr None, b1)
         else case DiskManager_AllocatePage (bp_disk b1) of
                (Inl e, d) \<Rightarrow> (Inl e, b1\<lparr>bp_disk := d\<rparr>)
              | (Inr new_page_id, d) \<Rightarrow>
                  let b2 = set_page f (fst (Page_move_assign (frame_page b1 f) (Page_new new_page_id)))
                             (b1\<lparr>bp_disk := d\<rparr>);
                      b3 = set_meta f \<lparr>fm_page_id = new_page_id, fm_pin_count = 1, fm_is_dirty = True\<rparr> b2
                  in (Inr (Some f), b3\<lparr>bp_table := (bp_table b3)(new_page_id \<mapsto> f)\<rparr>))"

definition BufferPoolManager_DeletePage :: "u32 \<Rightarrow> bpm \<Rightarrow> (db_error + bool) \<times> bpm" where
  "BufferPoolManager_DeletePage page_id b =
     (let dealloc = (\<lambda>b. let (r, d) = DiskManager_DeallocatePage page_id (bp_disk b) in (r, b\<lparr>bp_disk := d\<rparr>))
      in case bp_table b page_id of
           None \<Rightarrow> dealloc b
         | Some f \<Rightarrow>
             if fm_pin_count (frame_meta b f) \<noteq> 0 then (Inr False, b)
             else dealloc
               ((set_meta f FrameMetadata_default b)
                  \<lparr>bp_lru := LRUReplacer_Remove f (bp_lru b), bp_table := (bp_table b)(page_id := None),
                   bp_free := bp_free b @ [f]\<rparr>))"

section \<open>Flushing\<close>

definition BufferPoolManager_FlushPage :: "u32 \<Rightarrow> bpm \<Rightarrow> bool \<times> bpm" where
  "BufferPoolManager_FlushPage page_id b =
     (case bp_table b page_id of None \<Rightarrow> (False, b) | Some f \<Rightarrow> (True, write_back page_id f b))"

definition flush_frame :: "bpm \<Rightarrow> nat \<Rightarrow> bpm" where
  "flush_frame b i =
     (if FrameMetadata_IsOccupied (bp_meta b ! i) \<and> fm_is_dirty (bp_meta b ! i)
      then write_back (fm_page_id (bp_meta b ! i)) (of_nat i) b else b)"

definition BufferPoolManager_FlushAllPages :: "bpm \<Rightarrow> bpm" where
  "BufferPoolManager_FlushAllPages b =
     (let b1 = foldl flush_frame b [0..<unat (bp_pool_size b)]
      in b1\<lparr>bp_disk := DiskManager_Flush (bp_disk b1)\<rparr>)"

definition BufferPoolManager_close :: "bpm \<Rightarrow> bpm" where
  "BufferPoolManager_close b = BufferPoolManager_FlushAllPages b"

section \<open>Diagnostics\<close>

definition BufferPoolManager_GetOccupiedFrameCount :: "bpm \<Rightarrow> u32" where
  "BufferPoolManager_GetOccupiedFrameCount b = of_nat (card (dom (bp_table b)))"

definition BufferPoolManager_GetEvictableFrameCount :: "bpm \<Rightarrow> u32" where
  "BufferPoolManager_GetEvictableFrameCount b = LRUReplacer_Size (bp_lru b)"

definition BufferPoolManager_ResetStats :: "bpm \<Rightarrow> bpm" where
  "BufferPoolManager_ResetStats b = b\<lparr>bp_stat := Stats_default\<rparr>"

section \<open>The replacer contract\<close>

text \<open>
  What the pool relies on: the evictable frames are a set that \<open>RecordAccess\<close> and \<open>Remove\<close>
  add to and take from, and \<open>Evict\<close> takes one of them while there is one. Which one is the
  policy, which \<open>lru_rep\<close> below describes.
\<close>

locale frame_replacer =
  fixes access :: "u32 \<Rightarrow> 'r \<Rightarrow> 'r" and remove :: "u32 \<Rightarrow> 'r \<Rightarrow> 'r" and evict :: "'r \<Rightarrow> u32 \<times> 'r"
    and inv :: "'r \<Rightarrow> bool" and evictable :: "'r \<Rightarrow> u32 set"
  assumes access: "inv r \<Longrightarrow> f \<noteq> INVALID_FRAME_ID \<Longrightarrow>
      inv (access f r) \<and> evictable (access f r) = insert f (evictable r)"
    and remove: "inv r \<Longrightarrow> inv (remove f r) \<and> evictable (remove f r) = evictable r - {f}"
    and evict_none: "inv r \<Longrightarrow> evictable r = {} \<Longrightarrow> evict r = (INVALID_FRAME_ID, r)"
    and evict_some: "inv r \<Longrightarrow> evictable r \<noteq> {} \<Longrightarrow> evict r = (f, r') \<Longrightarrow>
      f \<in> evictable r \<and> inv r' \<and> evictable r' = evictable r - {f}"
    and valid: "inv r \<Longrightarrow> INVALID_FRAME_ID \<notin> evictable r"
begin

lemma evict_cases:
  assumes "inv r"
  obtains (none) "evict r = (INVALID_FRAME_ID, r)" "evictable r = {}"
  | (some) f r' where "evict r = (f, r')" "f \<noteq> INVALID_FRAME_ID" "f \<in> evictable r" "inv r'"
      "evictable r' = evictable r - {f}"
proof (cases "evictable r = {}")
  case True
  then show ?thesis using evict_none assms none by blast
next
  case False
  obtain f r' where "evict r = (f, r')" by fastforce
  then show ?thesis using evict_some [OF assms False] valid [OF assms] some by metis
qed

lemma evict_fails_iff: "inv r \<Longrightarrow> fst (evict r) = INVALID_FRAME_ID \<longleftrightarrow> evictable r = {}"
  by (rule evict_cases [of r]) auto

end

text \<open>
  The abstract policy: a replacer state stands for the accesses \<open>h\<close> of the frames still in it,
  oldest first.
\<close>

definition lru_rep :: "u32 list \<Rightarrow> lru_replacer \<Rightarrow> bool" where
  "lru_rep h r \<longleftrightarrow> lru_list r = rev (remdups h) \<and> lru_frames r = set h"

lemma remdups_snoc: "remdups (h @ [f]) = filter (\<lambda>g. g \<noteq> f) (remdups h) @ [f]"
  by (induction h) auto

lemma remove1_rev_remdups: "remove1 f (rev (remdups h)) = rev (remdups (filter (\<lambda>g. g \<noteq> f) h))"
proof -
  have "remove1 f (rev (remdups h)) = filter (\<lambda>g. g \<noteq> f) (rev (remdups h))"
    by (simp add: distinct_remove1_removeAll removeAll_filter_not_eq) (metis (no_types) eq_commute)
  then show ?thesis by (simp add: rev_filter remdups_filter)
qed

lemma lru_rep_access: "lru_rep h r \<Longrightarrow> lru_rep (h @ [f]) (LRUReplacer_RecordAccess f r)"
  by (auto simp: lru_rep_def LRUReplacer_RecordAccess_def remdups_snoc remove1_rev_remdups remdups_filter
      intro: filter_True [symmetric])

lemma lru_rep_remove: "lru_rep h r \<Longrightarrow> lru_rep (filter (\<lambda>g. g \<noteq> f) h) (LRUReplacer_Remove f r)"
  by (auto simp: lru_rep_def LRUReplacer_Remove_def remove1_rev_remdups)
    (metis (mono_tags, lifting) filter_True)

lemma hd_remdups_split:
  "h \<noteq> [] \<Longrightarrow> \<exists>ys zs. h = ys @ hd (remdups h) # zs \<and> hd (remdups h) \<notin> set zs \<and>
     set h - {hd (remdups h)} \<subseteq> set zs"
proof (induction h)
  case Nil
  then show ?case by simp
next
  case (Cons x xs)
  show ?case
  proof (cases "x \<in> set xs")
    case True
    then obtain ys zs where "xs = ys @ hd (remdups xs) # zs" "hd (remdups xs) \<notin> set zs"
      "set xs - {hd (remdups xs)} \<subseteq> set zs"
      using Cons.IH by (metis list.set_intros(1) list.distinct(1) list.set_cases)
    then show ?thesis using True by (intro exI [of _ "x # ys"] exI [of _ zs]) auto
  next
    case False
    then show ?thesis by (intro exI [of _ "[]"] exI [of _ xs]) auto
  qed
qed

lemma lru_evict_none: "lru_rep [] r \<Longrightarrow> LRUReplacer_Evict r = (INVALID_FRAME_ID, r)"
  by (simp add: lru_rep_def LRUReplacer_Evict_def)

lemma lru_evict_some:
  assumes "lru_rep h r" "h \<noteq> []" "LRUReplacer_Evict r = (f, r')"
  shows "f = hd (remdups h)" "lru_rep (filter (\<lambda>g. g \<noteq> f) h) r'"
proof -
  have ne: "remdups h \<noteq> []" using assms(2) by simp
  have tl: "filter (\<lambda>g. g \<noteq> hd l) l = tl l" if "distinct l" "l \<noteq> []" for l :: "u32 list"
    using that by (cases l) (auto intro: filter_True)
  have l: "lru_list r = rev (remdups h)" "lru_frames r = set h" "lru_list r \<noteq> []"
    using assms(1) ne by (simp_all add: lru_rep_def)
  have ev: "f = last (lru_list r)"
    "r' = r\<lparr>lru_list := butlast (lru_list r), lru_frames := lru_frames r - {f}\<rparr>"
    using assms(3) l(3) by (auto simp: LRUReplacer_Evict_def Let_def)
  show f: "f = hd (remdups h)"
    using ev(1) l(1) by (simp only: last_rev)
  have "butlast (rev (remdups h)) = rev (remdups (filter (\<lambda>g. g \<noteq> f) h))"
    unfolding f using tl [OF distinct_remdups ne] by (simp only: butlast_rev remdups_filter)
  then show "lru_rep (filter (\<lambda>g. g \<noteq> f) h) r'"
    using l(1,2) by (auto simp: lru_rep_def ev(2))
qed

definition lru_inv :: "lru_replacer \<Rightarrow> bool" where
  "lru_inv r \<longleftrightarrow> INVALID_FRAME_ID \<notin> lru_frames r \<and> (\<exists>h. lru_rep h r)"

lemma lru_rep_frames: "lru_rep h r \<Longrightarrow> lru_frames r = set h"
  by (simp add: lru_rep_def)

interpretation lru: frame_replacer LRUReplacer_RecordAccess LRUReplacer_Remove LRUReplacer_Evict
  lru_inv lru_frames
proof
  fix r f
  assume "lru_inv r" "f \<noteq> INVALID_FRAME_ID"
  then obtain h where h: "lru_rep h r" "INVALID_FRAME_ID \<notin> insert f (lru_frames r)"
    by (auto simp: lru_inv_def)
  then show "lru_inv (LRUReplacer_RecordAccess f r) \<and>
      lru_frames (LRUReplacer_RecordAccess f r) = insert f (lru_frames r)"
    using lru_rep_access [OF h(1), of f] lru_rep_frames [OF h(1)] lru_rep_frames [OF lru_rep_access [OF h(1)]]
    by (auto simp: lru_inv_def)
next
  fix r f
  assume "lru_inv r"
  then obtain h where h: "lru_rep h r" "INVALID_FRAME_ID \<notin> lru_frames r" by (auto simp: lru_inv_def)
  then show "lru_inv (LRUReplacer_Remove f r) \<and> lru_frames (LRUReplacer_Remove f r) = lru_frames r - {f}"
    using lru_rep_remove [OF h(1), of f] lru_rep_frames [OF h(1)] lru_rep_frames [OF lru_rep_remove [OF h(1)]]
    by (auto simp: lru_inv_def)
next
  fix r
  assume "lru_inv r" "lru_frames r = {}"
  then show "LRUReplacer_Evict r = (INVALID_FRAME_ID, r)"
    by (metis lru_inv_def lru_rep_frames set_empty lru_evict_none)
next
  fix r f r'
  assume "lru_inv r" "lru_frames r \<noteq> {}" and ev: "LRUReplacer_Evict r = (f, r')"
  then obtain h where h: "lru_rep h r" "INVALID_FRAME_ID \<notin> lru_frames r" "h \<noteq> []"
    by (metis lru_inv_def lru_rep_frames set_empty)
  note e = lru_evict_some [OF h(1,3) ev]
  have "f \<in> set h" using e(1) h(3) by (metis hd_in_set remdups_eq_nil_iff set_remdups)
  then show "f \<in> lru_frames r \<and> lru_inv r' \<and> lru_frames r' = lru_frames r - {f}"
    using lru_rep_frames [OF h(1)] lru_rep_frames [OF e(2)] e(2) h(2) by (auto simp: lru_inv_def)
qed (simp add: lru_inv_def)

section \<open>Page images\<close>

text \<open>The 4096 bytes that stand for a page in a frame, and a frame loaded from such bytes.\<close>

definition page_image :: "page \<Rightarrow> u8 list" where
  "page_image p = buf_read (p_data (Page_SerializeToBuffer p)) 0 PAGE_SIZE"

definition load_page :: "u8 list \<Rightarrow> page \<Rightarrow> page" where
  "load_page bs p = Page_DeserializeFromBuffer (p\<lparr>p_data := buf_write (p_data p) 0 bs\<rparr>)"

definition image_ok :: "u8 list \<Rightarrow> bool" where
  "image_ok bs \<longleftrightarrow> length bs = PAGE_SIZE \<and> unat (of_le_bytes (take 2 (drop 4 bs)) :: u16) \<le> 1019"

lemma length_page_image [simp]: "length (page_image p) = PAGE_SIZE"
  by (simp add: page_image_def)

lemma image_num_slots:
  "length bs = PAGE_SIZE \<Longrightarrow> get16 (buf_write b 0 bs) 4 = of_le_bytes (take 2 (drop 4 bs))"
  by (intro arg_cong [where f = of_le_bytes] nth_equalityI) (auto simp: PAGE_SIZE_def buf_write_def)

lemma page_ser_ok_load: "image_ok bs \<Longrightarrow> page_ser_ok (load_page bs p)"
  unfolding load_page_def
  by (intro Deserialize_ser_ok) (simp add: image_ok_def image_num_slots)

lemma page_image_load: "image_ok bs \<Longrightarrow> page_image (load_page bs p) = bs"
  by (simp add: page_image_def load_page_def Serialize_Deserialize image_ok_def image_num_slots)

lemma image_ok_page_image: "page_ser_ok p \<Longrightarrow> image_ok (page_image p)"
  by (simp add: image_ok_def page_image_def drop_buf_read take_buf_read PAGE_SIZE_def)
    (use arg_cong [OF header_of_serialized, of p ph_num_slots] in \<open>simp add: page_ser_ok_def header_of_buf_def\<close>)

section \<open>The pool invariant\<close>

abbreviation pool_frame :: "bpm \<Rightarrow> u32 \<Rightarrow> bool" where
  "pool_frame b f \<equiv> unat f < unat (bp_pool_size b)"

abbreviation occupied :: "bpm \<Rightarrow> u32 \<Rightarrow> bool" where
  "occupied b f \<equiv> FrameMetadata_IsOccupied (frame_meta b f)"

text \<open>
  The frames in \<open>T\<close> are taken: an operation has removed them from the free list or the replacer
  and has not filled them yet. Between operations there are none.
\<close>

definition bpm_mem :: "u32 set \<Rightarrow> bpm \<Rightarrow> bool" where
  "bpm_mem T b \<longleftrightarrow>
     length (bp_meta b) = unat (bp_pool_size b) \<and> length (bp_pages b) = unat (bp_pool_size b) \<and>
     (\<forall>p f. bp_table b p = Some f \<longleftrightarrow> pool_frame b f \<and> occupied b f \<and> fm_page_id (frame_meta b f) = p) \<and>
     distinct (bp_free b) \<and> set (bp_free b) = {f. pool_frame b f \<and> \<not> occupied b f} - T \<and>
     lru_inv (bp_lru b) \<and>
     lru_frames (bp_lru b) = {f. pool_frame b f \<and> FrameMetadata_IsEvictable (frame_meta b f)} - T \<and>
     (\<forall>f. pool_frame b f \<longrightarrow> \<not> occupied b f \<longrightarrow> frame_meta b f = FrameMetadata_default)"

definition bp_data :: "bpm \<Rightarrow> u32 set" where
  "bp_data b = disk_used (bp_disk b) - {0}"

text \<open>
  With the disk: the pages in the pool are data pages, what is in a frame can be serialized, and
  an unpinned clean frame holds what the disk holds.
\<close>

definition bpm_ok :: "u32 set \<Rightarrow> bpm \<Rightarrow> bool" where
  "bpm_ok T b \<longleftrightarrow>
     bpm_mem T b \<and> disk_inv (bp_disk b) \<and> dom (bp_table b) \<subseteq> bp_data b \<and>
     (\<forall>f. pool_frame b f \<longrightarrow> occupied b f \<longrightarrow> page_ser_ok (frame_page b f)) \<and>
     (\<forall>f. pool_frame b f \<longrightarrow> FrameMetadata_IsEvictable (frame_meta b f) \<longrightarrow> \<not> fm_is_dirty (frame_meta b f) \<longrightarrow>
        disk_page (bp_disk b) (fm_page_id (frame_meta b f)) = page_image (frame_page b f)) \<and>
     (\<forall>p\<in>bp_data b. bp_table b p = None \<longrightarrow> image_ok (disk_page (bp_disk b) p))"

abbreviation bpm_inv :: "bpm \<Rightarrow> bool" where
  "bpm_inv b \<equiv> bpm_ok {} b"

text \<open>The contract of the pool: a map from data pages to their contents.\<close>

definition bp_view :: "bpm \<Rightarrow> u32 \<Rightarrow> u8 list option" where
  "bp_view b p =
     (if p \<in> bp_data b
      then Some (case bp_table b p of Some f \<Rightarrow> page_image (frame_page b f) | None \<Rightarrow> disk_page (bp_disk b) p)
      else None)"

lemma unat_inj: "unat f = unat g \<longleftrightarrow> f = g"
  by (simp add: word_unat_eq_iff)

lemma set_fields [simp]:
  "bp_pool_size (set_meta f m b) = bp_pool_size b" "bp_disk (set_meta f m b) = bp_disk b"
  "bp_pages (set_meta f m b) = bp_pages b" "bp_free (set_meta f m b) = bp_free b"
  "bp_table (set_meta f m b) = bp_table b" "bp_lru (set_meta f m b) = bp_lru b"
  "bp_stat (set_meta f m b) = bp_stat b" "length (bp_meta (set_meta f m b)) = length (bp_meta b)"
  "bp_pool_size (set_page f p b) = bp_pool_size b" "bp_disk (set_page f p b) = bp_disk b"
  "bp_meta (set_page f p b) = bp_meta b" "bp_free (set_page f p b) = bp_free b"
  "bp_table (set_page f p b) = bp_table b" "bp_lru (set_page f p b) = bp_lru b"
  "bp_stat (set_page f p b) = bp_stat b" "length (bp_pages (set_page f p b)) = length (bp_pages b)"
  by (simp_all add: set_meta_def set_page_def)

lemma set_meta_bp_meta: "bp_meta (set_meta f m b) = (bp_meta b)[unat f := m]"
  by (simp add: set_meta_def)

lemma set_page_bp_pages: "bp_pages (set_page f p b) = (bp_pages b)[unat f := p]"
  by (simp add: set_page_def)

lemma frame_meta_set: 
  "unat f < length (bp_meta b) \<Longrightarrow> frame_meta (set_meta f m b) g = (if g = f then m else frame_meta b g)"
  by (auto simp: set_meta_def nth_list_update unat_inj)

lemma frame_page_set:
  "unat f < length (bp_pages b) \<Longrightarrow> frame_page (set_page f p b) g = (if g = f then p else frame_page b g)"
  by (auto simp: set_page_def nth_list_update unat_inj)

lemmas meta_simps = FrameMetadata_IsOccupied_def FrameMetadata_IsEvictable_def FrameMetadata_default_def

lemma bpm_memD:
  assumes "bpm_mem T b"
  shows "length (bp_meta b) = unat (bp_pool_size b)" "length (bp_pages b) = unat (bp_pool_size b)"
    and "bp_table b p = Some f \<longleftrightarrow> pool_frame b f \<and> occupied b f \<and> fm_page_id (frame_meta b f) = p"
    and "distinct (bp_free b)" "set (bp_free b) = {f. pool_frame b f \<and> \<not> occupied b f} - T"
    and "lru_inv (bp_lru b)"
    and "lru_frames (bp_lru b) = {f. pool_frame b f \<and> FrameMetadata_IsEvictable (frame_meta b f)} - T"
    and "pool_frame b f \<Longrightarrow> \<not> occupied b f \<Longrightarrow> frame_meta b f = FrameMetadata_default"
  using assms unfolding bpm_mem_def by blast+

lemma bpm_okD:
  assumes "bpm_ok T b"
  shows "bpm_mem T b" "disk_inv (bp_disk b)" "bp_table b p = Some f \<Longrightarrow> p \<in> bp_data b"
    and "pool_frame b f \<Longrightarrow> occupied b f \<Longrightarrow> page_ser_ok (frame_page b f)"
    and "pool_frame b f \<Longrightarrow> FrameMetadata_IsEvictable (frame_meta b f) \<Longrightarrow> \<not> fm_is_dirty (frame_meta b f) \<Longrightarrow>
        disk_page (bp_disk b) (fm_page_id (frame_meta b f)) = page_image (frame_page b f)"
    and "p \<in> bp_data b \<Longrightarrow> bp_table b p = None \<Longrightarrow> image_ok (disk_page (bp_disk b) p)"
  using assms unfolding bpm_ok_def by blast+

lemma pool_frame_valid: "pool_frame b f \<Longrightarrow> f \<noteq> INVALID_FRAME_ID"
  using unat32_lt [of "bp_pool_size b"] by (auto simp: INVALID_FRAME_ID_def simp del: unat32_lt)

lemma bp_data_valid: "p \<in> bp_data b \<Longrightarrow> p \<noteq> 0 \<and> unat p < disk_pages (bp_disk b) \<and> p \<noteq> INVALID_PAGE_ID"
  by (auto simp: bp_data_def disk_used_def dest: valid_not_INVALID)

section \<open>Writing a frame back\<close>

lemma page_ser_ok_Serialize [simp]: "page_ser_ok (Page_SerializeToBuffer p) = page_ser_ok p"
  by (simp add: page_ser_ok_def)

lemma page_image_Serialize [simp]: "page_ser_ok p \<Longrightarrow> page_image (Page_SerializeToBuffer p) = page_image p"
proof -
  assume ok: "page_ser_ok p"
  let ?d = "p_data (Page_SerializeToBuffer p)"
  have "unat (get16 ?d 4) \<le> 1019"
    using image_ok_page_image [OF ok] image_num_slots [of "page_image p" ?d]
    by (simp add: image_ok_def) (simp add: page_image_def)
  then have "p_data (Page_SerializeToBuffer (Page_DeserializeFromBuffer (p\<lparr>p_data := ?d\<rparr>))) = ?d"
    by (subst Serialize_Deserialize) simp_all
  then show ?thesis
    by (simp add: page_image_def Deserialize_Serialize [OF ok])
qed

lemma bp_table_frame:
  assumes "bpm_ok T b" "bp_table b p = Some f"
  shows "pool_frame b f" "occupied b f" "fm_page_id (frame_meta b f) = p" "p \<in> bp_data b"
    and "page_ser_ok (frame_page b f)" "unat f < length (bp_meta b)" "unat f < length (bp_pages b)"
  using bpm_memD(1,2,3) [OF bpm_okD(1) [OF assms(1)]] bpm_okD(3,4) [OF assms(1)] assms(2) by auto

lemma bpm_mem_dirty:
  assumes mem: "bpm_mem T b" and f: "pool_frame b f" "occupied b f"
  shows "bpm_mem T (set_meta f ((frame_meta b f)\<lparr>fm_is_dirty := d\<rparr>) b)" (is "bpm_mem T ?b")
proof -
  note M = bpm_memD [OF mem]
  have m: "frame_meta ?b g = (if g = f then (frame_meta b f)\<lparr>fm_is_dirty := d\<rparr> else frame_meta b g)" for g
    using frame_meta_set [of f b] f M(1) by simp
  have occ: "occupied ?b g = occupied b g"
    "FrameMetadata_IsEvictable (frame_meta ?b g) = FrameMetadata_IsEvictable (frame_meta b g)"
    "fm_page_id (frame_meta ?b g) = fm_page_id (frame_meta b g)" for g
    using m by (auto simp: meta_simps)
  have "\<forall>g. pool_frame b g \<longrightarrow> \<not> occupied b g \<longrightarrow> frame_meta ?b g = FrameMetadata_default"
    using M(8) f m by auto
  then show ?thesis
    using M(1,2,4-7) M(3) by (simp add: bpm_mem_def occ)
qed

lemma write_back_fields [simp]:
  "bp_pool_size (write_back p f b) = bp_pool_size b" "bp_free (write_back p f b) = bp_free b"
  "bp_table (write_back p f b) = bp_table b" "bp_lru (write_back p f b) = bp_lru b"
  "bp_meta (write_back p f b) = bp_meta (set_meta f ((frame_meta b f)\<lparr>fm_is_dirty := False\<rparr>) b)"
  "bp_pages (write_back p f b) = bp_pages (set_page f (Page_SerializeToBuffer (frame_page b f)) b)"
  "bp_disk (write_back p f b) =
     snd (DiskManager_WritePage p (p_data (Page_SerializeToBuffer (frame_page b f))) (bp_disk b))"
  by (simp_all add: write_back_def set_meta_def set_page_def Let_def case_prod_beta)

lemma bpm_mem_cong:
  "bp_pool_size b' = bp_pool_size b \<Longrightarrow> bp_meta b' = bp_meta b \<Longrightarrow> bp_free b' = bp_free b \<Longrightarrow>
   bp_table b' = bp_table b \<Longrightarrow> bp_lru b' = bp_lru b \<Longrightarrow> length (bp_pages b') = length (bp_pages b) \<Longrightarrow>
   bpm_mem T b' = bpm_mem T b"
  unfolding bpm_mem_def by (simp only:)

lemma write_back_ok:
  assumes ok: "bpm_ok T b" and t: "bp_table b p = Some f"
  defines "b' \<equiv> write_back p f b"
  shows "bpm_ok T b'" "bp_view b' = bp_view b" "bp_data b' = bp_data b"
    and "frame_meta b' g = (if g = f then (frame_meta b f)\<lparr>fm_is_dirty := False\<rparr> else frame_meta b g)"
    and "frame_page b' g = (if g = f then Page_SerializeToBuffer (frame_page b f) else frame_page b g)"
    and "disk_page (bp_disk b') p = page_image (frame_page b f)"
    and "q \<noteq> p \<Longrightarrow> q \<in> bp_data b \<Longrightarrow> disk_page (bp_disk b') q = disk_page (bp_disk b) q"
    and "dm_header (bp_disk b') = dm_header (bp_disk b)" "disk_free (bp_disk b') = disk_free (bp_disk b)"
proof -
  note F = bp_table_frame [OF ok t] and O = bpm_okD [OF ok] and M = bpm_memD [OF O(1)]
  let ?data = "p_data (Page_SerializeToBuffer (frame_page b f))"
  have valid: "p \<noteq> 0" "unat p < disk_pages (bp_disk b)" "p \<notin> set (disk_free (bp_disk b))"
    using F(4) by (auto simp: bp_data_def disk_used_def)
  have "DiskManager_WritePage p ?data (bp_disk b) = (fst (DiskManager_WritePage p ?data (bp_disk b)), bp_disk b')"
    by (simp add: b'_def)
  note W = disk_write_page [OF O(2) valid(2) this]
  have disk: "disk_inv (bp_disk b')" "disk_free (bp_disk b') = disk_free (bp_disk b)"
    "dm_header (bp_disk b') = dm_header (bp_disk b)"
    using W(2,7) valid by auto
  then show "dm_header (bp_disk b') = dm_header (bp_disk b)" "disk_free (bp_disk b') = disk_free (bp_disk b)"
    by simp_all
  show data: "bp_data b' = bp_data b"
    using disk by (simp add: bp_data_def disk_used_def)
  show img: "disk_page (bp_disk b') p = page_image (frame_page b f)"
    using W(4) by (simp add: page_image_def)
  have other: "disk_page (bp_disk b') q = disk_page (bp_disk b) q" if "q \<noteq> p" "q \<in> bp_data b" for q
    using W(6) that by (auto simp: bp_data_def disk_used_def)
  then show "q \<noteq> p \<Longrightarrow> q \<in> bp_data b \<Longrightarrow> disk_page (bp_disk b') q = disk_page (bp_disk b) q" .
  have m: "frame_meta b' g = (if g = f then (frame_meta b f)\<lparr>fm_is_dirty := False\<rparr> else frame_meta b g)" for g
    using frame_meta_set [OF F(6)] by (simp add: b'_def)
  have pg: "frame_page b' g = (if g = f then Page_SerializeToBuffer (frame_page b f) else frame_page b g)" for g
    using frame_page_set [OF F(7)] by (simp add: b'_def)
  show "frame_meta b' g = (if g = f then (frame_meta b f)\<lparr>fm_is_dirty := False\<rparr> else frame_meta b g)"
    "frame_page b' g = (if g = f then Page_SerializeToBuffer (frame_page b f) else frame_page b g)"
    by (fact m pg)+
  have image: "page_image (frame_page b' g) = page_image (frame_page b g)" for g
    using pg F(5) by simp
  have occ: "occupied b' g = occupied b g" "fm_page_id (frame_meta b' g) = fm_page_id (frame_meta b g)"
    "FrameMetadata_IsEvictable (frame_meta b' g) = FrameMetadata_IsEvictable (frame_meta b g)" for g
    using m by (auto simp: meta_simps)
  have mem: "bpm_mem T b'"
    using bpm_mem_dirty [OF O(1) F(1,2), of False] bpm_mem_cong [of b' "set_meta f ((frame_meta b f)\<lparr>fm_is_dirty := False\<rparr>) b" T]
    by (simp add: b'_def)
  have tab: "bp_table b' = bp_table b" "bp_pool_size b' = bp_pool_size b" by (simp_all add: b'_def)
  have coherent: "disk_page (bp_disk b') (fm_page_id (frame_meta b g)) = page_image (frame_page b g)"
    if "pool_frame b g" "FrameMetadata_IsEvictable (frame_meta b g)" "\<not> fm_is_dirty (frame_meta b' g)" for g
  proof (cases "g = f")
    case True
    then show ?thesis using img F(3) by simp
  next
    case False
    have tg: "bp_table b (fm_page_id (frame_meta b g)) = Some g"
      using M(3) that by (simp add: FrameMetadata_IsEvictable_def)
    then show ?thesis
      using that False O(3,5) t other m by (metis option.inject)
  qed
  have "image_ok (disk_page (bp_disk b') q)" if "q \<in> bp_data b" "bp_table b q = None" for q
    using O(6) other that t by (metis option.distinct(1))
  then show "bpm_ok T b'"
    using mem disk(1) O(3,4) coherent data pg F(5)
    by (auto simp: bpm_ok_def tab occ image split: if_splits)
  show "bp_view b' = bp_view b"
  proof
    fix q
    show "bp_view b' q = bp_view b q"
      using data other [of q] t by (cases "q = p") (auto simp: bp_view_def tab image split: option.split)
  qed
qed

section \<open>Finding a frame preserves the contents\<close>

lemma bpm_ok_detach:
  assumes ok: "bpm_ok T b" and T: "f \<in> T" and f: "pool_frame b f" "FrameMetadata_IsEvictable (frame_meta b f)"
    and clean: "\<not> fm_is_dirty (frame_meta b f)"
  defines "b' \<equiv> set_meta f FrameMetadata_default
       (b\<lparr>bp_table := (bp_table b)(fm_page_id (frame_meta b f) := None)\<rparr>)"
  shows "bpm_ok T b'" "bp_view b' = bp_view b"
proof -
  note O = bpm_okD [OF ok] and M = bpm_memD [OF O(1)]
  let ?p = "fm_page_id (frame_meta b f)"
  have t: "bp_table b ?p = Some f"
    using M(3) f by (simp add: FrameMetadata_IsEvictable_def)
  have m: "frame_meta b' g = (if g = f then FrameMetadata_default else frame_meta b g)" for g
    using frame_meta_set [of f] f(1) M(1) by (simp add: b'_def)
  have tab: "bp_table b' = (bp_table b)(?p := None)" "bp_pool_size b' = bp_pool_size b" "bp_free b' = bp_free b"
    "bp_lru b' = bp_lru b" "bp_disk b' = bp_disk b" "bp_pages b' = bp_pages b"
    "length (bp_meta b') = length (bp_meta b)"
    by (simp_all add: b'_def)
  have "bp_table b' p = Some g \<longleftrightarrow> pool_frame b g \<and> occupied b' g \<and> fm_page_id (frame_meta b' g) = p" for p g
    using M(3) [of p g] M(3) [of ?p f] t by (auto simp: tab(1) m meta_simps)
  moreover have "{g. pool_frame b g \<and> \<not> occupied b' g} - T = {g. pool_frame b g \<and> \<not> occupied b g} - T"
    "{g. pool_frame b g \<and> FrameMetadata_IsEvictable (frame_meta b' g)} - T =
     {g. pool_frame b g \<and> FrameMetadata_IsEvictable (frame_meta b g)} - T"
    using T by (auto simp: m)
  ultimately have mem: "bpm_mem T b'"
    using M(1,2,4-8) by (auto simp: bpm_mem_def tab m)
  have data: "bp_data b' = bp_data b" by (simp add: bp_data_def tab)
  have coherent: "disk_page (bp_disk b) ?p = page_image (frame_page b f)"
    using O(5) f clean by blast
  have img: "image_ok (disk_page (bp_disk b) ?p)"
    using coherent O(4) f image_ok_page_image by (simp add: FrameMetadata_IsEvictable_def)
  have "pool_frame b g \<Longrightarrow> occupied b' g \<Longrightarrow> page_ser_ok (frame_page b g)"
    "pool_frame b g \<Longrightarrow> FrameMetadata_IsEvictable (frame_meta b' g) \<Longrightarrow> \<not> fm_is_dirty (frame_meta b' g) \<Longrightarrow>
       disk_page (bp_disk b) (fm_page_id (frame_meta b' g)) = page_image (frame_page b g)" for g
    using O(4,5) [of g] by (auto simp: m meta_simps split: if_splits)
  then show "bpm_ok T b'"
    using mem O(2,3,6) img by (auto simp: bpm_ok_def tab data split: if_splits)
  show "bp_view b' = bp_view b"
    using t coherent by (auto simp: bp_view_def fun_eq_iff tab data split: option.split)
qed

lemma evict_frame_ok:
  assumes ok: "bpm_ok T b" and T: "f \<in> T" and f: "pool_frame b f" "FrameMetadata_IsEvictable (frame_meta b f)"
  defines "b' \<equiv> BufferPoolManager_EvictFrame f b"
  shows "bpm_ok T b'" "bp_view b' = bp_view b" "frame_meta b' f = FrameMetadata_default"
    and "dm_header (bp_disk b') = dm_header (bp_disk b)" "disk_free (bp_disk b') = disk_free (bp_disk b)"
    and "bp_pool_size b' = bp_pool_size b" "bp_table b' = (bp_table b)(fm_page_id (frame_meta b f) := None)"
    and "g \<noteq> f \<Longrightarrow> frame_meta b' g = frame_meta b g" "g \<noteq> f \<Longrightarrow> frame_page b' g = frame_page b g"
    and "bp_free b' = bp_free b" "bp_lru b' = bp_lru b"
proof -
  note M = bpm_memD [OF bpm_okD(1) [OF ok]]
  let ?p = "fm_page_id (frame_meta b f)"
  have t: "bp_table b ?p = Some f"
    using M(3) f by (simp add: FrameMetadata_IsEvictable_def)
  note W = write_back_ok [OF ok t]
  define b1 where "b1 = (if fm_is_dirty (frame_meta b f) then write_back ?p f b else b)"
  have b1: "bpm_ok T b1" "bp_view b1 = bp_view b" "dm_header (bp_disk b1) = dm_header (bp_disk b)"
    "disk_free (bp_disk b1) = disk_free (bp_disk b)" "bp_pool_size b1 = bp_pool_size b"
    "bp_table b1 = bp_table b" "bp_free b1 = bp_free b" "bp_lru b1 = bp_lru b"
    using W(1,2,8,9) ok by (simp_all add: b1_def)
  have m: "frame_meta b1 g = (if g = f then (frame_meta b f)\<lparr>fm_is_dirty := False\<rparr> else frame_meta b g)"
    "g \<noteq> f \<Longrightarrow> frame_page b1 g = frame_page b g" for g
    using W(4,5) by (auto simp: b1_def)
  have b': "b' = set_meta f FrameMetadata_default
      (b1\<lparr>bp_table := (bp_table b1)(fm_page_id (frame_meta b1 f) := None)\<rparr>)"
    by (simp add: b'_def BufferPoolManager_EvictFrame_def Let_def b1_def)
  have f1: "pool_frame b1 f" "FrameMetadata_IsEvictable (frame_meta b1 f)" "\<not> fm_is_dirty (frame_meta b1 f)"
    using f b1(5) by (auto simp: m meta_simps)
  note D = bpm_ok_detach [OF b1(1) T f1]
  show "bpm_ok T b'" "bp_view b' = bp_view b"
    using D b1(2) by (simp_all add: b')
  have len: "unat f < length (bp_meta b1)"
    using f b1(5) bpm_memD(1) [OF bpm_okD(1) [OF b1(1)]] by simp
  show "frame_meta b' f = FrameMetadata_default" "g \<noteq> f \<Longrightarrow> frame_meta b' g = frame_meta b g"
    using frame_meta_set [of f] len m(1) by (simp_all add: b')
  show "g \<noteq> f \<Longrightarrow> frame_page b' g = frame_page b g" using m(2) by (simp add: b')
  show "dm_header (bp_disk b') = dm_header (bp_disk b)" "disk_free (bp_disk b') = disk_free (bp_disk b)"
    "bp_pool_size b' = bp_pool_size b" "bp_table b' = (bp_table b)(?p := None)"
    "bp_free b' = bp_free b" "bp_lru b' = bp_lru b"
    using b1 m(1) [of f] by (simp_all add: b')
qed

lemma bpm_ok_stat [simp]: "bpm_ok T (b\<lparr>bp_stat := st\<rparr>) = bpm_ok T b"
  and bp_view_stat [simp]: "bp_view (b\<lparr>bp_stat := st\<rparr>) = bp_view b"
  and bp_data_stat [simp]: "bp_data (b\<lparr>bp_stat := st\<rparr>) = bp_data b"
  by (simp_all add: bpm_ok_def bpm_mem_def bp_view_def bp_data_def fun_eq_iff cong: option.case_cong)

text \<open>Taking a frame off the free list or out of the replacer.\<close>

lemma bpm_ok_take:
  assumes ok: "bpm_ok {} b" and f: "pool_frame b f"
    and free: "distinct fs" "set fs = set (bp_free b) - {f}"
    and lru: "lru_inv r" "lru_frames r = lru_frames (bp_lru b) - {f}"
  shows "bpm_ok {f} (b\<lparr>bp_free := fs, bp_lru := r\<rparr>)" "bp_view (b\<lparr>bp_free := fs, bp_lru := r\<rparr>) = bp_view b"
proof -
  note O = bpm_okD [OF ok] and M = bpm_memD [OF O(1)]
  have "bpm_mem {f} (b\<lparr>bp_free := fs, bp_lru := r\<rparr>)"
    using M(1,2,8) M(3) free lru by (simp add: bpm_mem_def M(5,7))
  moreover have "bp_data (b\<lparr>bp_free := fs, bp_lru := r\<rparr>) = bp_data b"
    by (simp add: bp_data_def)
  ultimately show "bpm_ok {f} (b\<lparr>bp_free := fs, bp_lru := r\<rparr>)"
    "bp_view (b\<lparr>bp_free := fs, bp_lru := r\<rparr>) = bp_view b"
    using ok by (simp_all add: bpm_ok_def bp_view_def fun_eq_iff cong: option.case_cong)
qed

text \<open>
  What \<open>FindFreeFrame\<close> promises its callers: with no frame to give, nothing changes; otherwise an
  unoccupied frame is taken, it was not pinned, the contents of every page are as before and no
  other frame is touched.
\<close>

definition frame_found :: "bpm \<Rightarrow> u32 \<Rightarrow> bpm \<Rightarrow> bool" where
  "frame_found b f b' \<longleftrightarrow>
     pool_frame b f \<and> \<not> occupied b' f \<and> bpm_ok {f} b' \<and> bp_view b' = bp_view b \<and>
     (\<forall>p. bp_table b p = Some f \<longrightarrow> fm_pin_count (frame_meta b f) = 0) \<and>
     dm_header (bp_disk b') = dm_header (bp_disk b) \<and> disk_free (bp_disk b') = disk_free (bp_disk b) \<and>
     bp_pool_size b' = bp_pool_size b \<and>
     (\<forall>p. bp_table b' p = (if bp_table b p = Some f then None else bp_table b p)) \<and>
     (\<forall>g. g \<noteq> f \<longrightarrow> frame_meta b' g = frame_meta b g \<and> frame_page b' g = frame_page b g)"

lemma find_free_frame:
  assumes ok: "bpm_inv b" and find: "BufferPoolManager_FindFreeFrame b = (f, b')"
  obtains (none) "f = INVALID_FRAME_ID" "b' = b" "\<And>g. pool_frame b g \<Longrightarrow> fm_pin_count (frame_meta b g) \<noteq> 0"
  | (found) "f \<noteq> INVALID_FRAME_ID" "frame_found b f b'"
proof (cases "bp_free b")
  case (Cons g fs)
  note O = bpm_okD [OF ok] and M = bpm_memD [OF O(1)]
  have fb: "f = g" "b' = b\<lparr>bp_free := fs\<rparr>"
    using find Cons by (auto simp: BufferPoolManager_FindFreeFrame_def)
  have g: "pool_frame b g" "\<not> occupied b g"
    using M(5) Cons by auto
  have "lru_frames (bp_lru b) = lru_frames (bp_lru b) - {g}"
    using M(7) g by (auto simp: FrameMetadata_IsEvictable_def)
  then have t: "bpm_ok {g} b'" "bp_view b' = bp_view b"
    using bpm_ok_take [OF ok g(1), of fs "bp_lru b"] M(4,6) Cons fb by auto
  have "bp_table b p \<noteq> Some g" for p
    using M(3) g by simp
  then show ?thesis
    using found pool_frame_valid [OF g(1)] g t fb by (simp add: frame_found_def)
next
  case Nil
  note O = bpm_okD [OF ok] and M = bpm_memD [OF O(1)]
  have find': "(let (victim, r) = LRUReplacer_Evict (bp_lru b); b1 = b\<lparr>bp_lru := r\<rparr>
      in if victim = INVALID_FRAME_ID then (INVALID_FRAME_ID, b1)
         else let b2 = BufferPoolManager_EvictFrame victim b1
              in (victim, b2\<lparr>bp_stat := (bp_stat b2)\<lparr>st_evictions := st_evictions (bp_stat b2) + 1\<rparr>\<rparr>)) = (f, b')"
    using find Nil by (simp add: BufferPoolManager_FindFreeFrame_def)
  show ?thesis
  proof (cases rule: lru.evict_cases [OF M(6)])
    case 1
    have "fm_pin_count (frame_meta b g) \<noteq> 0" if "pool_frame b g" for g
      using M(5,7) 1(2) Nil that by (auto simp: FrameMetadata_IsEvictable_def)
    then show ?thesis using find' 1(1) none by simp
  next
    case (2 v r)
    have v: "pool_frame b v" "FrameMetadata_IsEvictable (frame_meta b v)"
      using 2(3) M(7) by auto
    let ?b1 = "b\<lparr>bp_lru := r\<rparr>"
    have "b\<lparr>bp_free := bp_free b, bp_lru := r\<rparr> = ?b1" "set (bp_free b) = set (bp_free b) - {v}"
      using Nil by simp_all
    then have b1: "bpm_ok {v} ?b1" "bp_view ?b1 = bp_view b"
      using bpm_ok_take [OF ok v(1) M(4) _ 2(4,5)] by metis+
    obtain st where fb: "f = v" "b' = (BufferPoolManager_EvictFrame v ?b1)\<lparr>bp_stat := st\<rparr>"
      using find' 2(1,2) by (auto simp: Let_def)
    note E = evict_frame_ok [OF b1(1) _ _ , of v, simplified, OF v]
    have "bp_table b p = Some v \<longleftrightarrow> p = fm_page_id (frame_meta b v)" for p
      using M(3) v by (auto simp: FrameMetadata_IsEvictable_def)
    moreover have "fm_pin_count (frame_meta b v) = 0" "\<not> FrameMetadata_IsOccupied FrameMetadata_default"
      using v by (simp_all add: meta_simps)
    ultimately have "frame_found b v b'"
      unfolding frame_found_def fb(2) using v(1) by (simp add: E b1(2))
    then show ?thesis using found fb(1) 2(2) by simp
  qed
qed

section \<open>Filling a taken frame\<close>

definition fill_frame :: "u32 \<Rightarrow> u32 \<Rightarrow> bool \<Rightarrow> page \<Rightarrow> bpm \<Rightarrow> bpm" where
  "fill_frame f p dirty pg b =
     (let b' = set_meta f \<lparr>fm_page_id = p, fm_pin_count = 1, fm_is_dirty = dirty\<rparr> (set_page f pg b)
      in b'\<lparr>bp_table := (bp_table b')(p \<mapsto> f)\<rparr>)"

lemma fill_frame_fields [simp]:
  "bp_pool_size (fill_frame f p dirty pg b) = bp_pool_size b" "bp_free (fill_frame f p dirty pg b) = bp_free b"
  "bp_lru (fill_frame f p dirty pg b) = bp_lru b" "bp_disk (fill_frame f p dirty pg b) = bp_disk b"
  "bp_table (fill_frame f p dirty pg b) = (bp_table b)(p \<mapsto> f)"
  "bp_pages (fill_frame f p dirty pg b) = bp_pages (set_page f pg b)"
  "bp_meta (fill_frame f p dirty pg b) =
     bp_meta (set_meta f \<lparr>fm_page_id = p, fm_pin_count = 1, fm_is_dirty = dirty\<rparr> b)"
  by (simp_all add: fill_frame_def Let_def set_meta_def set_page_def)

lemma bpm_ok_fill:
  fixes dirty :: bool
  assumes ok: "bpm_ok {f} b" and f: "pool_frame b f" "\<not> occupied b f"
    and p: "bp_table b p = None" "p \<in> bp_data b" and pg: "page_ser_ok pg"
  defines "b' \<equiv> fill_frame f p dirty pg b"
  shows "bpm_ok {} b'" "bp_view b' = (bp_view b)(p \<mapsto> page_image pg)"
    and "frame_meta b' f = \<lparr>fm_page_id = p, fm_pin_count = 1, fm_is_dirty = dirty\<rparr>" "frame_page b' f = pg"
    and "g \<noteq> f \<Longrightarrow> frame_meta b' g = frame_meta b g" "g \<noteq> f \<Longrightarrow> frame_page b' g = frame_page b g"
proof -
  note O = bpm_okD [OF ok] and M = bpm_memD [OF O(1)]
  have pv: "p \<noteq> INVALID_PAGE_ID" using bp_data_valid [OF p(2)] by simp
  have m: "frame_meta b' g =
      (if g = f then \<lparr>fm_page_id = p, fm_pin_count = 1, fm_is_dirty = dirty\<rparr> else frame_meta b g)" for g
    using frame_meta_set [of f b] f(1) M(1) by (simp add: b'_def)
  have pgs: "frame_page b' g = (if g = f then pg else frame_page b g)" for g
    using frame_page_set [of f b] f(1) M(2) by (simp add: b'_def)
  show "frame_meta b' f = \<lparr>fm_page_id = p, fm_pin_count = 1, fm_is_dirty = dirty\<rparr>" "frame_page b' f = pg"
    "g \<noteq> f \<Longrightarrow> frame_meta b' g = frame_meta b g" "g \<noteq> f \<Longrightarrow> frame_page b' g = frame_page b g"
    by (simp_all add: m pgs)
  have tab: "bp_table b' = (bp_table b)(p \<mapsto> f)" "bp_pool_size b' = bp_pool_size b" "bp_free b' = bp_free b"
    "bp_lru b' = bp_lru b" "bp_disk b' = bp_disk b" by (simp_all add: b'_def)
  have nf: "bp_table b q \<noteq> Some f" for q using M(3) f by simp
  have new: "FrameMetadata_IsOccupied \<lparr>fm_page_id = p, fm_pin_count = 1, fm_is_dirty = dirty\<rparr>"
    using pv by (simp add: FrameMetadata_IsOccupied_def)
  then have occ: "occupied b' g \<longleftrightarrow> g = f \<or> occupied b g" for g
    by (simp add: m)
  have ev: "FrameMetadata_IsEvictable (frame_meta b' g) \<longleftrightarrow> g \<noteq> f \<and> FrameMetadata_IsEvictable (frame_meta b g)" for g
    by (simp add: m FrameMetadata_IsEvictable_def)
  have "bp_table b' q = Some g \<longleftrightarrow> pool_frame b g \<and> occupied b' g \<and> fm_page_id (frame_meta b' g) = q" for q g
    using M(3) [of q g] M(3) [of p g] f p nf by (auto simp: tab(1) m new)
  moreover have "{g. pool_frame b g \<and> \<not> occupied b' g} = {g. pool_frame b g \<and> \<not> occupied b g} - {f}"
    "{g. pool_frame b g \<and> FrameMetadata_IsEvictable (frame_meta b' g)} =
     {g. pool_frame b g \<and> FrameMetadata_IsEvictable (frame_meta b g)} - {f}"
    by (auto simp: occ ev)
  moreover have "length (bp_meta b') = length (bp_meta b)" "length (bp_pages b') = length (bp_pages b)"
    by (simp_all add: b'_def)
  ultimately have mem: "bpm_mem {} b'"
    using M(1,2,4-7) M(8) new by (simp add: bpm_mem_def tab m)
  have data: "bp_data b' = bp_data b" by (simp add: bp_data_def tab)
  have "\<not> FrameMetadata_IsEvictable \<lparr>fm_page_id = p, fm_pin_count = 1, fm_is_dirty = d\<rparr>" for d
    by (simp add: FrameMetadata_IsEvictable_def)
  then have "pool_frame b g \<Longrightarrow> occupied b' g \<Longrightarrow> page_ser_ok (frame_page b' g)"
    "pool_frame b g \<Longrightarrow> FrameMetadata_IsEvictable (frame_meta b' g) \<Longrightarrow> \<not> fm_is_dirty (frame_meta b' g) \<Longrightarrow>
       disk_page (bp_disk b) (fm_page_id (frame_meta b' g)) = page_image (frame_page b' g)" for g
    using O(4,5) [of g] pg by (auto simp: m pgs)
  then show "bpm_ok {} b'"
    using mem O(2,3,6) p by (auto simp: bpm_ok_def tab data)
  show "bp_view b' = (bp_view b)(p \<mapsto> page_image pg)"
    using p nf by (auto simp: bp_view_def fun_eq_iff tab data pgs split: option.split)
qed

text \<open>Giving a taken frame back unused.\<close>

lemma bpm_ok_give_back:
  fixes pg :: page
  assumes ok: "bpm_ok {f} b" and f: "pool_frame b f" "\<not> occupied b f"
  defines "b' \<equiv> (set_page f pg b)\<lparr>bp_free := bp_free b @ [f]\<rparr>"
  shows "bpm_ok {} b'" "bp_view b' = bp_view b"
proof -
  note O = bpm_okD [OF ok] and M = bpm_memD [OF O(1)]
  have pgs: "frame_page b' g = (if g = f then pg else frame_page b g)" for g
    using frame_page_set [of f b] f(1) M(2) by (simp add: b'_def)
  have tab: "bp_table b' = bp_table b" "bp_pool_size b' = bp_pool_size b" "bp_meta b' = bp_meta b"
    "bp_lru b' = bp_lru b" "bp_disk b' = bp_disk b" "bp_free b' = bp_free b @ [f]"
    "length (bp_pages b') = length (bp_pages b)" by (simp_all add: b'_def)
  have "{g. pool_frame b g \<and> FrameMetadata_IsEvictable (frame_meta b g)} - {f} =
      {g. pool_frame b g \<and> FrameMetadata_IsEvictable (frame_meta b g)}"
    "insert f ({g. pool_frame b g \<and> \<not> occupied b g} - {f}) = {g. pool_frame b g \<and> \<not> occupied b g}"
    using f by (auto simp: FrameMetadata_IsEvictable_def)
  then have mem: "bpm_mem {} b'"
    using M(1,2,4-8) M(3) by (simp add: bpm_mem_def tab)
  have data: "bp_data b' = bp_data b" by (simp add: bp_data_def tab)
  have same: "occupied b g \<Longrightarrow> frame_page b' g = frame_page b g" for g using f(2) by (auto simp: pgs)
  then show "bpm_ok {} b'"
    using mem O(2-6) by (auto simp: bpm_ok_def tab data FrameMetadata_IsEvictable_def)
  have "bp_table b q \<noteq> Some f" for q using M(3) f by simp
  then show "bp_view b' = bp_view b"
    by (auto simp: bp_view_def fun_eq_iff tab data pgs split: option.split)
qed

section \<open>Pinning and unpinning\<close>

definition bp_pins :: "bpm \<Rightarrow> u32 \<Rightarrow> nat" where
  "bp_pins b p = (case bp_table b p of Some f \<Rightarrow> unat (fm_pin_count (frame_meta b f)) | None \<Rightarrow> 0)"

lemma bp_pins_pos_table: "0 < bp_pins b p \<Longrightarrow> \<exists>f. bp_table b p = Some f"
  by (auto simp: bp_pins_def split: option.splits)

lemma bpm_ok_pin:
  assumes ok: "bpm_ok {} b" and t: "bp_table b p = Some f"
    and lru: "lru_inv r" "lru_frames r = (if n = 0 then insert f (lru_frames (bp_lru b)) else lru_frames (bp_lru b) - {f})"
    and clean: "n = 0 \<Longrightarrow> \<not> dirty \<Longrightarrow> disk_page (bp_disk b) p = page_image (frame_page b f)"
  defines "m' \<equiv> (frame_meta b f)\<lparr>fm_pin_count := n, fm_is_dirty := dirty\<rparr>"
  defines "b' \<equiv> (set_meta f m' b)\<lparr>bp_lru := r\<rparr>"
  shows "bpm_ok {} b'" "bp_view b' = bp_view b" "bp_pins b' = (bp_pins b)(p := unat n)"
    and "g \<noteq> f \<Longrightarrow> frame_meta b' g = frame_meta b g"
proof -
  note O = bpm_okD [OF ok] and M = bpm_memD [OF O(1)] and F = bp_table_frame [OF ok t]
  have m: "frame_meta b' g = (if g = f then m' else frame_meta b g)" for g
    using frame_meta_set [OF F(6)] by (simp add: b'_def)
  then show "g \<noteq> f \<Longrightarrow> frame_meta b' g = frame_meta b g" by simp
  have tab: "bp_table b' = bp_table b" "bp_pool_size b' = bp_pool_size b" "bp_free b' = bp_free b"
    "bp_lru b' = r" "bp_disk b' = bp_disk b" "bp_pages b' = bp_pages b"
    "length (bp_meta b') = length (bp_meta b)" by (simp_all add: b'_def)
  have m': "FrameMetadata_IsOccupied m'" "fm_page_id m' = p" "FrameMetadata_IsEvictable m' \<longleftrightarrow> n = 0"
    "fm_is_dirty m' = dirty"
    using F(2,3) by (auto simp: m'_def meta_simps)
  have occ: "occupied b' g = occupied b g" "fm_page_id (frame_meta b' g) = fm_page_id (frame_meta b g)" for g
    using m m' F(2,3) by auto
  have "{g. pool_frame b g \<and> FrameMetadata_IsEvictable (frame_meta b' g)} = lru_frames r"
    using M(7) F(1) lru(2) m m'(3) by auto
  moreover have "pool_frame b g \<Longrightarrow> \<not> occupied b g \<Longrightarrow> frame_meta b' g = FrameMetadata_default" for g
    using M(8) F(2) m by auto
  ultimately have mem: "bpm_mem {} b'"
    using M(1,2,4,5) M(3) lru(1) by (simp add: bpm_mem_def tab occ)
  have data: "bp_data b' = bp_data b" by (simp add: bp_data_def tab)
  have "pool_frame b g \<Longrightarrow> FrameMetadata_IsEvictable (frame_meta b' g) \<Longrightarrow> \<not> fm_is_dirty (frame_meta b' g) \<Longrightarrow>
       disk_page (bp_disk b) (fm_page_id (frame_meta b g)) = page_image (frame_page b g)" for g
    using O(5) [of g] clean F(3) m m' by (cases "g = f") auto
  then show "bpm_ok {} b'"
    using mem O(2,3,4,6) by (auto simp: bpm_ok_def tab data occ)
  show "bp_view b' = bp_view b"
    by (simp add: bp_view_def fun_eq_iff tab data cong: option.case_cong)
  have "g = f \<longleftrightarrow> q = p" if "bp_table b q = Some g" for q g
    using that bp_table_frame(3) [OF ok that] F(3) t by (metis option.inject)
  then show "bp_pins b' = (bp_pins b)(p := unat n)"
    using t by (auto simp: bp_pins_def fun_eq_iff tab m m'_def split: option.split)
qed

section \<open>The operations\<close>

text \<open>
  A frame whose page is pinned stays where it is: its page, its contents and its metadata are
  untouched by an operation on other pages.
\<close>

definition pinned_stable :: "bpm \<Rightarrow> bpm \<Rightarrow> u32 \<Rightarrow> bool" where
  "pinned_stable b b' q \<longleftrightarrow>
     (\<forall>f. bp_table b q = Some f \<longrightarrow> 0 < bp_pins b q \<longrightarrow>
        bp_table b' q = Some f \<and> frame_page b' f = frame_page b f \<and> frame_meta b' f = frame_meta b f)"

lemma frame_found_stable:
  assumes "frame_found b f b'"
  shows "pinned_stable b b' q" "bp_pins b' = bp_pins b"
proof -
  have nz: "0 < bp_pins b q \<Longrightarrow> bp_table b q = Some g \<Longrightarrow> g \<noteq> f" for q g
    using assms by (auto simp: frame_found_def bp_pins_def)
  then show "pinned_stable b b' q"
    using assms unfolding pinned_stable_def frame_found_def by auto
  show "bp_pins b' = bp_pins b"
    using assms by (auto simp: frame_found_def bp_pins_def fun_eq_iff split: option.split)
qed

lemma meta_pin_only: "m\<lparr>fm_pin_count := n, fm_is_dirty := fm_is_dirty m\<rparr> = m\<lparr>fm_pin_count := n\<rparr>"
  by (cases m) simp

lemma bp_stat_only [simp]: "bp_pins (b\<lparr>bp_stat := st\<rparr>) = bp_pins b"
  "pinned_stable b (b'\<lparr>bp_stat := st\<rparr>) = pinned_stable b b'"
  "pinned_stable (b\<lparr>bp_stat := st\<rparr>) b' = pinned_stable b b'"
  by (simp_all add: bp_pins_def pinned_stable_def fun_eq_iff cong: option.case_cong)

lemma bpm_ok_disk_counter:
  "bpm_ok T (b\<lparr>bp_disk := (bp_disk b)\<lparr>dm_num_reads := n\<rparr>\<rparr>) = bpm_ok T b"
  "bp_view (b\<lparr>bp_disk := (bp_disk b)\<lparr>dm_num_reads := n\<rparr>\<rparr>) = bp_view b"
  "bp_data (b\<lparr>bp_disk := (bp_disk b)\<lparr>dm_num_reads := n\<rparr>\<rparr>) = bp_data b"
  by (simp_all add: bpm_ok_def bpm_mem_def bp_view_def bp_data_def fun_eq_iff cong: option.case_cong)

lemma fetch_hit:
  assumes ok: "bpm_inv b" and t: "bp_table b p = Some f" and pin: "bp_pins b p < 4294967295"
    and fetch: "BufferPoolManager_FetchPage p b = (r, b')"
  shows "r = Some f" "bpm_inv b'" "bp_view b' = bp_view b" "bp_pins b' = (bp_pins b)(p := Suc (bp_pins b p))"
    and "fm_is_dirty (frame_meta b' f) = fm_is_dirty (frame_meta b f)"
    and "bp_table b' = bp_table b" "frame_page b' g = frame_page b g" "g \<noteq> f \<Longrightarrow> frame_meta b' g = frame_meta b g"
    and "bp_pool_size b' = bp_pool_size b" "bp_disk b' = bp_disk b"
proof -
  note M = bpm_memD [OF bpm_okD(1) [OF ok]] and F = bp_table_frame [OF ok t]
  let ?n = "fm_pin_count (frame_meta b f) + 1"
  let ?r = "if ?n = 1 then LRUReplacer_Remove f (bp_lru b) else bp_lru b"
  have n: "unat ?n = Suc (bp_pins b p)" using pin t by (simp add: bp_pins_def word_nat)
  have n0: "?n \<noteq> 0" using n by (metis nat.distinct(1) unat_0)
  have "f \<notin> lru_frames (bp_lru b)" if "?n \<noteq> 1"
    using M(7) that by (auto simp: FrameMetadata_IsEvictable_def)
  then have lru: "lru_inv ?r" "lru_frames ?r = lru_frames (bp_lru b) - {f}"
    using lru.remove [OF M(6)] M(6) by auto
  let ?b1 = "(set_meta f ((frame_meta b f)\<lparr>fm_pin_count := ?n\<rparr>) b)\<lparr>bp_lru := ?r\<rparr>"
  have b': "r = Some f" "\<exists>st. b' = ?b1\<lparr>bp_stat := st\<rparr>"
    using fetch t by (auto simp: BufferPoolManager_FetchPage_def Let_def set_meta_def)
  note P = bpm_ok_pin [OF ok t lru(1), of ?n "fm_is_dirty (frame_meta b f)", unfolded meta_pin_only]
  show "r = Some f" by (fact b')
  show "bpm_inv b'" "bp_view b' = bp_view b" "bp_pins b' = (bp_pins b)(p := Suc (bp_pins b p))"
    "g \<noteq> f \<Longrightarrow> frame_meta b' g = frame_meta b g"
    using P b'(2) lru(2) n n0 by auto
  show "bp_table b' = bp_table b" "frame_page b' g = frame_page b g" "bp_pool_size b' = bp_pool_size b"
    "bp_disk b' = bp_disk b"
    using b'(2) by auto
  show "fm_is_dirty (frame_meta b' f) = fm_is_dirty (frame_meta b f)"
    using b'(2) frame_meta_set [OF F(6)] by auto
qed

lemma fetch_miss_full:
  assumes ok: "bpm_inv b" and t: "bp_table b p = None"
    and find: "BufferPoolManager_FindFreeFrame (b\<lparr>bp_stat := (bp_stat b)\<lparr>st_misses := st_misses (bp_stat b) + 1\<rparr>\<rparr>)
      = (f, b1)"
    and fetch: "BufferPoolManager_FetchPage p b = (r, b')" and f: "f = INVALID_FRAME_ID"
  shows "r = None" "b' = b1"
  using t find fetch f by (simp_all add: BufferPoolManager_FetchPage_def)

lemma fetch_miss_load:
  assumes b1: "frame_found b f b1" and t: "bp_table b p = None" and p: "p \<in> bp_data b"
    and find: "BufferPoolManager_FindFreeFrame (b\<lparr>bp_stat := (bp_stat b)\<lparr>st_misses := st_misses (bp_stat b) + 1\<rparr>\<rparr>)
      = (f, b1)"
    and fetch: "BufferPoolManager_FetchPage p b = (r, b')" and f: "f \<noteq> INVALID_FRAME_ID"
  shows "r = Some f \<and> b' = fill_frame f p False (load_page (disk_page (bp_disk b1) p) (frame_page b1 f))
    (b1\<lparr>bp_disk := (bp_disk b1)\<lparr>dm_num_reads := dm_num_reads (bp_disk b1) + 1\<rparr>\<rparr>)"
proof -
  have "disk_inv (bp_disk b1)" "unat p < disk_pages (bp_disk b1)"
    using b1 bp_data_valid [OF p] bpm_okD(2) by (auto simp: frame_found_def)
  note R = disk_read_page [OF this]
  show ?thesis
    using t find fetch f
    by (auto simp: BufferPoolManager_FetchPage_def R load_page_def fill_frame_def set_page_def set_meta_def Let_def)
qed

lemma pins_fill:
  assumes found: "frame_found b f b1" and p: "bp_table b p = None"
    and b': "bpm_ok {} b'" "bp_table b' = (bp_table b1)(p \<mapsto> f)" "fm_pin_count (frame_meta b' f) = 1"
    and other: "\<And>g. g \<noteq> f \<Longrightarrow> frame_meta b' g = frame_meta b1 g" "\<And>g. g \<noteq> f \<Longrightarrow> frame_page b' g = frame_page b1 g"
  shows "bp_pins b' = (bp_pins b)(p := 1)" "q \<noteq> p \<Longrightarrow> pinned_stable b b' q"
proof -
  have pins: "bp_pins b1 = bp_pins b" by (rule frame_found_stable(2) [OF found])
  have tab: "bp_table b1 q = (if bp_table b q = Some f then None else bp_table b q)" for q
    using found by (simp add: frame_found_def)
  have "bp_pins b' q = (if q = p then 1 else bp_pins b1 q)" for q
    using b'(2,3) other(1) tab [of q] by (auto simp: bp_pins_def split: option.split)
  then show "bp_pins b' = (bp_pins b)(p := 1)" using pins by auto
  have nf: "bp_table b1 q \<noteq> Some f" for q using tab [of q] by auto
  show "pinned_stable b b' q" if "q \<noteq> p"
    using frame_found_stable(1) [OF found, of q] that b'(2) other nf unfolding pinned_stable_def
    by (metis fun_upd_other)
qed

lemma fetch_page:
  assumes ok: "bpm_inv b" and p: "p \<in> bp_data b" and pin: "bp_pins b p < 4294967295"
    and fetch: "BufferPoolManager_FetchPage p b = (r, b')"
  obtains (full) "r = None" "bpm_inv b'" "bp_view b' = bp_view b" "bp_pins b' = bp_pins b"
      "bp_table b p = None" "\<And>g. pool_frame b g \<Longrightarrow> fm_pin_count (frame_meta b g) \<noteq> 0"
      "\<And>q. pinned_stable b b' q" "dm_header (bp_disk b') = dm_header (bp_disk b)"
      "disk_free (bp_disk b') = disk_free (bp_disk b)" "bp_pool_size b' = bp_pool_size b"
  | (hit) f where "r = Some f" "bpm_inv b'" "bp_view b' = bp_view b"
      "bp_pins b' = (bp_pins b)(p := Suc (bp_pins b p))" "bp_table b' p = Some f"
      "bp_view b p = Some (page_image (frame_page b' f))" "\<And>q. q \<noteq> p \<Longrightarrow> pinned_stable b b' q"
      "0 < bp_pins b p \<Longrightarrow> bp_table b p = Some f \<and> frame_page b' f = frame_page b f"
      "bp_pins b p = 0 \<Longrightarrow> \<not> fm_is_dirty (frame_meta b' f) \<Longrightarrow>
         disk_page (bp_disk b') p = page_image (frame_page b' f)"
      "page_ser_ok (frame_page b' f)"
      "dm_header (bp_disk b') = dm_header (bp_disk b)"
      "disk_free (bp_disk b') = disk_free (bp_disk b)" "bp_pool_size b' = bp_pool_size b"
proof (cases "bp_table b p")
  case (Some f)
  note H = fetch_hit [OF ok Some pin fetch]
  have "pinned_stable b b' q" if "q \<noteq> p" for q
    using H(6-8) bp_table_frame(3) [OF ok] Some that by (metis pinned_stable_def)
  moreover have "disk_page (bp_disk b) p = page_image (frame_page b f)"
    if "bp_pins b p = 0" "\<not> fm_is_dirty (frame_meta b f)"
    using bpm_okD(5) [OF ok, of f] bp_table_frame(1-3) [OF ok Some] that Some
    by (auto simp: bp_pins_def FrameMetadata_IsEvictable_def unat_eq_0)
  ultimately show ?thesis
    using hit [OF H(1-4)] H(5,6,7,9,10) Some p bp_table_frame(5) [OF ok Some] by (simp add: bp_view_def)
next
  case None
  let ?b0 = "b\<lparr>bp_stat := (bp_stat b)\<lparr>st_misses := st_misses (bp_stat b) + 1\<rparr>\<rparr>"
  obtain f b1 where find: "BufferPoolManager_FindFreeFrame ?b0 = (f, b1)" by fastforce
  have ok0: "bpm_inv ?b0" using ok by simp
  show ?thesis
  proof (cases rule: find_free_frame [OF ok0 find])
    case 1
    note N = fetch_miss_full [OF ok None find fetch 1(1)]
    show ?thesis
      using full 1(2,3) N None ok by (simp add: pinned_stable_def)
  next
    case 2
    then have found: "frame_found b f b1"
      by (auto simp: frame_found_def)
    note L = fetch_miss_load [OF found None p find fetch 2(1)]
    let ?b1 = "b1\<lparr>bp_disk := (bp_disk b1)\<lparr>dm_num_reads := dm_num_reads (bp_disk b1) + 1\<rparr>\<rparr>"
    note A = found [unfolded frame_found_def]
    have ok1: "bpm_ok {f} ?b1" and f1: "pool_frame ?b1 f" "\<not> occupied ?b1 f" "bp_table ?b1 p = None"
      using A None by (auto simp: bpm_ok_disk_counter)
    have p1: "p \<in> bp_data ?b1" "p \<in> bp_data b1"
      using p A by (auto simp: bp_data_def disk_used_def)
    have img: "image_ok (disk_page (bp_disk b1) p)"
      using bpm_okD(6) [OF ok1 p1(1) f1(3)] by simp
    let ?pg = "load_page (disk_page (bp_disk b1) p) (frame_page b1 f)"
    note B = bpm_ok_fill [OF ok1 f1 p1(1) page_ser_ok_load [OF img, of "frame_page b1 f"], where dirty = False]
    have b': "b' = fill_frame f p False ?pg ?b1" "r = Some f" using L by auto
    have view1: "bp_view b1 p = Some (disk_page (bp_disk b1) p)"
      using p1 f1(3) by (simp add: bp_view_def)
    have v': "bp_view b' = bp_view b"
      using B(2) A view1 by (auto simp: b' bpm_ok_disk_counter page_image_load [OF img])
    note P = pins_fill [OF found None, of b']
    have pins: "bp_pins b' = (bp_pins b)(p := Suc (bp_pins b p))" "bp_pins b p = 0"
      using P(1) B None by (simp_all add: b' bp_pins_def)
    have stable: "q \<noteq> p \<Longrightarrow> pinned_stable b b' q" for q
      using P(2) B by (simp add: b')
    show ?thesis
      using hit [OF b'(2) _ v' pins(1)] B(1,4) A view1 stable pins(2)
      by (simp add: b' page_image_load [OF img] page_ser_ok_load [OF img])
  qed
qed

lemma unpin_page:
  assumes ok: "bpm_inv b" and unpin: "BufferPoolManager_UnpinPage p d b = (r, b')"
    and clean: "\<And>f. bp_table b p = Some f \<Longrightarrow> bp_pins b p = 1 \<Longrightarrow> \<not> d \<Longrightarrow> \<not> fm_is_dirty (frame_meta b f) \<Longrightarrow>
      disk_page (bp_disk b) p = page_image (frame_page b f)"
  shows "r \<longleftrightarrow> 0 < bp_pins b p" "bpm_inv b'" "bp_view b' = bp_view b"
    and "bp_pins b' = (bp_pins b)(p := bp_pins b p - 1)" "q \<noteq> p \<Longrightarrow> pinned_stable b b' q"
    and "bp_disk b' = bp_disk b" "bp_pool_size b' = bp_pool_size b" "bp_table b' = bp_table b" "bp_pages b' = bp_pages b"
proof -
  have unchanged: "bp_pins b p = 0 \<Longrightarrow> r = False \<and> b' = b"
    using unpin by (auto simp: BufferPoolManager_UnpinPage_def bp_pins_def unat_eq_0 split: option.splits)
  have "(r \<longleftrightarrow> 0 < bp_pins b p) \<and> bpm_inv b' \<and> bp_view b' = bp_view b \<and>
      bp_pins b' = (bp_pins b)(p := bp_pins b p - 1) \<and> (\<forall>q. q \<noteq> p \<longrightarrow> pinned_stable b b' q) \<and>
      bp_disk b' = bp_disk b \<and> bp_pool_size b' = bp_pool_size b \<and> bp_table b' = bp_table b \<and> bp_pages b' = bp_pages b"
  proof (cases "0 < bp_pins b p")
    case False
    then show ?thesis using unchanged ok by (auto simp: pinned_stable_def)
  next
    case True
    then obtain f where t: "bp_table b p = Some f" using bp_pins_pos_table by blast
    note M = bpm_memD [OF bpm_okD(1) [OF ok]] and F = bp_table_frame [OF ok t]
    let ?m = "frame_meta b f"
    let ?n = "fm_pin_count ?m - 1" and ?d = "d \<or> fm_is_dirty ?m"
    let ?r = "if ?n = 0 then LRUReplacer_RecordAccess f (bp_lru b) else bp_lru b"
    have pin: "0 < unat (fm_pin_count ?m)" "bp_pins b p = unat (fm_pin_count ?m)"
      using True t by (simp_all add: bp_pins_def)
    have n: "unat ?n = bp_pins b p - 1" using pin by (simp add: word_nat)
    have nz: "fm_pin_count ?m \<noteq> 0" using pin(1) by (metis less_irrefl unat_0)
    then have "f \<notin> lru_frames (bp_lru b)"
      by (simp add: M(7) FrameMetadata_IsEvictable_def)
    then have lru: "lru_inv ?r" "lru_frames ?r = (if ?n = 0 then insert f (lru_frames (bp_lru b)) else lru_frames (bp_lru b) - {f})"
      using lru.access [OF M(6) pool_frame_valid [OF F(1)]] M(6) by auto
    have "?m\<lparr>fm_pin_count := ?n, fm_is_dirty := ?d\<rparr> =
        (if d then ?m\<lparr>fm_pin_count := ?n, fm_is_dirty := True\<rparr> else ?m\<lparr>fm_pin_count := ?n\<rparr>)"
      using meta_pin_only [of ?m ?n] by auto
    then have b': "r" "b' = (set_meta f (?m\<lparr>fm_pin_count := ?n, fm_is_dirty := ?d\<rparr>) b)\<lparr>bp_lru := ?r\<rparr>"
      using unpin t nz by (auto simp: BufferPoolManager_UnpinPage_def Let_def set_meta_def)
    have c: "disk_page (bp_disk b) p = page_image (frame_page b f)" if "?n = 0" "\<not> ?d"
      using clean [OF t] that n pin by simp
    note P = bpm_ok_pin [OF ok t lru, where dirty = ?d]
    have P': "bpm_inv b'" "bp_view b' = bp_view b" "bp_pins b' = (bp_pins b)(p := bp_pins b p - 1)"
      unfolding b'(2) n [symmetric] by (rule P(1), rule c, assumption+) (rule P(2), rule c, assumption+, rule P(3), rule c, assumption+)
    have "\<forall>q. q \<noteq> p \<longrightarrow> pinned_stable b b' q"
    proof (intro allI impI)
      fix q assume "q \<noteq> p"
      then have "bp_table b q = Some g \<Longrightarrow> g \<noteq> f" for g
        using bp_table_frame(3) [OF ok] F(3) by metis
      then show "pinned_stable b b' q"
        using frame_meta_set [OF F(6)] by (auto simp: pinned_stable_def b'(2))
    qed
    moreover have "bp_disk b' = bp_disk b" "bp_pool_size b' = bp_pool_size b" "bp_table b' = bp_table b"
      "bp_pages b' = bp_pages b"
      unfolding b'(2) by simp_all
    ultimately show ?thesis using True P' b'(1) by blast
  qed
  then show "r \<longleftrightarrow> 0 < bp_pins b p" "bpm_inv b'" "bp_view b' = bp_view b"
    "bp_pins b' = (bp_pins b)(p := bp_pins b p - 1)" "q \<noteq> p \<Longrightarrow> pinned_stable b b' q"
    "bp_disk b' = bp_disk b" "bp_pool_size b' = bp_pool_size b" "bp_table b' = bp_table b" "bp_pages b' = bp_pages b"
    by blast+
qed

text \<open>A client that holds a pin writes the page in its frame through the pointer.\<close>

lemma put_page:
  assumes ok: "bpm_inv b" and t: "bp_table b p = Some f" and pin: "0 < bp_pins b p" and pg: "page_ser_ok pg"
  shows "bpm_inv (set_page f pg b)" "bp_view (set_page f pg b) = (bp_view b)(p \<mapsto> page_image pg)"
    and "bp_pins (set_page f pg b) = bp_pins b" "q \<noteq> p \<Longrightarrow> pinned_stable b (set_page f pg b) q"
    and "frame_page (set_page f pg b) f = pg"
proof -
  note O = bpm_okD [OF ok] and M = bpm_memD [OF bpm_okD(1) [OF ok]] and F = bp_table_frame [OF ok t]
  have pgs: "frame_page (set_page f pg b) g = (if g = f then pg else frame_page b g)" for g
    by (rule frame_page_set [OF F(7)])
  then show "frame_page (set_page f pg b) f = pg" by simp
  have mem: "bpm_mem {} (set_page f pg b)"
    using O(1) bpm_mem_cong [of "set_page f pg b" b] by simp
  have data: "bp_data (set_page f pg b) = bp_data b" by (simp add: bp_data_def)
  have ev: "\<not> FrameMetadata_IsEvictable (frame_meta b f)"
    using pin t by (auto simp: FrameMetadata_IsEvictable_def bp_pins_def)
  show "bpm_inv (set_page f pg b)"
    using mem O(2-6) pg ev by (auto simp: bpm_ok_def pgs data)
  have uniq: "g = f \<longleftrightarrow> q = p" if "bp_table b q = Some g" for q g
    using that bp_table_frame(3) [OF ok that] F(3) t by (metis option.inject)
  then show "bp_view (set_page f pg b) = (bp_view b)(p \<mapsto> page_image pg)"
    using t F(4) by (auto simp: bp_view_def fun_eq_iff data pgs split: option.split)
  show "bp_pins (set_page f pg b) = bp_pins b"
    by (simp add: bp_pins_def fun_eq_iff cong: option.case_cong)
  show "q \<noteq> p \<Longrightarrow> pinned_stable b (set_page f pg b) q"
    using uniq by (auto simp: pinned_stable_def pgs)
qed

lemma image_ok_zeros: "image_ok (replicate PAGE_SIZE 0)"
  by (simp add: image_ok_def PAGE_SIZE_def of_le_bytes_def eval_nat_numeral)

text \<open>The disk below the pool gains or loses a page that is not in the pool.\<close>

lemma bpm_ok_disk_gain:
  assumes ok: "bpm_ok T b" and d': "disk_inv d'" "disk_used d' = insert p (disk_used (bp_disk b))"
    and p: "p \<notin> disk_used (bp_disk b)" "p \<noteq> 0" "image_ok (disk_page d' p)"
    and same: "\<And>q. q \<in> disk_used (bp_disk b) \<Longrightarrow> q \<noteq> 0 \<Longrightarrow> disk_page d' q = disk_page (bp_disk b) q"
  shows "bpm_ok T (b\<lparr>bp_disk := d'\<rparr>)" "bp_view (b\<lparr>bp_disk := d'\<rparr>) = (bp_view b)(p \<mapsto> disk_page d' p)"
    and "bp_table b p = None"
proof -
  note O = bpm_okD [OF ok] and M = bpm_memD [OF O(1)]
  have data: "bp_data (b\<lparr>bp_disk := d'\<rparr>) = insert p (bp_data b)" and np: "p \<notin> bp_data b"
    using d'(2) p by (auto simp: bp_data_def)
  then show t: "bp_table b p = None" using O(3) by (metis not_None_eq)
  have mem: "bpm_mem T (b\<lparr>bp_disk := d'\<rparr>)"
    using O(1) bpm_mem_cong [of "b\<lparr>bp_disk := d'\<rparr>" b] by simp
  have same': "disk_page d' q = disk_page (bp_disk b) q" if "q \<in> bp_data b" for q
    using same that by (auto simp: bp_data_def)
  have "fm_page_id (frame_meta b f) \<in> bp_data b"
    if "pool_frame b f" "FrameMetadata_IsEvictable (frame_meta b f)" for f
    using that M(3) O(3) [of _ f] by (auto simp: FrameMetadata_IsEvictable_def)
  then show "bpm_ok T (b\<lparr>bp_disk := d'\<rparr>)"
    using mem d'(1) O(3-6) same' p(3) by (auto simp: bpm_ok_def data)
  show "bp_view (b\<lparr>bp_disk := d'\<rparr>) = (bp_view b)(p \<mapsto> disk_page d' p)"
    using same' t np by (auto simp: bp_view_def fun_eq_iff data split: option.split)
qed

lemma bpm_ok_disk_lose:
  assumes ok: "bpm_ok T b" and d': "disk_inv d'" "disk_used d' = disk_used (bp_disk b) - {p}"
    and t: "bp_table b p = None"
    and same: "\<And>q. q \<in> disk_used d' \<Longrightarrow> q \<noteq> 0 \<Longrightarrow> disk_page d' q = disk_page (bp_disk b) q"
  shows "bpm_ok T (b\<lparr>bp_disk := d'\<rparr>)" "bp_view (b\<lparr>bp_disk := d'\<rparr>) = (bp_view b)(p := None)"
proof -
  note O = bpm_okD [OF ok] and M = bpm_memD [OF O(1)]
  have data: "bp_data (b\<lparr>bp_disk := d'\<rparr>) = bp_data b - {p}"
    using d'(2) by (auto simp: bp_data_def)
  have mem: "bpm_mem T (b\<lparr>bp_disk := d'\<rparr>)"
    using O(1) bpm_mem_cong [of "b\<lparr>bp_disk := d'\<rparr>" b] by simp
  have same': "disk_page d' q = disk_page (bp_disk b) q" if "q \<in> bp_data b" "q \<noteq> p" for q
    using same that d'(2) by (auto simp: bp_data_def)
  have tn: "q \<noteq> p" if "bp_table b q = Some f" for q f using that t by auto
  have "fm_page_id (frame_meta b f) \<in> bp_data b \<and> fm_page_id (frame_meta b f) \<noteq> p"
    if "pool_frame b f" "FrameMetadata_IsEvictable (frame_meta b f)" for f
    using that M(3) O(3) [of _ f] tn by (auto simp: FrameMetadata_IsEvictable_def)
  then show "bpm_ok T (b\<lparr>bp_disk := d'\<rparr>)"
    using mem d'(1) O(3-6) same' t tn by (auto simp: bpm_ok_def data)
  show "bp_view (b\<lparr>bp_disk := d'\<rparr>) = (bp_view b)(p := None)"
    using same' by (auto simp: bp_view_def fun_eq_iff data split: option.split)
qed

lemma new_page:
  assumes ok: "bpm_inv b" and room: "0 < disk_room (bp_disk b)"
    and new: "BufferPoolManager_NewPage b = (r, b')"
  obtains (full) "r = Inr None" "b' = b" "\<And>g. pool_frame b g \<Longrightarrow> fm_pin_count (frame_meta b g) \<noteq> 0"
  | (created) p f where "r = Inr (Some f)" "bpm_inv b'" "p \<notin> bp_data b" "p \<noteq> 0" "bp_data b' = insert p (bp_data b)"
      "bp_view b' = (bp_view b)(p \<mapsto> page_image (Page_new p))" "bp_pins b' = (bp_pins b)(p := 1)"
      "bp_table b' p = Some f" "frame_page b' f = Page_new p" "fm_is_dirty (frame_meta b' f)"
      "\<And>q. q \<noteq> p \<Longrightarrow> pinned_stable b b' q"
      "Suc (disk_room (bp_disk b')) = disk_room (bp_disk b)" "bp_pool_size b' = bp_pool_size b"
proof -
  obtain f b1 where find: "BufferPoolManager_FindFreeFrame b = (f, b1)" by fastforce
  show ?thesis
  proof (cases rule: find_free_frame [OF ok find])
    case 1
    then show ?thesis using full new find by (auto simp: BufferPoolManager_NewPage_def)
  next
    case 2
    note A = 2(2) [unfolded frame_found_def]
    have ok1: "bpm_ok {f} b1" and same: "disk_used (bp_disk b1) = disk_used (bp_disk b)"
      "disk_room (bp_disk b1) = disk_room (bp_disk b)"
      using A by (auto simp: disk_used_def disk_room_def)
    obtain ra d where alloc: "DiskManager_AllocatePage (bp_disk b1) = (ra, d)" by fastforce
    have room1: "0 < disk_room (bp_disk b1)" using room same by simp
    obtain p where p: "ra = Inr p" "disk_inv d" "p \<notin> disk_used (bp_disk b1)" "p \<noteq> 0"
      "disk_used d = insert p (disk_used (bp_disk b1))" "Suc (disk_room d) = disk_room (bp_disk b1)"
      "disk_page d p = replicate PAGE_SIZE 0"
      "\<And>q. q \<in> disk_used (bp_disk b1) \<Longrightarrow> q \<noteq> 0 \<Longrightarrow> disk_page d q = disk_page (bp_disk b1) q"
      by (rule disk_alloc_step [OF bpm_okD(2) [OF ok1] room1 alloc]) blast
    let ?b1 = "b1\<lparr>bp_disk := d\<rparr>"
    have img: "image_ok (disk_page d p)" using p(7) image_ok_zeros by simp
    note G = bpm_ok_disk_gain [OF ok1 p(2,5,3,4) img p(8)]
    have data: "bp_data ?b1 = insert p (bp_data b)" and np1: "p \<notin> bp_data b"
      using p(3-5) same(1) by (auto simp: bp_data_def)
    then have np: "p \<notin> bp_data b" "bp_table b p = None"
      using bpm_okD(3) [OF ok, of p] by (metis not_None_eq)+
    have f1: "pool_frame ?b1 f" "\<not> occupied ?b1 f" "bp_table ?b1 p = None" "p \<in> bp_data ?b1"
      using A G(3) data by auto
    note B = bpm_ok_fill [OF G(1) f1 page_ser_ok_new [of p], where dirty = True]
    have "fst (Page_move_assign (frame_page b1 f) (Page_new p)) = Page_new p"
      by (simp add: Page_move_assign_def)
    then have b': "r = Inr (Some f)" "b' = fill_frame f p True (Page_new p) ?b1"
      using new find 2(1) alloc p(1)
      by (auto simp: BufferPoolManager_NewPage_def fill_frame_def set_page_def set_meta_def Let_def)
    note P = pins_fill [OF 2(2) np(2), of b']
    have v': "bp_view b' = (bp_view b)(p \<mapsto> page_image (Page_new p))"
      using B(2) G(2) A by (simp add: b')
    have pins: "bp_pins b' = (bp_pins b)(p := 1)" and stable: "q \<noteq> p \<Longrightarrow> pinned_stable b b' q" for q
      using P B by (simp_all add: b')
    show ?thesis
      using created [OF b'(1) _ np(1) p(4) _ v' pins] B(1,3,4) data A p(6) same stable
      by (simp add: b' bp_data_def)
  qed
qed

lemma bp_table_inj:
  assumes "bpm_ok T b" "bp_table b p = Some f" "bp_table b q = Some g"
  shows "g = f \<longleftrightarrow> q = p"
  using bp_table_frame(3) [OF assms(1,2)] bp_table_frame(3) [OF assms(1,3)] assms(2,3) by (metis option.inject)

lemma release_frame:
  assumes ok: "bpm_inv b" and t: "bp_table b p = Some f"
  defines "b' \<equiv> (set_meta f FrameMetadata_default b)
    \<lparr>bp_lru := LRUReplacer_Remove f (bp_lru b), bp_table := (bp_table b)(p := None), bp_free := bp_free b @ [f]\<rparr>"
  shows "bpm_mem {} b'" "frame_meta b' g = (if g = f then FrameMetadata_default else frame_meta b g)"
proof -
  note M = bpm_memD [OF bpm_okD(1) [OF ok]] and F = bp_table_frame [OF ok t]
  have m: "frame_meta b' g = (if g = f then FrameMetadata_default else frame_meta b g)" for g
    using frame_meta_set [OF F(6)] by (simp add: b'_def)
  then show "frame_meta b' g = (if g = f then FrameMetadata_default else frame_meta b g)" .
  have emp: "\<not> FrameMetadata_IsOccupied FrameMetadata_default"
    "\<not> FrameMetadata_IsEvictable FrameMetadata_default" by (simp_all add: meta_simps)
  have fields: "bp_table b' = (bp_table b)(p := None)" "bp_pool_size b' = bp_pool_size b"
    "bp_free b' = bp_free b @ [f]" "bp_lru b' = LRUReplacer_Remove f (bp_lru b)" "bp_pages b' = bp_pages b"
    "length (bp_meta b') = length (bp_meta b)" by (simp_all add: b'_def)
  have "bp_table b' q = Some g \<longleftrightarrow> pool_frame b g \<and> occupied b' g \<and> fm_page_id (frame_meta b' g) = q" for q g
    using M(3) [of q g] bp_table_inj [OF ok t, of q g] t emp F(3) by (auto simp: m fields)
  moreover have "distinct (bp_free b')" "set (bp_free b') = {g. pool_frame b g \<and> \<not> occupied b' g}"
    using M(4,5) F(1,2) emp by (auto simp: m fields)
  moreover have "lru_inv (bp_lru b')"
    "lru_frames (bp_lru b') = {g. pool_frame b g \<and> FrameMetadata_IsEvictable (frame_meta b' g)}"
    using lru.remove [OF M(6), of f] M(7) emp by (auto simp: m fields)
  moreover have "pool_frame b g \<Longrightarrow> \<not> occupied b' g \<Longrightarrow> frame_meta b' g = FrameMetadata_default" for g
    using M(8) by (auto simp: m)
  ultimately show "bpm_mem {} b'"
    using M(1,2) by (simp add: bpm_mem_def fields(2,5,6))
qed

lemma delete_cached:
  assumes ok: "bpm_inv b" and t: "bp_table b p = Some f" and pin: "bp_pins b p = 0"
    and d: "disk_inv d" "disk_used d = disk_used (bp_disk b) - {p}"
    and same: "\<And>q. q \<in> disk_used d \<Longrightarrow> q \<noteq> 0 \<Longrightarrow> disk_page d q = disk_page (bp_disk b) q"
  defines "b' \<equiv> (set_meta f FrameMetadata_default b)
    \<lparr>bp_lru := LRUReplacer_Remove f (bp_lru b), bp_table := (bp_table b)(p := None), bp_free := bp_free b @ [f],
     bp_disk := d\<rparr>"
  shows "bpm_inv b'" "bp_view b' = (bp_view b)(p := None)" "bp_pins b' = bp_pins b"
    and "q \<noteq> p \<Longrightarrow> pinned_stable b b' q"
proof -
  note O = bpm_okD [OF ok] and M = bpm_memD [OF bpm_okD(1) [OF ok]] and F = bp_table_frame [OF ok t]
  note R = release_frame [OF ok t]
  have m: "frame_meta b' g = (if g = f then FrameMetadata_default else frame_meta b g)" for g
    using R(2) by (simp add: b'_def)
  have mem: "bpm_mem {} b'"
    using R(1) by (rule bpm_mem_cong [THEN iffD2, rotated -1]) (simp_all add: b'_def)
  have fields: "bp_table b' = (bp_table b)(p := None)" "bp_pool_size b' = bp_pool_size b" "bp_disk b' = d"
    "bp_pages b' = bp_pages b" by (simp_all add: b'_def)
  have data: "bp_data b' = bp_data b - {p}" using d(2) by (auto simp: bp_data_def fields)
  have same': "q \<in> bp_data b \<Longrightarrow> q \<noteq> p \<Longrightarrow> disk_page d q = disk_page (bp_disk b) q" for q
    using same d(2) by (auto simp: bp_data_def)
  have tq: "bp_table b q = Some g \<Longrightarrow> g = f \<longleftrightarrow> q = p" for q g
    using bp_table_inj [OF ok t] by blast
  have emp: "\<not> FrameMetadata_IsOccupied FrameMetadata_default"
    "\<not> FrameMetadata_IsEvictable FrameMetadata_default" by (simp_all add: meta_simps)
  have "fm_page_id (frame_meta b g) \<in> bp_data b" "fm_page_id (frame_meta b g) \<noteq> p"
    if "pool_frame b g" "FrameMetadata_IsEvictable (frame_meta b g)" "g \<noteq> f" for g
  proof -
    have "bp_table b (fm_page_id (frame_meta b g)) = Some g"
      using M(3) that by (simp add: FrameMetadata_IsEvictable_def)
    then show "fm_page_id (frame_meta b g) \<in> bp_data b" "fm_page_id (frame_meta b g) \<noteq> p"
      using O(3) tq that(3) by auto
  qed
  then have "disk_page d (fm_page_id (frame_meta b' g)) = page_image (frame_page b g)"
    if "pool_frame b g" "FrameMetadata_IsEvictable (frame_meta b' g)" "\<not> fm_is_dirty (frame_meta b' g)" for g
    using that O(5) [of g] same' emp by (auto simp: m split: if_splits)
  moreover have "pool_frame b g \<Longrightarrow> occupied b' g \<Longrightarrow> page_ser_ok (frame_page b g)" for g
    using O(4) emp by (auto simp: m split: if_splits)
  ultimately show "bpm_inv b'"
    using mem d(1) O(3,6) same' by (auto simp: bpm_ok_def fields data)
  show "bp_view b' = (bp_view b)(p := None)"
    using same' by (auto simp: bp_view_def fun_eq_iff data fields split: option.split)
  show "bp_pins b' = bp_pins b"
    using pin t tq by (auto simp: bp_pins_def fun_eq_iff fields m split: option.split)
  show "q \<noteq> p \<Longrightarrow> pinned_stable b b' q"
    using tq by (auto simp: pinned_stable_def fields m)
qed

lemma delete_page:
  assumes ok: "bpm_inv b" and p: "p \<in> bp_data b" and delete: "BufferPoolManager_DeletePage p b = (r, b')"
  shows "r = Inr (bp_pins b p = 0)" "bpm_inv b'" "q \<noteq> p \<Longrightarrow> pinned_stable b b' q"
    and "bp_view b' = (if bp_pins b p = 0 then (bp_view b)(p := None) else bp_view b)"
    and "bp_pins b' = bp_pins b"
proof -
  note O = bpm_okD [OF ok]
  have pd: "p \<noteq> 0" "unat p < disk_pages (bp_disk b)" "p \<notin> set (disk_free (bp_disk b))"
    using p by (auto simp: bp_data_def disk_used_def)
  obtain rd d where dealloc: "DiskManager_DeallocatePage p (bp_disk b) = (rd, d)" by fastforce
  have rep: "disk_rep (bp_disk b) (disk_free (bp_disk b))" using O(2) by (simp add: disk_inv_def)
  note D = rep_deallocate [OF rep pd dealloc]
  have d: "rd = Inr True" "disk_inv d" "disk_used d = disk_used (bp_disk b) - {p}"
    using D(1-3) by (auto simp: disk_inv_iff disk_used_def)
  have same: "disk_page d q = disk_page (bp_disk b) q" if "q \<in> disk_used d" "q \<noteq> 0" for q
    using D(4) [of q] that d(3) by (auto simp: disk_used_def)
  consider (none) "bp_table b p = None" | (pinned) f where "bp_table b p = Some f" "bp_pins b p \<noteq> 0"
    | (cached) f where "bp_table b p = Some f" "bp_pins b p = 0" by fastforce
  then have "r = Inr (bp_pins b p = 0) \<and> bpm_inv b' \<and> (\<forall>q. q \<noteq> p \<longrightarrow> pinned_stable b b' q) \<and>
    bp_view b' = (if bp_pins b p = 0 then (bp_view b)(p := None) else bp_view b) \<and> bp_pins b' = bp_pins b"
  proof cases
    case none
    note L = bpm_ok_disk_lose [OF ok d(2,3) none same]
    have b': "r = Inr True" "b' = b\<lparr>bp_disk := d\<rparr>"
      using delete none dealloc d(1) by (auto simp: BufferPoolManager_DeletePage_def)
    have "bp_pins b' = bp_pins b" by (simp add: b' bp_pins_def fun_eq_iff cong: option.case_cong)
    then show ?thesis using L b' none by (simp add: bp_pins_def pinned_stable_def)
  next
    case pinned
    then have "fm_pin_count (frame_meta b f) \<noteq> 0" by (auto simp: bp_pins_def)
    then have "r = Inr False" "b' = b"
      using delete pinned by (auto simp: BufferPoolManager_DeletePage_def Let_def)
    then show ?thesis using pinned ok by (simp add: pinned_stable_def)
  next
    case cached
    then have "fm_pin_count (frame_meta b f) = 0" by (simp add: bp_pins_def unat_eq_0)
    then have b': "r = Inr True" "b' = (set_meta f FrameMetadata_default b)
        \<lparr>bp_lru := LRUReplacer_Remove f (bp_lru b), bp_table := (bp_table b)(p := None),
         bp_free := bp_free b @ [f], bp_disk := d\<rparr>"
      using delete cached dealloc d(1) by (auto simp: BufferPoolManager_DeletePage_def Let_def)
    then show ?thesis
      using delete_cached [OF ok cached d(2,3) same] cached(2) by simp
  qed
  then show "r = Inr (bp_pins b p = 0)" "bpm_inv b'" "q \<noteq> p \<Longrightarrow> pinned_stable b b' q"
    "bp_view b' = (if bp_pins b p = 0 then (bp_view b)(p := None) else bp_view b)" "bp_pins b' = bp_pins b"
    by blast+
qed

lemma write_back_pins:
  assumes "bpm_ok T b" "bp_table b p = Some f"
  shows "bp_pins (write_back p f b) = bp_pins b" "q \<noteq> p \<Longrightarrow> pinned_stable b (write_back p f b) q"
proof -
  note W = write_back_ok(4,5) [OF assms]
  show "bp_pins (write_back p f b) = bp_pins b"
    unfolding bp_pins_def fun_eq_iff using W(1) by (auto simp del: write_back_fields(5) split: option.split)
  show "q \<noteq> p \<Longrightarrow> pinned_stable b (write_back p f b) q"
    using W bp_table_inj [OF assms, of q] by (auto simp: pinned_stable_def simp del: write_back_fields(5,6))
qed

lemma flush_page:
  assumes ok: "bpm_inv b" and flush: "BufferPoolManager_FlushPage p b = (r, b')"
  shows "r \<longleftrightarrow> bp_table b p \<noteq> None" "bpm_inv b'" "bp_view b' = bp_view b" "bp_pins b' = bp_pins b"
    and "r \<Longrightarrow> bp_view b p = Some (disk_page (bp_disk b') p)" "q \<noteq> p \<Longrightarrow> pinned_stable b b' q"
proof -
  have "(r \<longleftrightarrow> bp_table b p \<noteq> None) \<and> bpm_inv b' \<and> bp_view b' = bp_view b \<and> bp_pins b' = bp_pins b \<and>
    (r \<longrightarrow> bp_view b p = Some (disk_page (bp_disk b') p)) \<and> (q \<noteq> p \<longrightarrow> pinned_stable b b' q)" for q
  proof (cases "bp_table b p")
  case None
  then show ?thesis
    using flush ok by (auto simp: BufferPoolManager_FlushPage_def pinned_stable_def)
next
  case (Some f)
  then have b': "r" "b' = write_back p f b" using flush by (auto simp: BufferPoolManager_FlushPage_def)
  note W = write_back_ok(1,2,6) [OF ok Some] and P = write_back_pins [OF ok Some]
  have "bp_view b p = Some (page_image (frame_page b f))"
    using bp_table_frame(4) [OF ok Some] Some by (simp add: bp_view_def)
  then show ?thesis
    using W P b' Some by (simp del: write_back_fields)
qed
  then show "r \<longleftrightarrow> bp_table b p \<noteq> None" "bpm_inv b'" "bp_view b' = bp_view b" "bp_pins b' = bp_pins b"
    "r \<Longrightarrow> bp_view b p = Some (disk_page (bp_disk b') p)" "q \<noteq> p \<Longrightarrow> pinned_stable b b' q"
    by blast+
qed

text \<open>\<open>FlushAllPages\<close>, frame by frame.\<close>

definition flushed_upto :: "bpm \<Rightarrow> nat \<Rightarrow> bpm \<Rightarrow> bool" where
  "flushed_upto b k b' \<longleftrightarrow>
     bpm_inv b' \<and> bp_view b' = bp_view b \<and> bp_pins b' = bp_pins b \<and> bp_table b' = bp_table b \<and>
     bp_pool_size b' = bp_pool_size b \<and> bp_data b' = bp_data b \<and>
     (\<forall>q f. bp_table b q = Some f \<longrightarrow>
        (unat f < k \<longrightarrow> fm_is_dirty (frame_meta b f) \<or> bp_pins b q = 0 \<longrightarrow>
           disk_page (bp_disk b') q = page_image (frame_page b' f)) \<and>
        (k \<le> unat f \<longrightarrow> frame_meta b' f = frame_meta b f))"

lemma flush_frame_step:
  assumes inv: "flushed_upto b k b'" and k: "k < unat (bp_pool_size b)"
  shows "flushed_upto b (Suc k) (flush_frame b' k)"
proof -
  note I = inv [unfolded flushed_upto_def]
  have ok: "bpm_inv b'" using I by blast
  have k32: "k < 4294967296" using k unat32_lt [of "bp_pool_size b"] by linarith
  let ?f = "of_nat k :: u32"
  have uf: "unat ?f = k" using k32 by (simp add: word_nat)
  let ?p = "fm_page_id (frame_meta b' ?f)"
  have eq_f: "unat f = k \<longleftrightarrow> f = ?f" for f using uf by (metis unat_inj)
  show ?thesis
  proof (cases "occupied b' ?f \<and> fm_is_dirty (frame_meta b' ?f)")
    case True
    have t: "bp_table b' ?p = Some ?f"
      using bpm_memD(3) [OF bpm_okD(1) [OF ok]] True k uf I by simp
    note W = write_back_ok [OF ok t] and P = write_back_pins(1) [OF ok t]
    have step: "flush_frame b' k = write_back ?p ?f b'"
      using True uf by (simp add: flush_frame_def del: write_back_fields)
    have tq: "bp_table b q = Some g \<Longrightarrow> g = ?f \<longleftrightarrow> q = ?p" for q g
      using bp_table_inj [OF ok t, of q g] I by simp
    have img: "page_image (frame_page (write_back ?p ?f b') g) = page_image (frame_page b' g)" for g
      using W(5) bp_table_frame(5) [OF ok t] by (simp del: write_back_fields)
    have data: "bp_table b q = Some g \<Longrightarrow> q \<in> bp_data b'" for q g
      using bpm_okD(3) [OF ok] I by metis
    have "disk_page (bp_disk (write_back ?p ?f b')) q = page_image (frame_page (write_back ?p ?f b') g)"
      if "bp_table b q = Some g" "unat g < Suc k" "fm_is_dirty (frame_meta b g) \<or> bp_pins b q = 0" for q g
      using that I W(6,7) tq [OF that(1)] eq_f [of g] data [OF that(1)] unfolding img by (metis less_Suc_eq)
    moreover have "frame_meta (write_back ?p ?f b') g = frame_meta b g"
      if "bp_table b q = Some g" "Suc k \<le> unat g" for q g
      using that I W(4) eq_f [of g] by (auto simp del: write_back_fields)
    ultimately show ?thesis
      unfolding step flushed_upto_def using I W(1-3) P by (simp del: write_back_fields(5-7))
  next
    case False
    have step: "flush_frame b' k = b'" using False uf by (auto simp: flush_frame_def)
    have "disk_page (bp_disk b') q = page_image (frame_page b' ?f)"
      if q: "bp_table b q = Some ?f" "fm_is_dirty (frame_meta b ?f) \<or> bp_pins b q = 0" for q
    proof -
      have t: "bp_table b' q = Some ?f" using q I by simp
      have "k \<le> unat ?f" using uf by simp
      then have m: "frame_meta b' ?f = frame_meta b ?f" using I q(1) by blast
      then have "FrameMetadata_IsEvictable (frame_meta b' ?f)" "\<not> fm_is_dirty (frame_meta b' ?f)"
        using q t False bp_table_frame(2) [OF ok t]
        by (auto simp: FrameMetadata_IsEvictable_def bp_pins_def unat_eq_0)
      then show ?thesis
        using bpm_okD(5) [OF ok] bp_table_frame(1,3) [OF ok t] by metis
    qed
    then show ?thesis
      unfolding step flushed_upto_def using I eq_f by (auto simp: less_Suc_eq)
  qed
qed

lemma flush_all_upto:
  assumes "bpm_inv b" and "k \<le> unat (bp_pool_size b)"
  shows "flushed_upto b k (foldl flush_frame b [0..<k])"
  using assms(2)
proof (induction k)
  case 0
  then show ?case using assms(1) by (simp add: flushed_upto_def)
next
  case (Suc k)
  then show ?case using flush_frame_step by simp
qed

lemma flush_all:
  assumes ok: "bpm_inv b"
  defines "b' \<equiv> BufferPoolManager_FlushAllPages b"
  shows "bpm_inv b'" "bp_view b' = bp_view b" "bp_pins b' = bp_pins b" "bp_table b' = bp_table b"
    and "bp_data b' = bp_data b"
    and "bp_table b q = Some f \<Longrightarrow> fm_is_dirty (frame_meta b f) \<or> bp_pins b q = 0 \<Longrightarrow>
      bp_view b q = Some (disk_page (bp_disk b') q)"
    and "bp_table b q = None \<Longrightarrow> q \<in> bp_data b \<Longrightarrow> bp_view b q = Some (disk_page (bp_disk b') q)"
    and "dm_is_open (bp_disk b') \<Longrightarrow> dm_durable (bp_disk b') = dm_file (bp_disk b')"
proof -
  let ?b1 = "foldl flush_frame b [0..<unat (bp_pool_size b)]"
  have "flushed_upto b (unat (bp_pool_size b)) ?b1" using flush_all_upto [OF ok] by simp
  note I = this [unfolded flushed_upto_def]
  have "dm_is_open (bp_disk ?b1)"
    using bpm_okD(2) [of "{}" ?b1] I by (auto simp: disk_inv_def disk_rep_def)
  then have b': "b' = ?b1\<lparr>bp_disk := (bp_disk ?b1)\<lparr>dm_durable := dm_file (bp_disk ?b1)\<rparr>\<rparr>"
    by (simp add: b'_def BufferPoolManager_FlushAllPages_def DiskManager_Flush_def os_fsync_def Let_def)
  have same: "bpm_inv b' = bpm_inv ?b1" "bp_view b' = bp_view ?b1" "bp_pins b' = bp_pins ?b1"
    "bp_data b' = bp_data ?b1"
    by (simp_all add: b' bpm_ok_def bpm_mem_def bp_view_def bp_data_def bp_pins_def fun_eq_iff cong: option.case_cong)
  show "bpm_inv b'" "bp_view b' = bp_view b" "bp_pins b' = bp_pins b" "bp_table b' = bp_table b"
    "bp_data b' = bp_data b"
    using I same by (simp_all add: b')
  show "dm_is_open (bp_disk b') \<Longrightarrow> dm_durable (bp_disk b') = dm_file (bp_disk b')"
    by (simp add: b')
  have "bp_view ?b1 = bp_view b" using I by blast
  then have v: "bp_view b q = bp_view ?b1 q" for q by simp
  show "bp_view b q = Some (disk_page (bp_disk b') q)"
    if q: "bp_table b q = Some f" "fm_is_dirty (frame_meta b f) \<or> bp_pins b q = 0"
  proof -
    have "unat f < unat (bp_pool_size b)" "q \<in> bp_data b"
      using bp_table_frame [OF ok q(1)] by auto
    then have "disk_page (bp_disk ?b1) q = page_image (frame_page ?b1 f)" "q \<in> bp_data ?b1" "bp_table ?b1 q = Some f"
      using I q by auto
    then show ?thesis unfolding v by (simp add: bp_view_def b')
  qed
  show "bp_view b q = Some (disk_page (bp_disk b') q)" if "bp_table b q = None" "q \<in> bp_data b"
  proof -
    have "q \<in> bp_data ?b1" "bp_table ?b1 q = None" using I that by auto
    then show ?thesis unfolding v by (simp add: bp_view_def b')
  qed
qed

section \<open>The pool as a page store\<close>

text \<open>
  The operations of a client, and what they ask of it: pages that exist, a pin on a page that is
  written through its pointer, and \<open>is_dirty\<close> when the last pin of a changed page is dropped.
\<close>

datatype bp_op = Fetch u32 | Unpin u32 bool | Put u32 page | New | Delete u32 | FlushOne u32 | FlushAll

fun bp_step :: "bp_op \<Rightarrow> bpm \<Rightarrow> bpm" where
  "bp_step (Fetch p) b = snd (BufferPoolManager_FetchPage p b)"
| "bp_step (Unpin p d) b = snd (BufferPoolManager_UnpinPage p d b)"
| "bp_step (Put p pg) b = (case bp_table b p of Some f \<Rightarrow> set_page f pg b | None \<Rightarrow> b)"
| "bp_step New b = snd (BufferPoolManager_NewPage b)"
| "bp_step (Delete p) b = snd (BufferPoolManager_DeletePage p b)"
| "bp_step (FlushOne p) b = snd (BufferPoolManager_FlushPage p b)"
| "bp_step FlushAll b = BufferPoolManager_FlushAllPages b"

fun bp_legal :: "bp_op \<Rightarrow> bpm \<Rightarrow> bool" where
  "bp_legal (Fetch p) b \<longleftrightarrow> p \<in> bp_data b \<and> bp_pins b p < 4294967295"
| "bp_legal (Unpin p d) b \<longleftrightarrow>
     (case bp_table b p of
        Some f \<Rightarrow> bp_pins b p = 1 \<longrightarrow> \<not> d \<longrightarrow> \<not> fm_is_dirty (frame_meta b f) \<longrightarrow>
          disk_page (bp_disk b) p = page_image (frame_page b f)
      | None \<Rightarrow> True)"
| "bp_legal (Put p pg) b \<longleftrightarrow> 0 < bp_pins b p \<and> page_ser_ok pg"
| "bp_legal New b \<longleftrightarrow> 0 < disk_room (bp_disk b)"
| "bp_legal (Delete p) b \<longleftrightarrow> p \<in> bp_data b"
| "bp_legal (FlushOne p) b \<longleftrightarrow> True"
| "bp_legal FlushAll b \<longleftrightarrow> True"

primrec bp_run :: "bp_op list \<Rightarrow> bpm \<Rightarrow> bpm" where
  "bp_run [] b = b"
| "bp_run (x # xs) b = bp_run xs (bp_step x b)"

primrec bp_legal_run :: "bp_op list \<Rightarrow> bpm \<Rightarrow> bool" where
  "bp_legal_run [] b = True"
| "bp_legal_run (x # xs) b = (bp_legal x b \<and> bp_legal_run xs (bp_step x b))"

text \<open>The specification: contents and pin counts of the pages, without frames.\<close>

type_synonym page_store = "(u32 \<Rightarrow> u8 list option) \<times> (u32 \<Rightarrow> nat)"

definition bp_abs :: "bpm \<Rightarrow> page_store" where
  "bp_abs b = (bp_view b, bp_pins b)"

inductive store_step :: "page_store \<Rightarrow> bp_op \<Rightarrow> page_store \<Rightarrow> bool" where
  fetch: "p \<in> dom v \<Longrightarrow> store_step (v, k) (Fetch p) (v, k(p := Suc (k p)))"
| fetch_full: "k p = 0 \<Longrightarrow> store_step (v, k) (Fetch p) (v, k)"
| unpin: "store_step (v, k) (Unpin p d) (v, k(p := k p - 1))"
| put: "0 < k p \<Longrightarrow> store_step (v, k) (Put p pg) (v(p \<mapsto> page_image pg), k)"
| new: "p \<notin> dom v \<Longrightarrow> store_step (v, k) New (v(p \<mapsto> page_image (Page_new p)), k(p := 1))"
| new_full: "store_step (v, k) New (v, k)"
| delete: "k p = 0 \<Longrightarrow> store_step (v, k) (Delete p) (v(p := None), k)"
| delete_pinned: "0 < k p \<Longrightarrow> store_step (v, k) (Delete p) (v, k)"
| flush: "store_step (v, k) (FlushOne p) (v, k)"
| flush_every: "store_step (v, k) FlushAll (v, k)"

inductive_cases store_step_FetchE: "store_step s (Fetch p) s'"
inductive_cases store_step_NewE: "store_step s New s'"
inductive_simps store_step_simps:
  "store_step s (Unpin p d) s'" "store_step s (Put p pg) s'" "store_step s (Delete p) s'"
  "store_step s (FlushOne p) s'" "store_step s FlushAll s'" "store_step s (Fetch p) s'" "store_step s New s'"

lemma dom_bp_view [simp]: "dom (bp_view b) = bp_data b"
  by (auto simp: bp_view_def dom_def)

lemma bp_step_refines:
  assumes ok: "bpm_inv b" and legal: "bp_legal x b"
  shows "bpm_inv (bp_step x b) \<and> store_step (bp_abs b) x (bp_abs (bp_step x b))"
proof (cases x)
  case (Fetch p)
  obtain r b' where rb: "BufferPoolManager_FetchPage p b = (r, b')" by fastforce
  have p: "p \<in> bp_data b" "bp_pins b p < 4294967295" using legal Fetch by auto
  show ?thesis
    by (cases rule: fetch_page [OF ok p rb])
      (use rb Fetch p in \<open>auto simp: bp_abs_def bp_pins_def store_step_simps\<close>)
next
  case (Unpin p d)
  obtain r b' where rb: "BufferPoolManager_UnpinPage p d b = (r, b')" by fastforce
  show ?thesis
  proof -
    have c: "disk_page (bp_disk b) p = page_image (frame_page b f)"
      if "bp_table b p = Some f" "bp_pins b p = 1" "\<not> d" "\<not> fm_is_dirty (frame_meta b f)" for f
      using legal Unpin that by simp
    have "bpm_inv b'" "bp_view b' = bp_view b" "bp_pins b' = (bp_pins b)(p := bp_pins b p - 1)"
      by (rule unpin_page(2) [OF ok rb], erule c, assumption+, rule unpin_page(3) [OF ok rb],
          erule c, assumption+, rule unpin_page(4) [OF ok rb], erule c, assumption+)
    then show ?thesis using Unpin rb by (simp add: bp_abs_def store_step_simps)
  qed
next
  case (Put p pg)
  then obtain f where "bp_table b p = Some f" using legal bp_pins_pos_table by auto
  then show ?thesis
    using put_page(1-3) [OF ok, of p f pg] legal Put by (simp add: bp_abs_def store_step_simps)
next
  case New
  obtain r b' where rb: "BufferPoolManager_NewPage b = (r, b')" by fastforce
  have room: "0 < disk_room (bp_disk b)" using legal New by simp
  show ?thesis
    by (cases rule: new_page [OF ok room rb])
      (use rb New ok in \<open>auto simp: bp_abs_def store_step_simps\<close>)
next
  case (Delete p)
  obtain r b' where rb: "BufferPoolManager_DeletePage p b = (r, b')" by fastforce
  show ?thesis
    using delete_page(2,4,5) [OF ok _ rb] legal Delete rb by (simp add: bp_abs_def store_step_simps)
next
  case (FlushOne p)
  obtain r b' where rb: "BufferPoolManager_FlushPage p b = (r, b')" by fastforce
  show ?thesis
    using flush_page(2-4) [OF ok rb] FlushOne rb by (simp add: bp_abs_def store_step_simps)
next
  case FlushAll
  then show ?thesis using flush_all(1-3) [OF ok] by (simp add: bp_abs_def store_step_simps)
qed

lemma bp_run_inv: "bpm_inv b \<Longrightarrow> bp_legal_run xs b \<Longrightarrow> bpm_inv (bp_run xs b)"
  by (induction xs arbitrary: b) (use bp_step_refines in auto)

lemma new_pool_inv:
  assumes d: "disk_inv d" and img: "\<forall>p\<in>disk_used d - {0}. image_ok (disk_page d p)"
  shows "bpm_inv (BufferPoolManager_new n d)"
proof -
  have m: "i < unat n \<Longrightarrow> replicate (unat n) FrameMetadata_default ! i = FrameMetadata_default" for i by simp
  have lt: "i < 4294967296" if "i < unat n" for i
    using that unat32_lt [of n] by linarith
  then have free: "of_nat ` {0..<unat n} = {f :: u32. unat f < unat n}"
    by (auto simp: unat32_of_nat image_iff) (metis atLeastLessThan_iff le0 of_nat_unat ucast_id)
  have "inj_on (of_nat :: nat \<Rightarrow> u32) {0..<unat n}"
    by (rule inj_onI) (metis atLeastLessThan_iff lt unat32_of_nat)
  then have "bpm_mem {} (BufferPoolManager_new n d)"
    using free by (auto simp: bpm_mem_def BufferPoolManager_new_def distinct_map meta_simps
        LRUReplacer_new_def lru_inv_def lru_rep_def intro!: exI [of _ "[]"])
  then show ?thesis
    using d img by (auto simp: bpm_ok_def BufferPoolManager_new_def bp_data_def meta_simps)
qed

lemma bp_step_stable:
  assumes ok: "bpm_inv b" and legal: "bp_legal x b" and q: "0 < bp_pins b q"
    and other: "x \<notin> {Fetch q, Delete q, FlushOne q, FlushAll}" "\<And>d. x \<noteq> Unpin q d" "\<And>pg. x \<noteq> Put q pg"
  shows "pinned_stable b (bp_step x b) q"
proof (cases x)
  case (Fetch p)
  obtain r b' where rb: "BufferPoolManager_FetchPage p b = (r, b')" by fastforce
  have p: "p \<in> bp_data b" "bp_pins b p < 4294967295" "q \<noteq> p" using legal Fetch other by auto
  show ?thesis
    by (cases rule: fetch_page [OF ok p(1,2) rb]) (use rb Fetch p in auto)
next
  case (Unpin p d)
  obtain r b' where rb: "BufferPoolManager_UnpinPage p d b = (r, b')" by fastforce
  have qp: "q \<noteq> p" using other(2) Unpin by auto
  have c: "disk_page (bp_disk b) p = page_image (frame_page b f)"
    if "bp_table b p = Some f" "bp_pins b p = 1" "\<not> d" "\<not> fm_is_dirty (frame_meta b f)" for f
    using legal Unpin that by simp
  have "pinned_stable b b' q"
    by (rule unpin_page(5) [OF ok rb _ qp], erule c, assumption+)
  then show ?thesis using Unpin rb by simp
next
  case (Put p pg)
  then obtain f where f: "bp_table b p = Some f" using legal bp_pins_pos_table by auto
  have "q \<noteq> p" using other(3) Put by auto
  then show ?thesis
    using put_page(4) [OF ok f] legal Put f by simp
next
  case New
  obtain r b' where rb: "BufferPoolManager_NewPage b = (r, b')" by fastforce
  have room: "0 < disk_room (bp_disk b)" using legal New by simp
  have "q \<in> bp_data b" using q bp_pins_pos_table bpm_okD(3) [OF ok] by blast
  then show ?thesis
  proof (cases rule: new_page [OF ok room rb])
    case 1
    then show ?thesis using rb New by (simp add: pinned_stable_def)
  next
    case (2 p f)
    have "q \<noteq> p" using \<open>q \<in> bp_data b\<close> 2(3) by auto
    then show ?thesis using 2(11) rb New by simp
  qed
next
  case (Delete p)
  obtain r b' where rb: "BufferPoolManager_DeletePage p b = (r, b')" by fastforce
  show ?thesis
    using delete_page(3) [OF ok _ rb] legal Delete other rb by auto
next
  case (FlushOne p)
  obtain r b' where rb: "BufferPoolManager_FlushPage p b = (r, b')" by fastforce
  show ?thesis
    using flush_page(6) [OF ok rb] FlushOne other rb by auto
next
  case FlushAll
  then show ?thesis using other by simp
qed

lemma store_step_view:
  "store_step s x s' \<Longrightarrow> fst s p = Some c \<Longrightarrow> x \<noteq> Delete p \<Longrightarrow> (\<And>pg. x \<noteq> Put p pg) \<Longrightarrow> fst s' p = Some c"
  by (induction rule: store_step.induct) auto

lemma bp_run_contents:
  assumes "bpm_inv b" "bp_legal_run xs b" "bp_view b p = Some c"
    and "\<forall>x\<in>set xs. x \<noteq> Delete p \<and> (\<forall>pg. x \<noteq> Put p pg)"
  shows "bp_view (bp_run xs b) p = Some c"
  using assms
proof (induction xs arbitrary: b)
  case (Cons x xs)
  then have "bpm_inv (bp_step x b)" "bp_view (bp_step x b) p = Some c"
    using bp_step_refines [of b x] store_step_view [of "bp_abs b" x "bp_abs (bp_step x b)" p c]
    by (auto simp: bp_abs_def)
  then show ?case using Cons by simp
qed simp

section \<open>Policy\<close>

datatype lru_op = Access u32 | Drop u32 | Victim

fun lru_step :: "lru_replacer \<Rightarrow> lru_op \<Rightarrow> lru_replacer" where
  "lru_step r (Access f) = LRUReplacer_RecordAccess f r"
| "lru_step r (Drop f) = LRUReplacer_Remove f r"
| "lru_step r Victim = snd (LRUReplacer_Evict r)"

text \<open>The accesses, oldest first, of the frames that are still in the replacer.\<close>

fun history_step :: "u32 list \<Rightarrow> lru_op \<Rightarrow> u32 list" where
  "history_step h (Access f) = h @ [f]"
| "history_step h (Drop f) = filter (\<lambda>g. g \<noteq> f) h"
| "history_step h Victim = (if h = [] then [] else filter (\<lambda>g. g \<noteq> hd (remdups h)) h)"

lemma lru_step_rep: "lru_rep h r \<Longrightarrow> lru_rep (history_step h x) (lru_step r x)"
proof (cases x)
  case Victim
  assume h: "lru_rep h r"
  then show ?thesis
    using lru_evict_none [of r] lru_evict_some [OF h _ surjective_pairing] Victim by (cases "h = []") auto
qed (auto intro: lru_rep_access lru_rep_remove)

lemma lru_run_rep: "lru_rep h r \<Longrightarrow> lru_rep (foldl history_step h xs) (foldl lru_step r xs)"
  by (induction xs arbitrary: h r) (auto intro: lru_step_rep)

lemma lru_rep_new: "lru_rep [] LRUReplacer_new"
  by (simp add: lru_rep_def LRUReplacer_new_def)

section \<open>Properties\<close>

text \<open>
  The replacer is LRU: after any calls, \<open>Evict\<close> returns \<open>INVALID_FRAME_ID\<close> exactly when no
  frame is left, and otherwise a frame whose last access lies before the last access of every
  other frame left.
\<close>

theorem lru_evicts_least_recent:
  "case LRUReplacer_Evict (foldl lru_step LRUReplacer_new xs) of
     (victim, r') \<Rightarrow>
       let h = foldl history_step [] xs
       in if h = [] then victim = INVALID_FRAME_ID
          else \<exists>ys zs. h = ys @ victim # zs \<and> victim \<notin> set zs \<and> set h - {victim} \<subseteq> set zs"
proof -
  let ?h = "foldl history_step [] xs"
  have rep: "lru_rep ?h (foldl lru_step LRUReplacer_new xs)"
    by (rule lru_run_rep [OF lru_rep_new])
  obtain v r' where ev: "LRUReplacer_Evict (foldl lru_step LRUReplacer_new xs) = (v, r')" by fastforce
  show ?thesis
  proof (cases "?h = []")
    case True
    then show ?thesis using lru_evict_none rep by simp
  next
    case False
    then show ?thesis
      using lru_evict_some(1) [OF rep False ev] hd_remdups_split [OF False] ev by (simp add: Let_def)
  qed
qed

text \<open>
  C3. The pool refines the page store: every operation of the manager, used as the client
  protocol asks, keeps the pool invariant and changes the contents and pin counts of the pages as
  the specification says, so that frames, eviction and write-back are invisible.
\<close>

theorem pool_refines_page_store:
  assumes "bpm_inv b" and "bp_legal x b"
  shows "bpm_inv (bp_step x b) \<and> store_step (bp_abs b) x (bp_abs (bp_step x b))"
  using assms by (rule bp_step_refines)

abbreviation demo_pool :: bpm where
  "demo_pool \<equiv> BufferPoolManager_new 2 new_disk"

lemma disk_used_new [simp]: "disk_used new_disk = {0}"
  by (auto simp: disk_used_def unat_eq_0)

lemma demo_pool_inv [simp]: "bpm_inv demo_pool"
  by (rule new_pool_inv) simp_all

lemma demo_pool_disk [simp]: "bp_disk demo_pool = new_disk"
  by (simp add: BufferPoolManager_new_def)

theorem pool_refines_page_store_witness:
  "bpm_inv (bp_step New demo_pool) \<and> store_step (bp_abs demo_pool) New (bp_abs (bp_step New demo_pool))"
  by (rule pool_refines_page_store) simp_all

text \<open>
  \<open>FetchPage\<close> of an existing page gives a frame that is pinned once more and holds the
  contents of the page; it fails exactly when the page is not in the pool and every frame is
  pinned, and then leaves contents and pins alone.
\<close>

theorem pool_fetch_correct:
  assumes "bpm_inv b" and "p \<in> bp_data b" and "bp_pins b p < 4294967295"
  shows "case BufferPoolManager_FetchPage p b of
      (Some f, b') \<Rightarrow> bpm_inv b' \<and> bp_table b' p = Some f \<and> bp_pins b' = (bp_pins b)(p := Suc (bp_pins b p)) \<and>
        bp_view b' = bp_view b \<and> bp_view b p = Some (page_image (frame_page b' f))
    | (None, b') \<Rightarrow> bpm_inv b' \<and> bp_table b p = None \<and>
        (\<forall>f. unat f < unat (bp_pool_size b) \<longrightarrow> fm_pin_count (frame_meta b f) \<noteq> 0) \<and>
        bp_view b' = bp_view b \<and> bp_pins b' = bp_pins b"
proof -
  obtain r b' where rb: "BufferPoolManager_FetchPage p b = (r, b')" by fastforce
  show ?thesis
    by (cases rule: fetch_page [OF assms rb]) (simp_all add: rb)
qed

text \<open>A pool with one page in it, pinned once.\<close>

lemma demo_page:
  obtains b f p where "bpm_inv b" "bp_step New demo_pool = b" "p \<in> bp_data b" "bp_table b p = Some f"
    "bp_pins b p = 1" "bp_view b p = Some (page_image (Page_new p))" "frame_page b f = Page_new p"
    "disk_room (bp_disk b) = 4294967293" "fm_is_dirty (frame_meta b f)"
proof -
  obtain r b where rb: "BufferPoolManager_NewPage demo_pool = (r, b)" by fastforce
  have room: "0 < disk_room (bp_disk demo_pool)" by simp
  show ?thesis
  proof (cases rule: new_page [OF demo_pool_inv room rb])
    case 1
    then show ?thesis using 1(3) [of 0] by (simp add: BufferPoolManager_new_def FrameMetadata_default_def)
  next
    case (2 p f)
    show ?thesis by (rule that [of b p f]) (use 2 rb in simp_all)
  qed
qed

theorem pool_fetch_correct_witness:
  "\<exists>b p f b'. bp_step New demo_pool = b \<and> BufferPoolManager_FetchPage p b = (Some f, b') \<and> bp_pins b' p = 2"
proof -
  obtain b f p where b: "bpm_inv b" "bp_step New demo_pool = b" "p \<in> bp_data b" "bp_table b p = Some f"
    "bp_pins b p = 1" by (rule demo_page)
  obtain r b' where rb: "BufferPoolManager_FetchPage p b = (r, b')" by fastforce
  have "\<exists>g. r = Some g" "bp_pins b' p = 2"
    using pool_fetch_correct [OF b(1,3)] b(4,5) rb by (cases r; simp)+
  then show ?thesis using b(2) rb by blast
qed

text \<open>
  C29. A pinned page is never evicted: no legal operation on other pages moves it, changes its
  contents or touches its metadata, so a pointer to it stays good until it is unpinned.
\<close>

theorem pool_pinned_never_evicted:
  assumes "bpm_inv b" and "bp_legal x b" and "0 < bp_pins b q" and "bp_table b q = Some f"
    and "x \<notin> {Fetch q, Delete q, FlushOne q, FlushAll}" and "\<forall>d pg. x \<noteq> Unpin q d \<and> x \<noteq> Put q pg"
  shows "bp_table (bp_step x b) q = Some f \<and> frame_page (bp_step x b) f = frame_page b f \<and>
    frame_meta (bp_step x b) f = frame_meta b f"
  using bp_step_stable [OF assms(1-3,5)] assms(3,4,6) by (simp add: pinned_stable_def)

theorem pool_pinned_never_evicted_witness:
  "\<exists>b p f. bp_step New demo_pool = b \<and> bp_table b p = Some f \<and> frame_page (bp_step New b) f = Page_new p"
proof -
  obtain b f p where b: "bpm_inv b" "bp_step New demo_pool = b" "p \<in> bp_data b" "bp_table b p = Some f"
    "bp_pins b p = 1" "bp_view b p = Some (page_image (Page_new p))" "frame_page b f = Page_new p"
    "disk_room (bp_disk b) = 4294967293" by (rule demo_page)
  then show ?thesis using pool_pinned_never_evicted [of b New p f] by auto
qed

text \<open>
  C13. No update is lost: through any legal sequence of operations, however many evictions,
  write-backs and reloads it causes, a page that is neither written nor deleted keeps the contents
  it had, and the next fetch that succeeds delivers them.
\<close>

theorem pool_contents_survive:
  assumes "bpm_inv b" and "bp_legal_run xs b" and "bp_view b p = Some c"
    and "\<forall>x\<in>set xs. x \<noteq> Delete p \<and> (\<forall>pg. x \<noteq> Put p pg)"
    and "bp_pins (bp_run xs b) p < 4294967295"
  shows "case BufferPoolManager_FetchPage p (bp_run xs b) of
      (Some f, b') \<Rightarrow> page_image (frame_page b' f) = c
    | (None, b') \<Rightarrow> bp_view b' p = Some c"
proof -
  have inv: "bpm_inv (bp_run xs b)" by (rule bp_run_inv [OF assms(1,2)])
  have view: "bp_view (bp_run xs b) p = Some c" by (rule bp_run_contents [OF assms(1-4)])
  then have p: "p \<in> bp_data (bp_run xs b)" by (metis domI dom_bp_view)
  obtain r b' where rb: "BufferPoolManager_FetchPage p (bp_run xs b) = (r, b')" by fastforce
  show ?thesis
    by (cases rule: fetch_page [OF inv p assms(5) rb]) (simp_all add: rb view)
qed

theorem pool_contents_survive_witness:
  "\<exists>b p b'. bp_step New demo_pool = b \<and> BufferPoolManager_FetchPage p (bp_run [FlushAll] b) = b' \<and>
     (case b' of (Some f, b'') \<Rightarrow> page_image (frame_page b'' f) = page_image (Page_new p)
        | (None, b'') \<Rightarrow> bp_view b'' p = Some (page_image (Page_new p)))"
proof -
  obtain b f p where b: "bpm_inv b" "bp_step New demo_pool = b" "p \<in> bp_data b" "bp_table b p = Some f"
    "bp_pins b p = 1" "bp_view b p = Some (page_image (Page_new p))" by (rule demo_page)
  then have "bp_pins (bp_run [FlushAll] b) p < 4294967295" using flush_all(3) [OF b(1)] by simp
  then have "case BufferPoolManager_FetchPage p (bp_run [FlushAll] b) of
      (Some f, b'') \<Rightarrow> page_image (frame_page b'' f) = page_image (Page_new p)
    | (None, b'') \<Rightarrow> bp_view b'' p = Some (page_image (Page_new p))"
    using pool_contents_survive [OF b(1) _ b(6), of "[FlushAll]"] by simp
  then show ?thesis using b(2) by blast
qed

text \<open>
  \<open>FlushAllPages\<close> is a durable checkpoint: when no page is pinned, the file that survives a
  crash right after it opens, and holds for every data page the contents the pool had.
\<close>

theorem pool_flush_all_durable:
  assumes "bpm_inv b" and "\<forall>p. bp_pins b p = 0"
  defines "b' \<equiv> BufferPoolManager_FlushAllPages b"
  shows "bp_view b' = bp_view b \<and>
    (\<exists>d. DiskManager_open (Exists (dm_durable (bp_disk b'))) [] = Inr d \<and> disk_inv d \<and>
       dm_header d = dm_header (bp_disk b') \<and> (\<forall>p\<in>bp_data b. bp_view b p = Some (disk_page d p)))"
proof -
  note A = flush_all [OF assms(1), folded b'_def]
  have inv: "disk_rep (bp_disk b') (disk_free (bp_disk b'))"
    using bpm_okD(2) [OF A(1)] by (simp add: disk_inv_def)
  have dur: "dm_durable (bp_disk b') = dm_file (bp_disk b')"
    using A(8) disk_repD(2) [OF inv] by simp
  have "bp_view b p = Some (disk_page (bp_disk b') p)" if "p \<in> bp_data b" for p
    using A(6,7) that assms(2) by (cases "bp_table b p") auto
  moreover have "disk_rep ((disk_of_file (dm_file (bp_disk b')) [])\<lparr>dm_header := dm_header (bp_disk b')\<rparr>)
      (disk_free (bp_disk b'))"
    using inv by (auto simp: disk_rep_def disk_of_file_def)
  ultimately show ?thesis
    using A(2) reopen [OF inv] dur by (auto simp: disk_inv_iff disk_of_file_def)
qed

theorem pool_flush_all_durable_witness:
  "\<exists>d. DiskManager_open (Exists (dm_durable (bp_disk (BufferPoolManager_FlushAllPages demo_pool)))) [] = Inr d \<and>
     disk_inv d"
proof -
  have "\<forall>p. bp_pins demo_pool p = 0" by (simp add: bp_pins_def BufferPoolManager_new_def)
  then show ?thesis using pool_flush_all_durable [of demo_pool] by auto
qed

text \<open>
  C39. A failed write-back is not noticed: when the \<open>pwrite\<close> fails, \<open>FlushPage\<close> still returns
  true and marks the page clean, and evicting a dirty page still gives up its frame, while the file
  keeps the old contents.
\<close>

theorem pool_write_failure_unnoticed:
  assumes "bpm_inv (b\<lparr>bp_disk := (bp_disk b)\<lparr>dm_io := []\<rparr>\<rparr>)" and "dm_io (bp_disk b) = [False]"
    and "bp_table b p = Some f" and "fm_is_dirty (frame_meta b f)"
  shows "(\<exists>b'. BufferPoolManager_FlushPage p b = (True, b') \<and> \<not> fm_is_dirty (frame_meta b' f) \<and>
      dm_file (bp_disk b') = dm_file (bp_disk b)) \<and>
    bp_table (BufferPoolManager_EvictFrame f b) p = None \<and>
      dm_file (bp_disk (BufferPoolManager_EvictFrame f b)) = dm_file (bp_disk b)"
proof -
  let ?b = "b\<lparr>bp_disk := (bp_disk b)\<lparr>dm_io := []\<rparr>\<rparr>"
  have t: "bp_table ?b p = Some f" using assms(3) by simp
  note F = bp_table_frame [OF assms(1) t]
  have w: "snd (DiskManager_WritePage q x (bp_disk b)) = bp_disk b \<or>
      snd (DiskManager_WritePage q x (bp_disk b)) = (bp_disk b)\<lparr>dm_io := []\<rparr>" for q x
    using assms(2) by (auto simp: DiskManager_WritePage_def os_pwrite_def PAGE_SIZE_def Let_def)
  then have unwritten: "dm_file (bp_disk (write_back q f b)) = dm_file (bp_disk b)" for q
    using w [of q] by (metis (no_types, lifting) disk.select_convs(1) disk.surjective disk.update_convs(7) write_back_fields(7))
  have clean: "frame_meta (write_back q f b) f = (frame_meta b f)\<lparr>fm_is_dirty := False\<rparr>" for q
    using F(6) by (simp add: set_meta_def)
  have "\<exists>b'. BufferPoolManager_FlushPage p b = (True, b') \<and> \<not> fm_is_dirty (frame_meta b' f) \<and>
      dm_file (bp_disk b') = dm_file (bp_disk b)"
    using assms(3) clean [of p] unwritten [of p] by (simp add: BufferPoolManager_FlushPage_def del: write_back_fields)
  moreover have "fm_page_id (frame_meta b f) = p" using F(3) by simp
  then have "bp_table (BufferPoolManager_EvictFrame f b) p = None \<and>
      dm_file (bp_disk (BufferPoolManager_EvictFrame f b)) = dm_file (bp_disk b)"
    using assms(4) clean [of p] unwritten [of p]
    by (simp add: BufferPoolManager_EvictFrame_def Let_def del: write_back_fields(5-7))
  ultimately show ?thesis by blast
qed

theorem pool_write_failure_unnoticed_witness:
  "\<exists>b p b' b''. b = bp_step New demo_pool \<and>
     BufferPoolManager_FlushPage p (b\<lparr>bp_disk := (bp_disk b)\<lparr>dm_io := [False]\<rparr>\<rparr>) = (True, b') \<and>
     dm_file (bp_disk b') = dm_file (bp_disk b)"
proof -
  obtain b f p where b: "bpm_inv b" "bp_step New demo_pool = b" "p \<in> bp_data b" "bp_table b p = Some f"
    "bp_pins b p = 1" "bp_view b p = Some (page_image (Page_new p))" "frame_page b f = Page_new p"
    "disk_room (bp_disk b) = 4294967293" "fm_is_dirty (frame_meta b f)" by (rule demo_page)
  let ?b = "b\<lparr>bp_disk := (bp_disk b)\<lparr>dm_io := [False]\<rparr>\<rparr>"
  have "dm_io (bp_disk b) = []" using bpm_okD(2) [OF b(1)] by (rule disk_invD)
  then have "?b\<lparr>bp_disk := (bp_disk ?b)\<lparr>dm_io := []\<rparr>\<rparr> = b" by (cases b; cases "bp_disk b") simp
  then have "\<exists>b'. BufferPoolManager_FlushPage p ?b = (True, b') \<and> dm_file (bp_disk b') = dm_file (bp_disk b)"
    using pool_write_failure_unnoticed [of ?b p f] b(1,4,9) by auto
  then show ?thesis using b(2) by blast
qed

end
