(* ===== verification/PageSession.thy ===== *)
theory PageSession
  imports BufferPool
begin

text \<open>
  What the clients of the buffer pool (heap file, index) do with it: fetch a page, read or change it
  through the pointer, unpin it. The lemmas give the effect of such a session on the contents and
  pin counts of the pages, so that client proofs do not mention frames.
\<close>

section \<open>The page in an image\<close>

definition page_of :: "u8 list \<Rightarrow> page" where
  "page_of img = load_page img Page_default"

lemma load_image_data:
  "i < PAGE_SIZE \<Longrightarrow> p_data (load_page (page_image pg) q) i = p_data (Page_SerializeToBuffer pg) i"
  by (simp add: load_page_def buf_write_def page_image_def)

lemma page_of_image_fields:
  assumes ok: "page_ser_ok pg"
  shows "p_header (page_of (page_image pg)) = p_header pg" "p_slots (page_of (page_image pg)) = p_slots pg"
proof -
  let ?d = "p_data (page_of (page_image pg))" and ?e = "p_data (Page_SerializeToBuffer pg)"
  have eq: "i < 4096 \<Longrightarrow> ?d i = ?e i" for i
    using load_image_data [of i pg Page_default] by (simp add: page_of_def PAGE_SIZE_def)
  have h: "header_of_buf ?d = p_header pg"
    using header_of_buf_cong [of ?d ?e] eq header_of_serialized [OF ok] by simp
  have f: "p_header (page_of (page_image pg)) = header_of_buf ?d"
    "p_slots (page_of (page_image pg)) = read_slots ?d HEADER_SIZE (unat (ph_num_slots (header_of_buf ?d)))"
    by (simp_all add: page_of_def load_page_def)
  then show "p_header (page_of (page_image pg)) = p_header pg" using h by simp
  have n: "unat (ph_num_slots (p_header pg)) \<le> 1019" using ok by (simp add: page_ser_ok_def)
  have "read_slots ?d HEADER_SIZE (unat (ph_num_slots (p_header pg))) =
      read_slots ?e HEADER_SIZE (unat (ph_num_slots (p_header pg)))"
    using n eq by (intro read_slots_cong) auto
  also have "\<dots> = p_slots pg"
    using ok by (simp add: Serialize_data [OF ok] read_write_slots page_ser_ok_def)
  finally show "p_slots (page_of (page_image pg)) = p_slots pg" using f(2) h by simp
qed

lemma page_of_image_inv: "page_ser_ok pg \<Longrightarrow> page_inv (page_of (page_image pg)) = page_inv pg"
  by (simp add: page_inv_def page_of_image_fields)

lemma page_of_image_recs:
  assumes inv: "page_inv pg"
  shows "page_recs (page_of (page_image pg)) = page_recs pg"
proof -
  have ok: "page_ser_ok pg" using inv by simp
  have "buf_read (p_data (page_of (page_image pg))) (unat (se_offset (p_slots pg ! i))) (unat (se_length (p_slots pg ! i))) =
      buf_read (p_data (Page_SerializeToBuffer pg)) (unat (se_offset (p_slots pg ! i))) (unat (se_length (p_slots pg ! i)))"
    if "i < length (p_slots pg)" "\<not> SlotEntry_IsEmpty (p_slots pg ! i)" for i
    using slots_okD(2) [OF page_invD(6) [OF inv] that]
    by (intro buf_read_cong) (simp add: page_of_def load_image_data)
  then have "page_recs (page_of (page_image pg)) = page_recs (Page_SerializeToBuffer pg)"
    by (auto simp: page_recs_def slot_recs_def fun_eq_iff page_of_image_fields [OF ok])
  then show ?thesis using page_recs_Serialize [OF inv] by simp
qed

lemma page_ser_ok_page_of: "image_ok img \<Longrightarrow> page_ser_ok (page_of img)"
  by (simp add: page_of_def page_ser_ok_load)

section \<open>Sessions\<close>

text \<open>A free frame can be found as long as fewer pages are pinned than there are frames.\<close>

definition pinned_pages :: "bpm \<Rightarrow> u32 set" where
  "pinned_pages b = {p. 0 < bp_pins b p}"

definition has_frame :: "bpm \<Rightarrow> bool" where
  "has_frame b \<longleftrightarrow> card (pinned_pages b) < unat (bp_pool_size b)"

lemma card_frames: "card {f :: u32. unat f < unat n} = unat n" for n :: u32
proof -
  have lt: "i < 4294967296" if "i < unat n" for i
    using that unat32_lt [of n] by linarith
  have "bij_betw unat {f :: u32. unat f < unat n} {0..<unat n}"
    by (rule bij_betw_byWitness [where f' = of_nat]) (use lt in \<open>auto simp: unat32_of_nat\<close>)
  then show ?thesis using bij_betw_same_card by fastforce
qed

lemma all_pinned_no_frame:
  assumes ok: "bpm_inv b" and all: "\<And>f. pool_frame b f \<Longrightarrow> fm_pin_count (frame_meta b f) \<noteq> 0"
  shows "\<not> has_frame b"
proof -
  note M = bpm_memD [OF bpm_okD(1) [OF ok]]
  let ?F = "{f :: u32. unat f < unat (bp_pool_size b)}" and ?g = "\<lambda>f. fm_page_id (frame_meta b f)"
  have t: "bp_table b (?g f) = Some f" if "f \<in> ?F" for f
  proof -
    have "occupied b f"
    proof (rule ccontr)
      assume "\<not> occupied b f"
      then have "frame_meta b f = FrameMetadata_default" using M(8) that by blast
      then show False using all [of f] that by (simp add: FrameMetadata_default_def)
    qed
    then show ?thesis using M(3) that by simp
  qed
  have inj: "inj_on ?g ?F" by (rule inj_onI) (metis option.inject t)
  have sub: "?g ` ?F \<subseteq> pinned_pages b"
  proof
    fix p assume "p \<in> ?g ` ?F"
    then obtain f where f: "f \<in> ?F" "p = ?g f" by blast
    then have "bp_table b p = Some f" using t [OF f(1)] by (simp only:)
    moreover have "fm_pin_count (frame_meta b f) \<noteq> 0" using all f(1) by (simp only: mem_Collect_eq not_False_eq_True)
    ultimately have "bp_table b p = Some f" "unat (fm_pin_count (frame_meta b f)) \<noteq> 0"
      by (simp_all add: unat_eq_0)
    then show "p \<in> pinned_pages b" by (simp add: pinned_pages_def bp_pins_def)
  qed
  have "card ?F \<le> card (pinned_pages b)"
    using card_mono [OF finite sub] unfolding card_image [OF inj] .
  then show ?thesis unfolding card_frames has_frame_def by simp
qed

text \<open>What no session changes.\<close>

definition same_frame :: "bpm \<Rightarrow> bpm \<Rightarrow> bool" where
  "same_frame b b' \<longleftrightarrow>
     bpm_inv b' \<and> bp_pins b' = bp_pins b \<and> bp_data b' = bp_data b \<and>
     disk_room (bp_disk b') = disk_room (bp_disk b) \<and> bp_pool_size b' = bp_pool_size b"

lemma same_frame_trans: "same_frame a b \<Longrightarrow> same_frame b c \<Longrightarrow> same_frame a c"
  by (simp add: same_frame_def)

lemma same_frame_has_frame: "same_frame b b' \<Longrightarrow> has_frame b' = has_frame b"
  by (simp add: same_frame_def has_frame_def pinned_pages_def)

lemma session:
  assumes ok: "bpm_inv b" and p: "p \<in> bp_data b" and free: "bp_pins b p = 0" and frame: "has_frame b"
  obtains f b1 where "BufferPoolManager_FetchPage p b = (Some f, b1)"
    "page_ser_ok (frame_page b1 f)" "bp_view b p = Some (page_image (frame_page b1 f))"
    "same_frame b (snd (BufferPoolManager_UnpinPage p False b1))"
    "bp_view (snd (BufferPoolManager_UnpinPage p False b1)) = bp_view b"
    "\<And>q. q \<noteq> p \<Longrightarrow> pinned_stable b (snd (BufferPoolManager_UnpinPage p False b1)) q"
    "\<And>pg d. page_ser_ok pg \<Longrightarrow> d \<or> pg = frame_page b1 f \<Longrightarrow>
       same_frame b (snd (BufferPoolManager_UnpinPage p d (set_page f pg b1))) \<and>
       bp_view (snd (BufferPoolManager_UnpinPage p d (set_page f pg b1))) = (bp_view b)(p \<mapsto> page_image pg) \<and>
       (\<forall>q. q \<noteq> p \<longrightarrow> pinned_stable b (snd (BufferPoolManager_UnpinPage p d (set_page f pg b1))) q)"
    "bpm_inv b1" "bp_view b1 = bp_view b" "bp_pins b1 = (bp_pins b)(p := 1)" "bp_table b1 p = Some f"
    "\<And>q. q \<noteq> p \<Longrightarrow> pinned_stable b b1 q"
proof -
  obtain r b1 where fetch: "BufferPoolManager_FetchPage p b = (r, b1)" by fastforce
  have pin: "bp_pins b p < 4294967295" using free by simp
  show ?thesis
  proof (cases rule: fetch_page [OF ok p pin fetch])
    case 1
    then show ?thesis using all_pinned_no_frame [OF ok] frame by blast
  next
    case (2 f)
    have sub: "\<exists>g. bp_table b1 q = Some g" if "0 < bp_pins b q" for q
      using 2(4) that free bp_pins_pos_table [of b1 q] by (cases "q = p") auto
    have room: "disk_room (bp_disk b1) = disk_room (bp_disk b)" "bp_data b1 = bp_data b"
      using 2(11,12) by (simp_all add: disk_room_def bp_data_def disk_used_def)
    have pins1: "bp_pins b1 p = 1" using 2(4) free by simp
    have wr: "same_frame b b3 \<and> bp_view b3 = (bp_view b)(p \<mapsto> page_image pg) \<and>
        (\<forall>q. q \<noteq> p \<longrightarrow> pinned_stable b b3 q)"
      if pg: "page_ser_ok pg" "d \<or> pg = frame_page b1 f"
        and b3: "b3 = snd (BufferPoolManager_UnpinPage p d (set_page f pg b1))" for pg d b3
    proof -
      let ?b2 = "set_page f pg b1"
      have u: "BufferPoolManager_UnpinPage p d ?b2 = (fst (BufferPoolManager_UnpinPage p d ?b2), b3)"
        using b3 by simp
      have "0 < bp_pins b1 p" using pins1 by simp
      note P = put_page [OF 2(2,5) this pg(1)]
      have c: "disk_page (bp_disk ?b2) p = page_image (frame_page ?b2 g)"
        if "bp_table ?b2 p = Some g" "bp_pins ?b2 p = 1" "\<not> d" "\<not> fm_is_dirty (frame_meta ?b2 g)" for g
        using that pg(2) 2(5,9) free P(5) by auto
      have s: "pinned_stable ?b2 b3 q" if "q \<noteq> p" for q
        by (rule unpin_page(5) [OF P(1) u _ that], erule c, assumption+)
      have "bpm_inv b3" "bp_view b3 = bp_view ?b2" "bp_pins b3 = (bp_pins ?b2)(p := bp_pins ?b2 p - 1)"
        "bp_disk b3 = bp_disk ?b2" "bp_pool_size b3 = bp_pool_size ?b2"
        by (rule unpin_page(2) [OF P(1) u], erule c, assumption+, rule unpin_page(3) [OF P(1) u], erule c,
            assumption+, rule unpin_page(4) [OF P(1) u], erule c, assumption+, rule unpin_page(6) [OF P(1) u],
            erule c, assumption+, rule unpin_page(7) [OF P(1) u], erule c, assumption+)
      moreover have "pinned_stable b b3 q" if "q \<noteq> p" for q
        using 2(7) [OF that] P(4) [OF that] s [OF that] P(3) 2(4) that
        by (auto simp: pinned_stable_def)
      ultimately show ?thesis
        using P(2,3) 2(3,4,13) free room by (auto simp: same_frame_def bp_data_def)
    qed
    have id: "set_page f (frame_page b1 f) b1 = b1" by (simp add: set_page_def)
    have pv: "bp_view b p = Some (page_image (frame_page b1 f))" by (rule 2(6))
    note rd = wr [OF 2(10) _ refl, of False, unfolded id]
    show ?thesis
      by (rule that [OF fetch [unfolded 2(1)] 2(10) pv])
        (use rd wr 2 pv free in \<open>auto simp: fun_upd_idem\<close>)
  qed
qed

section \<open>Footprints\<close>

text \<open>
  Clients that share a pool must not disturb each other. A run that starts with the pages \<open>S\<close> and ends with the
  pages \<open>S'\<close> keeps the contents of every page of the pool that is not one of \<open>S\<close>, and the pages it gained are new to the pool.
\<close>

definition footprint :: "u32 set \<Rightarrow> bpm \<Rightarrow> u32 set \<Rightarrow> bpm \<Rightarrow> bool" where
  "footprint S b S' b' \<longleftrightarrow>
     (\<forall>r. r \<notin> S \<longrightarrow> bp_view b r \<noteq> None \<longrightarrow> bp_view b' r = bp_view b r) \<and> (\<forall>r\<in>S'. bp_view b r \<noteq> None \<longrightarrow> r \<in> S) \<and>
     bp_pool_size b' = bp_pool_size b"

lemma footprint_trans: "footprint S b S' b' \<Longrightarrow> footprint S' b' S'' b'' \<Longrightarrow> footprint S b S'' b''"
  unfolding footprint_def by metis

lemma footprint_size: "footprint S b S' b' \<Longrightarrow> bp_pool_size b' = bp_pool_size b"
  by (simp add: footprint_def)

lemma footprint_write:
  "(\<And>r. r \<notin> S \<Longrightarrow> bp_view b' r = bp_view b r) \<Longrightarrow> bp_pool_size b' = bp_pool_size b \<Longrightarrow> footprint S b S b'"
  by (simp add: footprint_def)

lemma footprint_refl [simp]: "footprint S b S b"
  by (simp add: footprint_def)

lemma footprint_new:
  assumes "bp_view b p = None" "\<And>r. r \<notin> insert p S \<Longrightarrow> bp_view b' r = bp_view b r" "bp_pool_size b' = bp_pool_size b"
  shows "footprint S b (insert p S) b'"
  using assms by (auto simp: footprint_def) (metis option.distinct(1))+

text \<open>The pages of another client are not touched, and stay those of the other client.\<close>

lemma footprint_apart:
  assumes "footprint S b S' b'" "\<And>r. r \<in> T \<Longrightarrow> bp_view b r \<noteq> None" "S \<inter> T = {}"
  shows "r \<in> T \<Longrightarrow> bp_view b' r = bp_view b r" "S' \<inter> T = {}"
  using assms by (auto simp: footprint_def)

end
