(* ===== verification/NbaRecord.thy ===== *)
theory NbaRecord
  imports Page
begin

text \<open>
  Record identifiers and the NBA record serializer of \<open>include/storage/record.h\<close> and
  \<open>src/storage/record.cpp\<close>. A \<open>std::string\<close> is its bytes. The serializer appends to a byte
  vector; the deserializer walks a pointer with a \<open>uint16_t\<close> offset.
\<close>

section \<open>Record identifiers\<close>

datatype rid = RID (rid_page_id: u32) (rid_slot_id: u16)

definition RID_default :: rid where
  "RID_default = RID INVALID_PAGE_ID 0"

definition RID_IsValid :: "rid \<Rightarrow> bool" where
  "RID_IsValid r \<longleftrightarrow> rid_page_id r \<noteq> INVALID_PAGE_ID"

definition RID_less :: "rid \<Rightarrow> rid \<Rightarrow> bool" where
  "RID_less a b \<longleftrightarrow>
     (if rid_page_id a \<noteq> rid_page_id b then rid_page_id a < rid_page_id b
      else rid_slot_id a < rid_slot_id b)"

text \<open>The class's comparison operator makes identifiers a linear order.\<close>

instantiation rid :: linorder
begin

definition "a < b \<longleftrightarrow> RID_less a b"

definition "a \<le> b \<longleftrightarrow> RID_less a b \<or> a = (b :: rid)"

instance
proof
  fix x y z :: rid
  show "x < y \<longleftrightarrow> x \<le> y \<and> \<not> y \<le> x"
    by (cases x; cases y) (auto simp: less_rid_def less_eq_rid_def RID_less_def)
  show "x \<le> x"
    by (simp add: less_eq_rid_def)
  show "x \<le> y \<Longrightarrow> y \<le> z \<Longrightarrow> x \<le> z"
    by (cases x; cases y; cases z) (auto simp: less_rid_def less_eq_rid_def RID_less_def split: if_splits)
  show "x \<le> y \<Longrightarrow> y \<le> x \<Longrightarrow> x = y"
    by (cases x; cases y) (auto simp: less_rid_def less_eq_rid_def RID_less_def split: if_splits)
  show "x \<le> y \<or> y \<le> x"
    by (cases x; cases y) (auto simp: less_rid_def less_eq_rid_def RID_less_def)
qed

end

definition RID_eq :: "rid \<Rightarrow> rid \<Rightarrow> bool" where
  "RID_eq a b \<longleftrightarrow> rid_page_id a = rid_page_id b \<and> rid_slot_id a = rid_slot_id b"

lemma RID_eq_iff [simp]: "RID_eq a b \<longleftrightarrow> a = b"
  by (auto simp: RID_eq_def rid.expand)

lemma RID_default_invalid [simp]: "\<not> RID_IsValid RID_default"
  by (simp add: RID_IsValid_def RID_default_def)

section \<open>Records\<close>

type_synonym cstring = "u8 list"

record nba_record =
  nr_game_id :: cstring
  nr_season :: u16
  nr_quarter :: u8
  nr_clock :: cstring
  nr_team :: cstring
  nr_player :: cstring
  nr_event_type :: u8
  nr_description :: cstring
  nr_points :: u8
  nr_shot_distance :: u16
  nr_home_score :: u16
  nr_away_score :: u16

definition NBARecord_default :: nba_record where
  "NBARecord_default =
     \<lparr>nr_game_id = [], nr_season = 0, nr_quarter = 0, nr_clock = [], nr_team = [], nr_player = [],
      nr_event_type = 0, nr_description = [], nr_points = 0, nr_shot_distance = 0,
      nr_home_score = 0, nr_away_score = 0\<rparr>"

datatype event_type =
    kMadeShot | kMissedShot | kFreeThrow | kRebound | kTurnover | kFoul | kViolation
  | kSubstitution | kTimeout | kJumpBall | kEjection | kPeriodStart | kPeriodEnd | kOther

fun EventType_value :: "event_type \<Rightarrow> u8" where
  "EventType_value kMadeShot = 1"
| "EventType_value kMissedShot = 2"
| "EventType_value kFreeThrow = 3"
| "EventType_value kRebound = 4"
| "EventType_value kTurnover = 5"
| "EventType_value kFoul = 6"
| "EventType_value kViolation = 7"
| "EventType_value kSubstitution = 8"
| "EventType_value kTimeout = 9"
| "EventType_value kJumpBall = 10"
| "EventType_value kEjection = 11"
| "EventType_value kPeriodStart = 12"
| "EventType_value kPeriodEnd = 13"
| "EventType_value kOther = 255"

section \<open>Serialization\<close>

text \<open>The length prefix is the size cast to \<open>uint16_t\<close>; the bytes are all of the string.\<close>

definition WriteString :: "u8 list \<Rightarrow> cstring \<Rightarrow> u8 list" where
  "WriteString buf s =
     (let len = (of_nat (length s) :: u16)
      in buf @ [ucast len, ucast (drop_bit 8 len)] @ s)"

definition WriteFixed8 :: "u8 list \<Rightarrow> u8 \<Rightarrow> u8 list" where
  "WriteFixed8 buf v = buf @ le_bytes 1 v"

definition WriteFixed16 :: "u8 list \<Rightarrow> u16 \<Rightarrow> u8 list" where
  "WriteFixed16 buf v = buf @ le_bytes 2 v"

definition RecordSerializer_Serialize :: "nba_record \<Rightarrow> u8 list" where
  "RecordSerializer_Serialize r =
     (let b1 = WriteString [] (nr_game_id r);
          b2 = WriteFixed16 b1 (nr_season r);
          b3 = WriteFixed8 b2 (nr_quarter r);
          b4 = WriteString b3 (nr_clock r);
          b5 = WriteString b4 (nr_team r);
          b6 = WriteString b5 (nr_player r);
          b7 = WriteFixed8 b6 (nr_event_type r);
          b8 = WriteString b7 (nr_description r);
          b9 = WriteFixed8 b8 (nr_points r);
          b10 = WriteFixed16 b9 (nr_shot_distance r);
          b11 = WriteFixed16 b10 (nr_home_score r)
      in WriteFixed16 b11 (nr_away_score r))"

definition RecordSerializer_ComputeSerializedSize :: "nba_record \<Rightarrow> u16" where
  "RecordSerializer_ComputeSerializedSize r =
     (2 + of_nat (length (nr_game_id r))) + (2 + of_nat (length (nr_clock r))) +
     (2 + of_nat (length (nr_team r))) + (2 + of_nat (length (nr_player r))) +
     (2 + of_nat (length (nr_description r))) + 11"

text \<open>The pointer to the record is the buffer from that address on.\<close>

definition ReadString :: "buf \<Rightarrow> u16 \<Rightarrow> cstring \<times> u16" where
  "ReadString data off =
     (let len = or (ucast (data (unat off))) (push_bit 8 (ucast (data (unat off + 1)))) :: u16;
          off1 = off + 2
      in (buf_read data (unat off1) (unat len), off1 + len))"

definition ReadFixed8 :: "buf \<Rightarrow> u16 \<Rightarrow> u8 \<times> u16" where
  "ReadFixed8 data off = (of_le_bytes (buf_read data (unat off) 1), off + 1)"

definition ReadFixed16 :: "buf \<Rightarrow> u16 \<Rightarrow> u16 \<times> u16" where
  "ReadFixed16 data off = (get16 data (unat off), off + 2)"

text \<open>\<open>None\<close> is the failing assertion that the offset stayed within the length.\<close>

definition RecordSerializer_Deserialize :: "buf \<Rightarrow> u16 \<Rightarrow> nba_record option" where
  "RecordSerializer_Deserialize data len =
     (let (game_id, o1) = ReadString data 0;
          (season, o2) = ReadFixed16 data o1;
          (quarter, o3) = ReadFixed8 data o2;
          (clock, o4) = ReadString data o3;
          (team, o5) = ReadString data o4;
          (player, o6) = ReadString data o5;
          (event_type, o7) = ReadFixed8 data o6;
          (description, o8) = ReadString data o7;
          (points, o9) = ReadFixed8 data o8;
          (shot_distance, o10) = ReadFixed16 data o9;
          (home_score, o11) = ReadFixed16 data o10;
          (away_score, o12) = ReadFixed16 data o11
      in if o12 \<le> len
         then Some \<lparr>nr_game_id = game_id, nr_season = season, nr_quarter = quarter, nr_clock = clock,
                    nr_team = team, nr_player = player, nr_event_type = event_type,
                    nr_description = description, nr_points = points,
                    nr_shot_distance = shot_distance, nr_home_score = home_score,
                    nr_away_score = away_score\<rparr>
         else None)"

section \<open>Round trip\<close>

text \<open>\<open>holds data off bs\<close>: the bytes \<open>bs\<close> lie in memory at \<open>off\<close>.\<close>

definition holds :: "buf \<Rightarrow> nat \<Rightarrow> u8 list \<Rightarrow> bool" where
  "holds data off bs \<longleftrightarrow> buf_read data off (length bs) = bs"

lemma holds_Nil [simp]: "holds data off []"
  by (simp add: holds_def)

lemma holds_append: "holds data off (xs @ ys) \<longleftrightarrow> holds data off xs \<and> holds data (off + length xs) ys"
  by (auto simp: holds_def buf_read_append)

lemma holds_Cons: "holds data off (x # xs) \<longleftrightarrow> data off = x \<and> holds data (Suc off) xs"
  using holds_append [of data off "[x]" xs] by (auto simp: holds_def buf_read_def)

definition string_bytes :: "cstring \<Rightarrow> u8 list" where
  "string_bytes s = WriteString [] s"

lemma WriteString_eq: "WriteString b s = b @ string_bytes s"
  by (simp add: WriteString_def string_bytes_def Let_def)

lemma length_string_bytes [simp]: "length (string_bytes s) = length s + 2"
  by (simp add: string_bytes_def WriteString_def Let_def)

lemma record_bytes:
  "RecordSerializer_Serialize r =
     string_bytes (nr_game_id r) @ le_bytes 2 (nr_season r) @ le_bytes 1 (nr_quarter r) @
     string_bytes (nr_clock r) @ string_bytes (nr_team r) @ string_bytes (nr_player r) @
     le_bytes 1 (nr_event_type r) @ string_bytes (nr_description r) @ le_bytes 1 (nr_points r) @
     le_bytes 2 (nr_shot_distance r) @ le_bytes 2 (nr_home_score r) @ le_bytes 2 (nr_away_score r)"
  by (simp add: RecordSerializer_Serialize_def Let_def WriteString_eq WriteFixed8_def WriteFixed16_def)

definition record_size :: "nba_record \<Rightarrow> nat" where
  "record_size r = 21 + length (nr_game_id r) + length (nr_clock r) + length (nr_team r) +
     length (nr_player r) + length (nr_description r)"

lemma length_Serialize: "length (RecordSerializer_Serialize r) = record_size r"
  by (simp add: record_bytes record_size_def)

lemma split_u16: "or (ucast (ucast w :: u8)) (push_bit 8 (ucast (ucast (drop_bit 8 w) :: u8))) = (w :: u16)"
  by (rule bit_word_eqI) (auto simp: bit_simps)

lemma ReadString_spec:
  assumes "holds data (unat off) (string_bytes s)" and "unat off + 2 + length s < 65536"
  shows "ReadString data off = (s, off + 2 + of_nat (length s))"
proof -
  let ?l = "of_nat (length s) :: u16"
  have h: "data (unat off) = ucast ?l" "data (Suc (unat off)) = ucast (drop_bit 8 ?l)"
    "holds data (unat off + 2) s"
    using assms(1) by (simp_all add: string_bytes_def WriteString_def Let_def holds_Cons)
  have "unat (off + 2) = unat off + 2" using assms(2) by (simp add: unat16_add)
  moreover have "unat ?l = length s" using assms(2) by (simp add: unat_of_nat_small)
  ultimately show ?thesis
    using h by (simp add: ReadString_def Let_def split_u16 holds_def)
qed

lemma ReadFixed8_spec: "holds data (unat off) (le_bytes 1 v) \<Longrightarrow> ReadFixed8 data off = (v, off + 1)"
  using c8.dec_enc [of v] by (simp add: ReadFixed8_def holds_def)

lemma ReadFixed16_spec: "holds data (unat off) (le_bytes 2 v) \<Longrightarrow> ReadFixed16 data off = (v, off + 2)"
  by (simp add: ReadFixed16_def holds_def c16.dec_enc)

text \<open>
  Where the deserializer stands: \<open>rest\<close> is still to be read, and ends at \<open>n\<close>. Each read of the
  first piece moves the position past it.
\<close>

definition rest_at :: "nat \<Rightarrow> buf \<Rightarrow> u16 \<Rightarrow> u8 list \<Rightarrow> bool" where
  "rest_at n data off rest \<longleftrightarrow> holds data (unat off) rest \<and> unat off + length rest = n \<and> n < 65536"

lemma next_string:
  assumes "rest_at n data off (string_bytes s @ rest)"
  shows "ReadString data off = (s, off + 2 + of_nat (length s))"
    and "rest_at n data (off + 2 + of_nat (length s)) rest"
proof -
  have fit: "unat off + 2 + length s < 65536" using assms by (simp add: rest_at_def)
  then have "unat (off + 2 + of_nat (length s)) = unat off + 2 + length s"
    by (simp add: unat16_add unat_of_nat_small)
  with assms show "rest_at n data (off + 2 + of_nat (length s)) rest"
    by (simp add: rest_at_def holds_append add.commute add.left_commute)
  show "ReadString data off = (s, off + 2 + of_nat (length s))"
    using assms fit by (intro ReadString_spec) (simp_all add: rest_at_def holds_append)
qed

lemma next_fixed8:
  assumes "rest_at n data off (le_bytes 1 v @ rest)"
  shows "ReadFixed8 data off = (v, off + 1)" and "rest_at n data (off + 1) rest"
proof -
  have "unat (off + 1) = unat off + 1" using assms by (simp add: rest_at_def unat16_add)
  with assms show "rest_at n data (off + 1) rest"
    by (simp add: rest_at_def holds_append)
  show "ReadFixed8 data off = (v, off + 1)"
    using assms by (intro ReadFixed8_spec) (simp add: rest_at_def holds_append)
qed

lemma next_fixed16:
  assumes "rest_at n data off (le_bytes 2 v @ rest)"
  shows "ReadFixed16 data off = (v, off + 2)" and "rest_at n data (off + 2) rest"
proof -
  have "unat (off + 2) = unat off + 2" using assms by (simp add: rest_at_def unat16_add)
  with assms show "rest_at n data (off + 2) rest"
    by (simp add: rest_at_def holds_append)
  show "ReadFixed16 data off = (v, off + 2)"
    using assms by (intro ReadFixed16_spec) (simp add: rest_at_def holds_append)
qed

lemma Deserialize_Serialize_record:
  assumes "holds data 0 (RecordSerializer_Serialize r)" and "record_size r \<le> unat len"
  shows "RecordSerializer_Deserialize data len = Some r"
proof -
  have "rest_at (record_size r) data 0 (RecordSerializer_Serialize r)"
    using assms unat16_lt [of len] by (simp add: rest_at_def length_Serialize del: unat16_lt)
  then have r0: "rest_at (record_size r) data 0
     (string_bytes (nr_game_id r) @ le_bytes 2 (nr_season r) @ le_bytes 1 (nr_quarter r) @
      string_bytes (nr_clock r) @ string_bytes (nr_team r) @ string_bytes (nr_player r) @
      le_bytes 1 (nr_event_type r) @ string_bytes (nr_description r) @ le_bytes 1 (nr_points r) @
      le_bytes 2 (nr_shot_distance r) @ le_bytes 2 (nr_home_score r) @ le_bytes 2 (nr_away_score r) @ [])"
    by (simp add: record_bytes)
  note r1 = next_string [OF r0]
  note r2 = next_fixed16 [OF r1(2)]
  note r3 = next_fixed8 [OF r2(2)]
  note r4 = next_string [OF r3(2)]
  note r5 = next_string [OF r4(2)]
  note r6 = next_string [OF r5(2)]
  note r7 = next_fixed8 [OF r6(2)]
  note r8 = next_string [OF r7(2)]
  note r9 = next_fixed8 [OF r8(2)]
  note r10 = next_fixed16 [OF r9(2)]
  note r11 = next_fixed16 [OF r10(2)]
  note r12 = next_fixed16 [OF r11(2)]
  note reads = r1(1) r2(1) r3(1) r4(1) r5(1) r6(1) r7(1) r8(1) r9(1) r10(1) r11(1) r12(1)
  show ?thesis
    using r12(2) assms(2)
    by (simp only: RecordSerializer_Deserialize_def Let_def reads prod.case)
       (simp add: rest_at_def word_le_nat_alt)
qed

lemma ComputeSerializedSize_eq:
  "RecordSerializer_ComputeSerializedSize r = of_nat (record_size r)"
  by (simp add: RecordSerializer_ComputeSerializedSize_def record_size_def)

section \<open>Properties\<close>

text \<open>
  C27. Serializing a record whose encoding, 21 bytes and the five strings together, fits in 65535 bytes and
  deserializing those bytes, wherever they lie in memory and with any length that covers them, gives the record back
  and passes the closing assertion.
\<close>

theorem record_roundtrip:
  assumes "holds data 0 (RecordSerializer_Serialize r)" and "record_size r \<le> unat len"
  shows "RecordSerializer_Deserialize data len = Some r"
  using assms by (rule Deserialize_Serialize_record)

definition sample_record :: nba_record where
  "sample_record = NBARecord_default\<lparr>nr_game_id := [48, 48, 50], nr_season := 2024, nr_quarter := 1,
     nr_team := [76, 65, 76], nr_points := 3, nr_shot_distance := 26\<rparr>"

theorem record_roundtrip_witness:
  "RecordSerializer_Deserialize
     (buf_write (\<lambda>_. 0) 0 (RecordSerializer_Serialize sample_record)) 27 = Some sample_record"
proof -
  have "holds (buf_write (\<lambda>_. 0) 0 (RecordSerializer_Serialize sample_record)) 0
      (RecordSerializer_Serialize sample_record)"
    by (simp add: holds_def)
  moreover have "record_size sample_record \<le> unat (27 :: u16)"
    by (simp add: record_size_def sample_record_def NBARecord_default_def)
  ultimately show ?thesis by (rule record_roundtrip)
qed

text \<open>
  \<open>ComputeSerializedSize\<close> is the length of the encoding modulo \<open>2 ^ 16\<close>, and the encoding is
  21 bytes longer than the five strings together.
\<close>

theorem record_size_correct:
  "RecordSerializer_ComputeSerializedSize r = of_nat (length (RecordSerializer_Serialize r)) \<and>
   length (RecordSerializer_Serialize r) = 21 + length (nr_game_id r) + length (nr_clock r) +
     length (nr_team r) + length (nr_player r) + length (nr_description r)"
  by (simp add: ComputeSerializedSize_eq length_Serialize record_size_def)

end
