(* ===== verification/HeapFile.thy ===== *)
theory HeapFile
  imports PageSession NbaRecord
begin

text \<open>
  The heap file of \<open>include/storage/heap_file.h\<close> and \<open>src/storage/heap_file.cpp\<close>: a chain of
  slotted pages, linked by their next page ids, that holds records in no order. It is a client of
  the buffer pool, which is part of its state; a \<open>Page*\<close> is the frame it points into. The
  iterator follows the chain and may not return on a chain with a cycle: its loops are
  \<open>partial_function\<close>s, whose value is \<open>None\<close> then.
\<close>

section \<open>State\<close>

record heap_file =
  hf_bpm :: bpm
  hf_first :: u32
  hf_last :: u32
  hf_record_count :: u32
  hf_page_count :: u32
  hf_space :: "u32 list"

text \<open>Calls of the buffer pool on the state of the heap file.\<close>

definition hf_fetch :: "u32 \<Rightarrow> heap_file \<Rightarrow> u32 option \<times> heap_file" where
  "hf_fetch p h = (let (r, b) = BufferPoolManager_FetchPage p (hf_bpm h) in (r, h\<lparr>hf_bpm := b\<rparr>))"

definition hf_unpin :: "u32 \<Rightarrow> bool \<Rightarrow> heap_file \<Rightarrow> heap_file" where
  "hf_unpin p d h = h\<lparr>hf_bpm := snd (BufferPoolManager_UnpinPage p d (hf_bpm h))\<rparr>"

definition hf_set_page :: "u32 \<Rightarrow> page \<Rightarrow> heap_file \<Rightarrow> heap_file" where
  "hf_set_page f pg h = h\<lparr>hf_bpm := set_page f pg (hf_bpm h)\<rparr>"

abbreviation hf_page :: "heap_file \<Rightarrow> u32 \<Rightarrow> page" where
  "hf_page h f \<equiv> frame_page (hf_bpm h) f"

section \<open>Private helpers\<close>

definition HeapFile_AllocateNewPage :: "heap_file \<Rightarrow> (db_error + u32) \<times> heap_file" where
  "HeapFile_AllocateNewPage h =
     (case BufferPoolManager_NewPage (hf_bpm h) of
        (Inl e, b) \<Rightarrow> (Inl e, h\<lparr>hf_bpm := b\<rparr>)
      | (Inr None, b) \<Rightarrow> (Inr INVALID_PAGE_ID, h\<lparr>hf_bpm := b\<rparr>)
      | (Inr (Some f), b) \<Rightarrow>
          let h1 = h\<lparr>hf_bpm := b\<rparr>;
              new_page_id = Page_GetPageId (hf_page h1 f);
              h2 = hf_set_page f (Page_SetFlags (PageType_value kData) (hf_page h1 f)) h1;
              h3 = (if hf_last h2 \<noteq> INVALID_PAGE_ID \<and> hf_last h2 \<noteq> new_page_id
                    then case hf_fetch (hf_last h2) h2 of
                           (Some g, h') \<Rightarrow>
                             hf_unpin (hf_last h2) True
                               (hf_set_page g (Page_SetNextPageId new_page_id (hf_page h' g)) h')
                         | (None, h') \<Rightarrow> h'
                    else h2);
              h4 = h3\<lparr>hf_last := new_page_id, hf_page_count := hf_page_count h3 + 1,
                      hf_space := hf_space h3 @ [new_page_id]\<rparr>
          in (Inr new_page_id, hf_unpin new_page_id True h4))"

text \<open>
  Every page the loop passes over is erased from the directory, so the loop always looks at its
  first entry.
\<close>

primrec find_space :: "u16 \<Rightarrow> u32 list \<Rightarrow> heap_file \<Rightarrow> (db_error + u32) \<times> heap_file" where
  "find_space len [] h = HeapFile_AllocateNewPage h"
| "find_space len (p # ps) h =
     (case hf_fetch p h of
        (None, h1) \<Rightarrow> find_space len ps (h1\<lparr>hf_space := ps\<rparr>)
      | (Some f, h1) \<Rightarrow>
          let h2 = hf_unpin p False h1
          in if Page_HasSpaceFor len (hf_page h1 f) then (Inr p, h2)
             else find_space len ps (h2\<lparr>hf_space := ps\<rparr>))"

definition HeapFile_FindPageWithSpace :: "u16 \<Rightarrow> heap_file \<Rightarrow> (db_error + u32) \<times> heap_file" where
  "HeapFile_FindPageWithSpace record_length h = find_space record_length (hf_space h) h"

text \<open>Erasing a page from the free space directory, where it is listed.\<close>

definition forget_space :: "u32 \<Rightarrow> heap_file \<Rightarrow> heap_file" where
  "forget_space p h = h\<lparr>hf_space := remove1 p (hf_space h)\<rparr>"

section \<open>Construction\<close>

partial_function (option) open_loop :: "u32 \<Rightarrow> heap_file \<Rightarrow> heap_file option" where
  "open_loop current h =
     (if current = INVALID_PAGE_ID then Some h
      else case hf_fetch current h of
             (None, h1) \<Rightarrow> Some h1
           | (Some f, h1) \<Rightarrow>
               (let page = hf_page h1 f;
                    h2 = h1\<lparr>hf_page_count := hf_page_count h1 + 1,
                            hf_record_count := hf_record_count h1 + ucast (Page_GetNumRecords page)\<rparr>;
                    h3 = (if Page_HasSpaceFor 64 page then h2\<lparr>hf_space := hf_space h2 @ [current]\<rparr> else h2);
                    next_id = Page_GetNextPageId page;
                    h4 = (if next_id = INVALID_PAGE_ID then h3\<lparr>hf_last := current\<rparr> else h3)
                in open_loop next_id (hf_unpin current False h4)))"

definition HeapFile_new :: "bpm \<Rightarrow> u32 \<Rightarrow> ((db_error + unit) \<times> heap_file) option" where
  "HeapFile_new b first_page_id =
     (let h = \<lparr>hf_bpm = b, hf_first = first_page_id, hf_last = first_page_id, hf_record_count = 0,
               hf_page_count = 0, hf_space = []\<rparr>
      in if first_page_id = INVALID_PAGE_ID
         then case HeapFile_AllocateNewPage h of
                (Inl e, h1) \<Rightarrow> Some (Inl e, h1)
              | (Inr p, h1) \<Rightarrow> Some (Inr (), h1\<lparr>hf_first := p, hf_last := p\<rparr>)
         else map_option (\<lambda>h1. (Inr (), h1)) (open_loop first_page_id h))"

section \<open>Record operations\<close>

text \<open>What \<open>InsertRecord\<close> does once the record is on the page in frame \<open>f\<close>.\<close>

definition insert_done :: "u32 \<Rightarrow> u32 \<Rightarrow> u16 \<Rightarrow> heap_file \<Rightarrow> (db_error + rid) \<times> heap_file" where
  "insert_done target f slot h =
     (let h1 = (if \<not> Page_HasSpaceFor 64 (hf_page h f) then forget_space target h else h);
          h2 = h1\<lparr>hf_record_count := hf_record_count h1 + 1\<rparr>
      in (Inr (RID target slot), hf_unpin target True h2))"

definition HeapFile_InsertRecord :: "u8 list option \<Rightarrow> u16 \<Rightarrow> heap_file \<Rightarrow> (db_error + rid) \<times> heap_file" where
  "HeapFile_InsertRecord data len h =
     (if data = None \<or> len = 0 then (Inr RID_default, h)
      else case HeapFile_FindPageWithSpace len h of
        (Inl e, h1) \<Rightarrow> (Inl e, h1)
      | (Inr target, h1) \<Rightarrow>
          (case hf_fetch target h1 of
             (None, h2) \<Rightarrow> (Inr RID_default, h2)
           | (Some f, h2) \<Rightarrow>
               (case Page_InsertRecord data len (hf_page h2 f) of
                  (Some slot, pg) \<Rightarrow> insert_done target f slot (hf_set_page f pg h2)
                | (None, pg) \<Rightarrow>
                    (case HeapFile_AllocateNewPage (hf_unpin target False (hf_set_page f pg h2)) of
                       (Inl e, h3) \<Rightarrow> (Inl e, h3)
                     | (Inr target', h3) \<Rightarrow>
                         (case hf_fetch target' h3 of
                            (None, h4) \<Rightarrow> (Inr RID_default, h4)
                          | (Some g, h4) \<Rightarrow>
                              (case Page_InsertRecord data len (hf_page h4 g) of
                                 (Some slot, pg) \<Rightarrow> insert_done target' g slot (hf_set_page g pg h4)
                               | (None, pg) \<Rightarrow>
                                   (Inr RID_default, hf_unpin target' True (hf_set_page g pg h4))))))))"

definition HeapFile_DeleteRecord :: "rid \<Rightarrow> heap_file \<Rightarrow> bool \<times> heap_file" where
  "HeapFile_DeleteRecord r h =
     (if \<not> RID_IsValid r then (False, h)
      else case hf_fetch (rid_page_id r) h of
        (None, h1) \<Rightarrow> (False, h1)
      | (Some f, h1) \<Rightarrow>
          let (deleted, pg) = Page_DeleteRecord (rid_slot_id r) (hf_page h1 f);
              h2 = hf_set_page f pg h1;
              h3 = (if deleted then
                      let h' = h2\<lparr>hf_record_count := hf_record_count h2 - 1\<rparr>
                      in if rid_page_id r \<in> set (hf_space h') then h'
                         else h'\<lparr>hf_space := hf_space h' @ [rid_page_id r]\<rparr>
                    else h2)
          in (deleted, hf_unpin (rid_page_id r) deleted h3))"

text \<open>
  The out parameters are the frame and the offset and length in it; the page stays pinned when a
  record is found.
\<close>

definition HeapFile_GetRecord :: "rid \<Rightarrow> heap_file \<Rightarrow> (u32 \<times> u16 \<times> u16) option \<times> heap_file" where
  "HeapFile_GetRecord r h =
     (if \<not> RID_IsValid r then (None, h)
      else case hf_fetch (rid_page_id r) h of
        (None, h1) \<Rightarrow> (None, h1)
      | (Some f, h1) \<Rightarrow>
          (case Page_GetRecord (rid_slot_id r) (hf_page h1 f) of
             None \<Rightarrow> (None, hf_unpin (rid_page_id r) False h1)
           | Some (off, len) \<Rightarrow> (Some (f, off, len), h1)))"

definition HeapFile_UpdateRecord :: "rid \<Rightarrow> u8 list \<Rightarrow> u16 \<Rightarrow> heap_file \<Rightarrow> (db_error + rid) \<times> heap_file" where
  "HeapFile_UpdateRecord r data len h =
     (if \<not> RID_IsValid r then (Inr RID_default, h)
      else case hf_fetch (rid_page_id r) h of
        (None, h1) \<Rightarrow> (Inr RID_default, h1)
      | (Some f, h1) \<Rightarrow>
          (case Page_UpdateRecord (rid_slot_id r) data len (hf_page h1 f) of
             (True, pg) \<Rightarrow> (Inr r, hf_unpin (rid_page_id r) True (hf_set_page f pg h1))
           | (False, pg) \<Rightarrow>
               let (_, pg') = Page_DeleteRecord (rid_slot_id r) pg;
                   h2 = hf_set_page f pg' h1;
                   h3 = hf_unpin (rid_page_id r) True (h2\<lparr>hf_record_count := hf_record_count h2 - 1\<rparr>)
               in HeapFile_InsertRecord (Some data) len h3))"

section \<open>Iteration\<close>

record heap_iter =
  hi_page_id :: u32
  hi_slot :: u16
  hi_page :: "u32 option"
  hi_rid :: rid
  hi_valid :: bool

text \<open>The slots from \<open>from\<close> on that hold a record.\<close>

definition first_record :: "nat \<Rightarrow> page \<Rightarrow> u16 option" where
  "first_record from pg =
     map_option of_nat
       (find (\<lambda>s. Page_GetRecord (of_nat s) pg \<noteq> None) [from..<unat (Page_GetNumSlots pg)])"

definition iter_at :: "u32 \<Rightarrow> u32 \<Rightarrow> u16 \<Rightarrow> heap_iter \<Rightarrow> heap_iter" where
  "iter_at p f slot it = it\<lparr>hi_page_id := p, hi_page := Some f, hi_slot := slot, hi_rid := RID p slot, hi_valid := True\<rparr>"

definition iter_end :: "heap_iter \<Rightarrow> heap_iter" where
  "iter_end it = it\<lparr>hi_page := None, hi_valid := False, hi_rid := RID_default\<rparr>"

partial_function (option) walk_pages :: "u32 \<Rightarrow> heap_iter \<Rightarrow> bpm \<Rightarrow> (heap_iter \<times> bpm) option" where
  "walk_pages next_page_id it b =
     (if next_page_id = INVALID_PAGE_ID then Some (iter_end it, b)
      else case BufferPoolManager_FetchPage next_page_id b of
             (None, b1) \<Rightarrow> Some (iter_end it, b1)
           | (Some f, b1) \<Rightarrow>
               (case first_record 0 (frame_page b1 f) of
                  Some slot \<Rightarrow> Some (iter_at next_page_id f slot it, b1)
                | None \<Rightarrow>
                    walk_pages (Page_GetNextPageId (frame_page b1 f)) (it\<lparr>hi_page_id := next_page_id\<rparr>)
                      (snd (BufferPoolManager_UnpinPage next_page_id False b1))))"

text \<open>
  \<open>slot\<close> is a \<open>uint16_t\<close> that starts at \<open>current_slot_ + 1\<close>; it does not wrap, as a page has far
  fewer slots.
\<close>

definition HeapFileIterator_AdvanceToNextRecord :: "heap_iter \<Rightarrow> bpm \<Rightarrow> (heap_iter \<times> bpm) option" where
  "HeapFileIterator_AdvanceToNextRecord it b =
     (case hi_page it of
        None \<Rightarrow> Some (iter_end it, b)
      | Some f \<Rightarrow>
          (case first_record (unat (hi_slot it + 1)) (frame_page b f) of
             Some slot \<Rightarrow> Some (iter_at (hi_page_id it) f slot it, b)
           | None \<Rightarrow>
               walk_pages (Page_GetNextPageId (frame_page b f)) it
                 (snd (BufferPoolManager_UnpinPage (hi_page_id it) False b))))"

definition HeapFileIterator_new :: "u32 \<Rightarrow> bpm \<Rightarrow> (heap_iter \<times> bpm) option" where
  "HeapFileIterator_new first_page_id b =
     (let it = \<lparr>hi_page_id = first_page_id, hi_slot = 0, hi_page = None, hi_rid = RID_default, hi_valid = False\<rparr>
      in if first_page_id = INVALID_PAGE_ID then Some (it, b)
         else case BufferPoolManager_FetchPage first_page_id b of
                (None, b1) \<Rightarrow> Some (it, b1)
              | (Some f, b1) \<Rightarrow>
                  let it1 = it\<lparr>hi_page := Some f\<rparr>
                  in if Page_GetNumSlots (frame_page b1 f) = 0
                     then HeapFileIterator_AdvanceToNextRecord it1 b1
                     else if Page_GetRecord 0 (frame_page b1 f) \<noteq> None
                     then Some (it1\<lparr>hi_valid := True, hi_rid := RID first_page_id 0\<rparr>, b1)
                     else HeapFileIterator_AdvanceToNextRecord it1 b1)"

definition HeapFile_Begin :: "heap_file \<Rightarrow> (heap_iter \<times> bpm) option" where
  "HeapFile_Begin h = HeapFileIterator_new (hf_first h) (hf_bpm h)"

definition HeapFileIterator_Next :: "heap_iter \<Rightarrow> bpm \<Rightarrow> (heap_iter \<times> bpm) option" where
  "HeapFileIterator_Next it b =
     (if \<not> hi_valid it then Some (it, b) else HeapFileIterator_AdvanceToNextRecord it b)"

text \<open>The value of \<open>GetRecord\<close>, read out of the frame; \<open>None\<close> where its assertions fail.\<close>

definition HeapFileIterator_GetRecord :: "heap_iter \<Rightarrow> bpm \<Rightarrow> u8 list option" where
  "HeapFileIterator_GetRecord it b =
     (case hi_page it of
        None \<Rightarrow> None
      | Some f \<Rightarrow>
          if \<not> hi_valid it then None
          else map_option (\<lambda>(off, len). buf_read (p_data (frame_page b f)) (unat off) (unat len))
                 (Page_GetRecord (hi_slot it) (frame_page b f)))"

section \<open>The buffer pool between operations\<close>

text \<open>No page is pinned and there are two frames, which is what linking a new page needs.\<close>

definition quiet :: "bpm \<Rightarrow> bool" where
  "quiet b \<longleftrightarrow> bpm_inv b \<and> (\<forall>p. bp_pins b p = 0) \<and> 2 \<le> unat (bp_pool_size b)"

lemma quietD: "quiet b \<Longrightarrow> bpm_inv b" "quiet b \<Longrightarrow> bp_pins b p = 0" "quiet b \<Longrightarrow> has_frame b"
  by (simp_all add: quiet_def has_frame_def pinned_pages_def)

lemma quiet_same_frame: "quiet b \<Longrightarrow> same_frame b b' \<Longrightarrow> quiet b'"
  by (simp add: quiet_def same_frame_def)

text \<open>The page with a given id, whether it is in a frame or on disk.\<close>

definition hp_page :: "bpm \<Rightarrow> u32 \<Rightarrow> page" where
  "hp_page b p = page_of (the (bp_view b p))"

lemma hp_page_upd: "bp_view b' = (bp_view b)(p \<mapsto> img) \<Longrightarrow> hp_page b' q = (if q = p then page_of img else hp_page b q)"
  by (simp add: hp_page_def)

lemma hp_page_frame:
  assumes "bp_view b p = Some (page_image pg)" "page_ser_ok pg"
  shows "p_header (hp_page b p) = p_header pg" "p_slots (hp_page b p) = p_slots pg"
    and "page_inv (hp_page b p) = page_inv pg" "page_inv pg \<Longrightarrow> page_recs (hp_page b p) = page_recs pg"
  using assms by (simp_all add: hp_page_def page_of_image_fields page_of_image_inv page_of_image_recs)

lemmas Page_Set_defs = Page_SetFlags_def Page_SetNextPageId_def

lemma page_ser_ok_set [simp]:
  "page_ser_ok (Page_SetFlags fl pg) = page_ser_ok pg" "page_ser_ok (Page_SetNextPageId n pg) = page_ser_ok pg"
  "page_inv (Page_SetFlags fl pg) = page_inv pg" "page_inv (Page_SetNextPageId n pg) = page_inv pg"
  "page_recs (Page_SetFlags fl pg) = page_recs pg" "page_recs (Page_SetNextPageId n pg) = page_recs pg"
  by (simp_all add: Page_Set_defs page_ser_ok_def page_inv_def page_recs_def)

section \<open>A new page\<close>

lemma hf_fetch_eq: "BufferPoolManager_FetchPage p (hf_bpm h) = (r, b) \<Longrightarrow> hf_fetch p h = (r, h\<lparr>hf_bpm := b\<rparr>)"
  by (simp add: hf_fetch_def)

lemma new_page_quiet:
  assumes q: "quiet b" and room: "0 < disk_room (bp_disk b)"
  obtains p f b' where "BufferPoolManager_NewPage b = (Inr (Some f), b')" "bpm_inv b'" "p \<notin> bp_data b"
    "p \<noteq> INVALID_PAGE_ID" "bp_data b' = insert p (bp_data b)" "bp_view b' = (bp_view b)(p \<mapsto> page_image (Page_new p))"
    "bp_pins b' = (bp_pins b)(p := 1)" "bp_table b' p = Some f" "frame_page b' f = Page_new p"
    "Suc (disk_room (bp_disk b')) = disk_room (bp_disk b)" "bp_pool_size b' = bp_pool_size b"
proof -
  obtain r b' where rb: "BufferPoolManager_NewPage b = (r, b')" by fastforce
  show ?thesis
  proof (cases rule: new_page [OF quietD(1) [OF q] room rb])
    case 1
    then show ?thesis using all_pinned_no_frame [OF quietD(1) [OF q]] quietD(3) [OF q] by blast
  next
    case (2 p f)
    have "p \<noteq> INVALID_PAGE_ID" using bp_data_valid [of p b'] 2(5) by simp
    then show ?thesis using that 2 rb by blast
  qed
qed

text \<open>The end of \<open>AllocateNewPage\<close>: the new page is unpinned.\<close>

lemma unpin_only:
  assumes ok: "bpm_inv b" and pins: "bp_pins b = (\<lambda>_. 0)(p := 1)" and pool: "2 \<le> unat (bp_pool_size b)"
    and b': "b' = snd (BufferPoolManager_UnpinPage p True b)"
  shows "quiet b'" "bp_view b' = bp_view b" "bp_data b' = bp_data b" "disk_room (bp_disk b') = disk_room (bp_disk b)"
    and "bp_pool_size b' = bp_pool_size b"
proof -
  have u: "BufferPoolManager_UnpinPage p True b = (fst (BufferPoolManager_UnpinPage p True b), b')"
    using b' by simp
  note U = unpin_page [OF ok u, simplified]
  show "quiet b'" "bp_view b' = bp_view b" "bp_data b' = bp_data b" "disk_room (bp_disk b') = disk_room (bp_disk b)"
    "bp_pool_size b' = bp_pool_size b"
    using U(2-4,6,7) pins pool by (simp_all add: quiet_def bp_data_def)
qed

definition new_data_page :: "u32 \<Rightarrow> page" where
  "new_data_page p = Page_SetFlags (PageType_value kData) (Page_new p)"

lemma new_data_page [simp]:
  "page_inv (new_data_page p)" "page_ser_ok (new_data_page p)" "page_recs (new_data_page p) = (\<lambda>_. None)"
  "ph_next_page_id (p_header (new_data_page p)) = INVALID_PAGE_ID"
  "ph_num_records (p_header (new_data_page p)) = 0" "p_slots (new_data_page p) = []"
  by (simp_all add: new_data_page_def) (simp_all add: Page_SetFlags_def)

definition appended :: "heap_file \<Rightarrow> u32 \<Rightarrow> heap_file \<Rightarrow> bool" where
  "appended h p h' \<longleftrightarrow>
     hf_first h' = hf_first h \<and> hf_last h' = p \<and> hf_record_count h' = hf_record_count h \<and>
     hf_page_count h' = hf_page_count h + 1 \<and> hf_space h' = hf_space h @ [p] \<and>
     p \<noteq> INVALID_PAGE_ID \<and> p \<notin> bp_data (hf_bpm h) \<and>
     quiet (hf_bpm h') \<and> bp_data (hf_bpm h') = insert p (bp_data (hf_bpm h)) \<and>
     Suc (disk_room (bp_disk (hf_bpm h'))) = disk_room (bp_disk (hf_bpm h)) \<and>
     bp_pool_size (hf_bpm h') = bp_pool_size (hf_bpm h)"

lemma alloc_unlinked:
  assumes q: "quiet (hf_bpm h)" and room: "0 < disk_room (bp_disk (hf_bpm h))" and last: "hf_last h = INVALID_PAGE_ID"
  obtains p h' where "HeapFile_AllocateNewPage h = (Inr p, h')" "appended h p h'"
    "bp_view (hf_bpm h') = (bp_view (hf_bpm h))(p \<mapsto> page_image (new_data_page p))"
proof -
  obtain p f b1 where b1: "BufferPoolManager_NewPage (hf_bpm h) = (Inr (Some f), b1)" "bpm_inv b1" "p \<notin> bp_data (hf_bpm h)"
    "p \<noteq> INVALID_PAGE_ID" "bp_data b1 = insert p (bp_data (hf_bpm h))"
    "bp_view b1 = (bp_view (hf_bpm h))(p \<mapsto> page_image (Page_new p))"
    "bp_pins b1 = (bp_pins (hf_bpm h))(p := 1)" "bp_table b1 p = Some f" "frame_page b1 f = Page_new p"
    "Suc (disk_room (bp_disk b1)) = disk_room (bp_disk (hf_bpm h))" "bp_pool_size b1 = bp_pool_size (hf_bpm h)"
    by (rule new_page_quiet [OF q room])
  let ?b2 = "set_page f (new_data_page p) b1"
  have pins: "bp_pins b1 = (\<lambda>_. 0)(p := 1)" using b1(7) q by (auto simp: quiet_def)
  then have "0 < bp_pins b1 p" by simp
  note P = put_page [OF b1(2,8) this, of "new_data_page p", simplified]
  let ?b3 = "snd (BufferPoolManager_UnpinPage p True ?b2)"
  have pool: "2 \<le> unat (bp_pool_size ?b2)" using q b1(11) by (simp add: quiet_def)
  note U = unpin_only [OF P(1) P(3) [unfolded pins] pool refl]
  let ?h' = "h\<lparr>hf_bpm := ?b3, hf_last := p, hf_page_count := hf_page_count h + 1, hf_space := hf_space h @ [p]\<rparr>"
  have h': "HeapFile_AllocateNewPage h = (Inr p, ?h')"
    using b1(1,9) last
    by (simp add: HeapFile_AllocateNewPage_def Let_def hf_unpin_def hf_set_page_def Page_GetPageId_def new_data_page_def)
  have data: "bp_data ?b2 = bp_data b1" by (simp add: bp_data_def)
  have "appended h p ?h'" "bp_view (hf_bpm ?h') = (bp_view (hf_bpm h))(p \<mapsto> page_image (new_data_page p))"
    using U P(2) b1 data by (simp_all add: appended_def)
  then show ?thesis using that h' by blast
qed

lemma alloc_linked:
  assumes q: "quiet (hf_bpm h)" and room: "0 < disk_room (bp_disk (hf_bpm h))" and last: "hf_last h \<in> bp_data (hf_bpm h)"
  obtains p h' pgl where "HeapFile_AllocateNewPage h = (Inr p, h')" "appended h p h'"
    "bp_view (hf_bpm h) (hf_last h) = Some (page_image pgl)" "page_ser_ok pgl"
    "bp_view (hf_bpm h') = (bp_view (hf_bpm h))
       (p \<mapsto> page_image (new_data_page p), hf_last h \<mapsto> page_image (Page_SetNextPageId p pgl))"
proof -
  let ?l = "hf_last h"
  obtain p f b1 where b1: "BufferPoolManager_NewPage (hf_bpm h) = (Inr (Some f), b1)" "bpm_inv b1" "p \<notin> bp_data (hf_bpm h)"
    "p \<noteq> INVALID_PAGE_ID" "bp_data b1 = insert p (bp_data (hf_bpm h))"
    "bp_view b1 = (bp_view (hf_bpm h))(p \<mapsto> page_image (Page_new p))"
    "bp_pins b1 = (bp_pins (hf_bpm h))(p := 1)" "bp_table b1 p = Some f" "frame_page b1 f = Page_new p"
    "Suc (disk_room (bp_disk b1)) = disk_room (bp_disk (hf_bpm h))" "bp_pool_size b1 = bp_pool_size (hf_bpm h)"
    by (rule new_page_quiet [OF q room])
  let ?b2 = "set_page f (new_data_page p) b1"
  have pins: "bp_pins b1 = (\<lambda>_. 0)(p := 1)" using b1(7) q by (auto simp: quiet_def)
  then have "0 < bp_pins b1 p" by simp
  note P = put_page [OF b1(2,8) this, of "new_data_page p", simplified]
  have lp: "?l \<noteq> p" "?l \<noteq> INVALID_PAGE_ID" using b1(3) last bp_data_valid [OF last] by auto
  have data2: "bp_data ?b2 = insert p (bp_data (hf_bpm h))" using b1(5) by (simp add: bp_data_def)
  have pool: "2 \<le> unat (bp_pool_size ?b2)" using q b1(11) by (simp add: quiet_def)
  have hf: "has_frame ?b2"
    using pool by (simp add: has_frame_def pinned_pages_def P(3) pins)
  have l2: "?l \<in> bp_data ?b2" "bp_pins ?b2 ?l = 0" using data2 last lp by (simp_all add: P(3) pins)
  obtain g b3 where b3: "BufferPoolManager_FetchPage ?l ?b2 = (Some g, b3)"
    "page_ser_ok (frame_page b3 g)" "bp_view ?b2 ?l = Some (page_image (frame_page b3 g))"
    "\<And>pg d. page_ser_ok pg \<Longrightarrow> d \<or> pg = frame_page b3 g \<Longrightarrow>
       same_frame ?b2 (snd (BufferPoolManager_UnpinPage ?l d (set_page g pg b3))) \<and>
       bp_view (snd (BufferPoolManager_UnpinPage ?l d (set_page g pg b3))) = (bp_view ?b2)(?l \<mapsto> page_image pg) \<and>
       (\<forall>q. q \<noteq> ?l \<longrightarrow> pinned_stable ?b2 (snd (BufferPoolManager_UnpinPage ?l d (set_page g pg b3))) q)"
    by (rule session [OF P(1) l2 hf]) blast
  let ?pgl = "frame_page b3 g"
  let ?b4 = "snd (BufferPoolManager_UnpinPage ?l True (set_page g (Page_SetNextPageId p ?pgl) b3))"
  have S: "same_frame ?b2 ?b4" "bp_view ?b4 = (bp_view ?b2)(?l \<mapsto> page_image (Page_SetNextPageId p ?pgl))"
    using b3(4) [of "Page_SetNextPageId p ?pgl" True] b3(2) by simp_all
  note F = S(1) [unfolded same_frame_def]
  let ?b5 = "snd (BufferPoolManager_UnpinPage p True ?b4)"
  have pins4: "bp_pins ?b4 = (\<lambda>_. 0)(p := 1)" using F P(3) pins by simp
  have pool4: "2 \<le> unat (bp_pool_size ?b4)" using F pool by simp
  have "bpm_inv ?b4" using F by blast
  note U = unpin_only [OF this pins4 pool4 refl]
  let ?h' = "h\<lparr>hf_bpm := ?b5, hf_last := p, hf_page_count := hf_page_count h + 1, hf_space := hf_space h @ [p]\<rparr>"
  have h': "HeapFile_AllocateNewPage h = (Inr p, ?h')"
    using b1(1,9) lp b3(1)
    by (simp add: HeapFile_AllocateNewPage_def Let_def hf_unpin_def hf_set_page_def hf_fetch_def Page_GetPageId_def
        new_data_page_def)
  have "appended h p ?h'"
    using U F b1(3,4,10,11) data2 by (simp add: appended_def)
  moreover have "bp_view (hf_bpm h) ?l = Some (page_image ?pgl)"
    using b3(3) P(2) b1(6) lp by simp
  moreover have "bp_view (hf_bpm ?h') = (bp_view (hf_bpm h))
       (p \<mapsto> page_image (new_data_page p), ?l \<mapsto> page_image (Page_SetNextPageId p ?pgl))"
    using U(2) S(2) P(2) b1(6) by simp
  ultimately show ?thesis using that h' b3(2) by blast
qed

section \<open>The heap invariant and the record map\<close>

primrec heap_chain :: "bpm \<Rightarrow> u32 \<Rightarrow> u32 list \<Rightarrow> bool" where
  "heap_chain b p [] \<longleftrightarrow> p = INVALID_PAGE_ID"
| "heap_chain b p (q # qs) \<longleftrightarrow>
     p = q \<and> q \<in> bp_data b \<and> page_inv (hp_page b q) \<and> heap_chain b (ph_next_page_id (p_header (hp_page b q))) qs"

definition chain_records :: "bpm \<Rightarrow> u32 list \<Rightarrow> nat" where
  "chain_records b ps = (\<Sum>p\<leftarrow>ps. unat (ph_num_records (p_header (hp_page b p))))"

definition heap_inv :: "heap_file \<Rightarrow> u32 list \<Rightarrow> bool" where
  "heap_inv h ps \<longleftrightarrow>
     quiet (hf_bpm h) \<and> ps \<noteq> [] \<and> distinct ps \<and> heap_chain (hf_bpm h) (hf_first h) ps \<and> hf_last h = last ps \<and>
     set (hf_space h) \<subseteq> set ps \<and> distinct (hf_space h) \<and>
     hf_record_count h = of_nat (chain_records (hf_bpm h) ps) \<and> hf_page_count h = of_nat (length ps)"

text \<open>The contract of a heap file: a map from record ids to record bytes.\<close>

definition heap_recs :: "heap_file \<Rightarrow> u32 list \<Rightarrow> rid \<Rightarrow> u8 list option" where
  "heap_recs h ps r =
     (if rid_page_id r \<in> set ps then page_recs (hp_page (hf_bpm h) (rid_page_id r)) (unat (rid_slot_id r)) else None)"

lemma heap_chain_data: "heap_chain b p ps \<Longrightarrow> q \<in> set ps \<Longrightarrow> q \<in> bp_data b \<and> page_inv (hp_page b q)"
  by (induction ps arbitrary: p) auto

lemma heap_chain_cong:
  assumes "heap_chain b p ps"
    and "\<And>q. q \<in> set ps \<Longrightarrow> q \<in> bp_data b' \<and> page_inv (hp_page b' q) \<and>
      ph_next_page_id (p_header (hp_page b' q)) = ph_next_page_id (p_header (hp_page b q))"
  shows "heap_chain b' p ps"
  using assms by (induction ps arbitrary: p) auto

lemma heap_chain_append:
  assumes "heap_chain b p ps" "ps \<noteq> []" "distinct ps"
    and "\<And>q. q \<in> set ps \<Longrightarrow> q \<in> bp_data b' \<and> page_inv (hp_page b' q)"
    and "\<And>q. q \<in> set ps \<Longrightarrow> q \<noteq> last ps \<Longrightarrow>
      ph_next_page_id (p_header (hp_page b' q)) = ph_next_page_id (p_header (hp_page b q))"
    and "ph_next_page_id (p_header (hp_page b' (last ps))) = new" "heap_chain b' new [new]"
  shows "heap_chain b' p (ps @ [new])"
  using assms
proof (induction ps arbitrary: p)
  case Nil
  then show ?case by simp
next
  case (Cons q qs)
  show ?case
  proof (cases "qs = []")
    case True
    then show ?thesis using Cons.prems by auto
  next
    case False
    then have "heap_chain b' (ph_next_page_id (p_header (hp_page b q))) (qs @ [new])"
      using Cons.prems by (intro Cons.IH) auto
    moreover have "q \<noteq> last qs" using False Cons.prems(3) by (metis distinct.simps(2) last_in_set)
    ultimately show ?thesis using Cons.prems False by auto
  qed
qed

lemma chain_records_append [simp]: "chain_records b (ps @ qs) = chain_records b ps + chain_records b qs"
  by (simp add: chain_records_def)

lemma chain_records_cong:
  "(\<And>q. q \<in> set ps \<Longrightarrow> ph_num_records (p_header (hp_page b' q)) = ph_num_records (p_header (hp_page b q))) \<Longrightarrow>
   chain_records b' ps = chain_records b ps"
  unfolding chain_records_def by (metis (mono_tags, lifting) map_eq_conv)

lemma chain_records_update:
  assumes "distinct ps" "p \<in> set ps"
    and "\<And>q. q \<in> set ps \<Longrightarrow> q \<noteq> p \<Longrightarrow> ph_num_records (p_header (hp_page b' q)) = ph_num_records (p_header (hp_page b q))"
  shows "chain_records b' ps + unat (ph_num_records (p_header (hp_page b p))) =
     chain_records b ps + unat (ph_num_records (p_header (hp_page b' p)))"
  using assms
proof (induction ps)
  case (Cons q qs)
  show ?case
  proof (cases "q = p")
    case True
    then have "chain_records b' qs = chain_records b qs"
      using Cons.prems by (intro chain_records_cong) auto
    then show ?thesis using True by (simp add: chain_records_def)
  next
    case False
    then show ?thesis using Cons by (simp add: chain_records_def)
  qed
qed simp

definition heap_core :: "bpm \<Rightarrow> u32 \<Rightarrow> u32 list \<Rightarrow> bool" where
  "heap_core b first ps \<longleftrightarrow> quiet b \<and> ps \<noteq> [] \<and> distinct ps \<and> heap_chain b first ps"

lemma heap_coreD:
  assumes "heap_core b first ps"
  shows "quiet b" "ps \<noteq> []" "distinct ps" "heap_chain b first ps"
    and "p \<in> set ps \<Longrightarrow> p \<in> bp_data b" "p \<in> set ps \<Longrightarrow> page_inv (hp_page b p)"
    and "p \<in> set ps \<Longrightarrow> bp_view b p \<noteq> None" "p \<in> set ps \<Longrightarrow> p \<noteq> INVALID_PAGE_ID"
  using assms heap_chain_data [of b first ps p] dom_bp_view [of b] bp_data_valid [of p b]
  by (auto simp: heap_core_def dom_def)

text \<open>What a heap file page in a frame has to do with the page as the map of contents has it.\<close>

definition same_page :: "page \<Rightarrow> page \<Rightarrow> bool" where
  "same_page p q \<longleftrightarrow> p_header p = p_header q \<and> p_slots p = p_slots q \<and> page_recs p = page_recs q"

lemma same_page_inv: "same_page p q \<Longrightarrow> page_inv p = page_inv q"
  by (simp add: same_page_def page_inv_def)

lemma same_page_free:
  "same_page p q \<Longrightarrow> Page_FindEmptySlot p = Page_FindEmptySlot q" "same_page p q \<Longrightarrow> page_free p = page_free q"
  "same_page p q \<Longrightarrow> insert_fits len p = insert_fits len q"
  by (simp_all add: same_page_def Page_FindEmptySlot_def page_free_def insert_fits_def)

lemma same_page_hp:
  "bp_view b p = Some (page_image pg) \<Longrightarrow> page_inv pg \<Longrightarrow> same_page (hp_page b p) pg"
  by (simp add: same_page_def hp_page_frame)

lemma heap_visit:
  assumes core: "heap_core (hf_bpm h) first ps" and p: "p \<in> set ps"
  obtains f h1 where "hf_fetch p h = (Some f, h1)" "same_page (hf_page h1 f) (hp_page (hf_bpm h) p)"
    "h1 = h\<lparr>hf_bpm := hf_bpm h1\<rparr>"
    "\<And>pg d b2. page_inv pg \<Longrightarrow> d \<or> pg = hf_page h1 f \<Longrightarrow>
       ph_next_page_id (p_header pg) = ph_next_page_id (p_header (hf_page h1 f)) \<Longrightarrow>
       b2 = snd (BufferPoolManager_UnpinPage p d (set_page f pg (hf_bpm h1))) \<Longrightarrow>
       heap_core b2 first ps \<and> same_page (hp_page b2 p) pg \<and>
       (\<forall>q. q \<noteq> p \<longrightarrow> hp_page b2 q = hp_page (hf_bpm h) q) \<and> same_frame (hf_bpm h) b2 \<and>
       footprint (set ps) (hf_bpm h) (set ps) b2"
    "\<And>b2. b2 = snd (BufferPoolManager_UnpinPage p False (hf_bpm h1)) \<Longrightarrow>
       heap_core b2 first ps \<and> bp_view b2 = bp_view (hf_bpm h) \<and> same_frame (hf_bpm h) b2"
    "bpm_inv (hf_bpm h1)" "bp_view (hf_bpm h1) = bp_view (hf_bpm h)" "bp_pins (hf_bpm h1) = (bp_pins (hf_bpm h))(p := 1)"
    "bp_table (hf_bpm h1) p = Some f"
proof -
  note C = heap_coreD [OF core]
  have pd: "p \<in> bp_data (hf_bpm h)" using C(5) p .
  obtain f b1 where b1: "BufferPoolManager_FetchPage p (hf_bpm h) = (Some f, b1)"
    "page_ser_ok (frame_page b1 f)" "bp_view (hf_bpm h) p = Some (page_image (frame_page b1 f))"
    "same_frame (hf_bpm h) (snd (BufferPoolManager_UnpinPage p False b1))"
    "bp_view (snd (BufferPoolManager_UnpinPage p False b1)) = bp_view (hf_bpm h)"
    "\<And>pg d. page_ser_ok pg \<Longrightarrow> d \<or> pg = frame_page b1 f \<Longrightarrow>
       same_frame (hf_bpm h) (snd (BufferPoolManager_UnpinPage p d (set_page f pg b1))) \<and>
       bp_view (snd (BufferPoolManager_UnpinPage p d (set_page f pg b1))) = (bp_view (hf_bpm h))(p \<mapsto> page_image pg) \<and>
       (\<forall>q. q \<noteq> p \<longrightarrow> pinned_stable (hf_bpm h) (snd (BufferPoolManager_UnpinPage p d (set_page f pg b1))) q)"
    "bpm_inv b1" "bp_view b1 = bp_view (hf_bpm h)" "bp_pins b1 = (bp_pins (hf_bpm h))(p := 1)" "bp_table b1 p = Some f"
    by (rule session [OF quietD(1) [OF C(1)] pd quietD(2,3) [OF C(1)]]) blast
  let ?h1 = "h\<lparr>hf_bpm := b1\<rparr>"
  have pg: "page_inv (frame_page b1 f)"
    using C(6) [OF p] hp_page_frame(3) [OF b1(3,2)] by simp
  have same: "same_page (hp_page (hf_bpm h) p) (frame_page b1 f)" by (rule same_page_hp [OF b1(3) pg])
  have upd: "heap_core b2 first ps \<and> same_page (hp_page b2 p) pg \<and>
       (\<forall>q. q \<noteq> p \<longrightarrow> hp_page b2 q = hp_page (hf_bpm h) q) \<and> same_frame (hf_bpm h) b2 \<and>
       footprint (set ps) (hf_bpm h) (set ps) b2"
    if a: "page_inv pg" "d \<or> pg = hf_page ?h1 f"
      "ph_next_page_id (p_header pg) = ph_next_page_id (p_header (hf_page ?h1 f))"
      "b2 = snd (BufferPoolManager_UnpinPage p d (set_page f pg (hf_bpm ?h1)))" for pg d b2
  proof -
    have sf: "same_frame (hf_bpm h) (b2)" "bp_view (b2) = (bp_view (hf_bpm h))(p \<mapsto> page_image pg)"
      using b1(6) [of pg d] a by simp_all
    have other: "q \<noteq> p \<Longrightarrow> hp_page (b2) q = hp_page (hf_bpm h) q" for q
      using hp_page_upd [OF sf(2)] by simp
    have new: "same_page (hp_page (b2) p) pg" using sf(2) by (intro same_page_hp [OF _ a(1)]) simp
    have "heap_chain (b2) first ps"
    proof (rule heap_chain_cong [OF C(4)])
      fix q assume q: "q \<in> set ps"
      show "q \<in> bp_data (b2) \<and> page_inv (hp_page (b2) q) \<and>
        ph_next_page_id (p_header (hp_page (b2) q)) = ph_next_page_id (p_header (hp_page (hf_bpm h) q))"
        using q C(5,6) other new sf(1) a(1,3) same same_page_inv [OF new]
        by (cases "q = p") (auto simp: same_frame_def same_page_def)
    qed
    moreover have "footprint (set ps) (hf_bpm h) (set ps) b2"
      using sf p by (intro footprint_write) (auto simp: same_frame_def)
    ultimately show ?thesis
      using sf other new C(1-3) quiet_same_frame by (auto simp: heap_core_def)
  qed
  have read: "heap_core (b2) first ps \<and> bp_view (b2) = bp_view (hf_bpm h) \<and> same_frame (hf_bpm h) (b2)"
    if "b2 = snd (BufferPoolManager_UnpinPage p False (hf_bpm ?h1))" for b2
  proof -
    have sf: "same_frame (hf_bpm h) (b2)" "bp_view (b2) = bp_view (hf_bpm h)"
      using b1(4,5) that by simp_all
    have "heap_chain (b2) first ps"
      using sf C(5,6) by (intro heap_chain_cong [OF C(4)]) (auto simp: hp_page_def same_frame_def)
    then show ?thesis using sf C(1-3) quiet_same_frame by (auto simp: heap_core_def)
  qed
  show ?thesis
  proof (rule that [of f ?h1])
    show "hf_fetch p h = (Some f, ?h1)" using b1(1) by (simp add: hf_fetch_def)
    show "same_page (hf_page ?h1 f) (hp_page (hf_bpm h) p)" using same by (simp add: same_page_def)
    show "?h1 = h\<lparr>hf_bpm := hf_bpm ?h1\<rparr>" by simp
    show "bpm_inv (hf_bpm ?h1)" "bp_view (hf_bpm ?h1) = bp_view (hf_bpm h)" "bp_table (hf_bpm ?h1) p = Some f"
      "bp_pins (hf_bpm ?h1) = (bp_pins (hf_bpm h))(p := 1)"
      using b1(7-10) by simp_all
  qed (rule upd read; assumption)+
qed

lemma heap_inv_core: "heap_inv h ps \<Longrightarrow> heap_core (hf_bpm h) (hf_first h) ps"
  by (simp add: heap_inv_def heap_core_def)

lemma heap_invI:
  assumes "heap_core (hf_bpm h) (hf_first h) ps" "hf_last h = last ps" "set (hf_space h) \<subseteq> set ps"
    "distinct (hf_space h)" "hf_record_count h = of_nat (chain_records (hf_bpm h) ps)"
    "hf_page_count h = of_nat (length ps)"
  shows "heap_inv h ps"
  using assms by (simp add: heap_inv_def heap_core_def)

text \<open>What linking a new page to the chain leaves of the pages that were there.\<close>

lemma appended_pages:
  assumes core: "heap_core b first ps" and new: "p \<notin> set ps"
    and last: "bp_view b (last ps) = Some (page_image pgl)" "page_ser_ok pgl"
    and view: "bp_view b' = (bp_view b)(p \<mapsto> page_image (new_data_page p), last ps \<mapsto> page_image (Page_SetNextPageId p pgl))"
  shows "q \<in> set ps \<Longrightarrow> page_recs (hp_page b' q) = page_recs (hp_page b q) \<and>
      ph_num_records (p_header (hp_page b' q)) = ph_num_records (p_header (hp_page b q)) \<and> page_inv (hp_page b' q)"
    and "q \<in> set ps \<Longrightarrow> q \<noteq> last ps \<Longrightarrow> hp_page b' q = hp_page b q"
    and "ph_next_page_id (p_header (hp_page b' (last ps))) = p"
    and "same_page (hp_page b' p) (new_data_page p)"
proof -
  note C = heap_coreD [OF core]
  have lp: "last ps \<in> set ps" "p \<noteq> last ps" using C(2) new by auto
  have pgl: "page_inv pgl" using C(6) [OF lp(1)] hp_page_frame(3) [OF last] by simp
  have lastp: "same_page (hp_page b (last ps)) pgl" "same_page (hp_page b' (last ps)) (Page_SetNextPageId p pgl)"
    using same_page_hp [OF last(1) pgl] same_page_hp [of b' "last ps" "Page_SetNextPageId p pgl"] view pgl by simp_all
  show other: "hp_page b' q = hp_page b q" if "q \<in> set ps" "q \<noteq> last ps" for q
    using that view new by (auto simp: hp_page_def)
  show "page_recs (hp_page b' q) = page_recs (hp_page b q) \<and>
      ph_num_records (p_header (hp_page b' q)) = ph_num_records (p_header (hp_page b q)) \<and>
      page_inv (hp_page b' q)" if q: "q \<in> set ps"
  proof (cases "q = last ps")
    case True
    then show ?thesis
      using lastp same_page_inv [OF lastp(2)] pgl by (simp add: same_page_def) (simp add: Page_SetNextPageId_def)
  next
    case False
    then show ?thesis using other [OF q] C(6) [OF q] by simp
  qed
  show "ph_next_page_id (p_header (hp_page b' (last ps))) = p"
    using lastp(2) by (simp add: same_page_def Page_SetNextPageId_def)
  show "same_page (hp_page b' p) (new_data_page p)"
    using view lp(2) by (intro same_page_hp) auto
qed

lemma heap_allocate:
  assumes inv: "heap_inv h ps" and room: "0 < disk_room (bp_disk (hf_bpm h))"
  obtains p h' where "HeapFile_AllocateNewPage h = (Inr p, h')" "appended h p h'" "heap_inv h' (ps @ [p])"
    "p \<notin> set ps" "heap_recs h' (ps @ [p]) = heap_recs h ps" "same_page (hp_page (hf_bpm h') p) (new_data_page p)"
    "footprint (set ps) (hf_bpm h) (set (ps @ [p])) (hf_bpm h')"
proof -
  note core = heap_inv_core [OF inv]
  note C = heap_coreD [OF core]
  let ?b = "hf_bpm h"
  have last: "hf_last h = last ps" "last ps \<in> set ps" using inv C(2) by (auto simp: heap_inv_def)
  then have "hf_last h \<in> bp_data ?b" using C(5) by simp
  then obtain p h' pgl where A: "HeapFile_AllocateNewPage h = (Inr p, h')" "appended h p h'"
    "bp_view ?b (last ps) = Some (page_image pgl)" "page_ser_ok pgl"
    "bp_view (hf_bpm h') = (bp_view ?b)(p \<mapsto> page_image (new_data_page p), last ps \<mapsto> page_image (Page_SetNextPageId p pgl))"
    using last(1) by (metis alloc_linked [OF C(1) room])
  let ?b' = "hf_bpm h'"
  note P = A(2) [unfolded appended_def]
  have np: "p \<notin> set ps" using P C(5) by blast
  note R = appended_pages [OF core np A(3-5)]
  have "heap_chain ?b' (hf_first h) (ps @ [p])"
    by (rule heap_chain_append [OF C(4,2,3) _ _ R(3)])
      (use R C(5) P same_page_inv [OF R(4)] in \<open>simp_all add: same_page_def\<close>)
  then have core': "heap_core ?b' (hf_first h') (ps @ [p])"
    using P np C(3) by (simp add: heap_core_def)
  have "chain_records ?b' ps = chain_records ?b ps" "chain_records ?b' [p] = 0"
    using R(1,4) by (auto intro!: chain_records_cong simp: same_page_def) (simp add: chain_records_def)
  then have "heap_inv h' (ps @ [p])"
    by (intro heap_invI [OF core']) (use P inv np in \<open>auto simp: heap_inv_def\<close>)
  moreover have "heap_recs h' (ps @ [p]) = heap_recs h ps"
    using R(1,4) np by (auto simp: heap_recs_def fun_eq_iff same_page_def)
  moreover have "footprint (set ps) ?b (insert p (set ps)) ?b'"
  proof (rule footprint_new)
    show "bp_view ?b p = None" using P dom_bp_view [of ?b] by blast
    show "bp_view ?b' r = bp_view ?b r" if "r \<notin> insert p (set ps)" for r using that A(5) last by auto
  qed (use P in simp)
  ultimately show ?thesis using that A(1,2) np R(4) by simp
qed

section \<open>Changing one page\<close>

lemma InsertRecord_header:
  "Page_InsertRecord data len p = (Some s, p') \<Longrightarrow>
   ph_next_page_id (p_header p') = ph_next_page_id (p_header p) \<and>
   ph_num_records (p_header p') = ph_num_records (p_header p) + 1"
  by (auto simp: Page_InsertRecord_def Let_def split: option.splits if_splits)

lemma DeleteRecord_header:
  "Page_DeleteRecord s p = (r, p') \<Longrightarrow>
   ph_next_page_id (p_header p') = ph_next_page_id (p_header p) \<and>
   ph_num_records (p_header p') = (if r then ph_num_records (p_header p) - 1 else ph_num_records (p_header p)) \<and>
   (\<not> r \<longrightarrow> p' = p)"
  by (auto simp: Page_DeleteRecord_def split: if_splits)

lemma UpdateRecord_header:
  "Page_UpdateRecord s data len p = (r, p') \<Longrightarrow>
   ph_next_page_id (p_header p') = ph_next_page_id (p_header p) \<and>
   ph_num_records (p_header p') = ph_num_records (p_header p) \<and> (\<not> r \<longrightarrow> p' = p)"
  by (auto simp: Page_UpdateRecord_def Let_def split: if_splits)

lemma unat_num_records: "page_inv p \<Longrightarrow> unat (ph_num_records (p_header p)) \<le> 1019"
  using page_invD(5,7) [of p] by (metis le_trans length_filter_le)

text \<open>
  One page \<open>p\<close> of the chain changes; its record count loses \<open>a\<close> and gains \<open>c\<close>, and so does the
  count of the heap file.
\<close>

lemma heap_inv_update:
  assumes inv: "heap_inv h ps" and p: "p \<in> set ps"
    and core: "heap_core (hf_bpm h') (hf_first h) ps"
    and other: "\<forall>q. q \<noteq> p \<longrightarrow> hp_page (hf_bpm h') q = hp_page (hf_bpm h) q"
    and count: "unat (ph_num_records (p_header (hp_page (hf_bpm h') p))) + a =
      unat (ph_num_records (p_header (hp_page (hf_bpm h) p))) + c"
    and fields: "hf_first h' = hf_first h" "hf_last h' = hf_last h" "hf_page_count h' = hf_page_count h"
      "hf_record_count h' + of_nat a = hf_record_count h + of_nat c"
      "set (hf_space h') \<subseteq> set ps" "distinct (hf_space h')"
  shows "heap_inv h' ps"
    and "heap_recs h' ps = (\<lambda>r. if rid_page_id r = p then page_recs (hp_page (hf_bpm h') p) (unat (rid_slot_id r))
      else heap_recs h ps r)"
proof -
  have "chain_records (hf_bpm h') ps + unat (ph_num_records (p_header (hp_page (hf_bpm h) p))) =
      chain_records (hf_bpm h) ps + unat (ph_num_records (p_header (hp_page (hf_bpm h') p)))"
    using inv p other by (intro chain_records_update) (auto simp: heap_inv_def)
  then have "chain_records (hf_bpm h') ps + a = chain_records (hf_bpm h) ps + c"
    using count by linarith
  then have "of_nat (chain_records (hf_bpm h') ps) + of_nat a = (of_nat (chain_records (hf_bpm h) ps) + of_nat c :: u32)"
    by (metis of_nat_add)
  also have "\<dots> = hf_record_count h + of_nat c" using inv by (simp add: heap_inv_def)
  finally have "hf_record_count h' = of_nat (chain_records (hf_bpm h') ps)"
    using fields(4) by (metis add_right_cancel)
  then show "heap_inv h' ps"
    using core fields inv by (intro heap_invI) (simp_all add: heap_inv_def)
  show "heap_recs h' ps = (\<lambda>r. if rid_page_id r = p then page_recs (hp_page (hf_bpm h') p) (unat (rid_slot_id r))
      else heap_recs h ps r)"
    using other p by (auto simp: heap_recs_def fun_eq_iff)
qed

lemma rid_eq_iff: "r = RID p s \<longleftrightarrow> rid_page_id r = p \<and> unat (rid_slot_id r) = unat s"
  by (cases r) (simp add: unat_inj)

lemma heap_recs_page: "p \<in> set ps \<Longrightarrow> heap_recs h ps (RID p s) = page_recs (hp_page (hf_bpm h) p) (unat s)"
  by (simp add: heap_recs_def)

section \<open>Insertion\<close>

lemma hf_fields: "h1 = h\<lparr>hf_bpm := b\<rparr> \<Longrightarrow> hf_first h1 = hf_first h \<and> hf_last h1 = hf_last h \<and>
    hf_page_count h1 = hf_page_count h \<and> hf_record_count h1 = hf_record_count h \<and> hf_space h1 = hf_space h"
  by simp

lemma fetched_page:
  assumes inv: "heap_inv h ps" and p: "p \<in> set ps" and fetch: "hf_fetch p h = (Some f, h1)"
  shows "same_page (hf_page h1 f) (hp_page (hf_bpm h) p)" "page_inv (hf_page h1 f)" "h1 = h\<lparr>hf_bpm := hf_bpm h1\<rparr>"
proof -
  obtain g h2 where V: "hf_fetch p h = (Some g, h2)" "same_page (hf_page h2 g) (hp_page (hf_bpm h) p)"
    "h2 = h\<lparr>hf_bpm := hf_bpm h2\<rparr>"
    by (rule heap_visit [OF heap_inv_core [OF inv] p]) blast
  have eq: "g = f" "h2 = h1" using V(1) fetch by simp_all
  show "same_page (hf_page h1 f) (hp_page (hf_bpm h) p)" "h1 = h\<lparr>hf_bpm := hf_bpm h1\<rparr>"
    using V(2,3) unfolding eq by blast+
  then show "page_inv (hf_page h1 f)"
    using same_page_inv heap_coreD(6) [OF heap_inv_core [OF inv] p] by blast
qed

text \<open>
  The common shape of the operations on one record: the page is fetched, replaced by \<open>pg\<close> and
  unpinned, the counters are adjusted.
\<close>

lemma change_on_page:
  assumes inv: "heap_inv h ps" and p: "p \<in> set ps" and fetch: "hf_fetch p h = (Some f, h1)"
    and pg: "page_inv pg" "ph_next_page_id (p_header pg) = ph_next_page_id (p_header (hf_page h1 f))"
      "unat (ph_num_records (p_header pg)) + a = unat (ph_num_records (p_header (hf_page h1 f))) + c"
    and d: "d \<or> pg = hf_page h1 f"
    and h': "hf_bpm h' = snd (BufferPoolManager_UnpinPage p d (set_page f pg (hf_bpm h1)))"
      "hf_first h' = hf_first h1" "hf_last h' = hf_last h1" "hf_page_count h' = hf_page_count h1"
      "hf_record_count h' + of_nat a = hf_record_count h1 + of_nat c"
      "set (hf_space h') \<subseteq> set ps" "distinct (hf_space h')"
  shows "heap_inv h' ps" "same_frame (hf_bpm h) (hf_bpm h')"
    and "heap_recs h' ps = (\<lambda>r. if rid_page_id r = p then page_recs pg (unat (rid_slot_id r)) else heap_recs h ps r)"
    and "page_recs (hf_page h1 f) = page_recs (hp_page (hf_bpm h) p)" "page_inv (hf_page h1 f)"
    and "footprint (set ps) (hf_bpm h) (set ps) (hf_bpm h')"
proof -
  obtain g h2 where V: "hf_fetch p h = (Some g, h2)" "same_page (hf_page h2 g) (hp_page (hf_bpm h) p)"
    "h2 = h\<lparr>hf_bpm := hf_bpm h2\<rparr>"
    "\<And>pg d b2. page_inv pg \<Longrightarrow> d \<or> pg = hf_page h2 g \<Longrightarrow>
       ph_next_page_id (p_header pg) = ph_next_page_id (p_header (hf_page h2 g)) \<Longrightarrow>
       b2 = snd (BufferPoolManager_UnpinPage p d (set_page g pg (hf_bpm h2))) \<Longrightarrow>
       heap_core b2 (hf_first h) ps \<and> same_page (hp_page b2 p) pg \<and>
       (\<forall>q. q \<noteq> p \<longrightarrow> hp_page b2 q = hp_page (hf_bpm h) q) \<and> same_frame (hf_bpm h) b2 \<and>
       footprint (set ps) (hf_bpm h) (set ps) b2"
    by (rule heap_visit [OF heap_inv_core [OF inv] p]) blast
  have eq [simp]: "g = f" "h2 = h1" using V(1) fetch by simp_all
  have fields: "hf_first h1 = hf_first h" "hf_last h1 = hf_last h" "hf_page_count h1 = hf_page_count h"
    "hf_record_count h1 = hf_record_count h" "hf_space h1 = hf_space h"
    by (subst V(3) [unfolded eq], simp)+
  show "page_recs (hf_page h1 f) = page_recs (hp_page (hf_bpm h) p)" using V(2) by (simp add: same_page_def)
  show "page_inv (hf_page h1 f)"
    using same_page_inv [OF V(2)] heap_coreD(6) [OF heap_inv_core [OF inv] p] by simp
  have W: "heap_core (hf_bpm h') (hf_first h) ps" "same_page (hp_page (hf_bpm h') p) pg"
       "\<forall>q. q \<noteq> p \<longrightarrow> hp_page (hf_bpm h') q = hp_page (hf_bpm h) q" "same_frame (hf_bpm h) (hf_bpm h')"
       "footprint (set ps) (hf_bpm h) (set ps) (hf_bpm h')"
    using V(4) [of pg d "hf_bpm h'"] pg d h'(1) by simp_all
  then show "same_frame (hf_bpm h) (hf_bpm h')" "footprint (set ps) (hf_bpm h) (set ps) (hf_bpm h')" by blast+
  have cnt: "unat (ph_num_records (p_header (hp_page (hf_bpm h') p))) + a =
      unat (ph_num_records (p_header (hp_page (hf_bpm h) p))) + c"
    using pg(3) W(2) V(2) by (simp add: same_page_def)
  note U = heap_inv_update [OF inv p W(1,3) cnt h'(2-5) [unfolded fields] h'(6,7)]
  show "heap_inv h' ps" by (fact U(1))
  show "heap_recs h' ps = (\<lambda>r. if rid_page_id r = p then page_recs pg (unat (rid_slot_id r)) else heap_recs h ps r)"
    unfolding U(2) using W(2) by (auto simp: fun_eq_iff same_page_def)
qed

lemma hf_fetch_page:
  assumes "heap_inv h ps" "p \<in> set ps"
  obtains f h1 where "hf_fetch p h = (Some f, h1)" "page_inv (hf_page h1 f)" "h1 = h\<lparr>hf_bpm := hf_bpm h1\<rparr>"
    "page_recs (hf_page h1 f) = page_recs (hp_page (hf_bpm h) p)"
proof -
  obtain f h1 where V: "hf_fetch p h = (Some f, h1)" "same_page (hf_page h1 f) (hp_page (hf_bpm h) p)"
    "h1 = h\<lparr>hf_bpm := hf_bpm h1\<rparr>"
    by (rule heap_visit [OF heap_inv_core [OF assms(1)] assms(2)]) blast
  show ?thesis
    using that [OF V(1) _ V(3)] V(2) same_page_inv [OF V(2)] heap_coreD(6) [OF heap_inv_core [OF assms(1)] assms(2)]
    by (simp add: same_page_def)
qed

text \<open>A page that is fetched and unpinned again, whatever the dirty flag.\<close>

lemma page_released:
  assumes inv: "heap_inv h ps" and p: "p \<in> set ps" and fetch: "hf_fetch p h = (Some f, h1)"
  shows "heap_inv (hf_unpin p d h1) ps" "heap_recs (hf_unpin p d h1) ps = heap_recs h ps"
    and "same_frame (hf_bpm h) (hf_bpm (hf_unpin p d h1))" "hf_space (hf_unpin p d h1) = hf_space h"
    and "footprint (set ps) (hf_bpm h) (set ps) (hf_bpm (hf_unpin p d h1))"
proof -
  let ?u = "hf_unpin p d h1"
  note F = fetched_page [OF inv p fetch] and fields = hf_fields [OF fetched_page(3) [OF inv p fetch]]
  have sp: "set (hf_space ?u) \<subseteq> set ps" "distinct (hf_space ?u)"
    using fields inv by (simp_all add: hf_unpin_def heap_inv_def)
  have b: "hf_bpm ?u = snd (BufferPoolManager_UnpinPage p d (set_page f (hf_page h1 f) (hf_bpm h1)))"
    by (simp add: hf_unpin_def set_page_def)
  have C: "heap_inv ?u ps" "same_frame (hf_bpm h) (hf_bpm ?u)"
    "heap_recs ?u ps = (\<lambda>r. if rid_page_id r = p then page_recs (hf_page h1 f) (unat (rid_slot_id r)) else heap_recs h ps r)"
    "footprint (set ps) (hf_bpm h) (set ps) (hf_bpm ?u)"
    by (rule change_on_page [OF inv p fetch F(2) refl refl [of "_ + 0"] disjI2 [OF refl] b _ _ _ _ sp];
        simp add: hf_unpin_def)+
  show "heap_inv ?u ps" "same_frame (hf_bpm h) (hf_bpm ?u)" "footprint (set ps) (hf_bpm h) (set ps) (hf_bpm ?u)"
    by (fact C)+
  show "hf_space ?u = hf_space h" using fields by (simp add: hf_unpin_def)
  show "heap_recs ?u ps = heap_recs h ps"
    unfolding C(3) using F(1) p by (auto simp: heap_recs_def fun_eq_iff same_page_def)
qed

lemma page_inserted:
  assumes inv: "heap_inv h ps" and p: "p \<in> set ps" and fetch: "hf_fetch p h = (Some f, h1)"
    and len: "unat len \<le> length bytes"
    and ins: "Page_InsertRecord (Some bytes) len (hf_page h1 f) = (Some s, pg)"
    and dn: "insert_done p f s (hf_set_page f pg h1) = (r, h')"
  shows "r = Inr (RID p s) \<and> heap_inv h' ps \<and> heap_recs h ps (RID p s) = None \<and>
      heap_recs h' ps = (heap_recs h ps)(RID p s \<mapsto> take (unat len) bytes) \<and>
      disk_room (bp_disk (hf_bpm h')) = disk_room (bp_disk (hf_bpm h)) \<and> footprint (set ps) (hf_bpm h) (set ps) (hf_bpm h')"
proof -
  note F = fetched_page [OF inv p fetch] and fields = hf_fields [OF fetched_page(3) [OF inv p fetch]]
  note S = InsertRecord_step [OF F(2) ins len] and H = InsertRecord_header [OF ins]
  have hb: "r = Inr (RID p s)" "hf_bpm h' = snd (BufferPoolManager_UnpinPage p True (set_page f pg (hf_bpm h1)))"
    "hf_first h' = hf_first h1" "hf_last h' = hf_last h1" "hf_page_count h' = hf_page_count h1"
    "hf_record_count h' + of_nat 0 = hf_record_count h1 + of_nat 1"
    "hf_space h' = hf_space h \<or> hf_space h' = remove1 p (hf_space h)"
    using dn fields by (auto simp: insert_done_def forget_space_def hf_unpin_def hf_set_page_def Let_def)
  have space: "set (hf_space h') \<subseteq> set ps" "distinct (hf_space h')"
    using hb(7) inv by (auto simp: heap_inv_def dest: set_remove1_subset [THEN subsetD])
  have n: "unat (ph_num_records (p_header pg)) + 0 = unat (ph_num_records (p_header (hf_page h1 f))) + 1"
    using H unat_num_records [OF F(2)] by (simp add: word_nat)
  note C = change_on_page [OF inv p fetch conjunct1 [OF S] conjunct1 [OF H] n disjI1 [OF TrueI] hb(2-6) space]
  have "heap_recs h' ps = (heap_recs h ps)(RID p s \<mapsto> take (unat len) bytes)"
    unfolding C(3) using C(4) S p by (auto simp: fun_eq_iff heap_recs_def rid_eq_iff)
  then show ?thesis
    using C hb(1) S p by (simp add: heap_recs_page same_frame_def)
qed

lemma insert_on_page:
  assumes inv: "heap_inv h ps" and p: "p \<in> set ps" and fetch: "hf_fetch p h = (Some f, h1)"
    and len: "unat len \<le> length bytes"
  shows "page_inv (hf_page h1 f)" "insert_fits len (hf_page h1 f) = insert_fits len (hp_page (hf_bpm h) p)"
    and "Page_InsertRecord (Some bytes) len (hf_page h1 f) = (Some s, pg) \<Longrightarrow>
      insert_done p f s (hf_set_page f pg h1) = (r, h') \<Longrightarrow>
      r = Inr (RID p s) \<and> heap_inv h' ps \<and> heap_recs h ps (RID p s) = None \<and>
      heap_recs h' ps = (heap_recs h ps)(RID p s \<mapsto> take (unat len) bytes) \<and>
      disk_room (bp_disk (hf_bpm h')) = disk_room (bp_disk (hf_bpm h)) \<and> footprint (set ps) (hf_bpm h) (set ps) (hf_bpm h')"
    and "heap_inv (hf_unpin p d h1) ps" "heap_recs (hf_unpin p d h1) ps = heap_recs h ps"
    and "same_frame (hf_bpm h) (hf_bpm (hf_unpin p d h1))" "hf_space (hf_unpin p d h1) = hf_space h"
    and "footprint (set ps) (hf_bpm h) (set ps) (hf_bpm (hf_unpin p d h1))"
  using page_released [OF inv p fetch] fetched_page [OF inv p fetch] page_inserted [OF inv p fetch len]
    same_page_free(3) [OF fetched_page(1) [OF inv p fetch]]
  by blast+

lemma insert_fits_bound:
  assumes inv: "page_inv p" and fits: "insert_fits len p"
  shows "len \<noteq> 0 \<and> unat len \<le> 4072"
proof -
  have "20 + 4 * length (p_slots p) + page_free p \<le> 4096"
    using page_invD(2-4) [OF inv] by (simp add: page_free_def)
  moreover have "1 \<le> length (p_slots p)" if "Page_FindEmptySlot p \<noteq> None"
    using that page_invD(1) [OF inv] by (cases "length (p_slots p)") (auto simp: Page_FindEmptySlot_def)
  ultimately show ?thesis using fits by (fastforce simp: insert_fits_def split: if_splits)
qed

lemma insert_fits_new: "insert_fits len (new_data_page p) \<longleftrightarrow> len \<noteq> 0 \<and> unat len \<le> 4072"
  by (auto simp: insert_fits_def Page_FindEmptySlot_def page_free_def) (auto simp: new_data_page_def Page_SetFlags_def)

lemma heap_inv_space:
  "heap_inv h ps \<Longrightarrow> set xs \<subseteq> set (hf_space h) \<Longrightarrow> distinct xs \<Longrightarrow> heap_inv (h\<lparr>hf_space := xs\<rparr>) ps"
  "heap_recs (h\<lparr>hf_space := xs\<rparr>) ps = heap_recs h ps"
  by (auto simp: heap_inv_def heap_recs_def fun_eq_iff)

text \<open>What finding or allocating a target page does.\<close>

definition found_target :: "u16 \<Rightarrow> heap_file \<Rightarrow> u32 list \<Rightarrow> u32 \<Rightarrow> heap_file \<Rightarrow> u32 list \<Rightarrow> bool" where
  "found_target len h ps p h' ps' \<longleftrightarrow>
     heap_inv h' ps' \<and> p \<in> set ps' \<and> heap_recs h' ps' = heap_recs h ps \<and>
     footprint (set ps) (hf_bpm h) (set ps') (hf_bpm h') \<and>
     (ps' = ps \<and> disk_room (bp_disk (hf_bpm h')) = disk_room (bp_disk (hf_bpm h)) \<and>
        (0 < len \<and> len \<le> 65531 \<longrightarrow> insert_fits len (hp_page (hf_bpm h') p)) \<or>
      ps' = ps @ [p] \<and> Suc (disk_room (bp_disk (hf_bpm h'))) = disk_room (bp_disk (hf_bpm h)) \<and>
      same_page (hp_page (hf_bpm h') p) (new_data_page p))"

lemma find_space_found:
  assumes "heap_inv h ps" "0 < disk_room (bp_disk (hf_bpm h))" "hf_space h = xs"
  shows "\<exists>p h' ps'. find_space len xs h = (Inr p, h') \<and> found_target len h ps p h' ps'"
  using assms
proof (induction xs arbitrary: h)
  case Nil
  obtain p h' where "HeapFile_AllocateNewPage h = (Inr p, h')" "appended h p h'" "heap_inv h' (ps @ [p])"
    "heap_recs h' (ps @ [p]) = heap_recs h ps" "same_page (hp_page (hf_bpm h') p) (new_data_page p)"
    "footprint (set ps) (hf_bpm h) (set (ps @ [p])) (hf_bpm h')"
    by (rule heap_allocate [OF Nil(1,2)])
  then show ?case by (auto simp: found_target_def appended_def)
next
  case (Cons q qs)
  have q: "q \<in> set ps" using Cons.prems(1,3) by (auto simp: heap_inv_def)
  obtain f h1 where fetch: "hf_fetch q h = (Some f, h1)"
    by (rule heap_visit [OF heap_inv_core [OF Cons.prems(1)] q]) blast
  note V = insert_on_page(4-8) [OF Cons.prems(1) q fetch, of 0 "[]" False, simplified]
  let ?h2 = "hf_unpin q False h1"
  have room: "disk_room (bp_disk (hf_bpm ?h2)) = disk_room (bp_disk (hf_bpm h))"
    using V(3) by (simp add: same_frame_def)
  show ?case
  proof (cases "Page_HasSpaceFor len (hf_page h1 f)")
    case True
    have "insert_fits len (hp_page (hf_bpm ?h2) q)" if "0 < len" "len \<le> 65531"
    proof -
      obtain g h3 where W: "hf_fetch q h = (Some g, h3)" "same_page (hf_page h3 g) (hp_page (hf_bpm h) q)"
        "\<And>b2. b2 = snd (BufferPoolManager_UnpinPage q False (hf_bpm h3)) \<Longrightarrow>
           heap_core b2 (hf_first h) ps \<and> bp_view b2 = bp_view (hf_bpm h) \<and> same_frame (hf_bpm h) b2"
        by (rule heap_visit [OF heap_inv_core [OF Cons.prems(1)] q]) blast
      have eq: "h3 = h1" "g = f" using W(1) fetch by simp_all
      have "hp_page (hf_bpm ?h2) q = hp_page (hf_bpm h) q"
        using W(3) [OF refl] unfolding eq by (simp add: hp_page_def hf_unpin_def)
      moreover have "insert_fits len (hf_page h1 f)"
        using True HasSpaceFor_fits [OF insert_on_page(1) [OF Cons.prems(1) q fetch, of 0 "[]"] that] by simp
      ultimately show ?thesis using same_page_free(3) [OF W(2)] unfolding eq by simp
    qed
    then show ?thesis using True fetch V(1,2,5) q room by (auto simp: found_target_def)
  next
    case False
    let ?h3 = "?h2\<lparr>hf_space := qs\<rparr>"
    have "heap_inv ?h3 ps" "heap_recs ?h3 ps = heap_recs h ps"
      using heap_inv_space(1) [OF V(1), of qs] heap_inv_space(2) V Cons.prems(1,3) by (auto simp: heap_inv_def)
    then show ?thesis
      using Cons.IH [of ?h3] Cons.prems(2) room fetch False footprint_trans [OF V(5)] by (auto simp: found_target_def)
  qed
qed

lemma hf_set_page_same: "hf_set_page f (hf_page h f) h = h"
  by (cases h) (simp add: hf_set_page_def set_page_def)

text \<open>The second attempt of an insertion, on a page that has just been allocated.\<close>

lemma insert_on_new_page:
  assumes inv: "heap_inv h ps" and room: "0 < disk_room (bp_disk (hf_bpm h))"
    and len: "unat len \<le> length bytes" "len \<noteq> 0"
  obtains q h4 g h5 r h' where "HeapFile_AllocateNewPage h = (Inr q, h4)" "hf_fetch q h4 = (Some g, h5)"
    "(case Page_InsertRecord (Some bytes) len (hf_page h5 g) of
        (Some slot, pg) \<Rightarrow> insert_done q g slot (hf_set_page g pg h5)
      | (None, pg) \<Rightarrow> (Inr RID_default, hf_unpin q True (hf_set_page g pg h5))) = (Inr r, h')"
    "heap_inv h' (ps @ [q])" "Suc (disk_room (bp_disk (hf_bpm h'))) = disk_room (bp_disk (hf_bpm h))"
    "footprint (set ps) (hf_bpm h) (set (ps @ [q])) (hf_bpm h')"
    "if unat len \<le> 4072 then RID_IsValid r \<and> heap_recs h ps r = None \<and>
         heap_recs h' (ps @ [q]) = (heap_recs h ps)(r \<mapsto> take (unat len) bytes)
       else r = RID_default \<and> heap_recs h' (ps @ [q]) = heap_recs h ps"
proof -
  obtain q h4 where A: "HeapFile_AllocateNewPage h = (Inr q, h4)" "appended h q h4" "heap_inv h4 (ps @ [q])"
    "heap_recs h4 (ps @ [q]) = heap_recs h ps" "same_page (hp_page (hf_bpm h4) q) (new_data_page q)"
    "footprint (set ps) (hf_bpm h) (set (ps @ [q])) (hf_bpm h4)"
    by (rule heap_allocate [OF inv room])
  have q: "q \<in> set (ps @ [q])" by simp
  obtain g h5 where fetch: "hf_fetch q h4 = (Some g, h5)"
    by (rule heap_visit [OF heap_inv_core [OF A(3)] q]) blast
  note J = insert_on_page [OF A(3) q fetch len(1)]
  have fits: "insert_fits len (hf_page h5 g) \<longleftrightarrow> unat len \<le> 4072"
    using J(2) same_page_free(3) [OF A(5)] insert_fits_new len(2) by simp
  have valid: "RID_IsValid (RID q s)" for s
    using heap_coreD(8) [OF heap_inv_core [OF A(3)] q] by (simp add: RID_IsValid_def)
  show ?thesis
  proof (cases "unat len \<le> 4072")
    case True
    then obtain s pg where ins: "Page_InsertRecord (Some bytes) len (hf_page h5 g) = (Some s, pg)"
      using InsertRecord_fits_iff [OF J(1)] fits by blast
    obtain r h' where dn: "insert_done q g s (hf_set_page g pg h5) = (r, h')" by fastforce
    note R = J(3) [OF ins dn]
    show ?thesis
      by (rule that [of q h4 g h5 "RID q s" h', OF A(1) fetch])
        (use R ins dn A(2,4) valid True footprint_trans [OF A(6)] in \<open>simp_all add: appended_def\<close>)
  next
    case big: False
    then have "Page_InsertRecord (Some bytes) len (hf_page h5 g) = (None, hf_page h5 g)"
      using InsertRecord_no_fit [OF J(1)] fits by blast
    then show ?thesis
      by (intro that [of q h4 g h5 RID_default "hf_unpin q True h5", OF A(1) fetch])
        (use A(2,4) J(4-6) big footprint_trans [OF A(6) J(8)] in
          \<open>simp_all add: hf_set_page_same appended_def same_frame_def\<close>)
  qed
qed

lemma heap_insert:
  assumes inv: "heap_inv h ps" and room: "2 \<le> disk_room (bp_disk (hf_bpm h))" and len: "unat len \<le> length bytes"
  obtains r h' new where "HeapFile_InsertRecord (Some bytes) len h = (Inr r, h')" "heap_inv h' (ps @ new)"
    "disk_room (bp_disk (hf_bpm h)) \<le> disk_room (bp_disk (hf_bpm h')) + 2"
    "footprint (set ps) (hf_bpm h) (set (ps @ new)) (hf_bpm h')"
    "len \<noteq> 0 \<and> unat len \<le> 4072 \<Longrightarrow> RID_IsValid r \<and> heap_recs h ps r = None \<and>
       heap_recs h' (ps @ new) = (heap_recs h ps)(r \<mapsto> take (unat len) bytes)"
    "\<not> (len \<noteq> 0 \<and> unat len \<le> 4072) \<Longrightarrow> r = RID_default \<and> heap_recs h' (ps @ new) = heap_recs h ps"
proof (cases "len = 0")
  case True
  then show ?thesis using that [of RID_default h "[]"] inv by (simp add: HeapFile_InsertRecord_def)
next
  case False
  obtain p h1 ps1 where F: "find_space len (hf_space h) h = (Inr p, h1)" "found_target len h ps p h1 ps1"
    using find_space_found [OF inv _ refl] room by (metis gr0I not_numeral_le_zero)
  note T = F(2) [unfolded found_target_def]
  obtain new1 where new1: "ps1 = ps @ new1" using T by blast
  have inv1: "heap_inv h1 ps1" and p: "p \<in> set ps1" using T by blast+
  have room1: "0 < disk_room (bp_disk (hf_bpm h1))" using T room by auto
  obtain f h2 where fetch: "hf_fetch p h1 = (Some f, h2)"
    by (rule heap_visit [OF heap_inv_core [OF inv1] p]) blast
  note I = insert_on_page [OF inv1 p fetch len]
  have valid: "RID_IsValid (RID p s)" for s
    using heap_coreD(8) [OF heap_inv_core [OF inv1] p] by (simp add: RID_IsValid_def)
  show ?thesis
  proof (cases "insert_fits len (hf_page h2 f)")
    case True
    then obtain s pg where ins: "Page_InsertRecord (Some bytes) len (hf_page h2 f) = (Some s, pg)"
      using InsertRecord_fits_iff [OF I(1)] by blast
    obtain r h' where dn: "insert_done p f s (hf_set_page f pg h2) = (r, h')" by fastforce
    note R = I(3) [OF ins dn]
    have "HeapFile_InsertRecord (Some bytes) len h = (Inr (RID p s), h')"
      using False F(1) fetch ins dn R by (simp add: HeapFile_InsertRecord_def HeapFile_FindPageWithSpace_def)
    moreover have "footprint (set ps) (hf_bpm h) (set ps1) (hf_bpm h')" using T R footprint_trans by blast
    moreover have "disk_room (bp_disk (hf_bpm h)) \<le> disk_room (bp_disk (hf_bpm h')) + 2" using T R by auto
    moreover have "heap_recs h1 ps1 = heap_recs h ps" using T by blast
    ultimately show ?thesis
      using that [of "RID p s" h' new1] R new1 valid [of s] insert_fits_bound [OF I(1) True] by simp
  next
    case nofit: False
    have ins: "Page_InsertRecord (Some bytes) len (hf_page h2 f) = (None, hf_page h2 f)"
      by (rule InsertRecord_no_fit [OF I(1) nofit])
    let ?h3 = "hf_unpin p False h2"
    have room3: "0 < disk_room (bp_disk (hf_bpm ?h3))" using room1 I(6) [of False] by (simp add: same_frame_def)
    obtain q h4 g h5 r h' where A: "HeapFile_AllocateNewPage ?h3 = (Inr q, h4)" "hf_fetch q h4 = (Some g, h5)"
      "(case Page_InsertRecord (Some bytes) len (hf_page h5 g) of
          (Some slot, pg) \<Rightarrow> insert_done q g slot (hf_set_page g pg h5)
        | (None, pg) \<Rightarrow> (Inr RID_default, hf_unpin q True (hf_set_page g pg h5))) = (Inr r, h')"
      "heap_inv h' (ps1 @ [q])" "Suc (disk_room (bp_disk (hf_bpm h'))) = disk_room (bp_disk (hf_bpm ?h3))"
      "footprint (set ps1) (hf_bpm ?h3) (set (ps1 @ [q])) (hf_bpm h')"
      "if unat len \<le> 4072 then RID_IsValid r \<and> heap_recs ?h3 ps1 r = None \<and>
           heap_recs h' (ps1 @ [q]) = (heap_recs ?h3 ps1)(r \<mapsto> take (unat len) bytes)
         else r = RID_default \<and> heap_recs h' (ps1 @ [q]) = heap_recs ?h3 ps1"
      by (rule insert_on_new_page [OF I(4) room3 len False])
    have "HeapFile_InsertRecord (Some bytes) len h = (Inr r, h')"
      using False F(1) fetch ins A(1-3)
      by (simp add: HeapFile_InsertRecord_def HeapFile_FindPageWithSpace_def hf_set_page_same)
    moreover have "disk_room (bp_disk (hf_bpm h)) \<le> disk_room (bp_disk (hf_bpm h')) + 2"
      using A(5) T I(6) [of False] by (auto simp: same_frame_def)
    moreover have "footprint (set ps) (hf_bpm h) (set (ps1 @ [q])) (hf_bpm h')"
      using T footprint_trans [OF footprint_trans [OF _ I(8)] A(6)] by blast
    moreover have "heap_recs ?h3 ps1 = heap_recs h ps" using I(5) T by simp
    ultimately show ?thesis
      using that [of r h' "new1 @ [q]"] A(4,7) new1 False by (simp split: if_splits)
  qed
qed

section \<open>Deletion, lookup and update\<close>

text \<open>A record id that the heap file may have handed out points into one of its pages.\<close>


lemma delete_facts:
  assumes inv: "page_inv p" and del: "Page_DeleteRecord s p = (r, p')"
  shows "page_inv p'" "r \<longleftrightarrow> page_recs p (unat s) \<noteq> None" "page_recs p' = (page_recs p)(unat s := None)"
    and "ph_next_page_id (p_header p') = ph_next_page_id (p_header p)"
    and "unat (ph_num_records (p_header p')) + (if r then 1 else 0) = unat (ph_num_records (p_header p))"
    and "\<not> r \<Longrightarrow> p' = p"
proof -
  have live: "page_live p s \<longleftrightarrow> page_recs p (unat s) \<noteq> None" using page_live_recs [OF inv] .
  have D: "page_inv p' \<and> (r \<longleftrightarrow> page_live p s) \<and> page_recs p' = (page_recs p)(unat s := None)"
  proof (cases "page_live p s")
    case True
    then show ?thesis using DeleteRecord_live [OF inv True] del by auto
  next
    case False
    then show ?thesis using DeleteRecord_dead [OF False] del inv live by (auto simp: fun_upd_idem)
  qed
  then show "page_inv p'" "r \<longleftrightarrow> page_recs p (unat s) \<noteq> None" "page_recs p' = (page_recs p)(unat s := None)"
    using live by blast+
  note H = DeleteRecord_header [OF del]
  then show "ph_next_page_id (p_header p') = ph_next_page_id (p_header p)" "\<not> r \<Longrightarrow> p' = p" by blast+
  show "unat (ph_num_records (p_header p')) + (if r then 1 else 0) = unat (ph_num_records (p_header p))"
  proof (cases r)
    case True
    have "0 < unat (ph_num_records (p_header p))"
      using page_invD(1,5) [OF inv] D True page_liveD [OF inv, of s]
      by (auto simp: length_filter_conv_card card_gt_0_iff)
    then show ?thesis using H True by (simp add: word_nat)
  qed (use H in simp)
qed

lemma heap_delete:
  assumes inv: "heap_inv h ps" and p: "rid_page_id r \<in> set ps"
    and del: "HeapFile_DeleteRecord r h = (ok, h')"
  shows "ok \<longleftrightarrow> heap_recs h ps r \<noteq> None" "heap_inv h' ps" "heap_recs h' ps = (heap_recs h ps)(r := None)"
    and "same_frame (hf_bpm h) (hf_bpm h')" "footprint (set ps) (hf_bpm h) (set ps) (hf_bpm h')"
proof -
  let ?p = "rid_page_id r"
  have valid: "RID_IsValid r"
    using heap_coreD(8) [OF heap_inv_core [OF inv] p] by (simp add: RID_IsValid_def)
  obtain f h1 where F: "hf_fetch ?p h = (Some f, h1)" "page_inv (hf_page h1 f)" "h1 = h\<lparr>hf_bpm := hf_bpm h1\<rparr>"
    "page_recs (hf_page h1 f) = page_recs (hp_page (hf_bpm h) ?p)"
    by (rule hf_fetch_page [OF inv p])
  obtain d pg where dp: "Page_DeleteRecord (rid_slot_id r) (hf_page h1 f) = (d, pg)" by fastforce
  note D = delete_facts [OF F(2) dp] and fields = hf_fields [OF F(3)]
  have h': "hf_bpm h' = snd (BufferPoolManager_UnpinPage ?p ok (set_page f pg (hf_bpm h1)))" "ok = d"
    "hf_first h' = hf_first h1" "hf_last h' = hf_last h1" "hf_page_count h' = hf_page_count h1"
    "hf_record_count h' = (if d then hf_record_count h1 - 1 else hf_record_count h1)"
    "hf_space h' = hf_space h1 \<or> hf_space h' = hf_space h1 @ [?p] \<and> ?p \<notin> set (hf_space h1)"
    using del valid F(1) dp
    by (auto simp: HeapFile_DeleteRecord_def Let_def hf_unpin_def hf_set_page_def split: if_splits)
  have cnt: "unat (ph_num_records (p_header pg)) + (if d then 1 else 0) =
      unat (ph_num_records (p_header (hf_page h1 f))) + 0" using D(5) by simp
  have rc: "hf_record_count h' + of_nat (if d then 1 else 0) = hf_record_count h1 + of_nat 0" using h'(6) by simp
  have sp: "set (hf_space h') \<subseteq> set ps" "distinct (hf_space h')"
    using h'(7) inv fields p by (auto simp: heap_inv_def)
  have dd: "ok \<or> pg = hf_page h1 f" using D(6) h'(2) by blast
  note U = change_on_page [OF inv p F(1) D(1,4) cnt dd h'(1,3,4,5) rc sp]
  show "heap_inv h' ps" "same_frame (hf_bpm h) (hf_bpm h')" "footprint (set ps) (hf_bpm h) (set ps) (hf_bpm h')"
    by (fact U)+
  have at: "heap_recs h ps r = page_recs (hf_page h1 f) (unat (rid_slot_id r))"
    using F(4) p by (simp add: heap_recs_def)
  show "ok \<longleftrightarrow> heap_recs h ps r \<noteq> None" using D(2) h'(2) at by simp
  show "heap_recs h' ps = (heap_recs h ps)(r := None)"
    unfolding U(3) using D(3) F(4) p
    by (auto simp: fun_eq_iff heap_recs_def rid.expand unat_inj)
qed

lemma heap_get:
  assumes inv: "heap_inv h ps" and p: "rid_page_id r \<in> set ps"
    and get: "HeapFile_GetRecord r h = (res, h')"
  shows "map_option (\<lambda>(f, off, len). buf_read (p_data (hf_page h' f)) (unat off) (unat len)) res = heap_recs h ps r"
    and "heap_inv (if res = None then h' else hf_unpin (rid_page_id r) False h') ps"
    and "heap_recs (if res = None then h' else hf_unpin (rid_page_id r) False h') ps = heap_recs h ps"
proof -
  let ?p = "rid_page_id r"
  have valid: "RID_IsValid r"
    using heap_coreD(8) [OF heap_inv_core [OF inv] p] by (simp add: RID_IsValid_def)
  obtain f h1 where F: "hf_fetch ?p h = (Some f, h1)" "page_inv (hf_page h1 f)" "h1 = h\<lparr>hf_bpm := hf_bpm h1\<rparr>"
    "page_recs (hf_page h1 f) = page_recs (hp_page (hf_bpm h) ?p)"
    by (rule hf_fetch_page [OF inv p])
  note R = insert_on_page(4,5) [OF inv p F(1), of 0 "[]" False, simplified]
  have g: "res = map_option (\<lambda>(off, len). (f, off, len)) (Page_GetRecord (rid_slot_id r) (hf_page h1 f))"
    "h' = (if res = None then hf_unpin ?p False h1 else h1)"
    using get valid F(1) by (auto simp: HeapFile_GetRecord_def split: option.splits)
  have "heap_recs h ps r = map_option (\<lambda>(off, len). buf_read (p_data (hf_page h1 f)) (unat off) (unat len))
      (Page_GetRecord (rid_slot_id r) (hf_page h1 f))"
    using page_recs_GetRecord [OF F(2), of "rid_slot_id r"] F(4) p by (simp add: heap_recs_def)
  then show "map_option (\<lambda>(f, off, len). buf_read (p_data (hf_page h' f)) (unat off) (unat len)) res = heap_recs h ps r"
    using g by (cases "Page_GetRecord (rid_slot_id r) (hf_page h1 f)") auto
  show "heap_inv (if res = None then h' else hf_unpin ?p False h') ps"
    "heap_recs (if res = None then h' else hf_unpin ?p False h') ps = heap_recs h ps"
    using R g(2) by simp_all
qed

text \<open>
  \<open>UpdateRecord\<close> outside the range of lengths for which the page overwrites itself: in place, or
  deleted and inserted again.
\<close>

definition heap_free :: "heap_file \<Rightarrow> rid \<Rightarrow> nat" where
  "heap_free h r = page_free (hp_page (hf_bpm h) (rid_page_id r))"

lemma page_recs_length: "page_recs p i = Some old \<Longrightarrow> length old = unat (se_length (p_slots p ! i))"
  by (auto simp: page_recs_def slot_recs_def split: if_splits)

lemma update_facts:
  assumes inv: "page_inv p" and old: "page_recs p (unat s) = Some old"
    and fit: "unat len \<le> length old \<or> unat len \<le> page_free p" and len: "unat len \<le> length data"
  obtains p' where "Page_UpdateRecord s data len p = (True, p')" "page_inv p'"
    "page_recs p' = (page_recs p)(unat s \<mapsto> take (unat len) data)"
    "ph_next_page_id (p_header p') = ph_next_page_id (p_header p)"
    "ph_num_records (p_header p') = ph_num_records (p_header p)"
proof -
  have live: "page_live p s" using page_live_recs [OF inv] old by simp
  have eq: "length old = unat (se_length (p_slots p ! unat s))" by (rule page_recs_length [OF old])
  obtain p' where U: "Page_UpdateRecord s data len p = (True, p')" "page_inv p'"
    "page_recs p' = (page_recs p)(unat s \<mapsto> take (unat len) data)"
    using UpdateRecord_shrink [OF inv live _ len] UpdateRecord_grow [OF inv live _ _ len] fit eq
    by (metis not_le word_le_nat_alt)
  moreover have "ph_next_page_id (p_header p') = ph_next_page_id (p_header p)"
    "ph_num_records (p_header p') = ph_num_records (p_header p)"
    using U(1) by (auto simp: Page_UpdateRecord_def Let_def split: if_splits)
  ultimately show ?thesis using that by blast
qed

lemma update_refused:
  assumes inv: "page_inv p" and old: "page_recs p (unat s) = Some old"
    and big: "length old + page_free p < unat len"
  shows "Page_UpdateRecord s data len p = (False, p)"
proof -
  have eq: "length old = unat (se_length (p_slots p ! unat s))" by (rule page_recs_length [OF old])
  have "se_length (p_slots p ! unat s) < len" using eq big by (simp add: word_less_nat_alt)
  moreover have "Page_GetFreeSpace p < len - se_length (p_slots p ! unat s)"
    using big eq unat_GetFreeSpace [OF inv] by (simp add: word_less_nat_alt unat_sub_le)
  ultimately show ?thesis
    using page_live_recs [OF inv, of s] old by (auto simp: Page_UpdateRecord_def page_live_def Let_def)
qed

lemma heap_free_frame:
  assumes "heap_inv h ps" "p \<in> set ps" "hf_fetch p h = (Some f, h1)"
  shows "page_free (hf_page h1 f) = page_free (hp_page (hf_bpm h) p)"
proof -
  obtain g h2 where "hf_fetch p h = (Some g, h2)" "same_page (hf_page h2 g) (hp_page (hf_bpm h) p)"
    by (rule heap_visit [OF heap_inv_core [OF assms(1)] assms(2)]) blast
  then show ?thesis using assms(3) same_page_free(2) by fastforce
qed

lemma heap_update_in_place:
  assumes inv: "heap_inv h ps" and old: "heap_recs h ps r = Some old" and len: "unat len \<le> length data"
    and fit: "unat len \<le> length old \<or> unat len \<le> heap_free h r"
  obtains h' where "HeapFile_UpdateRecord r data len h = (Inr r, h')" "heap_inv h' ps"
    "heap_recs h' ps = (heap_recs h ps)(r \<mapsto> take (unat len) data)" "same_frame (hf_bpm h) (hf_bpm h')"
proof -
  let ?p = "rid_page_id r"
  have p: "?p \<in> set ps" using old by (auto simp: heap_recs_def split: if_splits)
  have valid: "RID_IsValid r"
    using heap_coreD(8) [OF heap_inv_core [OF inv] p] by (simp add: RID_IsValid_def)
  obtain f h1 where F: "hf_fetch ?p h = (Some f, h1)" "page_inv (hf_page h1 f)" "h1 = h\<lparr>hf_bpm := hf_bpm h1\<rparr>"
    "page_recs (hf_page h1 f) = page_recs (hp_page (hf_bpm h) ?p)"
    by (rule hf_fetch_page [OF inv p])
  note fields = hf_fields [OF F(3)]
  have old1: "page_recs (hf_page h1 f) (unat (rid_slot_id r)) = Some old" using old p F(4) by (simp add: heap_recs_def)
  have fit1: "unat len \<le> length old \<or> unat len \<le> page_free (hf_page h1 f)"
    using fit heap_free_frame [OF inv p F(1)] by (simp add: heap_free_def)
  obtain pg where U: "Page_UpdateRecord (rid_slot_id r) data len (hf_page h1 f) = (True, pg)" "page_inv pg"
    "page_recs pg = (page_recs (hf_page h1 f))(unat (rid_slot_id r) \<mapsto> take (unat len) data)"
    "ph_next_page_id (p_header pg) = ph_next_page_id (p_header (hf_page h1 f))"
    "ph_num_records (p_header pg) = ph_num_records (p_header (hf_page h1 f))"
    by (rule update_facts [OF F(2) old1 fit1 len])
  let ?h' = "hf_unpin ?p True (hf_set_page f pg h1)"
  have h': "HeapFile_UpdateRecord r data len h = (Inr r, ?h')"
    using valid F(1) U(1) by (simp add: HeapFile_UpdateRecord_def)
  have b: "hf_bpm ?h' = snd (BufferPoolManager_UnpinPage ?p True (set_page f pg (hf_bpm h1)))"
    "hf_first ?h' = hf_first h1" "hf_last ?h' = hf_last h1" "hf_page_count ?h' = hf_page_count h1"
    "hf_record_count ?h' + of_nat 0 = hf_record_count h1 + of_nat 0"
    by (simp_all add: hf_unpin_def hf_set_page_def)
  have s: "set (hf_space ?h') \<subseteq> set ps" "distinct (hf_space ?h')"
    using fields inv by (auto simp: heap_inv_def hf_unpin_def hf_set_page_def)
  have c: "unat (ph_num_records (p_header pg)) + 0 = unat (ph_num_records (p_header (hf_page h1 f))) + 0"
    using U(5) by simp
  note C = change_on_page [OF inv p F(1) U(2,4) c _ b s, OF disjI1 [OF TrueI]]
  have "heap_recs ?h' ps = (heap_recs h ps)(r \<mapsto> take (unat len) data)"
    unfolding C(3) using U(3) F(4) p by (auto simp: fun_eq_iff heap_recs_def rid.expand unat_inj)
  then show ?thesis using that [OF h' C(1) _ C(2)] by blast
qed

text \<open>
  The branch between: the growth fits, the whole record does not. The page writes it nevertheless, over its slot
  directory or past its start.
\<close>

lemma heap_update_overlap:
  assumes inv: "heap_inv h ps" and old: "heap_recs h ps r = Some old"
    and over: "length old < unat len" "unat len \<le> length old + heap_free h r" "heap_free h r < unat len"
  obtains h' where "HeapFile_UpdateRecord r data len h = (Inr r, h')" "\<not> page_inv (hp_page (hf_bpm h') (rid_page_id r))"
proof -
  let ?p = "rid_page_id r" and ?s = "rid_slot_id r"
  note C = heap_coreD [OF heap_inv_core [OF inv]]
  have p: "?p \<in> set ps" using old by (auto simp: heap_recs_def split: if_splits)
  have valid: "RID_IsValid r" using C(8) [OF p] by (simp add: RID_IsValid_def)
  obtain f b1 where S: "BufferPoolManager_FetchPage ?p (hf_bpm h) = (Some f, b1)"
    "page_ser_ok (frame_page b1 f)" "bp_view (hf_bpm h) ?p = Some (page_image (frame_page b1 f))"
    "\<And>pg d. page_ser_ok pg \<Longrightarrow> d \<or> pg = frame_page b1 f \<Longrightarrow>
       bp_view (snd (BufferPoolManager_UnpinPage ?p d (set_page f pg b1))) = (bp_view (hf_bpm h))(?p \<mapsto> page_image pg)"
    by (rule session [OF quietD(1) [OF C(1)] C(5) [OF p] quietD(2,3) [OF C(1)]]) blast
  let ?pg = "frame_page b1 f"
  have same: "same_page (hp_page (hf_bpm h) ?p) ?pg" and pinv: "page_inv ?pg"
    using same_page_hp [OF S(3)] hp_page_frame(3) [OF S(3,2)] C(6) [OF p] by simp_all
  have old1: "page_recs ?pg (unat ?s) = Some old" using old p same by (simp add: heap_recs_def same_page_def)
  have live: "page_live ?pg ?s" using page_live_recs [OF pinv] old1 by simp
  have len: "unat (se_length (p_slots ?pg ! unat ?s)) = length old"
    using old1 by (auto simp: page_recs_def slot_recs_def split: if_splits)
  have free: "heap_free h r = page_free ?pg" using same_page_free(2) [OF same] by (simp add: heap_free_def)
  note U = UpdateRecord_overlap [OF pinv live, of len data, unfolded len word_less_nat_alt]
  obtain pg where U: "Page_UpdateRecord ?s data len ?pg = (True, pg)" "\<not> page_inv pg"
    using U over unfolding free by (cases "Page_UpdateRecord ?s data len ?pg") auto
  have "page_ser_ok pg"
    using U(1) S(2) by (auto simp: Page_UpdateRecord_def page_ser_ok_def Let_def split: if_splits)
  note W = S(4) [OF this disjI1 [OF TrueI]]
  let ?h' = "hf_unpin ?p True (hf_set_page f pg (h\<lparr>hf_bpm := b1\<rparr>))"
  have "HeapFile_UpdateRecord r data len h = (Inr r, ?h')"
    using valid S(1) U(1) by (simp add: HeapFile_UpdateRecord_def hf_fetch_def)
  moreover have "bp_view (hf_bpm ?h') ?p = Some (page_image pg)" using W by (simp add: hf_unpin_def hf_set_page_def)
  then have "\<not> page_inv (hp_page (hf_bpm ?h') ?p)" using hp_page_frame(3) [OF _ \<open>page_ser_ok pg\<close>] U(2) by blast
  ultimately show ?thesis using that by blast
qed

text \<open>
  The other branch: the update is refused by the page, and what is left is a deletion followed by
  an insertion, whatever page the insertion finds.
\<close>

lemma heap_update_moves:
  assumes inv: "heap_inv h ps" and old: "heap_recs h ps r = Some old"
    and big: "length old + heap_free h r < unat len"
  obtains h1 where "HeapFile_DeleteRecord r h = (True, h1\<lparr>hf_space := hf_space (snd (HeapFile_DeleteRecord r h))\<rparr>)"
    "HeapFile_UpdateRecord r data len h = HeapFile_InsertRecord (Some data) len h1" "heap_inv h1 ps"
    "heap_recs h1 ps = (heap_recs h ps)(r := None)" "same_frame (hf_bpm h) (hf_bpm h1)"
proof -
  let ?p = "rid_page_id r"
  have p: "?p \<in> set ps" using old by (auto simp: heap_recs_def split: if_splits)
  have valid: "RID_IsValid r"
    using heap_coreD(8) [OF heap_inv_core [OF inv] p] by (simp add: RID_IsValid_def)
  obtain f h1 where F: "hf_fetch ?p h = (Some f, h1)" "page_inv (hf_page h1 f)" "h1 = h\<lparr>hf_bpm := hf_bpm h1\<rparr>"
    "page_recs (hf_page h1 f) = page_recs (hp_page (hf_bpm h) ?p)"
    by (rule hf_fetch_page [OF inv p])
  note fields = hf_fields [OF F(3)]
  have old1: "page_recs (hf_page h1 f) (unat (rid_slot_id r)) = Some old" using old p F(4) by (simp add: heap_recs_def)
  have big1: "length old + page_free (hf_page h1 f) < unat len"
    using big heap_free_frame [OF inv p F(1)] by (simp add: heap_free_def)
  note refused = update_refused [OF F(2) old1 big1]
  obtain d pg where dp: "Page_DeleteRecord (rid_slot_id r) (hf_page h1 f) = (d, pg)" by fastforce
  note D = delete_facts [OF F(2) dp]
  have d [simp]: "d = True" using D(2) old1 by simp
  let ?h2 = "hf_set_page f pg h1"
  let ?h' = "hf_unpin ?p True (?h2\<lparr>hf_record_count := hf_record_count ?h2 - 1\<rparr>)"
  have upd: "HeapFile_UpdateRecord r data len h = HeapFile_InsertRecord (Some data) len ?h'"
    using valid F(1) refused dp by (simp add: HeapFile_UpdateRecord_def Let_def)
  have del: "HeapFile_DeleteRecord r h = (True, ?h'\<lparr>hf_space := hf_space (snd (HeapFile_DeleteRecord r h))\<rparr>)"
    using valid F(1) dp by (simp add: HeapFile_DeleteRecord_def hf_unpin_def Let_def)
  have b: "hf_bpm ?h' = snd (BufferPoolManager_UnpinPage ?p True (set_page f pg (hf_bpm h1)))"
    "hf_first ?h' = hf_first h1" "hf_last ?h' = hf_last h1" "hf_page_count ?h' = hf_page_count h1"
    "hf_record_count ?h' + of_nat 1 = hf_record_count h1 + of_nat 0"
    by (simp_all add: hf_unpin_def hf_set_page_def)
  have s: "set (hf_space ?h') \<subseteq> set ps" "distinct (hf_space ?h')"
    using fields inv by (auto simp: heap_inv_def hf_unpin_def hf_set_page_def)
  have c: "unat (ph_num_records (p_header pg)) + 1 = unat (ph_num_records (p_header (hf_page h1 f))) + 0"
    using D(5) by simp
  note C = change_on_page [OF inv p F(1) D(1,4) c _ b s, OF disjI1 [OF TrueI]]
  have "heap_recs ?h' ps = (heap_recs h ps)(r := None)"
    unfolding C(3) using D(3) F(4) p by (auto simp: fun_eq_iff heap_recs_def rid.expand unat_inj)
  then show ?thesis using that [OF del upd C(1) _ C(2)] by blast
qed

end
