(* ===== verification/HeapScan.thy ===== *)
theory HeapScan
  imports HeapFile
begin

text \<open>
  Opening a heap file and scanning it (\<open>HeapFile::HeapFile\<close>, \<open>HeapFile::Begin\<close> and the class
  \<open>HeapFileIterator\<close> of \<open>src/storage/heap_file.cpp\<close>): both follow the chain of pages to its end,
  and on a chain without a cycle they return.
\<close>

section \<open>Construction\<close>

lemma heap_new_fresh:
  assumes q: "quiet b" and room: "0 < disk_room (bp_disk b)"
  obtains p h where "HeapFile_new b INVALID_PAGE_ID = Some (Inr (), h)" "heap_inv h [p]" "heap_recs h [p] = (\<lambda>_. None)"
    "Suc (disk_room (bp_disk (hf_bpm h))) = disk_room (bp_disk b)" "hf_first h = p" "p \<notin> bp_data b"
    "page_free (hp_page (hf_bpm h) p) = 4076"
proof -
  let ?h = "\<lparr>hf_bpm = b, hf_first = INVALID_PAGE_ID, hf_last = INVALID_PAGE_ID, hf_record_count = 0,
               hf_page_count = 0, hf_space = []\<rparr>"
  have q': "quiet (hf_bpm ?h)" "0 < disk_room (bp_disk (hf_bpm ?h))" "hf_last ?h = INVALID_PAGE_ID"
    using q room by simp_all
  obtain p h1 where A: "HeapFile_AllocateNewPage ?h = (Inr p, h1)" "appended ?h p h1"
    "bp_view (hf_bpm h1) = (bp_view (hf_bpm ?h))(p \<mapsto> page_image (new_data_page p))"
    by (rule alloc_unlinked [OF q'])
  note P = A(2) [unfolded appended_def, simplified]
  let ?h' = "h1\<lparr>hf_first := p, hf_last := p\<rparr>"
  have new: "HeapFile_new b INVALID_PAGE_ID = Some (Inr (), ?h')"
    using A(1) by (simp add: HeapFile_new_def Let_def)
  have pg: "same_page (hp_page (hf_bpm h1) p) (new_data_page p)"
    using A(3) by (intro same_page_hp) simp_all
  then have f: "ph_next_page_id (p_header (hp_page (hf_bpm h1) p)) = INVALID_PAGE_ID"
    "unat (ph_num_records (p_header (hp_page (hf_bpm h1) p))) = 0"
    by (simp_all add: same_page_def)
  have core: "heap_core (hf_bpm ?h') (hf_first ?h') [p]"
    using P f(1) same_page_inv [OF pg] by (simp add: heap_core_def)
  have "heap_inv ?h' [p]"
    by (rule heap_invI [OF core]; use P f(2) in \<open>simp add: chain_records_def\<close>)
  moreover have "heap_recs ?h' [p] = (\<lambda>_. None)"
    using pg by (auto simp: heap_recs_def fun_eq_iff same_page_def)
  moreover have "page_free (hp_page (hf_bpm ?h') p) = 4076"
    using same_page_free(2) [OF pg] page_free_new [of p]
    by (simp add: new_data_page_def Page_SetFlags_def page_free_def)
  ultimately show ?thesis using that [OF new] P by simp
qed

text \<open>Opening a heap file that exists: the free space directory lists the pages with 64 bytes left.\<close>

definition roomy :: "bpm \<Rightarrow> u32 \<Rightarrow> bool" where
  "roomy b p \<longleftrightarrow> Page_HasSpaceFor 64 (hp_page b p)"

lemma same_page_HasSpaceFor: "same_page p q \<Longrightarrow> Page_HasSpaceFor len p = Page_HasSpaceFor len q"
  using same_page_free(1) [of p q] by (simp add: same_page_def Page_HasSpaceFor_def Page_GetFreeSpace_def)

lemma hp_page_view: "bp_view b = bp_view b' \<Longrightarrow> hp_page b = hp_page b'"
  by (simp add: hp_page_def fun_eq_iff)

text \<open>One page of the walk.\<close>

lemma open_step:
  assumes core: "heap_core (hf_bpm h) first ps" and chain: "heap_chain (hf_bpm h) current (q # qs)"
    and sub: "set (q # qs) \<subseteq> set ps"
  obtains current' h' where "open_loop current h = open_loop current' h'"
    "heap_core (hf_bpm h') first ps" "heap_chain (hf_bpm h') current' qs"
    "bp_view (hf_bpm h') = bp_view (hf_bpm h)" "same_frame (hf_bpm h) (hf_bpm h')"
    "hf_first h' = hf_first h" "hf_last h' = (if qs = [] then q else hf_last h)" "hf_page_count h' = hf_page_count h + 1"
    "hf_record_count h' = hf_record_count h + ucast (ph_num_records (p_header (hp_page (hf_bpm h) q)))"
    "hf_space h' = hf_space h @ (if roomy (hf_bpm h) q then [q] else [])"
proof -
  have cur: "current = q" and q: "q \<in> set ps"
    and rest: "heap_chain (hf_bpm h) (ph_next_page_id (p_header (hp_page (hf_bpm h) q))) qs"
    using chain sub by auto
  obtain f h1 where V: "hf_fetch q h = (Some f, h1)" "same_page (hf_page h1 f) (hp_page (hf_bpm h) q)"
    "h1 = h\<lparr>hf_bpm := hf_bpm h1\<rparr>"
    "\<And>b2. b2 = snd (BufferPoolManager_UnpinPage q False (hf_bpm h1)) \<Longrightarrow>
       heap_core b2 first ps \<and> bp_view b2 = bp_view (hf_bpm h) \<and> same_frame (hf_bpm h) b2"
    by (rule heap_visit [OF core q]) blast
  let ?next = "ph_next_page_id (p_header (hp_page (hf_bpm h) q))"
  let ?h' = "\<lparr>hf_bpm = snd (BufferPoolManager_UnpinPage q False (hf_bpm h1)), hf_first = hf_first h,
     hf_last = (if ?next = INVALID_PAGE_ID then q else hf_last h),
     hf_record_count = hf_record_count h + ucast (ph_num_records (p_header (hp_page (hf_bpm h) q))),
     hf_page_count = hf_page_count h + 1,
     hf_space = hf_space h @ (if roomy (hf_bpm h) q then [q] else [])\<rparr>"
  note U = V(4) [OF refl]
  have core': "heap_core (hf_bpm ?h') first ps" using U by simp
  have hp: "hp_page (hf_bpm ?h') = hp_page (hf_bpm h)" by (rule hp_page_view) (use U in simp)
  have pg: "p_header (hf_page h1 f) = p_header (hp_page (hf_bpm h) q)"
    "Page_HasSpaceFor 64 (hf_page h1 f) = roomy (hf_bpm h) q"
    using V(2) same_page_HasSpaceFor [OF V(2)] by (simp_all add: same_page_def roomy_def)
  obtain b1 where b1: "h1 = h\<lparr>hf_bpm := b1\<rparr>" using V(3) by blast
  have step: "open_loop current h = open_loop ?next ?h'"
    using V(1) pg cur heap_coreD(8) [OF core q] unfolding b1
    by (subst open_loop.simps, cases h)
      (simp add: Let_def hf_unpin_def Page_GetNextPageId_def Page_GetNumRecords_def)
  have chain': "heap_chain (hf_bpm ?h') ?next qs"
  proof (rule heap_chain_cong [OF rest])
    fix r assume "r \<in> set qs"
    then have r: "r \<in> set ps" using sub by auto
    show "r \<in> bp_data (hf_bpm ?h') \<and> page_inv (hp_page (hf_bpm ?h') r) \<and>
      ph_next_page_id (p_header (hp_page (hf_bpm ?h') r)) = ph_next_page_id (p_header (hp_page (hf_bpm h) r))"
      using heap_coreD(5,6) [OF core' r] by (simp only: hp simp_thms)
  qed
  have last: "qs = [] \<longleftrightarrow> ?next = INVALID_PAGE_ID"
    using rest heap_coreD(8) [OF core] sub by (cases qs) auto
  show ?thesis
    by (rule that [OF step core' chain']) (use U last in simp_all)
qed

lemma open_walk:
  assumes "heap_core (hf_bpm h) first ps" "heap_chain (hf_bpm h) current qs" "set qs \<subseteq> set ps"
  shows "\<exists>h'. open_loop current h = Some h' \<and> heap_core (hf_bpm h') first ps \<and>
    bp_view (hf_bpm h') = bp_view (hf_bpm h) \<and> same_frame (hf_bpm h) (hf_bpm h') \<and> hf_first h' = hf_first h \<and>
    hf_last h' = (if qs = [] then hf_last h else last qs) \<and>
    hf_page_count h' = hf_page_count h + of_nat (length qs) \<and>
    hf_record_count h' = hf_record_count h + of_nat (chain_records (hf_bpm h) qs) \<and>
    hf_space h' = hf_space h @ filter (roomy (hf_bpm h)) qs"
  using assms
proof (induction qs arbitrary: current h)
  case Nil
  then show ?case by (auto simp: open_loop.simps chain_records_def same_frame_def heap_core_def quiet_def)
next
  case (Cons q qs)
  obtain current' h' where S: "open_loop current h = open_loop current' h'"
    "heap_core (hf_bpm h') first ps" "heap_chain (hf_bpm h') current' qs"
    "bp_view (hf_bpm h') = bp_view (hf_bpm h)" "same_frame (hf_bpm h) (hf_bpm h')"
    "hf_first h' = hf_first h" "hf_last h' = (if qs = [] then q else hf_last h)" "hf_page_count h' = hf_page_count h + 1"
    "hf_record_count h' = hf_record_count h + ucast (ph_num_records (p_header (hp_page (hf_bpm h) q)))"
    "hf_space h' = hf_space h @ (if roomy (hf_bpm h) q then [q] else [])"
    by (rule open_step [OF Cons.prems])
  have hp: "hp_page (hf_bpm h') = hp_page (hf_bpm h)" by (rule hp_page_view [OF S(4)])
  have roomy: "roomy (hf_bpm h') = roomy (hf_bpm h)" and cnt: "chain_records (hf_bpm h') qs = chain_records (hf_bpm h) qs"
    using hp by (simp_all add: roomy_def [abs_def] chain_records_def)
  have sub: "set qs \<subseteq> set ps" using Cons.prems(3) by simp
  obtain h'' where O: "open_loop current' h' = Some h''" "heap_core (hf_bpm h'') first ps"
    "bp_view (hf_bpm h'') = bp_view (hf_bpm h')" "same_frame (hf_bpm h') (hf_bpm h'')" "hf_first h'' = hf_first h'"
    "hf_last h'' = (if qs = [] then hf_last h' else last qs)"
    "hf_page_count h'' = hf_page_count h' + of_nat (length qs)"
    "hf_record_count h'' = hf_record_count h' + of_nat (chain_records (hf_bpm h') qs)"
    "hf_space h'' = hf_space h' @ filter (roomy (hf_bpm h')) qs"
    using Cons.IH [OF S(2,3) sub] by blast
  have "hf_record_count h'' = hf_record_count h + of_nat (chain_records (hf_bpm h) (q # qs))"
    using O(8) S(9) cnt by (simp add: chain_records_def)
  then show ?case
    using O S roomy same_frame_trans [OF S(5) O(4)] by simp
qed

lemma heap_new_open:
  assumes inv: "heap_inv h ps"
  obtains h' where "HeapFile_new (hf_bpm h) (hf_first h) = Some (Inr (), h')" "heap_inv h' ps"
    "heap_recs h' ps = heap_recs h ps" "hf_record_count h' = hf_record_count h" "hf_page_count h' = hf_page_count h"
    "hf_last h' = hf_last h" "hf_space h' = filter (roomy (hf_bpm h)) ps" "same_frame (hf_bpm h) (hf_bpm h')"
proof -
  note C = heap_coreD [OF heap_inv_core [OF inv]]
  have first: "hf_first h \<noteq> INVALID_PAGE_ID"
    using C(4,2,8) by (cases ps) auto
  let ?h = "\<lparr>hf_bpm = hf_bpm h, hf_first = hf_first h, hf_last = hf_first h, hf_record_count = 0,
               hf_page_count = 0, hf_space = []\<rparr>"
  have core: "heap_core (hf_bpm ?h) (hf_first h) ps" and ch: "heap_chain (hf_bpm ?h) (hf_first h) ps"
    using heap_inv_core [OF inv] C(4) by simp_all
  obtain h' where O: "open_loop (hf_first h) ?h = Some h'" "heap_core (hf_bpm h') (hf_first h) ps"
    "bp_view (hf_bpm h') = bp_view (hf_bpm h)" "same_frame (hf_bpm h) (hf_bpm h')" "hf_first h' = hf_first h"
    "hf_last h' = last ps"
    "hf_page_count h' = of_nat (length ps)" "hf_record_count h' = of_nat (chain_records (hf_bpm h) ps)"
    "hf_space h' = filter (roomy (hf_bpm h)) ps"
    using open_walk [OF core ch subset_refl] C(2) by auto
  note hp = hp_page_view [OF O(3)]
  have "heap_inv h' ps"
    by (rule heap_invI) (use O C(3) hp in \<open>simp_all add: chain_records_def\<close>)
  moreover have "heap_recs h' ps = heap_recs h ps" by (simp add: heap_recs_def fun_eq_iff hp)
  moreover have "HeapFile_new (hf_bpm h) (hf_first h) = Some (Inr (), h')"
    using O(1) first by (simp add: HeapFile_new_def Let_def)
  ultimately show ?thesis using that O inv by (simp add: heap_inv_def)
qed

section \<open>Scanning\<close>

text \<open>The records of a page from slot \<open>from\<close> on, and of a chain of pages, with their ids.\<close>

definition page_list :: "u32 \<Rightarrow> page \<Rightarrow> nat \<Rightarrow> (rid \<times> u8 list) list" where
  "page_list p pg from =
     map (\<lambda>s. (RID p (of_nat s), the (page_recs pg s)))
       (filter (\<lambda>s. page_recs pg s \<noteq> None) [from..<length (p_slots pg)])"

definition chain_list :: "bpm \<Rightarrow> u32 list \<Rightarrow> (rid \<times> u8 list) list" where
  "chain_list b ps = concat (map (\<lambda>p. page_list p (hp_page b p) 0) ps)"

lemma chain_list_simps [simp]:
  "chain_list b [] = []" "chain_list b (p # ps) = page_list p (hp_page b p) 0 @ chain_list b ps"
  by (simp_all add: chain_list_def)

lemma page_list_same: "same_page p q \<Longrightarrow> page_list i p = page_list i q"
  by (simp add: page_list_def same_page_def fun_eq_iff)

lemma GetRecord_live:
  assumes "page_inv pg" "s < 65536"
  shows "Page_GetRecord (of_nat s) pg = None \<longleftrightarrow> page_recs pg s = None"
  using page_recs_GetRecord [OF assms(1), of "of_nat s"] assms(2) by (simp add: unat16_of_nat)

lemma find_from_SomeD:
  "find P [from..<n] = Some s \<Longrightarrow> from \<le> s \<and> s < n \<and> P s \<and> (\<forall>j. from \<le> j \<and> j < s \<longrightarrow> \<not> P j)"
  by (auto simp: find_Some_iff) (metis add_diff_inverse_nat nat_add_left_cancel_less not_less)

lemma find_from_None: "find P [from..<n] = None \<longleftrightarrow> (\<forall>j. from \<le> j \<and> j < n \<longrightarrow> \<not> P j)"
  by (auto simp: find_None_iff)

lemma first_record_spec:
  assumes inv: "page_inv pg"
  shows "first_record from pg = None \<Longrightarrow> page_list p pg from = []"
    and "first_record from pg = Some slot \<Longrightarrow> from \<le> unat slot \<and> unat slot < length (p_slots pg) \<and>
      page_recs pg (unat slot) \<noteq> None \<and>
      page_list p pg from = (RID p slot, the (page_recs pg (unat slot))) # page_list p pg (Suc (unat slot))"
proof -
  let ?n = "length (p_slots pg)"
  have n: "?n \<le> 1019" "unat (Page_GetNumSlots pg) = ?n"
    using page_invD(1,7) [OF inv] by (simp_all add: Page_GetNumSlots_def)
  have live: "s < ?n \<Longrightarrow> Page_GetRecord (of_nat s) pg = None \<longleftrightarrow> page_recs pg s = None" for s
    using GetRecord_live [OF inv, of s] n(1) by simp
  show "page_list p pg from = []" if "first_record from pg = None"
  proof -
    have "\<forall>j. from \<le> j \<and> j < ?n \<longrightarrow> Page_GetRecord (of_nat j) pg = None"
      using that n(2) find_from_None [of "\<lambda>s. Page_GetRecord (of_nat s) pg \<noteq> None" "from" ?n]
      by (simp add: first_record_def del: not_None_eq)
    then show ?thesis using live by (simp add: page_list_def filter_empty_conv)
  qed
  show "from \<le> unat slot \<and> unat slot < ?n \<and> page_recs pg (unat slot) \<noteq> None \<and>
      page_list p pg from = (RID p slot, the (page_recs pg (unat slot))) # page_list p pg (Suc (unat slot))"
    if fr: "first_record from pg = Some slot"
  proof -
    obtain s where f: "find (\<lambda>s. Page_GetRecord (of_nat s) pg \<noteq> None) [from..<?n] = Some s" "slot = of_nat s"
      using fr n(2) by (auto simp: first_record_def)
    note i = find_from_SomeD [OF f(1)]
    have s: "s < ?n" "unat slot = s" using i f(2) n(1) by (auto simp: unat16_of_nat)
    have "[from..<?n] = [from..<s] @ s # [Suc s..<?n]"
      using i s by (metis less_imp_le_nat upt_add_eq_append upt_conv_Cons le_Suc_ex)
    moreover have "filter (\<lambda>s. page_recs pg s \<noteq> None) [from..<s] = []"
    proof -
      have "page_recs pg j = None" if "from \<le> j" "j < s" for j
        using i that live [of j] s(1) by (simp del: not_None_eq)
      then show ?thesis by (auto simp: filter_empty_conv)
    qed
    ultimately show ?thesis using live [OF s(1)] i s f(2) by (simp add: page_list_def)
  qed
qed

text \<open>
  The buffer pool during a scan: the page the iterator is on is pinned, and unpinning it leads
  back to the pool the scan started with, up to frames.
\<close>

definition scan_quiet :: "bpm \<Rightarrow> u32 \<Rightarrow> u32 list \<Rightarrow> bpm \<Rightarrow> bool" where
  "scan_quiet b0 first ps b \<longleftrightarrow> heap_core b first ps \<and> bp_view b = bp_view b0 \<and> same_frame b0 b"

definition scan_at :: "bpm \<Rightarrow> u32 \<Rightarrow> u32 list \<Rightarrow> u32 \<Rightarrow> u32 \<Rightarrow> bpm \<Rightarrow> bool" where
  "scan_at b0 first ps p f b \<longleftrightarrow> p \<in> set ps \<and> page_inv (frame_page b f) \<and> same_page (frame_page b f) (hp_page b0 p) \<and>
     bp_pins b = (\<lambda>_. 0)(p := 1) \<and> scan_quiet b0 first ps (snd (BufferPoolManager_UnpinPage p False b))"

lemma scan_fetch:
  assumes q: "scan_quiet b0 first ps b" and p: "p \<in> set ps"
  obtains f b1 where "BufferPoolManager_FetchPage p b = (Some f, b1)" "scan_at b0 first ps p f b1" "p \<noteq> INVALID_PAGE_ID"
proof -
  let ?h = "\<lparr>hf_bpm = b, hf_first = first, hf_last = 0, hf_record_count = 0, hf_page_count = 0, hf_space = []\<rparr>"
  note Q = q [unfolded scan_quiet_def]
  have core: "heap_core (hf_bpm ?h) first ps" using Q by simp
  obtain f h1 where V: "hf_fetch p ?h = (Some f, h1)" "same_page (hf_page h1 f) (hp_page (hf_bpm ?h) p)"
    "\<And>b2. b2 = snd (BufferPoolManager_UnpinPage p False (hf_bpm h1)) \<Longrightarrow>
       heap_core b2 first ps \<and> bp_view b2 = bp_view (hf_bpm ?h) \<and> same_frame (hf_bpm ?h) b2"
    "bp_pins (hf_bpm h1) = (bp_pins (hf_bpm ?h))(p := 1)"
    by (rule heap_visit [OF core p]) blast
  have pins: "bp_pins b = (\<lambda>_. 0)" using quietD(2) [OF heap_coreD(1) [OF core]] by (simp add: fun_eq_iff)
  have f: "BufferPoolManager_FetchPage p b = (Some f, hf_bpm h1)"
    using V(1) by (auto simp: hf_fetch_def split: prod.splits)
  have hp: "hp_page b0 = hp_page b" by (rule hp_page_view) (use Q in simp)
  have "same_frame b0 (snd (BufferPoolManager_UnpinPage p False (hf_bpm h1)))"
    using same_frame_trans [of b0 b] Q V(3) [OF refl] by simp
  then have "scan_at b0 first ps p f (hf_bpm h1)"
    using V(2) V(3) [OF refl] V(4) pins Q p hp same_page_inv [OF V(2)] heap_coreD(6) [OF core p]
    by (simp add: scan_at_def scan_quiet_def)
  then show ?thesis using that f heap_coreD(8) [OF core p] by blast
qed

text \<open>What is still to be delivered by an iterator, the record it points to included.\<close>

definition iter_rest :: "bpm \<Rightarrow> u32 \<Rightarrow> u32 list \<Rightarrow> heap_iter \<Rightarrow> bpm \<Rightarrow> (rid \<times> u8 list) list \<Rightarrow> bool" where
  "iter_rest b0 first ps it b xs \<longleftrightarrow>
     (if hi_valid it
      then \<exists>p f qs. hi_page_id it = p \<and> hi_page it = Some f \<and> hi_rid it = RID p (hi_slot it) \<and> scan_at b0 first ps p f b \<and>
        unat (hi_slot it) < length (p_slots (hp_page b0 p)) \<and> page_recs (hp_page b0 p) (unat (hi_slot it)) \<noteq> None \<and>
        heap_chain b0 (ph_next_page_id (p_header (hp_page b0 p))) qs \<and> set qs \<subseteq> set ps \<and>
        xs = (hi_rid it, the (page_recs (hp_page b0 p) (unat (hi_slot it)))) #
          page_list p (hp_page b0 p) (Suc (unat (hi_slot it))) @ chain_list b0 qs
      else xs = [] \<and> scan_quiet b0 first ps b)"

lemma iter_rest_end: "scan_quiet b0 first ps b \<Longrightarrow> iter_rest b0 first ps (iter_end it) b []"
  by (simp add: iter_rest_def iter_end_def)

lemma iter_rest_at:
  assumes at: "scan_at b0 first ps p f b" and fr: "first_record from (frame_page b f) = Some slot"
    and chain: "heap_chain b0 (ph_next_page_id (p_header (hp_page b0 p))) qs" "set qs \<subseteq> set ps"
  shows "iter_rest b0 first ps (iter_at p f slot it) b (page_list p (hp_page b0 p) from @ chain_list b0 qs)"
proof -
  note A = at [unfolded scan_at_def]
  have pl: "page_list p (frame_page b f) = page_list p (hp_page b0 p)" by (rule page_list_same) (use A in blast)
  have s: "p_slots (frame_page b f) = p_slots (hp_page b0 p)" "page_recs (frame_page b f) = page_recs (hp_page b0 p)"
    using A by (simp_all add: same_page_def)
  have inv: "page_inv (frame_page b f)" using A by blast
  note F = first_record_spec(2) [OF inv fr, of p, unfolded pl s]
  show ?thesis
    unfolding iter_rest_def iter_at_def using at chain F
    by (simp, intro exI [of _ qs]) simp
qed

lemma walk_pages_rest:
  assumes "scan_quiet b0 first ps b" "heap_chain b0 nxt qs" "set qs \<subseteq> set ps"
  shows "\<exists>it' b'. walk_pages nxt it b = Some (it', b') \<and> iter_rest b0 first ps it' b' (chain_list b0 qs)"
  using assms
proof (induction qs arbitrary: nxt it b)
  case Nil
  then show ?case by (simp add: walk_pages.simps iter_rest_end)
next
  case (Cons q qs)
  have nq: "nxt = q" and q: "q \<in> set ps" and qs: "set qs \<subseteq> set ps"
    and chain: "heap_chain b0 (ph_next_page_id (p_header (hp_page b0 q))) qs"
    using Cons.prems(2,3) by auto
  obtain f b1 where F: "BufferPoolManager_FetchPage q b = (Some f, b1)" "scan_at b0 first ps q f b1" "q \<noteq> INVALID_PAGE_ID"
    by (rule scan_fetch [OF Cons.prems(1) q])
  note A = F(2) [unfolded scan_at_def]
  have inv: "page_inv (frame_page b1 f)" and pl: "page_list q (frame_page b1 f) = page_list q (hp_page b0 q)"
    using A by (simp, intro page_list_same) simp
  show ?case
  proof (cases "first_record 0 (frame_page b1 f)")
    case None
    let ?it = "it\<lparr>hi_page_id := q\<rparr>" and ?b2 = "snd (BufferPoolManager_UnpinPage q False b1)"
    have "walk_pages nxt it b = walk_pages (ph_next_page_id (p_header (hp_page b0 q))) ?it ?b2"
      using F(1,3) None nq A by (subst walk_pages.simps) (simp add: same_page_def Page_GetNextPageId_def)
    moreover have "page_list q (hp_page b0 q) 0 = []" using first_record_spec(1) [OF inv None, of q] pl by simp
    moreover have "scan_quiet b0 first ps ?b2" using A by blast
    ultimately show ?thesis using Cons.IH [OF _ chain qs, of ?b2 ?it] by simp
  next
    case (Some slot)
    have "walk_pages nxt it b = Some (iter_at q f slot it, b1)"
      using F(1,3) Some nq by (subst walk_pages.simps) simp
    then show ?thesis using iter_rest_at [OF F(2) Some chain qs, of it] by simp
  qed
qed

lemma advance_rest:
  assumes at: "scan_at b0 first ps p f b" and it: "hi_page it = Some f" "hi_page_id it = p"
    and slot: "unat (hi_slot it) < 65535"
    and chain: "heap_chain b0 (ph_next_page_id (p_header (hp_page b0 p))) qs" "set qs \<subseteq> set ps"
  shows "\<exists>it' b'. HeapFileIterator_AdvanceToNextRecord it b = Some (it', b') \<and>
    iter_rest b0 first ps it' b' (page_list p (hp_page b0 p) (Suc (unat (hi_slot it))) @ chain_list b0 qs)"
proof -
  note A = at [unfolded scan_at_def]
  have inv: "page_inv (frame_page b f)" and pl: "page_list p (frame_page b f) = page_list p (hp_page b0 p)"
    using A by (simp, intro page_list_same) simp
  have s: "unat (hi_slot it + 1) = Suc (unat (hi_slot it))" using slot by (simp add: word_nat)
  show ?thesis
  proof (cases "first_record (Suc (unat (hi_slot it))) (frame_page b f)")
    case None
    have "HeapFileIterator_AdvanceToNextRecord it b =
        walk_pages (ph_next_page_id (p_header (hp_page b0 p))) it (snd (BufferPoolManager_UnpinPage p False b))"
      using it s None A
      by (simp add: HeapFileIterator_AdvanceToNextRecord_def same_page_def Page_GetNextPageId_def)
    moreover have "page_list p (hp_page b0 p) (Suc (unat (hi_slot it))) = []"
      using first_record_spec(1) [OF inv None, of p] pl by simp
    ultimately show ?thesis using walk_pages_rest [OF _ chain] A by simp
  next
    case (Some slot)
    have "HeapFileIterator_AdvanceToNextRecord it b = Some (iter_at p f slot it, b)"
      using it s Some by (simp add: HeapFileIterator_AdvanceToNextRecord_def)
    then show ?thesis using iter_rest_at [OF at Some chain, of it] by simp
  qed
qed

lemma next_rest:
  assumes rest: "iter_rest b0 first ps it b (x # xs)"
  shows "hi_valid it \<and> fst x = hi_rid it \<and> HeapFileIterator_GetRecord it b = Some (snd x) \<and>
    (\<exists>it' b'. HeapFileIterator_Next it b = Some (it', b') \<and> iter_rest b0 first ps it' b' xs)"
proof -
  have v: "hi_valid it" using rest by (simp add: iter_rest_def split: if_splits)
  obtain p f qs where I: "hi_page_id it = p" "hi_page it = Some f" "hi_rid it = RID p (hi_slot it)" "scan_at b0 first ps p f b"
    "unat (hi_slot it) < length (p_slots (hp_page b0 p))" "page_recs (hp_page b0 p) (unat (hi_slot it)) \<noteq> None"
    "heap_chain b0 (ph_next_page_id (p_header (hp_page b0 p))) qs" "set qs \<subseteq> set ps"
    "x # xs = (hi_rid it, the (page_recs (hp_page b0 p) (unat (hi_slot it)))) #
       page_list p (hp_page b0 p) (Suc (unat (hi_slot it))) @ chain_list b0 qs"
    using rest v unfolding iter_rest_def by auto
  note A = I(4) [unfolded scan_at_def]
  have inv: "page_inv (frame_page b f)" and sl: "p_slots (frame_page b f) = p_slots (hp_page b0 p)"
    "page_recs (frame_page b f) = page_recs (hp_page b0 p)"
    using A by (simp_all add: same_page_def)
  have lt: "unat (hi_slot it) < 65535" using I(5) sl page_invD(7) [OF inv] by simp
  have "HeapFileIterator_GetRecord it b = page_recs (frame_page b f) (unat (hi_slot it))"
    using I(2) v page_recs_GetRecord [OF inv, of "hi_slot it"] by (simp add: HeapFileIterator_GetRecord_def)
  then show ?thesis
    using advance_rest [OF I(4,2,1) lt I(7,8)] v I(6,9) sl(2) by (auto simp: HeapFileIterator_Next_def)
qed

lemma begin_rest:
  assumes inv: "heap_inv h ps"
  shows "\<exists>it b. HeapFile_Begin h = Some (it, b) \<and> iter_rest (hf_bpm h) (hf_first h) ps it b (chain_list (hf_bpm h) ps)"
proof -
  note C = heap_coreD [OF heap_inv_core [OF inv]]
  obtain qs where qs: "ps = hf_first h # qs" using C(2,4) by (cases ps) auto
  let ?p = "hf_first h" and ?b0 = "hf_bpm h"
  have chain: "heap_chain ?b0 (ph_next_page_id (p_header (hp_page ?b0 ?p))) qs" "set qs \<subseteq> set ps" and p: "?p \<in> set ps"
    using C(4) qs by auto
  have q0: "scan_quiet ?b0 ?p ps ?b0"
    using heap_inv_core [OF inv] quietD(1) [OF C(1)] by (simp add: scan_quiet_def same_frame_def)
  obtain f b1 where F: "BufferPoolManager_FetchPage ?p ?b0 = (Some f, b1)" "scan_at ?b0 ?p ps ?p f b1" "?p \<noteq> INVALID_PAGE_ID"
    by (rule scan_fetch [OF q0 p])
  note A = F(2) [unfolded scan_at_def]
  have pinv: "page_inv (frame_page b1 f)" and sl: "p_slots (frame_page b1 f) = p_slots (hp_page ?b0 ?p)"
    "page_recs (frame_page b1 f) = page_recs (hp_page ?b0 ?p)"
    using A by (simp_all add: same_page_def)
  have n: "Page_GetNumSlots (frame_page b1 f) = 0 \<longleftrightarrow> p_slots (hp_page ?b0 ?p) = []"
    using page_invD(1) [OF pinv] sl by (simp add: Page_GetNumSlots_def unat_eq_0 flip: length_0_conv)
  have live: "Page_GetRecord 0 (frame_page b1 f) \<noteq> None \<longleftrightarrow> page_recs (hp_page ?b0 ?p) 0 \<noteq> None"
    using GetRecord_live [OF pinv, of 0] sl(2) by simp
  let ?it = "\<lparr>hi_page_id = ?p, hi_slot = 0, hi_page = Some f, hi_rid = RID_default, hi_valid = False\<rparr>"
  have split: "page_list ?p (hp_page ?b0 ?p) 0 =
      (if p_slots (hp_page ?b0 ?p) \<noteq> [] \<and> page_recs (hp_page ?b0 ?p) 0 \<noteq> None
       then [(RID ?p 0, the (page_recs (hp_page ?b0 ?p) 0))] else []) @ page_list ?p (hp_page ?b0 ?p) 1"
    by (cases "p_slots (hp_page ?b0 ?p)") (auto simp: page_list_def upt_conv_Cons simp del: upt_Suc)
  show ?thesis
  proof (cases "p_slots (hp_page ?b0 ?p) \<noteq> [] \<and> page_recs (hp_page ?b0 ?p) 0 \<noteq> None")
    case True
    let ?it1 = "?it\<lparr>hi_valid := True, hi_rid := RID ?p 0\<rparr>"
    have "HeapFile_Begin h = Some (?it1, b1)"
      using F(1,3) n live True by (simp add: HeapFile_Begin_def HeapFileIterator_new_def Let_def)
    moreover have "iter_rest ?b0 ?p ps ?it1 b1 (chain_list ?b0 ps)"
      unfolding iter_rest_def using F(2) True chain split
      by (simp, intro exI [of _ qs]) (simp add: qs)
    ultimately show ?thesis by blast
  next
    case False
    have "HeapFile_Begin h = HeapFileIterator_AdvanceToNextRecord ?it b1"
      using F(1,3) n live False by (auto simp: HeapFile_Begin_def HeapFileIterator_new_def Let_def)
    moreover have "chain_list ?b0 ps = page_list ?p (hp_page ?b0 ?p) 1 @ chain_list ?b0 qs"
      unfolding qs chain_list_simps using split False by auto
    ultimately show ?thesis
      using advance_rest [OF F(2) _ _ _ chain, of ?it] by simp
  qed
qed

text \<open>The loop of the usage note in \<open>heap_file.h\<close>: every record the iterator delivers.\<close>

partial_function (option) scan_loop :: "heap_iter \<Rightarrow> bpm \<Rightarrow> ((rid \<times> u8 list) list \<times> bpm) option" where
  "scan_loop it b =
     (if \<not> hi_valid it then Some ([], b)
      else case HeapFileIterator_GetRecord it b of
        None \<Rightarrow> None
      | Some bytes \<Rightarrow>
          (case HeapFileIterator_Next it b of
             None \<Rightarrow> None
           | Some (it', b') \<Rightarrow>
               Option.bind (scan_loop it' b') (\<lambda>(xs, b''). Some ((hi_rid it, bytes) # xs, b''))))"

definition scan_heap :: "heap_file \<Rightarrow> ((rid \<times> u8 list) list \<times> bpm) option" where
  "scan_heap h = (case HeapFile_Begin h of None \<Rightarrow> None | Some (it, b) \<Rightarrow> scan_loop it b)"

lemma scan_loop_rest:
  assumes "iter_rest b0 first ps it b xs"
  shows "\<exists>b'. scan_loop it b = Some (xs, b') \<and> scan_quiet b0 first ps b'"
  using assms
proof (induction xs arbitrary: it b)
  case Nil
  then have "\<not> hi_valid it" by (auto simp: iter_rest_def)
  then show ?case using Nil by (auto simp: iter_rest_def scan_loop.simps)
next
  case (Cons x xs)
  note N = next_rest [OF Cons.prems]
  then obtain it' b' where n: "HeapFileIterator_Next it b = Some (it', b')" "iter_rest b0 first ps it' b' xs" by blast
  obtain b'' where "scan_loop it' b' = Some (xs, b'')" "scan_quiet b0 first ps b''" using Cons.IH [OF n(2)] by blast
  then show ?case using N n(1) by (subst scan_loop.simps) (cases x, auto)
qed

text \<open>The members of \<open>page_list\<close> and of \<open>chain_list\<close>, and that no id comes twice.\<close>

lemma page_list_mem:
  assumes "length (p_slots pg) \<le> 1019"
  shows "(r, bs) \<in> set (page_list p pg 0) \<longleftrightarrow> rid_page_id r = p \<and> page_recs pg (unat (rid_slot_id r)) = Some bs"
proof
  have "s < length (p_slots pg) \<Longrightarrow> s < 65536" for s using assms by simp
  then show "(r, bs) \<in> set (page_list p pg 0) \<Longrightarrow> rid_page_id r = p \<and> page_recs pg (unat (rid_slot_id r)) = Some bs"
    by (auto simp: page_list_def unat16_of_nat)
next
  assume a: "rid_page_id r = p \<and> page_recs pg (unat (rid_slot_id r)) = Some bs"
  then have "unat (rid_slot_id r) < length (p_slots pg)"
    by (auto simp: page_recs_def slot_recs_def split: if_splits)
  then show "(r, bs) \<in> set (page_list p pg 0)"
    using a by (cases r) (force simp: page_list_def image_iff)
qed

lemma page_list_distinct:
  assumes "length (p_slots pg) \<le> 1019"
  shows "distinct (map fst (page_list p pg 0))"
proof -
  have "inj_on (\<lambda>s. RID p (of_nat s)) {s. s < length (p_slots pg)}"
    using assms by (intro inj_onI) (auto dest!: arg_cong [of _ _ unat] simp: unat16_of_nat)
  then show ?thesis
    by (auto simp: page_list_def distinct_map comp_def intro: inj_on_subset)
qed

lemma page_list_length: "page_inv pg \<Longrightarrow> length (page_list p pg 0) = unat (ph_num_records (p_header pg))"
  using page_invD(5) [of pg]
  by (auto simp: page_list_def page_recs_def slot_recs_def length_filter_conv_card intro!: arg_cong [of _ _ card])

lemma chain_list_mem:
  assumes "\<And>p. p \<in> set qs \<Longrightarrow> page_inv (hp_page b p)"
  shows "(r, bs) \<in> set (chain_list b qs) \<longleftrightarrow>
    rid_page_id r \<in> set qs \<and> page_recs (hp_page b (rid_page_id r)) (unat (rid_slot_id r)) = Some bs"
proof -
  have "(r, bs) \<in> set (page_list p (hp_page b p) 0) \<longleftrightarrow>
      rid_page_id r = p \<and> page_recs (hp_page b p) (unat (rid_slot_id r)) = Some bs" if "p \<in> set qs" for p
    by (rule page_list_mem [OF page_invD(7) [OF assms [OF that]]])
  then show ?thesis by (auto simp: chain_list_def)
qed

lemma chain_list_distinct:
  "distinct qs \<Longrightarrow> (\<And>p. p \<in> set qs \<Longrightarrow> page_inv (hp_page b p)) \<Longrightarrow> distinct (map fst (chain_list b qs))"
proof (induction qs)
  case (Cons q qs)
  have "fst ` set (page_list q (hp_page b q) 0) \<inter> fst ` set (chain_list b qs) = {}"
    using chain_list_mem [of qs b] Cons.prems by (fastforce simp: page_list_def)
  then show ?case
    using Cons page_list_distinct [OF page_invD(7) [OF Cons.prems(2)], of q q] by simp
qed simp

lemma chain_list_map:
  assumes inv: "heap_inv h ps"
  shows "map_of (chain_list (hf_bpm h) ps) = heap_recs h ps" "distinct (map fst (chain_list (hf_bpm h) ps))"
    and "length (chain_list (hf_bpm h) ps) = chain_records (hf_bpm h) ps"
proof -
  let ?b = "hf_bpm h"
  note C = heap_coreD [OF heap_inv_core [OF inv]]
  have mem: "(r, bs) \<in> set (chain_list ?b ps) \<longleftrightarrow>
      rid_page_id r \<in> set ps \<and> page_recs (hp_page ?b (rid_page_id r)) (unat (rid_slot_id r)) = Some bs" for r bs
    using C(6) by (intro chain_list_mem)
  show dist: "distinct (map fst (chain_list ?b ps))" using C(3,6) by (intro chain_list_distinct)
  show "map_of (chain_list ?b ps) = heap_recs h ps"
  proof
    fix r
    show "map_of (chain_list ?b ps) r = heap_recs h ps r"
    proof (cases "heap_recs h ps r")
      case None
      then show ?thesis using mem [of r] by (auto simp: heap_recs_def map_of_eq_None_iff split: if_splits)
    next
      case (Some bs)
      then have "(r, bs) \<in> set (chain_list ?b ps)" using mem [of r] by (auto simp: heap_recs_def split: if_splits)
      then show ?thesis using Some map_of_is_SomeI [OF dist] by simp
    qed
  qed
  have "set qs \<subseteq> set ps \<Longrightarrow> length (chain_list ?b qs) = chain_records ?b qs" for qs
    using C(6) by (induction qs) (auto simp: chain_records_def page_list_length)
  then show "length (chain_list ?b ps) = chain_records ?b ps" by simp
qed

end
