(* ===== verification/HeapBulk.thy ===== *)
theory HeapBulk
  imports HeapScan
begin

text \<open>
  \<open>HeapFile::BulkInsert\<close> of \<open>src/storage/heap_file.cpp\<close>: a sequence of records is inserted with the
  target page pinned as long as it takes records. The abstract operation is a sequence of
  insertions into a map from record ids to bytes.
\<close>

section \<open>The operation\<close>

text \<open>
  The state of the loop is the current page id, its frame (\<open>None\<close> is \<open>nullptr\<close>) and the
  record ids so far. A record that follows a failed fetch dereferences the null pointer; the
  value is \<open>None\<close> then.
\<close>

fun bulk_loop :: "(u8 list option \<times> u16) list \<Rightarrow> u32 \<Rightarrow> u32 option \<Rightarrow> rid list \<Rightarrow> heap_file \<Rightarrow>
    ((db_error + u32 \<times> u32 option \<times> rid list) \<times> heap_file) option" where
  "bulk_loop [] cur page rids h = Some (Inr (cur, page, rids), h)"
| "bulk_loop (_ # _) cur None rids h = None"
| "bulk_loop ((data, len) # rs) cur (Some f) rids h =
     (case Page_InsertRecord data len (hf_page h f) of
        (Some slot, pg) \<Rightarrow>
          let h1 = hf_set_page f pg h
          in bulk_loop rs cur (Some f) (rids @ [RID cur slot]) (h1\<lparr>hf_record_count := hf_record_count h1 + 1\<rparr>)
      | (None, pg) \<Rightarrow>
          (case HeapFile_FindPageWithSpace len (forget_space cur (hf_unpin cur True (hf_set_page f pg h))) of
             (Inl e, h1) \<Rightarrow> Some (Inl e, h1)
           | (Inr cur', h1) \<Rightarrow>
               (case hf_fetch cur' h1 of
                  (None, h2) \<Rightarrow> bulk_loop rs cur' None (rids @ [RID_default]) h2
                | (Some g, h2) \<Rightarrow>
                    (case Page_InsertRecord data len (hf_page h2 g) of
                       (Some slot, pg) \<Rightarrow>
                         let h3 = hf_set_page g pg h2
                         in bulk_loop rs cur' (Some g) (rids @ [RID cur' slot])
                              (h3\<lparr>hf_record_count := hf_record_count h3 + 1\<rparr>)
                     | (None, pg) \<Rightarrow> bulk_loop rs cur' (Some g) (rids @ [RID_default]) (hf_set_page g pg h2)))))"

text \<open>The fallback when no page can be fetched at the start.\<close>

fun single_inserts :: "(u8 list option \<times> u16) list \<Rightarrow> rid list \<Rightarrow> heap_file \<Rightarrow> (db_error + rid list) \<times> heap_file" where
  "single_inserts [] rids h = (Inr rids, h)"
| "single_inserts ((data, len) # rs) rids h =
     (case HeapFile_InsertRecord data len h of
        (Inl e, h1) \<Rightarrow> (Inl e, h1)
      | (Inr r, h1) \<Rightarrow> single_inserts rs (rids @ [r]) h1)"

definition HeapFile_BulkInsert ::
    "(u8 list option \<times> u16) list \<Rightarrow> heap_file \<Rightarrow> ((db_error + rid list) \<times> heap_file) option" where
  "HeapFile_BulkInsert rs h =
     (case HeapFile_FindPageWithSpace 64 h of
        (Inl e, h1) \<Rightarrow> Some (Inl e, h1)
      | (Inr cur, h1) \<Rightarrow>
          (case hf_fetch cur h1 of
             (None, h2) \<Rightarrow> Some (single_inserts rs [] h2)
           | (Some f, h2) \<Rightarrow>
               (case bulk_loop rs cur (Some f) [] h2 of
                  None \<Rightarrow> None
                | Some (Inl e, h3) \<Rightarrow> Some (Inl e, h3)
                | Some (Inr (cur', None, rids), h3) \<Rightarrow> Some (Inr rids, h3)
                | Some (Inr (cur', Some g, rids), h3) \<Rightarrow>
                    let h4 = (if \<not> Page_HasSpaceFor 64 (hf_page h3 g) then forget_space cur' h3 else h3)
                    in Some (Inr rids, hf_unpin cur' True h4))))"

section \<open>The abstract operation\<close>

text \<open>A record the heap file can store, and what storing it under id \<open>r\<close> does to the record map.\<close>

definition storable :: "u8 list option \<times> u16 \<Rightarrow> bool" where
  "storable x \<longleftrightarrow> fst x \<noteq> None \<and> snd x \<noteq> 0 \<and> unat (snd x) \<le> 4072"

definition store_one :: "u8 list option \<times> u16 \<Rightarrow> rid \<Rightarrow> (rid \<rightharpoonup> u8 list) \<Rightarrow> (rid \<rightharpoonup> u8 list) \<Rightarrow> bool" where
  "store_one x r m m' \<longleftrightarrow>
     (if storable x then RID_IsValid r \<and> m r = None \<and> m' = m(r \<mapsto> take (unat (snd x)) (the (fst x)))
      else r = RID_default \<and> m' = m)"

primrec store_all ::
    "(u8 list option \<times> u16) list \<Rightarrow> rid list \<Rightarrow> (rid \<rightharpoonup> u8 list) \<Rightarrow> (rid \<rightharpoonup> u8 list) \<Rightarrow> bool" where
  "store_all [] rids m m' \<longleftrightarrow> rids = [] \<and> m' = m"
| "store_all (x # xs) rids m m' \<longleftrightarrow>
     (case rids of [] \<Rightarrow> False | r # rs \<Rightarrow> \<exists>m1. store_one x r m m1 \<and> store_all xs rs m1 m')"

section \<open>The pool during a bulk insertion\<close>

text \<open>
  The heap file was in state \<open>h0\<close> when the current page was fetched; since then records went into
  the frame, and unpinning the page makes the heap file whole again.
\<close>

definition bulk_at :: "heap_file \<Rightarrow> u32 list \<Rightarrow> u32 \<Rightarrow> u32 \<Rightarrow> (rid \<rightharpoonup> u8 list) \<Rightarrow> nat \<Rightarrow> bool" where
  "bulk_at h ps cur f m room \<longleftrightarrow>
     page_inv (hf_page h f) \<and> unat f < length (bp_pages (hf_bpm h)) \<and> cur \<in> set ps \<and> cur \<noteq> INVALID_PAGE_ID \<and>
     set (hf_space h) \<subseteq> set ps \<and> distinct (hf_space h) \<and>
     (\<forall>s. m (RID cur s) = page_recs (hf_page h f) (unat s)) \<and>
     (\<exists>h0 h1. heap_inv h0 ps \<and> hf_fetch cur h0 = (Some f, h1) \<and>
        hf_bpm h = set_page f (hf_page h f) (hf_bpm h1) \<and>
        hf_first h = hf_first h1 \<and> hf_last h = hf_last h1 \<and> hf_page_count h = hf_page_count h1 \<and>
        ph_next_page_id (p_header (hf_page h f)) = ph_next_page_id (p_header (hf_page h1 f)) \<and>
        hf_record_count h + of_nat (unat (ph_num_records (p_header (hf_page h1 f)))) =
          hf_record_count h1 + of_nat (unat (ph_num_records (p_header (hf_page h f)))) \<and>
        (\<forall>r. rid_page_id r \<noteq> cur \<longrightarrow> m r = heap_recs h0 ps r) \<and> room = disk_room (bp_disk (hf_bpm h0)))"

lemma bulk_start:
  assumes inv: "heap_inv h ps" and p: "p \<in> set ps" and fetch: "hf_fetch p h = (Some f, h1)"
  shows "bulk_at h1 ps p f (heap_recs h ps) (disk_room (bp_disk (hf_bpm h)))"
proof -
  obtain g h2 where V: "hf_fetch p h = (Some g, h2)" "same_page (hf_page h2 g) (hp_page (hf_bpm h) p)"
    "h2 = h\<lparr>hf_bpm := hf_bpm h2\<rparr>" "bpm_inv (hf_bpm h2)" "bp_table (hf_bpm h2) p = Some g"
    by (rule heap_visit [OF heap_inv_core [OF inv] p]) blast
  have eq: "g = f" "h2 = h1" using V(1) fetch by simp_all
  note W = V(2-5) [unfolded eq]
  note M = bpm_memD [OF bpm_okD(1) [OF W(3)]]
  have "unat f < length (bp_pages (hf_bpm h1))" using M(2) M(1) W(4) M by auto
  moreover have "page_inv (hf_page h1 f)" "page_recs (hf_page h1 f) = page_recs (hp_page (hf_bpm h) p)"
    using same_page_inv [OF W(1)] heap_coreD(6) [OF heap_inv_core [OF inv] p] W(1) by (simp_all add: same_page_def)
  moreover have "hf_space h1 = hf_space h" using hf_fields [OF W(2)] by simp
  moreover have "set (hf_space h) \<subseteq> set ps" "distinct (hf_space h)" using inv by (simp_all add: heap_inv_def)
  moreover have "hf_bpm h1 = set_page f (hf_page h1 f) (hf_bpm h1)" by (simp add: set_page_def)
  ultimately show ?thesis
    unfolding bulk_at_def using inv p fetch heap_coreD(8) [OF heap_inv_core [OF inv] p]
    by (intro conjI exI [of _ h] exI [of _ h1]) (simp_all add: heap_recs_page)
qed

lemma set_page_twice: "set_page f p (set_page f q b) = set_page f p b"
  by (simp add: set_page_def)

lemma bulk_put:
  assumes at: "bulk_at h ps cur f m room" and ins: "Page_InsertRecord (Some bytes) len (hf_page h f) = (Some slot, pg)"
    and len: "unat len \<le> length bytes"
  shows "bulk_at ((hf_set_page f pg h)\<lparr>hf_record_count := hf_record_count h + 1\<rparr>) ps cur f
      (m(RID cur slot \<mapsto> take (unat len) bytes)) room"
    and "store_one (Some bytes, len) (RID cur slot) m (m(RID cur slot \<mapsto> take (unat len) bytes))"
proof -
  note A = at [unfolded bulk_at_def]
  have inv: "page_inv (hf_page h f)" and f: "unat f < length (bp_pages (hf_bpm h))" using A by blast+
  note S = InsertRecord_step [OF inv ins len] and H = InsertRecord_header [OF ins]
  let ?h = "(hf_set_page f pg h)\<lparr>hf_record_count := hf_record_count h + 1\<rparr>"
  have pg: "hf_page ?h f = pg" using f by (simp add: hf_set_page_def set_page_def)
  have n: "unat (ph_num_records (p_header pg)) = Suc (unat (ph_num_records (p_header (hf_page h f))))"
    using H unat_num_records [OF inv] by (simp add: word_nat)
  have "insert_fits len (hf_page h f)" using InsertRecord_fits_iff [OF inv] ins by blast
  then have "storable (Some bytes, len)" using insert_fits_bound [OF inv] by (simp add: storable_def)
  then show "store_one (Some bytes, len) (RID cur slot) m (m(RID cur slot \<mapsto> take (unat len) bytes))"
    using A S by (simp add: store_one_def RID_IsValid_def)
  obtain h0 h1 where X: "heap_inv h0 ps" "hf_fetch cur h0 = (Some f, h1)"
    "hf_bpm h = set_page f (hf_page h f) (hf_bpm h1)"
    "hf_first h = hf_first h1" "hf_last h = hf_last h1" "hf_page_count h = hf_page_count h1"
    "ph_next_page_id (p_header (hf_page h f)) = ph_next_page_id (p_header (hf_page h1 f))"
    "hf_record_count h + of_nat (unat (ph_num_records (p_header (hf_page h1 f)))) =
      hf_record_count h1 + of_nat (unat (ph_num_records (p_header (hf_page h f))))"
    "\<forall>r. rid_page_id r \<noteq> cur \<longrightarrow> m r = heap_recs h0 ps r" "room = disk_room (bp_disk (hf_bpm h0))"
    using A by blast
  have b: "hf_bpm ?h = set_page f pg (hf_bpm h1)"
    using set_page_twice [of f pg "hf_page h f" "hf_bpm h1"] X(3) by (simp add: hf_set_page_def)
  have cnt: "hf_record_count ?h + of_nat (unat (ph_num_records (p_header (hf_page h1 f)))) =
      hf_record_count h1 + of_nat (unat (ph_num_records (p_header pg)))"
    using X(8) unfolding n by (simp add: algebra_simps)
  have m: "\<forall>s. (m(RID cur slot \<mapsto> take (unat len) bytes)) (RID cur s) = page_recs pg (unat s)"
    using A S by (auto simp: unat_inj)
  have m': "\<forall>r. rid_page_id r \<noteq> cur \<longrightarrow> (m(RID cur slot \<mapsto> take (unat len) bytes)) r = heap_recs h0 ps r"
    using X(9) by auto
  have fields: "hf_first ?h = hf_first h1" "hf_last ?h = hf_last h1" "hf_page_count ?h = hf_page_count h1"
    "hf_space ?h = hf_space h" "length (bp_pages (hf_bpm ?h)) = length (bp_pages (hf_bpm h))"
    using X(4-6) by (simp_all add: hf_set_page_def set_page_def)
  have nx: "ph_next_page_id (p_header pg) = ph_next_page_id (p_header (hf_page h1 f))" using H X(7) by simp
  show "bulk_at ?h ps cur f (m(RID cur slot \<mapsto> take (unat len) bytes)) room"
    unfolding bulk_at_def pg fields
    using A S f m b X(1,2,10) nx cnt m' by blast
qed

lemma bulk_end:
  assumes at: "bulk_at h ps cur f m room"
  shows "heap_inv (hf_unpin cur True h) ps" "heap_recs (hf_unpin cur True h) ps = m"
    and "disk_room (bp_disk (hf_bpm (hf_unpin cur True h))) = room"
proof -
  note A = at [unfolded bulk_at_def]
  obtain h0 h1 where X: "heap_inv h0 ps" "hf_fetch cur h0 = (Some f, h1)"
    "hf_bpm h = set_page f (hf_page h f) (hf_bpm h1)"
    "hf_first h = hf_first h1" "hf_last h = hf_last h1" "hf_page_count h = hf_page_count h1"
    "ph_next_page_id (p_header (hf_page h f)) = ph_next_page_id (p_header (hf_page h1 f))"
    "hf_record_count h + of_nat (unat (ph_num_records (p_header (hf_page h1 f)))) =
      hf_record_count h1 + of_nat (unat (ph_num_records (p_header (hf_page h f))))"
    "\<forall>r. rid_page_id r \<noteq> cur \<longrightarrow> m r = heap_recs h0 ps r" "room = disk_room (bp_disk (hf_bpm h0))"
    using A by blast
  let ?u = "hf_unpin cur True h"
  have b: "hf_bpm ?u = snd (BufferPoolManager_UnpinPage cur True (set_page f (hf_page h f) (hf_bpm h1)))"
    using X(3) by (simp add: hf_unpin_def)
  have p: "cur \<in> set ps" and inv: "page_inv (hf_page h f)" using A by blast+
  note C = change_on_page [OF X(1) p X(2) inv X(7) add.commute [of "unat (ph_num_records (p_header (hf_page h f)))"] disjI1 [OF TrueI] b]
  have s: "set (hf_space ?u) \<subseteq> set ps" "distinct (hf_space ?u)" using A by (simp_all add: hf_unpin_def)
  have r: "hf_record_count ?u + of_nat (unat (ph_num_records (p_header (hf_page h1 f)))) =
      hf_record_count h1 + of_nat (unat (ph_num_records (p_header (hf_page h f))))"
    using X(8) by (simp add: hf_unpin_def)
  have fields: "hf_first ?u = hf_first h1" "hf_last ?u = hf_last h1" "hf_page_count ?u = hf_page_count h1"
    using X(4-6) by (simp_all add: hf_unpin_def)
  note D = C [OF fields r s]
  show "heap_inv ?u ps" by (rule D(1))
  show "disk_room (bp_disk (hf_bpm ?u)) = room" using D(2) X(10) by (simp add: same_frame_def)
  have mc: "m r = page_recs (hf_page h f) (unat (rid_slot_id r))" if "rid_page_id r = cur" for r
    using A that by (metis rid.collapse)
  show "heap_recs ?u ps = m"
    unfolding D(3) using X(9) mc by (auto simp: fun_eq_iff)
qed

section \<open>Correctness\<close>

lemma store_one_refused: "\<not> storable x \<Longrightarrow> store_one x RID_default m m"
  by (simp add: store_one_def)

lemma insert_none: "Page_InsertRecord None len p = (None, p)"
  by (simp add: Page_InsertRecord_def)

lemma insert_refused:
  assumes "page_inv p" "Page_InsertRecord data len p = (None, p')"
  shows "p' = p"
  using assms(2) insert_none InsertRecord_no_fit [OF assms(1)] InsertRecord_fits_iff [OF assms(1)]
  by (metis (no_types) Pair_inject not_None_eq option.distinct(1))

text \<open>The branch of a record that the current page does not take: another page is found or allocated.\<close>

lemma bulk_move:
  assumes at: "bulk_at h ps cur f m room" and room: "0 < room"
    and ins: "Page_InsertRecord data len (hf_page h f) = (None, pg)"
  obtains cur' g h1 h2 ps' room' where
    "HeapFile_FindPageWithSpace len (forget_space cur (hf_unpin cur True (hf_set_page f pg h))) = (Inr cur', h1)"
    "hf_fetch cur' h1 = (Some g, h2)" "bulk_at h2 ps' cur' g m room'" "room \<le> Suc room'" "\<exists>new. ps' = ps @ new"
    "len \<noteq> 0 \<and> unat len \<le> 4072 \<Longrightarrow> insert_fits len (hf_page h2 g)"
proof -
  have inv: "page_inv (hf_page h f)" using at by (simp add: bulk_at_def)
  have "pg = hf_page h f" by (rule insert_refused [OF inv ins])
  then have pg: "hf_set_page f pg h = h" by (simp only: hf_set_page_same)
  let ?u = "hf_unpin cur True h"
  let ?h0 = "forget_space cur ?u"
  note E = bulk_end [OF at]
  have sp: "set (remove1 cur (hf_space ?u)) \<subseteq> set (hf_space ?u)" "distinct (remove1 cur (hf_space ?u))"
    using E(1) set_remove1_subset by (auto simp: heap_inv_def)
  have h0: "heap_inv ?h0 ps" "heap_recs ?h0 ps = m" "disk_room (bp_disk (hf_bpm ?h0)) = room"
    using heap_inv_space(1) [OF E(1) sp] heap_inv_space(2) E(2,3) by (simp_all add: forget_space_def)
  obtain cur' h1 ps' where F: "find_space len (hf_space ?h0) ?h0 = (Inr cur', h1)" "found_target len ?h0 ps cur' h1 ps'"
    using find_space_found [OF h0(1) _ refl] h0(3) room by metis
  note T = F(2) [unfolded found_target_def h0]
  have inv1: "heap_inv h1 ps'" and c: "cur' \<in> set ps'" and m1: "heap_recs h1 ps' = m" using T by blast+
  obtain g h2 where V: "hf_fetch cur' h1 = (Some g, h2)" "same_page (hf_page h2 g) (hp_page (hf_bpm h1) cur')"
    by (rule heap_visit [OF heap_inv_core [OF inv1] c]) blast
  have "insert_fits len (hf_page h2 g)" if "len \<noteq> 0 \<and> unat len \<le> 4072"
  proof -
    have l: "0 < len" "len \<le> 65531" using that by (simp_all add: word_gt_0 word_le_nat_alt)
    show ?thesis
      using T l that same_page_free(3) [OF V(2)] same_page_free(3) [of "hp_page (hf_bpm h1) cur'" "new_data_page cur'"]
        insert_fits_new by auto
  qed
  moreover have "bulk_at h2 ps' cur' g m (disk_room (bp_disk (hf_bpm h1)))"
    using bulk_start [OF inv1 c V(1)] unfolding m1 .
  moreover have "room \<le> Suc (disk_room (bp_disk (hf_bpm h1)))" "\<exists>new. ps' = ps @ new" using T by auto
  ultimately show ?thesis using that F(1) V(1) pg by (simp add: HeapFile_FindPageWithSpace_def)
qed

text \<open>
  One record of the loop: it goes to the current page, to another page, or nowhere, and the
  loop continues with the rest of the list.
\<close>

definition bulk_advance ::
  "u8 list option \<times> u16 \<Rightarrow> heap_file \<Rightarrow> u32 list \<Rightarrow> u32 \<Rightarrow> u32 \<Rightarrow> (rid \<Rightarrow> u8 list option) \<Rightarrow> nat \<Rightarrow> bool" where
  "bulk_advance x h ps cur f m room \<longleftrightarrow>
     (\<exists>cur1 f1 h1 new m1 room1 r. bulk_at h1 (ps @ new) cur1 f1 m1 room1 \<and> room \<le> Suc room1 \<and> store_one x r m m1 \<and>
        (\<forall>rs rids. bulk_loop (x # rs) cur (Some f) rids h = bulk_loop rs cur1 (Some f1) (rids @ [r]) h1))"

lemma bulk_advanceI:
  assumes "bulk_at h1 (ps @ new) cur1 f1 m1 room1" "room \<le> Suc room1" "store_one x r m m1"
    and "\<And>rs rids. bulk_loop (x # rs) cur (Some f) rids h = bulk_loop rs cur1 (Some f1) (rids @ [r]) h1"
  shows "bulk_advance x h ps cur f m room"
  unfolding bulk_advance_def using assms by blast

lemma bulk_here:
  assumes at: "bulk_at h ps cur f m room" and ins: "Page_InsertRecord data len (hf_page h f) = (Some slot, pg)"
    and dl: "\<And>bytes. data = Some bytes \<Longrightarrow> unat len \<le> length bytes"
  shows "bulk_advance (data, len) h ps cur f m room"
proof -
  obtain bytes where d: "data = Some bytes" using ins insert_none by (cases data) auto
  note P = bulk_put [OF at ins [unfolded d] dl [OF d]]
  show ?thesis
    by (rule bulk_advanceI [of "(hf_set_page f pg h)\<lparr>hf_record_count := hf_record_count h + 1\<rparr>" ps "[]" cur f
          "m(RID cur slot \<mapsto> take (unat len) bytes)" room])
      (use P d ins in \<open>simp_all add: Let_def hf_set_page_def\<close>)
qed

lemma bulk_elsewhere:
  assumes at: "bulk_at h ps cur f m room" and room: "0 < room"
    and ins: "Page_InsertRecord data len (hf_page h f) = (None, pg)"
    and dl: "\<And>bytes. data = Some bytes \<Longrightarrow> unat len \<le> length bytes"
  shows "bulk_advance (data, len) h ps cur f m room"
proof -
  obtain cur' g h1 h2 ps' room' where M:
    "HeapFile_FindPageWithSpace len (forget_space cur (hf_unpin cur True (hf_set_page f pg h))) = (Inr cur', h1)"
    "hf_fetch cur' h1 = (Some g, h2)" "bulk_at h2 ps' cur' g m room'" "room \<le> Suc room'" "\<exists>new. ps' = ps @ new"
    "len \<noteq> 0 \<and> unat len \<le> 4072 \<Longrightarrow> insert_fits len (hf_page h2 g)"
    by (rule bulk_move [OF at room ins]) blast
  obtain new where new: "ps' = ps @ new" using M(5) by blast
  have inv2: "page_inv (hf_page h2 g)" using M(3) by (simp add: bulk_at_def)
  obtain res pg2 where ins2: "Page_InsertRecord data len (hf_page h2 g) = (res, pg2)" by fastforce
  show ?thesis
  proof (cases res)
    case (Some slot)
    obtain bytes where d: "data = Some bytes" using ins2 Some insert_none by (cases data) auto
    note P = bulk_put [OF M(3) ins2 [unfolded d Some] dl [OF d]]
    show ?thesis
      by (rule bulk_advanceI [of "(hf_set_page g pg2 h2)\<lparr>hf_record_count := hf_record_count h2 + 1\<rparr>" _ new, OF _ M(4)])
        (use P d new ins ins2 Some M(1,2) in \<open>simp_all add: Let_def hf_set_page_def\<close>)
  next
    case None
    have "pg2 = hf_page h2 g" by (rule insert_refused [OF inv2 ins2 [unfolded None]])
    moreover have "\<not> storable (data, len)"
      using M(6) InsertRecord_fits_iff [OF inv2, of "the data" len] ins2 None by (auto simp: storable_def)
    ultimately show ?thesis
      by (intro bulk_advanceI [OF M(3) [unfolded new] M(4) store_one_refused])
        (use ins ins2 None M(1,2) hf_set_page_same in simp_all)
  qed
qed

lemma bulk_loop_correct:
  assumes "bulk_at h ps cur f m room" "length rs \<le> room"
    and "\<And>bytes len. (Some bytes, len) \<in> set rs \<Longrightarrow> unat len \<le> length bytes"
  shows "\<exists>cur' g rids' h' ps' m' room'. bulk_loop rs cur (Some f) rids h = Some (Inr (cur', Some g, rids @ rids'), h') \<and>
    bulk_at h' (ps @ ps') cur' g m' room' \<and> store_all rs rids' m m' \<and> room \<le> room' + length rs"
  using assms
proof (induction rs arbitrary: h ps cur f m room rids)
  case Nil
  then show ?case by (auto intro!: exI [of _ "[]"])
next
  case (Cons x rs)
  obtain data len where x: "x = (data, len)" by fastforce
  have room: "0 < room" using Cons.prems(2) by simp
  have dx: "\<And>bytes. data = Some bytes \<Longrightarrow> unat len \<le> length bytes" using Cons.prems(3) x by simp
  have "bulk_advance x h ps cur f m room"
    using bulk_here [OF Cons.prems(1) _ dx] bulk_elsewhere [OF Cons.prems(1) room _ dx] unfolding x
    by (metis not_None_eq surj_pair)
  then obtain cur1 f1 h1 new m1 room1 r where S: "bulk_at h1 (ps @ new) cur1 f1 m1 room1" "room \<le> Suc room1"
    "store_one x r m m1" "\<And>rs rids. bulk_loop (x # rs) cur (Some f) rids h = bulk_loop rs cur1 (Some f1) (rids @ [r]) h1"
    unfolding bulk_advance_def by blast
  have "length rs \<le> room1" using S(2) Cons.prems(2) by simp
  then obtain cur' g rids' h' ps' m' room' where
    "bulk_loop rs cur1 (Some f1) (rids @ [r]) h1 = Some (Inr (cur', Some g, (rids @ [r]) @ rids'), h')"
    "bulk_at h' ((ps @ new) @ ps') cur' g m' room'" "store_all rs rids' m1 m'" "room1 \<le> room' + length rs"
    using Cons.IH [OF S(1), of "rids @ [r]"] Cons.prems(3) by (metis list.set_intros(2))
  then show ?case
    using S(2,3) unfolding S(4)
    by (intro exI [of _ cur'] exI [of _ g] exI [of _ "r # rids'"] exI [of _ h'] exI [of _ "new @ ps'"] exI [of _ m']
        exI [of _ room']) auto
qed

lemma heap_bulk:
  assumes inv: "heap_inv h ps" and room: "Suc (length rs) \<le> disk_room (bp_disk (hf_bpm h))"
    and dl: "\<And>bytes len. (Some bytes, len) \<in> set rs \<Longrightarrow> unat len \<le> length bytes"
  obtains rids h' new where "HeapFile_BulkInsert rs h = Some (Inr rids, h')" "heap_inv h' (ps @ new)"
    "store_all rs rids (heap_recs h ps) (heap_recs h' (ps @ new))"
    "disk_room (bp_disk (hf_bpm h)) \<le> disk_room (bp_disk (hf_bpm h')) + Suc (length rs)"
proof -
  have pos: "0 < disk_room (bp_disk (hf_bpm h))" using room by simp
  obtain cur h1 ps1 where F: "find_space 64 (hf_space h) h = (Inr cur, h1)" "found_target 64 h ps cur h1 ps1"
    using find_space_found [OF inv pos refl] by metis
  note T = F(2) [unfolded found_target_def]
  have inv1: "heap_inv h1 ps1" and c: "cur \<in> set ps1" using T by blast+
  obtain f h2 where V: "hf_fetch cur h1 = (Some f, h2)"
    by (rule heap_visit [OF heap_inv_core [OF inv1] c]) blast
  have r: "length rs \<le> disk_room (bp_disk (hf_bpm h1))" using T room by auto
  obtain new1 where new1: "ps1 = ps @ new1" using T by blast
  obtain cur' g rids h3 ps' m' room' where L:
    "bulk_loop rs cur (Some f) [] h2 = Some (Inr (cur', Some g, rids), h3)"
    "bulk_at h3 (ps1 @ ps') cur' g m' room'" "store_all rs rids (heap_recs h1 ps1) m'"
    "disk_room (bp_disk (hf_bpm h1)) \<le> room' + length rs"
    using bulk_loop_correct [OF bulk_start [OF inv1 c V] r dl, of "[]"] by auto
  let ?sp = "if \<not> Page_HasSpaceFor 64 (hf_page h3 g) then remove1 cur' (hf_space h3) else hf_space h3"
  let ?h4 = "(hf_unpin cur' True h3)\<lparr>hf_space := ?sp\<rparr>"
  note E = bulk_end [OF L(2)]
  have "HeapFile_BulkInsert rs h = Some (Inr rids, ?h4)"
    using F(1) V L(1) by (simp add: HeapFile_BulkInsert_def HeapFile_FindPageWithSpace_def Let_def forget_space_def hf_unpin_def)
  moreover have "set ?sp \<subseteq> set (hf_space (hf_unpin cur' True h3))" "distinct ?sp"
    using E(1) set_remove1_subset by (auto simp: heap_inv_def hf_unpin_def)
  then have "heap_inv ?h4 (ps1 @ ps')" by (rule heap_inv_space(1) [OF E(1)])
  moreover have "heap_recs ?h4 (ps1 @ ps') = m'" using heap_inv_space(2) E(2) by simp
  moreover have "disk_room (bp_disk (hf_bpm h)) \<le> disk_room (bp_disk (hf_bpm ?h4)) + Suc (length rs)"
    using L(4) E(3) T by auto
  ultimately show ?thesis using that [of rids ?h4 "new1 @ ps'"] L(3) new1 T by simp
qed

end
