(* ===== verification/HeapSpec.thy ===== *)
theory HeapSpec
  imports HeapBulk
begin

text \<open>
  What the heap file promises: it is a map from record ids to records. The operations as one
  datatype of commands, the abstract map they act on, the states a client can reach, and the
  properties of the heap file.
\<close>

section \<open>Commands\<close>

datatype heap_op =
    HInsert "u8 list" u16
  | HDelete rid
  | HUpdate rid "u8 list" u16
  | HBulk "(u8 list option \<times> u16) list"
  | HReopen

fun heap_exec :: "heap_op \<Rightarrow> heap_file \<Rightarrow> heap_file option" where
  "heap_exec (HInsert bytes len) h = Some (snd (HeapFile_InsertRecord (Some bytes) len h))"
| "heap_exec (HDelete r) h = Some (snd (HeapFile_DeleteRecord r h))"
| "heap_exec (HUpdate r bytes len) h = Some (snd (HeapFile_UpdateRecord r bytes len h))"
| "heap_exec (HBulk rs) h = map_option snd (HeapFile_BulkInsert rs h)"
| "heap_exec HReopen h = map_option snd (HeapFile_new (hf_bpm h) (hf_first h))"

text \<open>The bytes are there, the record ids are of the heap's pages, updates are of live records and do not overlap.\<close>

definition update_defined :: "heap_file \<Rightarrow> rid \<Rightarrow> u8 list \<Rightarrow> nat \<Rightarrow> bool" where
  "update_defined h r old n \<longleftrightarrow> n \<le> length old \<or> n \<le> heap_free h r \<or> length old + heap_free h r < n"

fun heap_legal :: "heap_op \<Rightarrow> heap_file \<Rightarrow> u32 list \<Rightarrow> bool" where
  "heap_legal (HInsert bytes len) h ps \<longleftrightarrow> unat len \<le> length bytes"
| "heap_legal (HDelete r) h ps \<longleftrightarrow> rid_page_id r \<in> set ps"
| "heap_legal (HUpdate r bytes len) h ps \<longleftrightarrow> unat len \<le> length bytes \<and>
     (case heap_recs h ps r of None \<Rightarrow> False | Some old \<Rightarrow> update_defined h r old (unat len))"
| "heap_legal (HBulk rs) h ps \<longleftrightarrow>
     list_all (\<lambda>(data, len). case data of None \<Rightarrow> True | Some bytes \<Rightarrow> unat len \<le> length bytes) rs"
| "heap_legal HReopen h ps \<longleftrightarrow> True"

text \<open>The number of new pages an operation may need.\<close>

fun heap_cost :: "heap_op \<Rightarrow> nat" where
  "heap_cost (HInsert _ _) = 2"
| "heap_cost (HDelete _) = 0"
| "heap_cost (HUpdate _ _ _) = 2"
| "heap_cost (HBulk rs) = Suc (length rs)"
| "heap_cost HReopen = 0"

fun map_step :: "heap_op \<Rightarrow> (rid \<rightharpoonup> u8 list) \<Rightarrow> (rid \<rightharpoonup> u8 list) \<Rightarrow> bool" where
  "map_step (HInsert bytes len) m m' \<longleftrightarrow> (\<exists>r. store_one (Some bytes, len) r m m')"
| "map_step (HDelete r) m m' \<longleftrightarrow> m' = m(r := None)"
| "map_step (HUpdate r bytes len) m m' \<longleftrightarrow>
     m' = m(r \<mapsto> take (unat len) bytes) \<or> (\<exists>r'. store_one (Some bytes, len) r' (m(r := None)) m')"
| "map_step (HBulk rs) m m' \<longleftrightarrow> (\<exists>rids. store_all rs rids m m')"
| "map_step HReopen m m' \<longleftrightarrow> m' = m"

abbreviation heap_room :: "heap_file \<Rightarrow> nat" where
  "heap_room h \<equiv> disk_room (bp_disk (hf_bpm h))"

lemma heap_insert_store:
  assumes "heap_inv h ps" "2 \<le> heap_room h" "unat len \<le> length bytes"
  obtains r h' new where "HeapFile_InsertRecord (Some bytes) len h = (Inr r, h')" "heap_inv h' (ps @ new)"
    "heap_room h \<le> heap_room h' + 2" "store_one (Some bytes, len) r (heap_recs h ps) (heap_recs h' (ps @ new))"
proof -
  obtain r h' new where I: "HeapFile_InsertRecord (Some bytes) len h = (Inr r, h')" "heap_inv h' (ps @ new)"
    "heap_room h \<le> heap_room h' + 2"
    "len \<noteq> 0 \<and> unat len \<le> 4072 \<Longrightarrow> RID_IsValid r \<and> heap_recs h ps r = None \<and>
       heap_recs h' (ps @ new) = (heap_recs h ps)(r \<mapsto> take (unat len) bytes)"
    "\<not> (len \<noteq> 0 \<and> unat len \<le> 4072) \<Longrightarrow> r = RID_default \<and> heap_recs h' (ps @ new) = heap_recs h ps"
    by (rule heap_insert [OF assms]) blast
  have "store_one (Some bytes, len) r (heap_recs h ps) (heap_recs h' (ps @ new))"
    using I(4,5) by (simp add: store_one_def storable_def)
  then show ?thesis using that I(1-3) by blast
qed

lemma heap_update_store:
  assumes inv: "heap_inv h ps" and room: "2 \<le> heap_room h" and len: "unat len \<le> length bytes"
    and old: "heap_recs h ps r = Some old" and upd: "update_defined h r old (unat len)"
  obtains r' h' new where "HeapFile_UpdateRecord r bytes len h = (Inr r', h')" "heap_inv h' (ps @ new)"
    "heap_room h \<le> heap_room h' + 2"
    "if length old + heap_free h r < unat len
     then store_one (Some bytes, len) r' ((heap_recs h ps)(r := None)) (heap_recs h' (ps @ new))
     else r' = r \<and> new = [] \<and> heap_recs h' (ps @ new) = (heap_recs h ps)(r \<mapsto> take (unat len) bytes)"
proof (cases "length old + heap_free h r < unat len")
  case True
  obtain h1 where U: "HeapFile_UpdateRecord r bytes len h = HeapFile_InsertRecord (Some bytes) len h1" "heap_inv h1 ps"
    "heap_recs h1 ps = (heap_recs h ps)(r := None)" "same_frame (hf_bpm h) (hf_bpm h1)"
    by (rule heap_update_moves [OF inv old True])
  have room1: "heap_room h1 = heap_room h" using U(4) by (simp add: same_frame_def)
  show ?thesis
    by (rule heap_insert_store [OF U(2) _ len]) (use that U room1 room True in auto)
next
  case False
  then have fit: "unat len \<le> length old \<or> unat len \<le> heap_free h r" using upd by (auto simp: update_defined_def)
  show ?thesis
    by (rule heap_update_in_place [OF inv old len fit]) (use that [of r _ "[]"] False in \<open>auto simp: same_frame_def\<close>)
qed

lemma heap_step:
  assumes inv: "heap_inv h ps" and legal: "heap_legal c h ps" and room: "heap_cost c \<le> heap_room h"
  shows "\<exists>h' new. heap_exec c h = Some h' \<and> heap_inv h' (ps @ new) \<and> heap_room h \<le> heap_room h' + heap_cost c \<and>
    map_step c (heap_recs h ps) (heap_recs h' (ps @ new))"
proof (cases c)
  case (HInsert bytes len)
  then have l: "unat len \<le> length bytes" "2 \<le> heap_room h" using legal room by simp_all
  obtain r h' new where I: "HeapFile_InsertRecord (Some bytes) len h = (Inr r, h')" "heap_inv h' (ps @ new)"
    "heap_room h \<le> heap_room h' + 2" "store_one (Some bytes, len) r (heap_recs h ps) (heap_recs h' (ps @ new))"
    by (rule heap_insert_store [OF inv l(2,1)])
  then show ?thesis using HInsert by auto
next
  case (HDelete r)
  obtain ok h' where d: "HeapFile_DeleteRecord r h = (ok, h')" by fastforce
  have p: "rid_page_id r \<in> set ps" using legal HDelete by simp
  show ?thesis using heap_delete [OF inv p d] d HDelete by (auto simp: same_frame_def intro!: exI [of _ "[]"])
next
  case (HUpdate r bytes len)
  then have l: "unat len \<le> length bytes" "2 \<le> heap_room h" using legal room by simp_all
  obtain old where old: "heap_recs h ps r = Some old" "update_defined h r old (unat len)"
    using legal HUpdate by (auto split: option.splits)
  obtain r' h' new where U: "HeapFile_UpdateRecord r bytes len h = (Inr r', h')" "heap_inv h' (ps @ new)"
    "heap_room h \<le> heap_room h' + 2"
    "if length old + heap_free h r < unat len
     then store_one (Some bytes, len) r' ((heap_recs h ps)(r := None)) (heap_recs h' (ps @ new))
     else r' = r \<and> new = [] \<and> heap_recs h' (ps @ new) = (heap_recs h ps)(r \<mapsto> take (unat len) bytes)"
    by (rule heap_update_store [OF inv l(2,1) old])
  show ?thesis using U HUpdate by (intro exI [of _ h'] exI [of _ new]) (auto split: if_splits)
next
  case (HBulk rs)
  have l: "(Some bytes, len) \<in> set rs \<Longrightarrow> unat len \<le> length bytes" for bytes len
    using legal HBulk by (fastforce simp: list_all_iff)
  have r: "Suc (length rs) \<le> heap_room h" using room HBulk by simp
  obtain rids h' new where B: "HeapFile_BulkInsert rs h = Some (Inr rids, h')" "heap_inv h' (ps @ new)"
    "store_all rs rids (heap_recs h ps) (heap_recs h' (ps @ new))" "heap_room h \<le> heap_room h' + Suc (length rs)"
    by (rule heap_bulk [OF inv r]) (use l in auto)
  then show ?thesis using HBulk by auto
next
  case HReopen
  obtain h' where O: "HeapFile_new (hf_bpm h) (hf_first h) = Some (Inr (), h')" "heap_inv h' ps"
    "heap_recs h' ps = heap_recs h ps" "same_frame (hf_bpm h) (hf_bpm h')"
    by (rule heap_new_open [OF inv])
  show ?thesis using O HReopen by (auto simp: same_frame_def intro!: exI [of _ "[]"])
qed

section \<open>Reachable states\<close>

text \<open>
  The states of a heap file from its creation on a pool without pinned pages; \<open>ps\<close> is its chain
  of pages.
\<close>

inductive heap_reachable :: "heap_file \<Rightarrow> u32 list \<Rightarrow> bool" where
  created: "quiet b \<Longrightarrow> 0 < disk_room (bp_disk b) \<Longrightarrow> HeapFile_new b INVALID_PAGE_ID = Some (Inr (), h) \<Longrightarrow>
    heap_reachable h [hf_first h]"
| command: "heap_reachable h ps \<Longrightarrow> heap_legal c h ps \<Longrightarrow> heap_cost c \<le> heap_room h \<Longrightarrow> heap_exec c h = Some h' \<Longrightarrow>
    heap_chain (hf_bpm h') (hf_first h') ps' \<Longrightarrow> heap_reachable h' ps'"



section \<open>Properties\<close>

text \<open>
  C21. \<open>InsertRecord\<close> stores a record of 1 to 4072 bytes under a fresh valid record id, in a page with
  room or a new page at the end of the chain, and leaves every other record as it was; any other length gives the
  invalid id and stores nothing. The heap invariant is kept.
\<close>

theorem heap_insert_correct:
  assumes "heap_inv h ps" and "2 \<le> heap_room h" and "unat len \<le> length bytes"
  shows "\<exists>r h' new. HeapFile_InsertRecord (Some bytes) len h = (Inr r, h') \<and> heap_inv h' (ps @ new) \<and>
    (if 1 \<le> unat len \<and> unat len \<le> 4072
     then RID_IsValid r \<and> heap_recs h ps r = None \<and>
       heap_recs h' (ps @ new) = (heap_recs h ps)(r \<mapsto> take (unat len) bytes)
     else r = RID_default \<and> heap_recs h' (ps @ new) = heap_recs h ps)"
proof -
  obtain r h' new where "HeapFile_InsertRecord (Some bytes) len h = (Inr r, h')" "heap_inv h' (ps @ new)"
    "store_one (Some bytes, len) r (heap_recs h ps) (heap_recs h' (ps @ new))"
    by (rule heap_insert_store [OF assms])
  then show ?thesis
    by (intro exI [of _ r] exI [of _ h'] exI [of _ new]) (auto simp: store_one_def storable_def unat_gt_0 Suc_le_eq)
qed

text \<open>The heap file of the witnesses: a new one on a pool of two frames.\<close>

lemma demo_pool_quiet: "quiet demo_pool" "0 < disk_room (bp_disk demo_pool)"
proof -
  have "bp_pins demo_pool q = 0" "bp_pool_size demo_pool = 2" for q
    by (simp_all add: bp_pins_def BufferPoolManager_new_def)
  then show "quiet demo_pool" "0 < disk_room (bp_disk demo_pool)"
    by (simp_all add: quiet_def)
qed

lemma demo_heap:
  obtains h p where "HeapFile_new demo_pool INVALID_PAGE_ID = Some (Inr (), h)" "heap_inv h [p]"
    "heap_recs h [p] = (\<lambda>_. None)" "heap_room h = 4294967293" "heap_reachable h [p]" "hf_first h = p"
proof -
  note q = demo_pool_quiet(1) and room = demo_pool_quiet(2)
  obtain p h where H: "HeapFile_new demo_pool INVALID_PAGE_ID = Some (Inr (), h)" "heap_inv h [p]"
    "heap_recs h [p] = (\<lambda>_. None)" "Suc (heap_room h) = disk_room (bp_disk demo_pool)" "hf_first h = p"
    by (rule heap_new_fresh [OF q room])
  then show ?thesis using that heap_reachable.created [OF q room H(1)] by simp
qed

text \<open>... and with one record.\<close>

lemma demo_heap_one:
  obtains h ps r where "heap_inv h ps" "heap_recs h ps = [r \<mapsto> [1, 2, 3]]" "4294967291 \<le> heap_room h"
proof -
  obtain h p where H: "heap_inv h [p]" "heap_recs h [p] = (\<lambda>_. None)" "heap_room h = 4294967293" by (rule demo_heap)
  have a: "2 \<le> heap_room h" "unat (3 :: u16) \<le> length [1 :: u8, 2, 3]" using H(3) by simp_all
  obtain r h' new where "heap_inv h' ([p] @ new)" "heap_room h \<le> heap_room h' + 2"
    "store_one (Some [1, 2, 3], 3) r (heap_recs h [p]) (heap_recs h' ([p] @ new))"
    by (rule heap_insert_store [OF H(1) a])
  then show ?thesis using that [of h' "p # new" r] H(2,3) by (simp add: store_one_def storable_def)
qed

theorem heap_insert_correct_witness:
  "\<exists>h p r h' ps. HeapFile_new demo_pool INVALID_PAGE_ID = Some (Inr (), h) \<and>
     HeapFile_InsertRecord (Some [1, 2, 3]) 3 h = (Inr r, h') \<and> heap_recs h' ps = [r \<mapsto> [1, 2, 3]] \<and> heap_inv h [p]"
proof -
  obtain h p where H: "HeapFile_new demo_pool INVALID_PAGE_ID = Some (Inr (), h)" "heap_inv h [p]"
    "heap_recs h [p] = (\<lambda>_. None)" "heap_room h = 4294967293" by (rule demo_heap)
  then show ?thesis using heap_insert_correct [of h "[p]" 3 "[1, 2, 3]"] by fastforce
qed

text \<open>
  \<open>DeleteRecord\<close> returns whether the id held a record and removes exactly that record; the
  heap invariant is kept.
\<close>

theorem heap_delete_correct:
  assumes "heap_inv h ps" and "rid_page_id r \<in> set ps"
  shows "\<exists>ok h'. HeapFile_DeleteRecord r h = (ok, h') \<and> (ok \<longleftrightarrow> heap_recs h ps r \<noteq> None) \<and> heap_inv h' ps \<and>
    heap_recs h' ps = (heap_recs h ps)(r := None)"
proof -
  obtain ok h' where d: "HeapFile_DeleteRecord r h = (ok, h')" by fastforce
  show ?thesis
    using heap_delete(1) [OF assms d] heap_delete(2) [OF assms d] heap_delete(3) [OF assms d] d by blast
qed

theorem heap_delete_correct_witness:
  "\<exists>h ps r h'. heap_recs h ps = [r \<mapsto> [1, 2, 3]] \<and> HeapFile_DeleteRecord r h = (True, h') \<and>
     heap_recs h' ps = (\<lambda>_. None)"
proof -
  obtain h ps r where H: "heap_inv h ps" "heap_recs h ps = [r \<mapsto> [1, 2, 3]]" by (rule demo_heap_one)
  then have "rid_page_id r \<in> set ps" by (metis fun_upd_same heap_recs_def option.distinct(1))
  then show ?thesis using heap_delete_correct [OF H(1), of r] H(2) by fastforce
qed

text \<open>
  \<open>GetRecord\<close> finds exactly the ids that hold a record; the pointer and length it gives are
  the bytes of the record. After the page is unpinned (by \<open>GetRecord\<close> itself when there is no
  record) the heap file is as it was.
\<close>

theorem heap_get_correct:
  assumes "heap_inv h ps" and "rid_page_id r \<in> set ps"
  shows "case HeapFile_GetRecord r h of
      (None, h') \<Rightarrow> heap_recs h ps r = None \<and> heap_inv h' ps \<and> heap_recs h' ps = heap_recs h ps
    | (Some (f, off, len), h') \<Rightarrow>
        heap_recs h ps r = Some (buf_read (p_data (hf_page h' f)) (unat off) (unat len)) \<and>
        (let h'' = hf_unpin (rid_page_id r) False h' in heap_inv h'' ps \<and> heap_recs h'' ps = heap_recs h ps)"
proof -
  obtain res h' where g: "HeapFile_GetRecord r h = (res, h')" by fastforce
  note G = heap_get(1) [OF assms g, symmetric] heap_get(2) [OF assms g] heap_get(3) [OF assms g]
  show ?thesis using g G by (cases res) (auto simp: Let_def)
qed

theorem heap_get_correct_witness:
  "\<exists>h ps r f off len h'. heap_recs h ps = [r \<mapsto> [1, 2, 3]] \<and> HeapFile_GetRecord r h = (Some (f, off, len), h') \<and>
     buf_read (p_data (hf_page h' f)) (unat off) (unat len) = [1, 2, 3]"
proof -
  obtain h ps r where H: "heap_inv h ps" "heap_recs h ps = [r \<mapsto> [1, 2, 3]]" by (rule demo_heap_one)
  then have "rid_page_id r \<in> set ps" by (metis fun_upd_same heap_recs_def option.distinct(1))
  then show ?thesis
    using heap_get_correct [OF H(1), of r] H(2) by (auto split: prod.splits option.splits) metis
qed



text \<open>
  C22. A sequential scan ends, on any chain of pages: the loop over \<open>Begin\<close>, \<open>IsValid\<close>, \<open>GetRecord\<close> and
  \<open>Next\<close> returns every record of the heap file once with its id, as many as \<open>GetRecordCount\<close>
  says modulo 2 to the 32, and leaves no page pinned and every page as it was.
\<close>

theorem heap_scan_correct:
  assumes "heap_inv h ps"
  shows "\<exists>xs b. scan_heap h = Some (xs, b) \<and> map_of xs = heap_recs h ps \<and> distinct (map fst xs) \<and>
    hf_record_count h = of_nat (length xs) \<and> bp_view b = bp_view (hf_bpm h) \<and> (\<forall>p. bp_pins b p = 0)"
proof -
  obtain it b where B: "HeapFile_Begin h = Some (it, b)"
    "iter_rest (hf_bpm h) (hf_first h) ps it b (chain_list (hf_bpm h) ps)"
    using begin_rest [OF assms] by blast
  obtain b' where L: "scan_loop it b = Some (chain_list (hf_bpm h) ps, b')" "scan_quiet (hf_bpm h) (hf_first h) ps b'"
    using scan_loop_rest [OF B(2)] by blast
  have "hf_record_count h = of_nat (length (chain_list (hf_bpm h) ps))"
    using chain_list_map(3) [OF assms] assms by (simp add: heap_inv_def)
  moreover have "bp_view b' = bp_view (hf_bpm h)" "bp_pins b' p = 0" for p
    using L(2) quietD(2) [of b'] by (simp_all add: scan_quiet_def heap_core_def)
  ultimately show ?thesis using B(1) L(1) chain_list_map(1,2) [OF assms] by (simp add: scan_heap_def)
qed

theorem heap_scan_correct_witness:
  "\<exists>h ps r xs b. heap_recs h ps = [r \<mapsto> [1, 2, 3]] \<and> scan_heap h = Some (xs, b) \<and> map_of xs = [r \<mapsto> [1, 2, 3]]"
proof -
  obtain h ps r where H: "heap_inv h ps" "heap_recs h ps = [r \<mapsto> [1, 2, 3]]" by (rule demo_heap_one)
  then show ?thesis using heap_scan_correct [OF H(1)] by metis
qed

text \<open>
  C35. Opening an existing heap file by its first page id returns: the walk along the chain ends
  and rebuilds the counters, the last page and the free space directory (the pages with 64 bytes
  left), with every record as before.
\<close>

theorem heap_open_correct:
  assumes "heap_inv h ps"
  shows "\<exists>h'. HeapFile_new (hf_bpm h) (hf_first h) = Some (Inr (), h') \<and> heap_inv h' ps \<and> heap_recs h' ps = heap_recs h ps \<and>
    hf_record_count h' = hf_record_count h \<and> hf_page_count h' = hf_page_count h \<and> hf_last h' = hf_last h \<and>
    hf_space h' = filter (roomy (hf_bpm h)) ps"
  by (rule heap_new_open [OF assms]) blast

theorem heap_open_correct_witness:
  "\<exists>h ps h' r. heap_recs h ps = [r \<mapsto> [1, 2, 3]] \<and> HeapFile_new (hf_bpm h) (hf_first h) = Some (Inr (), h') \<and>
     heap_recs h' ps = [r \<mapsto> [1, 2, 3]]"
proof -
  obtain h ps r where H: "heap_inv h ps" "heap_recs h ps = [r \<mapsto> [1, 2, 3]]" by (rule demo_heap_one)
  then show ?thesis using heap_open_correct [OF H(1)] by auto
qed

text \<open>
  \<open>BulkInsert\<close> is the sequence of single insertions: it returns one id per record, each storable
  record is bound to a fresh valid id, the others get the invalid id, and the heap invariant is kept.
\<close>

theorem heap_bulk_correct:
  assumes "heap_inv h ps" and "length rs < heap_room h"
    and "\<forall>x\<in>set rs. case fst x of None \<Rightarrow> True | Some bytes \<Rightarrow> unat (snd x) \<le> length bytes"
  shows "\<exists>rids h' new. HeapFile_BulkInsert rs h = Some (Inr rids, h') \<and> heap_inv h' (ps @ new) \<and>
    store_all rs rids (heap_recs h ps) (heap_recs h' (ps @ new))"
proof -
  have room: "Suc (length rs) \<le> heap_room h" using assms(2) by simp
  have len: "(Some bytes, len) \<in> set rs \<Longrightarrow> unat len \<le> length bytes" for bytes len using assms(3) by fastforce
  show ?thesis by (rule heap_bulk [OF assms(1) room], erule len, blast)
qed

theorem heap_bulk_correct_witness:
  "\<exists>h p rids h' ps. HeapFile_new demo_pool INVALID_PAGE_ID = Some (Inr (), h) \<and> heap_inv h [p] \<and>
     HeapFile_BulkInsert [(Some [1], 1), (None, 5), (Some [2, 3], 2)] h = Some (Inr rids, h') \<and>
     (\<exists>r s. rids = [r, RID_default, s] \<and> r \<noteq> s \<and> heap_recs h' ps = [r \<mapsto> [1], s \<mapsto> [2, 3]])"
proof -
  obtain h p where H: "HeapFile_new demo_pool INVALID_PAGE_ID = Some (Inr (), h)" "heap_inv h [p]"
    "heap_recs h [p] = (\<lambda>_. None)" "heap_room h = 4294967293" by (rule demo_heap)
  let ?rs = "[(Some [1], 1), (None, 5), (Some [2, 3], 2)] :: (u8 list option \<times> u16) list"
  obtain rids h' new where B: "HeapFile_BulkInsert ?rs h = Some (Inr rids, h')" "heap_inv h' ([p] @ new)"
    "store_all ?rs rids (heap_recs h [p]) (heap_recs h' ([p] @ new))"
    using heap_bulk_correct [OF H(2), of ?rs] H(4) by auto
  have "\<exists>r s. rids = [r, RID_default, s] \<and> r \<noteq> s \<and> heap_recs h' ([p] @ new) = [r \<mapsto> [1], s \<mapsto> [2, 3]]"
    using B(3) H(3) by (auto simp: store_one_def storable_def split: list.splits if_splits)
  then show ?thesis using H(1,2) B(1) by blast
qed

text \<open>
  C4. Every command of a client that asks for live updates and has pages left for its cost is carried out, and
  its effect on the records is that of the command on a map from record ids to bytes.
\<close>

theorem heap_refines_record_map:
  assumes "heap_inv h ps" and "heap_legal c h ps" and "heap_cost c \<le> heap_room h"
  shows "\<exists>h' new. heap_exec c h = Some h' \<and> heap_inv h' (ps @ new) \<and> heap_room h \<le> heap_room h' + heap_cost c \<and>
    map_step c (heap_recs h ps) (heap_recs h' (ps @ new))"
  by (rule heap_step [OF assms])

theorem heap_refines_record_map_witness:
  "\<exists>h ps h' ps'. heap_exec (HInsert [7, 7] 2) h = Some h' \<and>
     (\<exists>r r'. r \<noteq> r' \<and> heap_recs h ps = [r \<mapsto> [1, 2, 3]] \<and> heap_recs h' ps' = [r \<mapsto> [1, 2, 3], r' \<mapsto> [7, 7]])"
proof -
  obtain h ps r where H: "heap_inv h ps" "heap_recs h ps = [r \<mapsto> [1, 2, 3]]" "4294967291 \<le> heap_room h" by (rule demo_heap_one)
  then obtain h' new where "heap_exec (HInsert [7, 7] 2) h = Some h'"
    "map_step (HInsert [7, 7] 2) (heap_recs h ps) (heap_recs h' (ps @ new))"
    using heap_refines_record_map [OF H(1), of "HInsert [7, 7] 2"] by auto
  then show ?thesis using H(2) by (auto simp: store_one_def storable_def split: if_splits) metis
qed



end
