(* ===== verification/Recovery.thy ===== *)
theory Recovery
  imports LogManager HeapSpec
begin

text \<open>
  The recovery manager (\<open>include/recovery/recovery_manager.h\<close>, \<open>src/recovery/recovery_manager.cpp\<close>): logging of
  page operations, checkpoints, and redo of the log on the pages of the buffer pool. \<open>None\<close> is a read past
  the end of a payload.
\<close>

section \<open>State\<close>

record recovery =
  rm_log :: log_manager
  rm_bpm :: bpm
  rm_redo_count :: u32

definition RecoveryManager_new :: "log_manager \<Rightarrow> bpm \<Rightarrow> recovery" where
  "RecoveryManager_new log_manager bpm = \<lparr>rm_log = log_manager, rm_bpm = bpm, rm_redo_count = 0\<rparr>"

definition RecoveryManager_GetRedoCount :: "recovery \<Rightarrow> u32" where
  "RecoveryManager_GetRedoCount m = rm_redo_count m"

definition rm_append :: "log_record \<Rightarrow> recovery \<Rightarrow> ((db_error + u64) \<times> recovery) option" where
  "rm_append r m = map_option (\<lambda>(res, l). (res, m\<lparr>rm_log := l\<rparr>)) (LogManager_AppendLogRecord r (rm_log m))"

section \<open>Logging\<close>

definition RecoveryManager_LogInsert ::
    "u32 \<Rightarrow> u16 \<Rightarrow> u8 list \<Rightarrow> u16 \<Rightarrow> recovery \<Rightarrow> ((db_error + u64) \<times> recovery) option" where
  "RecoveryManager_LogInsert page_id slot_id data len m = rm_append (LogRecord_MakeInsert 0 page_id slot_id data len) m"

definition RecoveryManager_LogDelete ::
    "u32 \<Rightarrow> u16 \<Rightarrow> u8 list \<Rightarrow> u16 \<Rightarrow> recovery \<Rightarrow> ((db_error + u64) \<times> recovery) option" where
  "RecoveryManager_LogDelete page_id slot_id old_data old_len m =
     rm_append (LogRecord_MakeDelete 0 page_id slot_id old_data old_len) m"

definition RecoveryManager_LogUpdate ::
    "u32 \<Rightarrow> u16 \<Rightarrow> u8 list \<Rightarrow> u16 \<Rightarrow> u8 list \<Rightarrow> u16 \<Rightarrow> recovery \<Rightarrow> ((db_error + u64) \<times> recovery) option" where
  "RecoveryManager_LogUpdate page_id slot_id old_data old_len new_data new_len m =
     Option.bind (LogRecord_MakeUpdate 0 page_id slot_id old_data old_len new_data new_len) (\<lambda>r. rm_append r m)"

definition RecoveryManager_LogNewPage :: "u32 \<Rightarrow> recovery \<Rightarrow> ((db_error + u64) \<times> recovery) option" where
  "RecoveryManager_LogNewPage page_id m = rm_append (LogRecord_MakeNewPage 0 page_id) m"

section \<open>Checkpoint\<close>

definition RecoveryManager_Checkpoint :: "recovery \<Rightarrow> ((db_error + unit) \<times> recovery) option" where
  "RecoveryManager_Checkpoint m =
     (case rm_append (LogRecord_MakeCheckpointBegin 0) m of
        None \<Rightarrow> None
      | Some (Inl e, m1) \<Rightarrow> Some (Inl e, m1)
      | Some (Inr _, m1) \<Rightarrow>
          let m2 = m1\<lparr>rm_bpm := BufferPoolManager_FlushAllPages (rm_bpm m1)\<rparr>
          in case Option.bind (LogRecord_MakeCheckpointEnd 0 []) (\<lambda>r. rm_append r m2) of
               None \<Rightarrow> None
             | Some (Inl e, m3) \<Rightarrow> Some (Inl e, m3)
             | Some (Inr _, m3) \<Rightarrow>
                 let (res, l) = LogManager_Flush (rm_log m3) in Some (res, m3\<lparr>rm_log := l\<rparr>))"

section \<open>Redo\<close>

definition redo_insert :: "u16 \<Rightarrow> u8 list \<Rightarrow> u16 \<Rightarrow> page \<Rightarrow> u32 \<Rightarrow> (page \<times> u32) option" where
  "redo_insert slot_id data len pg n =
     (if Page_GetRecord slot_id pg = None
      then case Page_InsertRecord (Some data) len pg of
             (Some _, pg') \<Rightarrow> if length data < unat len then None else Some (pg', n + 1)
           | (None, pg') \<Rightarrow> Some (pg', n + 1)
      else Some (pg, n))"

definition redo_delete :: "u16 \<Rightarrow> page \<Rightarrow> u32 \<Rightarrow> (page \<times> u32) option" where
  "redo_delete slot_id pg n =
     (if Page_GetRecord slot_id pg \<noteq> None then Some (snd (Page_DeleteRecord slot_id pg), n + 1) else Some (pg, n))"

definition redo_update :: "u16 \<Rightarrow> u8 list \<Rightarrow> u16 \<Rightarrow> page \<Rightarrow> u32 \<Rightarrow> (page \<times> u32) option" where
  "redo_update slot_id new_data new_len pg n =
     (if Page_GetRecord slot_id pg \<noteq> None
      then case Page_UpdateRecord slot_id new_data new_len pg of
             (True, pg') \<Rightarrow> if length new_data < unat new_len then None else Some (pg', n + 1)
           | (False, pg') \<Rightarrow> Some (pg', n + 1)
      else Some (pg, n))"

text \<open>The common frame of the three cases: fetch the page, redo on it, unpin it as dirty.\<close>

definition redo_on_page :: "u32 \<Rightarrow> (page \<Rightarrow> u32 \<Rightarrow> (page \<times> u32) option) \<Rightarrow> recovery \<Rightarrow> recovery option" where
  "redo_on_page page_id redo m =
     (case BufferPoolManager_FetchPage page_id (rm_bpm m) of
        (None, b) \<Rightarrow> Some (m\<lparr>rm_bpm := b\<rparr>)
      | (Some f, b) \<Rightarrow>
          map_option (\<lambda>(pg, n). m\<lparr>rm_bpm := snd (BufferPoolManager_UnpinPage page_id True (set_page f pg b)),
                                   rm_redo_count := n\<rparr>)
            (redo (frame_page b f) (rm_redo_count m)))"

definition RecoveryManager_RedoRecord :: "log_record \<Rightarrow> recovery \<Rightarrow> recovery option" where
  "RecoveryManager_RedoRecord r m =
     (let t = lh_type (lg_header r); page_id = lh_page_id (lg_header r); slot_id = lh_slot_id (lg_header r)
      in if t = kInsert then
           Option.bind (LogRecord_GetInsertData r)
             (\<lambda>(data, len). redo_on_page page_id (redo_insert slot_id data len) m)
         else if t = kDelete then redo_on_page page_id (redo_delete slot_id) m
         else if t = kUpdate then
           Option.bind (LogRecord_GetUpdateData r)
             (\<lambda>(_, _, new_data, new_len). redo_on_page page_id (redo_update slot_id new_data new_len) m)
         else if t = kNewPage then Some (m\<lparr>rm_redo_count := rm_redo_count m + 1\<rparr>)
         else Some m)"

partial_function (option) recover_loop :: "file_bytes \<Rightarrow> log_iter \<Rightarrow> recovery \<Rightarrow> recovery option" where
  "recover_loop f it m =
     (if \<not> li_valid it then Some m
      else case RecoveryManager_RedoRecord (li_current it) m of
        None \<Rightarrow> None
      | Some m1 \<Rightarrow>
          (case LogIterator_Next f it of
             None \<Rightarrow> None
           | Some it' \<Rightarrow> recover_loop f it' m1))"

definition RecoveryManager_Recover :: "recovery \<Rightarrow> ((db_error + u32) \<times> recovery) option" where
  "RecoveryManager_Recover m =
     (let m0 = m\<lparr>rm_redo_count := 0\<rparr>
      in case LogManager_Begin (rm_log m0) of
           None \<Rightarrow> None
         | Some (Inl e, l) \<Rightarrow> Some (Inl e, m0\<lparr>rm_log := l\<rparr>)
         | Some (Inr it, l) \<Rightarrow>
             map_option (\<lambda>m1. (Inr (rm_redo_count m1), m1\<lparr>rm_bpm := BufferPoolManager_FlushAllPages (rm_bpm m1)\<rparr>))
               (recover_loop (lm_file l) it (m0\<lparr>rm_log := l\<rparr>)))"

section \<open>What was logged\<close>

text \<open>
  The operation a log record describes, on the page as it was when the operation was done: it
  succeeded there, an insertion in the slot that is in the record.
\<close>

definition logged_op :: "log_record \<Rightarrow> page \<Rightarrow> page option" where
  "logged_op r pg =
     (let t = lh_type (lg_header r); slot_id = lh_slot_id (lg_header r)
      in if t = kInsert then
           (case Page_InsertRecord (Some (lg_payload r)) (lh_payload_size (lg_header r)) pg of
              (Some s, pg') \<Rightarrow> if s = slot_id then Some pg' else None
            | (None, _) \<Rightarrow> None)
         else if t = kDelete then
           (case Page_DeleteRecord slot_id pg of (True, pg') \<Rightarrow> Some pg' | (False, _) \<Rightarrow> None)
         else if t = kUpdate then
           (case LogRecord_GetUpdateData r of
              None \<Rightarrow> None
            | Some (_, _, new_data, new_len) \<Rightarrow>
                if length new_data < unat new_len then None
                else case page_recs pg (unat slot_id) of
                  None \<Rightarrow> None
                | Some old \<Rightarrow>
                    if unat new_len \<le> length old \<or> unat new_len \<le> page_free pg
                    then Some (snd (Page_UpdateRecord slot_id new_data new_len pg)) else None)
         else None)"

definition touches_page :: "log_record \<Rightarrow> bool" where
  "touches_page r \<longleftrightarrow> lh_type (lg_header r) \<in> {kInsert, kDelete, kUpdate}"

text \<open>The history of the log on a map from page ids to pages.\<close>

fun history :: "log_record list \<Rightarrow> (u32 \<Rightarrow> page) \<Rightarrow> (u32 \<Rightarrow> page) option" where
  "history [] P = Some P"
| "history (r # rs) P =
     (if touches_page r
      then case logged_op r (P (lh_page_id (lg_header r))) of
             None \<Rightarrow> None
           | Some pg \<Rightarrow> history rs (P(lh_page_id (lg_header r) := pg))
      else history rs P)"

text \<open>The number of records that recovery counts.\<close>

definition redo_records :: "log_record list \<Rightarrow> log_record list" where
  "redo_records rs = filter (\<lambda>r. touches_page r \<or> lh_type (lg_header r) = kNewPage) rs"

section \<open>Redo of one record\<close>

lemma same_page_sym: "same_page p q \<Longrightarrow> same_page q p"
  by (simp add: same_page_def)

lemma same_page_trans: "same_page p q \<Longrightarrow> same_page q r \<Longrightarrow> same_page p r"
  by (simp add: same_page_def)

lemma GetRecord_recs: "page_inv p \<Longrightarrow> Page_GetRecord s p = None \<longleftrightarrow> page_recs p (unat s) = None"
  by (simp add: page_recs_GetRecord)

lemma insert_same:
  assumes same: "same_page p q" and inv: "page_inv p" and len: "unat len \<le> length bytes"
    and ins: "Page_InsertRecord (Some bytes) len q = (Some s, q')"
  obtains p' where "Page_InsertRecord (Some bytes) len p = (Some s, p')" "same_page p' q'" "page_inv p'"
    "page_recs p (unat s) = None"
proof -
  have invq: "page_inv q" using same_page_inv [OF same] inv by simp
  have fits: "insert_fits len q" "insert_fits len p"
    using InsertRecord_fits_iff [OF invq] ins same_page_free(3) [OF same] by blast+
  have e: "Page_FindEmptySlot p = Page_FindEmptySlot q" by (rule same_page_free(1) [OF same])
  have h: "p_header p = p_header q" "p_slots p = p_slots q" "page_recs p = page_recs q"
    using same by (simp_all add: same_page_def)
  obtain p' where p': "Page_InsertRecord (Some bytes) len p = (Some s, p')" "p_header p' = p_header q'" "p_slots p' = p_slots q'"
  proof (cases "Page_FindEmptySlot q")
    case None
    note P = InsertRecord_fresh [OF inv fits(2) trans [OF e None], of bytes]
      and Q = InsertRecord_fresh [OF invq fits(1) None, of bytes]
    have s: "s = ph_num_slots (p_header p)" using Q ins h(1) by simp
    show ?thesis by (rule that, unfold s, rule P) (use Q ins h in auto)
  next
    case (Some t)
    note P = InsertRecord_reuse [OF inv fits(2) trans [OF e Some], of bytes]
      and Q = InsertRecord_reuse [OF invq fits(1) Some, of bytes]
    have s: "s = t" using Q ins by simp
    show ?thesis by (rule that, unfold s, rule P) (use Q ins h in auto)
  qed
  note A = InsertRecord_step [OF inv p'(1) len] and B = InsertRecord_step [OF invq ins len]
  show ?thesis using that [OF p'(1)] p' A B h by (simp add: same_page_def)
qed

lemma delete_same:
  assumes same: "same_page p q" and inv: "page_inv p" and del: "Page_DeleteRecord s q = (True, q')"
  shows "same_page (snd (Page_DeleteRecord s p)) q'" "page_inv (snd (Page_DeleteRecord s p))"
    "page_recs p (unat s) \<noteq> None"
proof -
  have invq: "page_inv q" using same_page_inv [OF same] inv by simp
  have h: "p_header p = p_header q" "p_slots p = p_slots q" "page_recs p = page_recs q"
    using same by (simp_all add: same_page_def)
  note B = delete_facts [OF invq del]
  obtain d p' where p': "Page_DeleteRecord s p = (d, p')" by fastforce
  note A = delete_facts [OF inv p']
  have "p_header p' = p_header q' \<and> p_slots p' = p_slots q'"
    using p' del h by (auto simp: Page_DeleteRecord_def split: if_splits)
  then show "same_page (snd (Page_DeleteRecord s p)) q'" using A(3) B(3) h p' by (simp add: same_page_def)
  show "page_inv (snd (Page_DeleteRecord s p))" "page_recs p (unat s) \<noteq> None" using A(1) B(2) h p' by simp_all
qed

lemma update_same:
  assumes same: "same_page p q" and inv: "page_inv p" and old: "page_recs q (unat s) = Some old"
    and fit: "unat len \<le> length old \<or> unat len \<le> page_free q" and len: "unat len \<le> length data"
  obtains p' where "Page_UpdateRecord s data len p = (True, p')" "same_page p' (snd (Page_UpdateRecord s data len q))"
    "page_inv p'"
proof -
  have invq: "page_inv q" using same_page_inv [OF same] inv by simp
  have h: "p_header p = p_header q" "p_slots p = p_slots q" "page_recs p = page_recs q"
    using same by (simp_all add: same_page_def)
  obtain q' where Q: "Page_UpdateRecord s data len q = (True, q')" "page_recs q' = (page_recs q)(unat s \<mapsto> take (unat len) data)"
    by (rule update_facts [OF invq old fit len])
  have old': "page_recs p (unat s) = Some old" and fit': "unat len \<le> length old \<or> unat len \<le> page_free p"
    using old fit h same_page_free(2) [OF same] by simp_all
  obtain p' where P: "Page_UpdateRecord s data len p = (True, p')" "page_inv p'"
    "page_recs p' = (page_recs p)(unat s \<mapsto> take (unat len) data)"
    by (rule update_facts [OF inv old' fit' len])
  have "p_header p' = p_header q' \<and> p_slots p' = p_slots q'"
    using P(1) Q(1) h by (auto simp: Page_UpdateRecord_def Page_GetFreeSpace_def Let_def split: if_splits)
  then have "same_page p' q'" using P(3) Q(2) h by (simp add: same_page_def)
  then show ?thesis using that [OF P(1)] P(2) Q(1) by simp
qed

text \<open>The function that \<open>RedoRecord\<close> applies to the page.\<close>

definition redo_of :: "log_record \<Rightarrow> page \<Rightarrow> u32 \<Rightarrow> (page \<times> u32) option" where
  "redo_of r =
     (let t = lh_type (lg_header r); s = lh_slot_id (lg_header r)
      in if t = kInsert then redo_insert s (lg_payload r) (lh_payload_size (lg_header r))
         else if t = kDelete then redo_delete s
         else (case LogRecord_GetUpdateData r of
                 None \<Rightarrow> (\<lambda>_ _. None)
               | Some (_, _, new_data, new_len) \<Rightarrow> redo_update s new_data new_len))"

lemma RedoRecord_page:
  assumes "touches_page r" "lh_type (lg_header r) = kUpdate \<Longrightarrow> LogRecord_GetUpdateData r \<noteq> None"
  shows "RecoveryManager_RedoRecord r m = redo_on_page (lh_page_id (lg_header r)) (redo_of r) m"
  using assms
  by (auto simp: touches_page_def RecoveryManager_RedoRecord_def redo_of_def Let_def log_types
      LogRecord_GetInsertData_def split: option.splits)

lemma redo_logged:
  assumes same: "same_page p q" and inv: "page_inv p" and ok: "log_ok r" and op: "logged_op r q = Some q'"
  obtains p' where "redo_of r p n = Some (p', n + 1)" "same_page p' q'" "page_inv p'" "touches_page r"
    "lh_type (lg_header r) = kUpdate \<Longrightarrow> LogRecord_GetUpdateData r \<noteq> None"
proof -
  let ?t = "lh_type (lg_header r)" and ?s = "lh_slot_id (lg_header r)"
  have recs: "page_recs p = page_recs q" using same by (simp add: same_page_def)
  consider (ins) "?t = kInsert" | (del) "?t = kDelete" | (upd) "?t = kUpdate"
    using op by (auto simp: logged_op_def Let_def split: if_splits)
  then show ?thesis
  proof cases
    case ins
    let ?len = "lh_payload_size (lg_header r)"
    have i: "Page_InsertRecord (Some (lg_payload r)) ?len q = (Some ?s, q')"
      using op ins by (auto simp: logged_op_def split: option.splits prod.splits if_splits)
    have len: "unat ?len \<le> length (lg_payload r)" using ok by (simp add: log_ok_def)
    obtain p' where P: "Page_InsertRecord (Some (lg_payload r)) ?len p = (Some ?s, p')" "same_page p' q'" "page_inv p'"
      "page_recs p (unat ?s) = None"
      by (rule insert_same [OF same inv len i])
    have "redo_of r p n = Some (p', n + 1)"
      using P ins len GetRecord_recs [OF inv, of ?s] by (simp add: redo_of_def redo_insert_def)
    then show ?thesis using that P ins by (simp add: touches_page_def log_types)
  next
    case del
    have i: "Page_DeleteRecord ?s q = (True, q')"
      using op del by (auto simp: logged_op_def log_types split: prod.splits bool.splits)
    note D = delete_same [OF same inv i]
    have "redo_of r p n = Some (snd (Page_DeleteRecord ?s p), n + 1)"
      using del D(3) GetRecord_recs [OF inv, of ?s] by (simp add: redo_of_def redo_delete_def log_types)
    then show ?thesis using that D del by (simp add: touches_page_def log_types)
  next
    case upd
    obtain a b data len old where U: "LogRecord_GetUpdateData r = Some (a, b, data, len)" "unat len \<le> length data"
      "page_recs q (unat ?s) = Some old" "unat len \<le> length old \<or> unat len \<le> page_free q"
      "q' = snd (Page_UpdateRecord ?s data len q)"
      using op upd by (auto simp: logged_op_def log_types Let_def not_less split: option.splits prod.splits if_splits)
    obtain p' where P: "Page_UpdateRecord ?s data len p = (True, p')" "same_page p' (snd (Page_UpdateRecord ?s data len q))"
      "page_inv p'"
      by (rule update_same [OF same inv U(3,4,2)])
    have "redo_of r p n = Some (p', n + 1)"
      using P U upd recs GetRecord_recs [OF inv, of ?s] by (simp add: redo_of_def redo_update_def log_types)
    then show ?thesis using that P U upd by (simp add: touches_page_def)
  qed
qed

section \<open>Redo of a log\<close>

text \<open>The pool holds the pages \<open>P\<close>, for the page ids in \<open>S\<close>.\<close>

definition pages_are :: "bpm \<Rightarrow> u32 set \<Rightarrow> (u32 \<Rightarrow> page) \<Rightarrow> bool" where
  "pages_are b S P \<longleftrightarrow> quiet b \<and> S \<subseteq> bp_data b \<and> (\<forall>p\<in>S. page_inv (P p) \<and> same_page (hp_page b p) (P p))"

text \<open>Fetching a page, changing it and unpinning it.\<close>

lemma page_session:
  assumes are: "pages_are b S P" and p: "p \<in> S"
  obtains f b1 where "BufferPoolManager_FetchPage p b = (Some f, b1)" "same_page (frame_page b1 f) (P p)"
    "page_inv (frame_page b1 f)" "bp_view b1 = bp_view b"
    "\<And>pg q' d. page_inv pg \<Longrightarrow> same_page pg q' \<Longrightarrow> d \<or> pg = frame_page b1 f \<Longrightarrow>
       pages_are (snd (BufferPoolManager_UnpinPage p d (set_page f pg b1))) S (P(p := q')) \<and>
       bp_data (snd (BufferPoolManager_UnpinPage p d (set_page f pg b1))) = bp_data b"
proof -
  note A = are [unfolded pages_are_def]
  have q: "quiet b" and pd: "p \<in> bp_data b" using A p by blast+
  obtain f b1 where b1: "BufferPoolManager_FetchPage p b = (Some f, b1)"
    "page_ser_ok (frame_page b1 f)" "bp_view b p = Some (page_image (frame_page b1 f))"
    "\<And>pg d. page_ser_ok pg \<Longrightarrow> d \<or> pg = frame_page b1 f \<Longrightarrow>
       same_frame b (snd (BufferPoolManager_UnpinPage p d (set_page f pg b1))) \<and>
       bp_view (snd (BufferPoolManager_UnpinPage p d (set_page f pg b1))) = (bp_view b)(p \<mapsto> page_image pg) \<and>
       (\<forall>q. q \<noteq> p \<longrightarrow> pinned_stable b (snd (BufferPoolManager_UnpinPage p d (set_page f pg b1))) q)"
    "bp_view b1 = bp_view b"
    by (rule session [OF quietD(1) [OF q] pd quietD(2,3) [OF q]]) blast
  let ?pg = "frame_page b1 f"
  have inv: "page_inv ?pg"
    using A p hp_page_frame(3) [OF b1(3,2)] same_page_inv by blast
  have same: "same_page ?pg (P p)"
    using same_page_hp [OF b1(3) inv] A p same_page_sym same_page_trans by blast
  have "pages_are b2 S (P(p := q')) \<and> bp_data b2 = bp_data b"
    if pg: "page_inv pg" "same_page pg q'" "d \<or> pg = ?pg"
      and b2: "b2 = snd (BufferPoolManager_UnpinPage p d (set_page f pg b1))" for pg q' d b2
  proof -
    have S: "same_frame b b2" "bp_view b2 = (bp_view b)(p \<mapsto> page_image pg)"
      using b1(4) [of pg d] pg b2 by simp_all
    have hp: "hp_page b2 r = (if r = p then page_of (page_image pg) else hp_page b r)" for r
      by (rule hp_page_upd [OF S(2)])
    have "same_page (hp_page b2 p) pg" using S(2) by (intro same_page_hp [OF _ pg(1)]) simp
    then have "same_page (hp_page b2 p) q'" using pg(2) same_page_trans by blast
    moreover have "page_inv q'" using same_page_inv [OF pg(2)] pg(1) by simp
    moreover have "bp_data b2 = bp_data b" "quiet b2"
      using S(1) quiet_same_frame [OF q S(1)] by (simp_all add: same_frame_def)
    ultimately show ?thesis using A hp by (auto simp: pages_are_def)
  qed
  then show ?thesis using that [OF b1(1) same inv b1(5)] by blast
qed

lemma redo_on_page_step:
  assumes are: "pages_are (rm_bpm m) S P" and p: "p \<in> S"
    and redo: "\<And>pg n. same_page pg (P p) \<Longrightarrow> page_inv pg \<Longrightarrow>
      \<exists>pg'. redo pg n = Some (pg', n + c) \<and> same_page pg' q' \<and> page_inv pg'"
  shows "\<exists>m'. redo_on_page p redo m = Some m' \<and> pages_are (rm_bpm m') S (P(p := q')) \<and>
    rm_redo_count m' = rm_redo_count m + c \<and> rm_log m' = rm_log m"
proof -
  obtain f b1 where b1: "BufferPoolManager_FetchPage p (rm_bpm m) = (Some f, b1)" "same_page (frame_page b1 f) (P p)"
    "page_inv (frame_page b1 f)"
    "\<And>pg q' d. page_inv pg \<Longrightarrow> same_page pg q' \<Longrightarrow> d \<or> pg = frame_page b1 f \<Longrightarrow>
       pages_are (snd (BufferPoolManager_UnpinPage p d (set_page f pg b1))) S (P(p := q')) \<and>
       bp_data (snd (BufferPoolManager_UnpinPage p d (set_page f pg b1))) = bp_data (rm_bpm m)"
    by (rule page_session [OF are p]) blast
  obtain pg' where R: "redo (frame_page b1 f) (rm_redo_count m) = Some (pg', rm_redo_count m + c)" "same_page pg' q'"
    "page_inv pg'"
    using redo [OF b1(2,3)] by blast
  have "pages_are (snd (BufferPoolManager_UnpinPage p True (set_page f pg' b1))) S (P(p := q'))"
    using b1(4) [OF R(3,2), of True] by simp
  then show ?thesis using b1(1) R(1) by (simp add: redo_on_page_def)
qed

primrec redo_all :: "log_record list \<Rightarrow> recovery \<Rightarrow> recovery option" where
  "redo_all [] m = Some m"
| "redo_all (r # rs) m = Option.bind (RecoveryManager_RedoRecord r m) (redo_all rs)"

lemma RedoRecord_other:
  "\<not> touches_page r \<Longrightarrow> RecoveryManager_RedoRecord r m =
     Some (if lh_type (lg_header r) = kNewPage then m\<lparr>rm_redo_count := rm_redo_count m + 1\<rparr> else m)"
  by (simp add: touches_page_def RecoveryManager_RedoRecord_def Let_def)

lemma redo_all_history:
  assumes "pages_are (rm_bpm m) S P" "history rs P = Some P'"
    "\<forall>r\<in>set rs. log_ok r \<and> (touches_page r \<longrightarrow> lh_page_id (lg_header r) \<in> S)"
  shows "\<exists>m'. redo_all rs m = Some m' \<and> pages_are (rm_bpm m') S P' \<and> rm_log m' = rm_log m \<and>
    rm_redo_count m' = rm_redo_count m + of_nat (length (redo_records rs))"
  using assms
proof (induction rs arbitrary: m P)
  case Nil
  then show ?case by (simp add: redo_records_def)
next
  case (Cons r rs)
  have rs: "\<forall>r\<in>set rs. log_ok r \<and> (touches_page r \<longrightarrow> lh_page_id (lg_header r) \<in> S)" using Cons.prems(3) by simp
  show ?case
  proof (cases "touches_page r")
    case True
    let ?p = "lh_page_id (lg_header r)"
    obtain pg where pg: "logged_op r (P ?p) = Some pg" "history rs (P(?p := pg)) = Some P'"
      using Cons.prems(2) True by (auto split: option.splits)
    have ok: "log_ok r" and p: "?p \<in> S" using Cons.prems(3) True by simp_all
    have "page_inv (P ?p)" "same_page (P ?p) (P ?p)"
      using Cons.prems(1) p by (simp_all add: pages_are_def same_page_def)
    then have upd: "lh_type (lg_header r) = kUpdate \<Longrightarrow> LogRecord_GetUpdateData r \<noteq> None"
      using redo_logged [OF _ _ ok pg(1)] by metis
    have redo: "\<exists>pg'. redo_of r q n = Some (pg', n + 1) \<and> same_page pg' pg \<and> page_inv pg'"
      if "same_page q (P ?p)" "page_inv q" for q n
      by (rule redo_logged [OF that ok pg(1), of n]) blast
    obtain m1 where m1: "redo_on_page ?p (redo_of r) m = Some m1" "pages_are (rm_bpm m1) S (P(?p := pg))"
      "rm_redo_count m1 = rm_redo_count m + 1" "rm_log m1 = rm_log m"
      using redo_on_page_step [OF Cons.prems(1) p, where redo = "redo_of r"] redo by blast
    have "RecoveryManager_RedoRecord r m = Some m1" using RedoRecord_page [OF True] upd m1(1) by simp
    then show ?thesis
      using Cons.IH [OF m1(2) pg(2) rs] m1(3,4) True by (auto simp: redo_records_def algebra_simps)
  next
    case False
    let ?m1 = "if lh_type (lg_header r) = kNewPage then m\<lparr>rm_redo_count := rm_redo_count m + 1\<rparr> else m"
    have "pages_are (rm_bpm ?m1) S P" "history rs P = Some P'" using Cons.prems(1,2) False by simp_all
    then obtain m' where "redo_all rs ?m1 = Some m'" "pages_are (rm_bpm m') S P'" "rm_log m' = rm_log ?m1"
      "rm_redo_count m' = rm_redo_count ?m1 + of_nat (length (redo_records rs))"
      using Cons.IH [OF _ _ rs] by blast
    then show ?thesis using False RedoRecord_other [OF False, of m] by (auto simp: redo_records_def algebra_simps)
  qed
qed

lemma recover_loop_scan: "log_scan f it = Some rs \<Longrightarrow> recover_loop f it m = redo_all rs m"
proof (induction rs arbitrary: it m)
  case Nil
  then have "\<not> li_valid it"
    by (subst (asm) log_scan.simps) (auto split: if_splits option.splits bind_splits)
  then show ?case by (simp add: recover_loop.simps)
next
  case (Cons r rs)
  obtain it' where it': "li_valid it" "r = li_current it" "LogIterator_Next f it = Some it'" "log_scan f it' = Some rs"
    using Cons.prems by (subst (asm) log_scan.simps) (auto split: if_splits option.splits bind_splits)
  show ?case
    using it' Cons.IH [OF it'(4)] by (subst recover_loop.simps) (auto split: option.splits)
qed

section \<open>Properties\<close>

lemma flush_all_pool_size: "bp_pool_size (BufferPoolManager_FlushAllPages b) = bp_pool_size b"
proof -
  have "bp_pool_size (foldl flush_frame b xs) = bp_pool_size b" for xs
    by (induction xs arbitrary: b) (simp_all add: flush_frame_def)
  then show ?thesis by (simp add: BufferPoolManager_FlushAllPages_def Let_def)
qed

lemma pages_are_flush: "pages_are b S P \<Longrightarrow> pages_are (BufferPoolManager_FlushAllPages b) S P"
  using flush_all(1-3,5) [of b] flush_all_pool_size [of b] quietD(1) [of b]
  by (auto simp: pages_are_def quiet_def hp_page_def)

text \<open>What \<open>Recover\<close> adds to redo: it finds the records in the file, and flushes the pages.\<close>

lemma recover_by_redo:
  assumes "lm_file (rm_log m) = log_image rs @ tail" "torn tail" "lm_buffer_offset (rm_log m) = 0"
    "length (lm_file (rm_log m)) < 2 ^ 63" "\<forall>r\<in>set rs. log_ok r"
    "redo_all rs (m\<lparr>rm_redo_count := 0, rm_log := log_fsync (rm_log m)\<rparr>) = Some m1" "pages_are (rm_bpm m1) S P"
  shows "\<exists>m'. RecoveryManager_Recover m = Some (Inr (rm_redo_count m1), m') \<and> pages_are (rm_bpm m') S P \<and>
    (dm_is_open (bp_disk (rm_bpm m')) \<longrightarrow> dm_durable (bp_disk (rm_bpm m')) = dm_file (bp_disk (rm_bpm m'))) \<and>
    (\<forall>p\<in>S. bp_view (rm_bpm m') p = Some (disk_page (bp_disk (rm_bpm m')) p))"
proof -
  let ?l = "rm_log m"
  obtain it where it: "LogIterator_new (lm_file ?l) (of_nat (length (lm_file ?l))) = Some it" "log_scan (lm_file ?l) it = Some rs"
    using begin_scan [OF assms(5,2,1,4)] by blast
  let ?l' = "log_fsync ?l"
  have b: "LogManager_Begin ?l = Some (Inr it, ?l')"
    using it(1) assms(3) by (simp add: LogManager_Begin_def LogManager_Flush_def LogManager_GetLogFileSize_def log_fsync_def)
  have f: "lm_file ?l' = lm_file ?l" by (simp add: log_fsync_def)
  have "recover_loop (lm_file ?l') it (m\<lparr>rm_redo_count := 0, rm_log := ?l'\<rparr>) = Some m1"
    using recover_loop_scan [OF it(2)] assms(6) f by simp
  then have "RecoveryManager_Recover m =
      Some (Inr (rm_redo_count m1), m1\<lparr>rm_bpm := BufferPoolManager_FlushAllPages (rm_bpm m1)\<rparr>)"
    using b by (simp add: RecoveryManager_Recover_def Let_def)
  moreover have q: "quiet (rm_bpm m1)" "S \<subseteq> bp_data (rm_bpm m1)" using assms(7) by (simp_all add: pages_are_def)
  note F = flush_all [OF quietD(1) [OF q(1)]]
  have "bp_view (rm_bpm m1) p = Some (disk_page (bp_disk (BufferPoolManager_FlushAllPages (rm_bpm m1))) p)" if "p \<in> S" for p
    using F(6,7) that q quietD(2) [OF q(1)] by (cases "bp_table (rm_bpm m1) p") auto
  ultimately show ?thesis using pages_are_flush [OF assms(7)] F(2,8) by simp
qed

text \<open>
  C9. Redo brings the pages back: if the pages in the pool are what they were before the logged
  operations, \<open>Recover\<close> ends, repeats every operation of the log in order on them, each in
  the slot it had, skips a torn last record, counts the records repeated, and
  leaves all pages durable.
\<close>

theorem recovery_replays_log:
  assumes "lm_file (rm_log m) = log_image rs @ tail" and "torn tail" and "lm_buffer_offset (rm_log m) = 0"
    and "length (lm_file (rm_log m)) < 2 ^ 63"
    and "pages_are (rm_bpm m) S P" and "history rs P = Some P'"
    and "\<forall>r\<in>set rs. log_ok r \<and> (touches_page r \<longrightarrow> lh_page_id (lg_header r) \<in> S)"
  shows "\<exists>m'. RecoveryManager_Recover m = Some (Inr (of_nat (length (redo_records rs))), m') \<and>
    pages_are (rm_bpm m') S P' \<and>
    (dm_is_open (bp_disk (rm_bpm m')) \<longrightarrow> dm_durable (bp_disk (rm_bpm m')) = dm_file (bp_disk (rm_bpm m'))) \<and>
    (\<forall>p\<in>S. bp_view (rm_bpm m') p = Some (disk_page (bp_disk (rm_bpm m')) p))"
proof -
  obtain m1 where m1: "redo_all rs (m\<lparr>rm_redo_count := 0, rm_log := log_fsync (rm_log m)\<rparr>) = Some m1"
    "pages_are (rm_bpm m1) S P'" "rm_redo_count m1 = of_nat (length (redo_records rs))"
    using redo_all_history [of "m\<lparr>rm_redo_count := 0, rm_log := log_fsync (rm_log m)\<rparr>" S P rs P'] assms(5-7) by auto
  have "\<forall>r\<in>set rs. log_ok r" using assms(7) by blast
  from recover_by_redo [OF assms(1-4) this m1(1,2)] show ?thesis unfolding m1(3) .
qed

text \<open>A page of a new heap file, as it was before a record was logged.\<close>

lemma demo_recovery:
  obtains b p P where "pages_are b {p} P" "page_recs (P p) = (\<lambda>_. None)" "page_free (P p) = 4076"
    "ph_num_slots (p_header (P p)) = 0" "Page_FindEmptySlot (P p) = None"
proof -
  obtain p h where H: "heap_inv h [p]" "heap_recs h [p] = (\<lambda>_. None)" "page_free (hp_page (hf_bpm h) p) = 4076"
    by (rule heap_new_fresh [OF demo_pool_quiet])
  let ?pg = "hp_page (hf_bpm h) p"
  note C = heap_coreD [OF heap_inv_core [OF H(1)]]
  have inv: "page_inv ?pg" using C(6) by simp
  have n: "unat (ph_num_slots (p_header ?pg)) = 0"
    using page_invD(1-4) [OF inv] H(3) by (simp add: page_free_def)
  have "page_recs ?pg (unat s) = None" for s :: u16
    using fun_cong [OF H(2), of "RID p s"] by (simp add: heap_recs_def)
  moreover have "page_recs ?pg i = None" if "\<not> i < 65536" for i
    using that n page_invD(1) [OF inv] by (simp add: page_recs_def slot_recs_def)
  ultimately have "page_recs ?pg = (\<lambda>_. None)" by (metis unat16_of_nat ext)
  moreover have "Page_FindEmptySlot ?pg = None" using n by (simp add: Page_FindEmptySlot_def)
  moreover have "pages_are (hf_bpm h) {p} (\<lambda>_. ?pg)"
    using C(1,5) inv by (simp add: pages_are_def same_page_def)
  ultimately show ?thesis using that [of "hf_bpm h" p "\<lambda>_. ?pg"] H(3) n by (simp add: unat_eq_0)
qed

lemma demo_insert_bytes: "take 2 (log_bytes (LogRecord_MakeInsert 0 p 0 [1, 2, 3] 3)) = [24, 0]"
proof -
  have t: "unat (LOG_HEADER_SIZE + ucast (3 :: u16)) = 24" using total_size_16 [of 3] by simp
  have four: "4 = Suc (Suc 2)" by simp
  have "take 2 (le_bytes 4 (LOG_HEADER_SIZE + ucast (3 :: u16))) = [24, 0]"
    unfolding le_bytes_def t four by (simp add: numeral_2_eq_2)
  then show ?thesis by (simp add: log_bytes_def log_header_bytes_def LogRecord_MakeInsert_def)
qed

theorem recovery_replays_log_witness:
  "\<exists>m m' p. lm_file (rm_log m) = log_image [LogRecord_MakeInsert 0 p 0 [1, 2, 3] 3] @ [24, 0] \<and>
     RecoveryManager_Recover m = Some (Inr 1, m') \<and> page_recs (hp_page (rm_bpm m) p) = (\<lambda>_. None) \<and>
     page_recs (hp_page (rm_bpm m') p) = [0 \<mapsto> [1, 2, 3]]"
proof -
  obtain b p P where D: "pages_are b {p} P" "page_recs (P p) = (\<lambda>_. None)" "page_free (P p) = 4076"
    "ph_num_slots (p_header (P p)) = 0" "Page_FindEmptySlot (P p) = None" by (rule demo_recovery)
  let ?r = "LogRecord_MakeInsert 0 p 0 [1, 2, 3] 3" and ?tail = "[24, 0] :: u8 list"
  define l :: log_manager where "l = \<lparr>lm_file = log_image [?r] @ ?tail, lm_durable = [], lm_next_lsn = 26,
    lm_flushed_lsn = 26, lm_buffer = (\<lambda>_. 0), lm_buffer_offset = 0, lm_io = []\<rparr>"
  have l: "lm_file l = log_image [?r] @ ?tail" "lm_buffer_offset l = 0" by (simp_all add: l_def)
  let ?m = "\<lparr>rm_log = l, rm_bpm = b, rm_redo_count = 0\<rparr>"
  have ok: "log_ok ?r" by (rule Make_ok) simp
  have "log_bytes ?r = ?tail @ drop 2 (log_bytes ?r)"
    using append_take_drop_id [of 2 "log_bytes ?r"] by (simp only: demo_insert_bytes)
  moreover have "drop 2 (log_bytes ?r) \<noteq> []" by (simp add: LogRecord_MakeInsert_def)
  ultimately have torn: "torn ?tail" unfolding torn_def using ok by blast
  have inv: "page_inv (P p)" using D(1) by (simp add: pages_are_def)
  have "insert_fits 3 (P p)" using D(3,5) by (simp add: insert_fits_def)
  then obtain pg where pg: "Page_InsertRecord (Some [1, 2, 3]) 3 (P p) = (Some 0, pg)"
    using InsertRecord_fresh [OF inv _ D(5), of 3 "[1, 2, 3]"] D(4) by auto
  then have recs: "page_recs pg = [0 \<mapsto> [1, 2, 3]]"
    using InsertRecord_step [OF inv pg] D(2) by simp
  have hist: "history [?r] P = Some (P(p := pg))"
    using pg by (simp add: touches_page_def logged_op_def LogRecord_MakeInsert_def)
  have len: "length (lm_file (rm_log ?m)) < 2 ^ 63" using l(1) by (simp add: LogRecord_MakeInsert_def)
  have rs: "\<forall>r\<in>set [?r]. log_ok r \<and> (touches_page r \<longrightarrow> lh_page_id (lg_header r) \<in> {p})"
    using ok by (simp add: LogRecord_MakeInsert_def)
  have one: "length (redo_records [?r]) = 1" by (simp add: redo_records_def touches_page_def LogRecord_MakeInsert_def)
  obtain m' where "RecoveryManager_Recover ?m = Some (Inr 1, m')" "pages_are (rm_bpm m') {p} (P(p := pg))"
    using recovery_replays_log [of ?m "[?r]" ?tail "{p}" P "P(p := pg)"] l torn len D(1) hist rs one by auto
  moreover have "page_recs (hp_page b p) = (\<lambda>_. None)" using D(1,2) by (simp add: pages_are_def same_page_def)
  ultimately show ?thesis using l(1) recs by (intro exI [of _ ?m] exI [of _ m'] exI [of _ p]) (simp add: pages_are_def same_page_def)
qed

text \<open>
  C38. Redo is not idempotent: when the page already holds the record of a later insertion (it was flushed before
  the crash) and has no room for a second copy, redoing the deletion that freed
  the slot and then the insertion leaves the slot empty. The record is lost, and counted as
  redone.
\<close>

theorem recovery_loses_record:
  assumes "pages_are (rm_bpm m) S P" and "p \<in> S" and "page_recs (P p) (unat s) = Some data"
    and "unat len = length data" and "page_free (P p) < length data"
  shows "\<exists>m'. redo_all [LogRecord_MakeDelete 0 p s old old_len, LogRecord_MakeInsert 0 p s data len] m = Some m' \<and>
    rm_redo_count m' = rm_redo_count m + 2 \<and> page_recs (hp_page (rm_bpm m) p) (unat s) = Some data \<and>
    page_recs (hp_page (rm_bpm m') p) (unat s) = None"
proof -
  let ?d = "LogRecord_MakeDelete 0 p s old old_len" and ?i = "LogRecord_MakeInsert 0 p s data len"
  have inv: "page_inv (P p)" and sp: "same_page (hp_page (rm_bpm m) p) (P p)" using assms(1,2) by (simp_all add: pages_are_def)
  have live: "page_live (P p) s" using page_live_recs [OF inv] assms(3) by simp
  obtain q where q: "Page_DeleteRecord s (P p) = (True, q)" "page_inv q" "page_recs q = (page_recs (P p))(unat s := None)"
    "page_free q = page_free (P p)"
    by (rule DeleteRecord_live [OF inv live])
  have redo1: "\<exists>pg'. redo_delete s pg n = Some (pg', n + 1) \<and> same_page pg' q \<and> page_inv pg'"
    if "same_page pg (P p)" "page_inv pg" for pg n
    using delete_same [OF that q(1)] GetRecord_recs [OF that(2), of s] by (simp add: redo_delete_def)
  obtain m1 where m1: "redo_on_page p (redo_delete s) m = Some m1" "pages_are (rm_bpm m1) S (P(p := q))"
    "rm_redo_count m1 = rm_redo_count m + 1"
    using redo_on_page_step [OF assms(1,2), where redo = "redo_delete s"] redo1 by blast
  have redo2: "\<exists>pg'. redo_insert s data len pg n = Some (pg', n + 1) \<and> same_page pg' q \<and> page_inv pg'"
    if "same_page pg ((P(p := q)) p)" "page_inv pg" for pg n
  proof -
    have s: "same_page pg q" using that(1) by simp
    have "Page_GetRecord s pg = None" using GetRecord_recs [OF that(2)] s q(3) by (simp add: same_page_def)
    moreover have "\<not> insert_fits len pg"
      using same_page_free(2) [OF s] q(4) assms(4,5) by (simp add: insert_fits_def)
    ultimately show ?thesis using InsertRecord_no_fit [OF that(2)] s that(2) by (simp add: redo_insert_def)
  qed
  obtain m2 where m2: "redo_on_page p (redo_insert s data len) m1 = Some m2" "pages_are (rm_bpm m2) S ((P(p := q))(p := q))"
    "rm_redo_count m2 = rm_redo_count m1 + 1"
    using redo_on_page_step [OF m1(2) assms(2), where redo = "redo_insert s data len"] redo2 by blast
  have "RecoveryManager_RedoRecord ?d m = Some m1"
    using m1(1) by (simp add: RecoveryManager_RedoRecord_def LogRecord_MakeDelete_def log_types)
  moreover have "RecoveryManager_RedoRecord ?i m1 = Some m2"
    using m2(1) assms(4) by (simp add: RecoveryManager_RedoRecord_def LogRecord_MakeInsert_def LogRecord_GetInsertData_def log_types)
  moreover have "page_recs (hp_page (rm_bpm m2) p) (unat s) = None"
    using m2(2) assms(2) q(3) by (simp add: pages_are_def same_page_def)
  ultimately show ?thesis using m1(3) m2(3) sp assms(3) by (simp add: same_page_def)
qed

theorem recovery_loses_record_witness:
  "\<exists>m p data m'. length data = 3000 \<and> page_recs (hp_page (rm_bpm m) p) 0 = Some data \<and>
     redo_all [LogRecord_MakeDelete 0 p 0 [1] 1, LogRecord_MakeInsert 0 p 0 data 3000] m = Some m' \<and>
     page_recs (hp_page (rm_bpm m') p) 0 = None"
proof -
  obtain b p P where D: "pages_are b {p} P" "page_recs (P p) = (\<lambda>_. None)" "page_free (P p) = 4076"
    "ph_num_slots (p_header (P p)) = 0" "Page_FindEmptySlot (P p) = None" by (rule demo_recovery)
  obtain data :: "u8 list" where data: "length data = 3000"
    by (rule that [of "replicate 3000 7"], rule length_replicate)
  define l :: log_manager where "l = \<lparr>lm_file = [], lm_durable = [], lm_next_lsn = 0, lm_flushed_lsn = 0,
    lm_buffer = (\<lambda>_. 0), lm_buffer_offset = 0, lm_io = []\<rparr>"
  let ?m = "\<lparr>rm_log = l, rm_bpm = b, rm_redo_count = 0\<rparr>"
  have inv: "page_inv (P p)" using D(1) by (simp add: pages_are_def)
  have fits: "insert_fits 3000 (P p)" using D(3,5) by (simp add: insert_fits_def)
  then obtain pg where pg: "Page_InsertRecord (Some data) 3000 (P p) = (Some 0, pg)"
    "page_free pg = 1072"
    using InsertRecord_fresh [OF inv _ D(5), of 3000 data] D(3,4) page_invD(2-4) [OF inv] by (auto simp: page_free_def word_nat)
  have len: "unat (3000 :: u16) \<le> length data" using data by simp
  have same: "\<exists>pg'. redo_insert 0 data 3000 q n = Some (pg', n + 1) \<and> same_page pg' pg \<and> page_inv pg'"
    if a: "same_page q (P p)" "page_inv q" for q n
  proof -
    obtain q' where "Page_InsertRecord (Some data) 3000 q = (Some 0, q')" "same_page q' pg" "page_inv q'"
      "page_recs q (unat (0 :: u16)) = None"
      by (rule insert_same [OF a len pg(1)])
    then show ?thesis using GetRecord_recs [OF a(2), of 0] data by (simp add: redo_insert_def)
  qed
  have are: "pages_are (rm_bpm ?m) {p} P" using D(1) by simp
  have "\<exists>m'. redo_on_page p (redo_insert 0 data 3000) ?m = Some m' \<and> pages_are (rm_bpm m') {p} (P(p := pg)) \<and>
    rm_redo_count m' = rm_redo_count ?m + 1 \<and> rm_log m' = rm_log ?m"
    by (rule redo_on_page_step [OF are singletonI]) (rule same)
  then obtain m1 :: recovery where m1: "pages_are (rm_bpm m1) {p} (P(p := pg))" by blast
  have "page_recs pg = [0 \<mapsto> data]" using InsertRecord_step [OF inv pg(1) len] D(2) data by simp
  then have live: "page_recs ((P(p := pg)) p) (unat (0 :: u16)) = Some data" by simp
  have n: "unat (3000 :: u16) = length data" and free: "page_free ((P(p := pg)) p) < length data"
    using pg(2) data by simp_all
  have "\<exists>m'. redo_all [LogRecord_MakeDelete 0 p 0 [1] 1, LogRecord_MakeInsert 0 p 0 data 3000] m1 = Some m' \<and>
    page_recs (hp_page (rm_bpm m1) p) 0 = Some data \<and> page_recs (hp_page (rm_bpm m') p) 0 = None"
    using recovery_loses_record [OF m1 singletonI live n free, of "[1]" 1] unfolding unat_0 by blast
  then show ?thesis using data by blast
qed

end
