(* ===== verification/RedoInsertions.thy ===== *)
theory RedoInsertions
  imports Recovery
begin

text \<open>
  Redo of a log of insertions on pages that were written back at different times. Redo in general needs the pages as they were
  before the log; for insertions it does not, because the slot of an insertion that a page already holds is in use and the
  record is skipped. Each page ends in the later of its own state and the state that the log leads to.
\<close>

section \<open>Logs of insertions\<close>

definition insert_log :: "u32 set \<Rightarrow> log_record list \<Rightarrow> bool" where
  "insert_log S rs \<longleftrightarrow>
     (\<forall>r\<in>set rs. log_ok r \<and> (touches_page r \<longrightarrow> lh_type (lg_header r) = kInsert \<and> lh_page_id (lg_header r) \<in> S))"

text \<open>The pages after the first \<open>i\<close> operations of a log.\<close>

definition pages_after :: "nat \<Rightarrow> log_record list \<Rightarrow> (u32 \<Rightarrow> page) \<Rightarrow> u32 \<Rightarrow> page" where
  "pages_after i rs P = the (history (take i rs) P)"

lemma insert_logD:
  "insert_log S rs \<Longrightarrow> r \<in> set rs \<Longrightarrow> log_ok r"
  "insert_log S rs \<Longrightarrow> r \<in> set rs \<Longrightarrow> touches_page r \<Longrightarrow> lh_type (lg_header r) = kInsert \<and> lh_page_id (lg_header r) \<in> S"
  by (auto simp: insert_log_def)

lemma history_append: "history (xs @ ys) P = Option.bind (history xs P) (history ys)"
  by (induction xs arbitrary: P) (auto split: option.split)

lemma history_take:
  assumes "history rs P = Some P'"
  shows "history (take i rs) P = Some (pages_after i rs P)"
  using assms history_append [of "take i rs" "drop i rs" P] by (cases "history (take i rs) P") (auto simp: pages_after_def)

lemma pages_after_0 [simp]: "pages_after 0 rs P = P"
  by (simp add: pages_after_def)

lemma pages_after_all: "history rs P = Some P' \<Longrightarrow> length rs \<le> i \<Longrightarrow> pages_after i rs P = P'"
  by (simp add: pages_after_def)

lemma pages_after_Suc:
  assumes "history rs P = Some P'" "i < length rs"
  defines "r \<equiv> rs ! i"
  shows "\<not> touches_page r \<Longrightarrow> pages_after (Suc i) rs P = pages_after i rs P"
    and "touches_page r \<Longrightarrow> logged_op r (pages_after i rs P (lh_page_id (lg_header r))) =
      Some (pages_after (Suc i) rs P (lh_page_id (lg_header r)))"
    and "touches_page r \<Longrightarrow> q \<noteq> lh_page_id (lg_header r) \<Longrightarrow> pages_after (Suc i) rs P q = pages_after i rs P q"
proof -
  have "Some (pages_after (Suc i) rs P) = history [r] (pages_after i rs P)"
    using history_take [OF assms(1), of "Suc i"] history_take [OF assms(1), of i] take_Suc_conv_app_nth [OF assms(2)]
    by (simp add: history_append r_def del: history.simps)
  then show "\<not> touches_page r \<Longrightarrow> pages_after (Suc i) rs P = pages_after i rs P"
    "touches_page r \<Longrightarrow> logged_op r (pages_after i rs P (lh_page_id (lg_header r))) =
      Some (pages_after (Suc i) rs P (lh_page_id (lg_header r)))"
    "touches_page r \<Longrightarrow> q \<noteq> lh_page_id (lg_header r) \<Longrightarrow> pages_after (Suc i) rs P q = pages_after i rs P q"
    by (auto split: option.splits)
qed

lemma pages_after_keep:
  assumes "history rs P = Some P'" "\<not> (i < length rs \<and> touches_page (rs ! i) \<and> p = lh_page_id (lg_header (rs ! i)))"
  shows "pages_after (Suc i) rs P p = pages_after i rs P p"
proof (cases "i < length rs")
  case True
  then show ?thesis
    using pages_after_Suc(1,3) [OF assms(1) True] assms(2) by (cases "touches_page (rs ! i)") auto
qed (simp add: pages_after_def)

lemma logged_insert:
  assumes "logged_op r pg = Some pg'" "lh_type (lg_header r) = kInsert" "log_ok r" "page_inv pg"
  shows "page_inv pg'" "page_recs pg (unat (lh_slot_id (lg_header r))) = None"
    "page_recs pg' = (page_recs pg)(unat (lh_slot_id (lg_header r)) \<mapsto> lg_payload r)"
proof -
  have i: "Page_InsertRecord (Some (lg_payload r)) (lh_payload_size (lg_header r)) pg = (Some (lh_slot_id (lg_header r)), pg')"
    using assms(1,2) by (auto simp: logged_op_def split: option.splits prod.splits if_splits)
  have "unat (lh_payload_size (lg_header r)) = length (lg_payload r)" using assms(3) by (simp add: log_ok_def)
  then show "page_inv pg'" "page_recs pg (unat (lh_slot_id (lg_header r))) = None"
    "page_recs pg' = (page_recs pg)(unat (lh_slot_id (lg_header r)) \<mapsto> lg_payload r)"
    using InsertRecord_step [OF assms(4) i] by simp_all
qed

text \<open>Insertions keep the page invariant and every record.\<close>

lemma pages_after_inv:
  assumes "history rs P = Some P'" "insert_log S rs" "\<And>p. p \<in> S \<Longrightarrow> page_inv (P p)" "p \<in> S"
  shows "page_inv (pages_after i rs P p)"
proof (induction i)
  case (Suc i)
  show ?case
  proof (cases "i < length rs \<and> touches_page (rs ! i) \<and> p = lh_page_id (lg_header (rs ! i))")
    case True
    then have i: "i < length rs" by simp
    note A = pages_after_Suc [OF assms(1) i] and r = insert_logD [OF assms(2) nth_mem [OF i]]
    show ?thesis using logged_insert(1) [OF A(2) _ r(1)] r(2) Suc True by simp
  qed (use Suc pages_after_keep [OF assms(1)] in simp)
qed (use assms(3,4) in simp)

lemma pages_after_mono:
  assumes "history rs P = Some P'" "insert_log S rs" "\<And>p. p \<in> S \<Longrightarrow> page_inv (P p)" "p \<in> S" "i \<le> j"
  shows "page_recs (pages_after i rs P p) \<subseteq>\<^sub>m page_recs (pages_after j rs P p)"
  using assms(5)
proof (induction j rule: dec_induct)
  case (step j)
  show ?case
  proof (cases "j < length rs \<and> touches_page (rs ! j) \<and> p = lh_page_id (lg_header (rs ! j))")
    case True
    then have j: "j < length rs" by simp
    note A = pages_after_Suc [OF assms(1) j] and r = insert_logD [OF assms(2) nth_mem [OF j]]
    note inv = pages_after_inv [OF assms(1-4), of j]
    note I = logged_insert [OF A(2) _ r(1)]
    show ?thesis
      using I(2,3) True r(2) inv step.IH by (auto simp: map_le_def dom_def split: if_splits)
  next
    case False
    then show ?thesis using step.IH pages_after_keep [OF assms(1)] by simp
  qed
qed simp

section \<open>Redo on pages that were written back at different times\<close>

lemma redo_all_append: "redo_all (xs @ ys) m = Option.bind (redo_all xs m) (redo_all ys)"
proof (induction xs arbitrary: m)
  case (Cons r xs)
  then show ?case by (cases "RecoveryManager_RedoRecord r m") simp_all
qed simp

lemma pages_are_cong: "pages_are b S P \<Longrightarrow> (\<And>p. p \<in> S \<Longrightarrow> Q p = P p) \<Longrightarrow> pages_are b S Q"
  by (simp add: pages_are_def)

lemma redo_insert_held:
  assumes "page_inv pg" "lh_type (lg_header r) = kInsert" "page_recs pg (unat (lh_slot_id (lg_header r))) \<noteq> None"
  shows "redo_of r pg n = Some (pg, n)"
  using assms GetRecord_recs [OF assms(1)] by (auto simp: redo_of_def redo_insert_def)

text \<open>Page \<open>p\<close> is as after \<open>k p\<close> operations; redo of the first \<open>j\<close> brings it to the later of the two states.\<close>

lemma redo_mixed_step:
  assumes hist: "history rs P = Some P'" and ins: "insert_log S rs" and inv: "\<And>p. p \<in> S \<Longrightarrow> page_inv (P p)"
    and j: "j < length rs" and are: "pages_are (rm_bpm m) S (\<lambda>p. pages_after (max j (k p)) rs P p)"
  shows "\<exists>m'. RecoveryManager_RedoRecord (rs ! j) m = Some m' \<and>
    pages_are (rm_bpm m') S (\<lambda>p. pages_after (max (Suc j) (k p)) rs P p) \<and> rm_log m' = rm_log m"
proof -
  let ?r = "rs ! j"
  let ?p = "lh_page_id (lg_header ?r)" and ?s = "lh_slot_id (lg_header ?r)"
  let ?Q = "\<lambda>p. pages_after (max j (k p)) rs P p" and ?Q' = "\<lambda>p. pages_after (max (Suc j) (k p)) rs P p"
  note A = pages_after_Suc [OF hist j] and r = insert_logD [OF ins nth_mem [OF j]]
  have keep: "?Q' p = ?Q p" if "\<not> (touches_page ?r \<and> p = ?p \<and> k p \<le> j)" for p
    using that pages_after_keep [OF hist, of j p] by (cases "k p \<le> j") (auto simp: max_def not_le less_Suc_eq_le)
  show ?thesis
  proof (cases "touches_page ?r")
    case False
    then have "pages_are (rm_bpm m) S ?Q'" using keep by (intro pages_are_cong [OF are]) simp
    then show ?thesis using RedoRecord_other [OF False, of m] by simp
  next
    case True
    then have ty: "lh_type (lg_header ?r) = kInsert" and p: "?p \<in> S" using r(2) by simp_all
    have redo: "RecoveryManager_RedoRecord ?r m = redo_on_page ?p (redo_of ?r) m"
      using RedoRecord_page [OF True] ty by (simp add: log_types)
    note invp = pages_after_inv [OF hist ins inv p]
    note L = logged_insert [OF A(2) [OF True] ty r(1) invp]
    show ?thesis
    proof (cases "k ?p \<le> j")
      case old: True
      have "\<exists>pg'. redo_of ?r q n = Some (pg', n + 1) \<and> same_page pg' (pages_after (Suc j) rs P ?p) \<and> page_inv pg'"
        if "same_page q (?Q ?p)" "page_inv q" for q n
      proof -
        have "same_page q (pages_after j rs P ?p)" using that(1) old by (simp add: max_def)
        from redo_logged [OF this that(2) r(1) A(2) [OF True], of n] show ?thesis by blast
      qed
      then obtain m' where m': "redo_on_page ?p (redo_of ?r) m = Some m'"
        "pages_are (rm_bpm m') S (?Q(?p := pages_after (Suc j) rs P ?p))" "rm_log m' = rm_log m"
        using redo_on_page_step [OF are p, where redo = "redo_of ?r" and c = 1] by blast
      have "pages_are (rm_bpm m') S ?Q'"
        using old keep by (intro pages_are_cong [OF m'(2)]) (simp add: max_def)
      then show ?thesis using m' redo by simp
    next
      case held: False
      have "page_recs (pages_after (Suc j) rs P ?p) \<subseteq>\<^sub>m page_recs (?Q ?p)"
        using held by (intro pages_after_mono [OF hist ins inv p]) simp_all
      moreover have "page_recs (pages_after (Suc j) rs P ?p) (unat ?s) = Some (lg_payload ?r)" using L(3) by simp
      ultimately have "page_recs (?Q ?p) (unat ?s) \<noteq> None" unfolding map_le_def by (metis domI option.distinct(1))
      then have "\<exists>pg'. redo_of ?r q n = Some (pg', n + 0) \<and> same_page pg' (?Q ?p) \<and> page_inv pg'"
        if "same_page q (?Q ?p)" "page_inv q" for q n
        using that redo_insert_held [OF that(2) ty] by (simp add: same_page_def)
      then obtain m' where m': "redo_on_page ?p (redo_of ?r) m = Some m'" "pages_are (rm_bpm m') S (?Q(?p := ?Q ?p))"
        "rm_log m' = rm_log m"
        using redo_on_page_step [OF are p, where redo = "redo_of ?r" and c = 0] by blast
      have "pages_are (rm_bpm m') S ?Q'" using held keep by (intro pages_are_cong [OF m'(2)]) simp
      then show ?thesis using m' redo by simp
    qed
  qed
qed

lemma redo_mixed:
  assumes "history rs P = Some P'" "insert_log S rs" "\<And>p. p \<in> S \<Longrightarrow> page_inv (P p)"
    "pages_are (rm_bpm m) S (\<lambda>p. pages_after (k p) rs P p)" "j \<le> length rs"
  shows "\<exists>m'. redo_all (take j rs) m = Some m' \<and> pages_are (rm_bpm m') S (\<lambda>p. pages_after (max j (k p)) rs P p) \<and>
    rm_log m' = rm_log m"
  using assms(5)
proof (induction j)
  case 0
  then show ?case using assms(4) by simp
next
  case (Suc j)
  then obtain m1 where m1: "redo_all (take j rs) m = Some m1" "pages_are (rm_bpm m1) S (\<lambda>p. pages_after (max j (k p)) rs P p)"
    "rm_log m1 = rm_log m" by auto
  have j: "j < length rs" using Suc.prems by simp
  obtain m2 where m2: "RecoveryManager_RedoRecord (rs ! j) m1 = Some m2"
    "pages_are (rm_bpm m2) S (\<lambda>p. pages_after (max (Suc j) (k p)) rs P p)" "rm_log m2 = rm_log m1"
    using redo_mixed_step [OF assms(1-3) j m1(2)] by blast
  then show ?case using m1 take_Suc_conv_app_nth [OF j] by (simp add: redo_all_append)
qed

end
