(* ===== verification/PoolPins.thy ===== *)
theory PoolPins
  imports HeapFile
begin

text \<open>
  The buffer pool for a client that holds several pages at once, as an index does while it splits nodes: the
  state is the contents map with the pin counts, and a page stays in its frame as long as it is pinned.
\<close>

abbreviation bp_unpin :: "u32 \<Rightarrow> bool \<Rightarrow> bpm \<Rightarrow> bpm" where
  "bp_unpin p d b \<equiv> snd (BufferPoolManager_UnpinPage p d b)"

definition pool_at :: "bpm \<Rightarrow> (u32 \<Rightarrow> u8 list option) \<Rightarrow> (u32 \<Rightarrow> nat) \<Rightarrow> bool" where
  "pool_at b v P \<longleftrightarrow> bpm_inv b \<and> bp_view b = v \<and> bp_pins b = P"

text \<open>What a step of the client keeps: the frames of pinned pages, the number of frames and of free disk pages.\<close>

definition frames_kept :: "bpm \<Rightarrow> bpm \<Rightarrow> bool" where
  "frames_kept b b' \<longleftrightarrow>
     (\<forall>q f. 0 < bp_pins b q \<longrightarrow> bp_table b q = Some f \<longrightarrow> bp_table b' q = Some f) \<and> bp_pool_size b' = bp_pool_size b"

definition free_frames :: "bpm \<Rightarrow> nat \<Rightarrow> bool" where
  "free_frames b k \<longleftrightarrow> card (pinned_pages b) + k \<le> unat (bp_pool_size b)"

lemma frames_kept_refl [simp]: "frames_kept b b"
  by (simp add: frames_kept_def)

lemma frames_keptD: "frames_kept b b' \<Longrightarrow> 0 < bp_pins b q \<Longrightarrow> bp_table b q = Some f \<Longrightarrow> bp_table b' q = Some f"
  by (simp add: frames_kept_def)

lemma footprint_pool:
  assumes "pool_at b v P" "pool_at b' v' P'" "frames_kept b b'"
    and "\<And>r. r \<notin> S \<Longrightarrow> v r \<noteq> None \<Longrightarrow> v' r = v r" "\<And>r. r \<in> S' \<Longrightarrow> v r \<noteq> None \<Longrightarrow> r \<in> S"
  shows "footprint S b S' b'"
  using assms by (simp add: footprint_def pool_at_def frames_kept_def)

lemma stable_kept: "(\<And>q. q \<noteq> p \<Longrightarrow> pinned_stable b b' q) \<Longrightarrow> 0 < bp_pins b q \<Longrightarrow> bp_table b q = Some f \<Longrightarrow> q \<noteq> p \<Longrightarrow>
  bp_table b' q = Some f"
  by (simp add: pinned_stable_def)

lemma no_frame_full:
  assumes "bpm_inv b" "\<And>g. pool_frame b g \<Longrightarrow> fm_pin_count (frame_meta b g) \<noteq> 0"
  shows "\<not> free_frames b 1"
  using all_pinned_no_frame [OF assms(1)] assms(2) by (auto simp: has_frame_def free_frames_def)

lemma finite_pinned: "finite (pinned_pages b)"
  by simp

lemma free_frames_pins:
  "pool_at b v P \<Longrightarrow> pool_at b' v' P \<Longrightarrow> bp_pool_size b' = bp_pool_size b \<Longrightarrow> free_frames b' k = free_frames b k"
  by (simp add: free_frames_def pool_at_def pinned_pages_def)

lemma free_frames_more:
  assumes "bp_pins b' = (bp_pins b)(p := n)" "bp_pool_size b' = bp_pool_size b" "free_frames b (Suc k)"
  shows "free_frames b' k"
proof -
  have "pinned_pages b' \<subseteq> insert p (pinned_pages b)" using assms(1) by (auto simp: pinned_pages_def split: if_splits)
  then have "card (pinned_pages b') \<le> Suc (card (pinned_pages b))"
    using card_mono [OF _ \<open>pinned_pages b' \<subseteq> _\<close>] card_insert_le_m1 finite_pinned [of b]
    by (metis card_insert_if finite.insertI le_SucI)
  then show ?thesis using assms(2,3) by (simp add: free_frames_def)
qed

lemma free_frames_two:
  assumes "bp_pins b' = (bp_pins b)(p := m, q := n)" "bp_pool_size b' = bp_pool_size b" "free_frames b (Suc (Suc k))"
  shows "free_frames b' k"
proof -
  have "pinned_pages b' \<subseteq> insert p (insert q (pinned_pages b))" using assms(1) by (auto simp: pinned_pages_def split: if_splits)
  then have "card (pinned_pages b') \<le> card (insert p (insert q (pinned_pages b)))"
    using finite_pinned [of b] by (intro card_mono) simp_all
  also have "\<dots> \<le> Suc (Suc (card (pinned_pages b)))"
    using finite_pinned [of b] by (simp add: card_insert_if)
  finally show ?thesis using assms(2,3) by (simp add: free_frames_def)
qed

lemma unpin_state [simp]:
  "bp_disk (bp_unpin p d b) = bp_disk b" "bp_pool_size (bp_unpin p d b) = bp_pool_size b"
  by (simp_all add: BufferPoolManager_UnpinPage_def Let_def split: option.split)

lemma free_frames_mono: "free_frames b k \<Longrightarrow> k' \<le> k \<Longrightarrow> free_frames b k'"
  by (simp add: free_frames_def)

lemma fetch_held:
  assumes at: "pool_at b v P" and p: "v p \<noteq> None" and pin: "P p < 4294967295" and fr: "0 < P p \<or> free_frames b 1"
  obtains f b1 where "BufferPoolManager_FetchPage p b = (Some f, b1)" "pool_at b1 v (P(p := Suc (P p)))"
    "bp_table b1 p = Some f" "frames_kept b b1" "disk_room (bp_disk b1) = disk_room (bp_disk b)"
proof -
  have A: "bpm_inv b" "bp_view b = v" "bp_pins b = P" using at by (simp_all add: pool_at_def)
  have pd: "p \<in> bp_data b" using p A(2) dom_bp_view [of b] by blast
  obtain r b1 where fetch: "BufferPoolManager_FetchPage p b = (r, b1)" by fastforce
  have pin': "bp_pins b p < 4294967295" using pin A(3) by simp
  show ?thesis
  proof (cases rule: fetch_page [OF A(1) pd pin' fetch])
    case 1
    then have "\<not> free_frames b 1" using no_frame_full [OF A(1)] by blast
    moreover have "P p = 0" using 1(5) A(3) by (auto simp: bp_pins_def)
    ultimately show ?thesis using fr by simp
  next
    case (2 f)
    have "bp_table b1 q = Some g" if "0 < bp_pins b q" "bp_table b q = Some g" for q g
      using that 2(7,8) 2(5) stable_kept [of p b b1 q g] by (cases "q = p") auto
    then have "frames_kept b b1" using 2(13) by (simp add: frames_kept_def)
    moreover have "disk_room (bp_disk b1) = disk_room (bp_disk b)" using 2(11,12) by (simp add: disk_room_def)
    ultimately show ?thesis using that fetch 2(1-5) A by (simp add: pool_at_def)
  qed
qed

lemma put_held:
  assumes at: "pool_at b v P" and t: "bp_table b p = Some f" and pin: "0 < P p" and pg: "page_ser_ok pg"
  shows "pool_at (set_page f pg b) (v(p \<mapsto> page_image pg)) P" "bp_table (set_page f pg b) = bp_table b"
    "frames_kept b (set_page f pg b)" "bp_disk (set_page f pg b) = bp_disk b" "bp_pool_size (set_page f pg b) = bp_pool_size b"
    "frame_page (set_page f pg b) f = pg"
proof -
  have A: "bpm_inv b" "bp_view b = v" "bp_pins b = P" using at by (simp_all add: pool_at_def)
  have "0 < bp_pins b p" using pin A(3) by simp
  note U = put_page [OF A(1) t this pg]
  show "pool_at (set_page f pg b) (v(p \<mapsto> page_image pg)) P" using U(1-3) A by (simp add: pool_at_def)
  show "frame_page (set_page f pg b) f = pg" by (rule U(5))
qed (simp_all add: frames_kept_def)

lemma unpin_held:
  assumes at: "pool_at b v P" and b': "b' = bp_unpin p True b"
  shows "pool_at b' v (P(p := P p - 1))" "bp_table b' = bp_table b" "frames_kept b b'" "bp_disk b' = bp_disk b"
    "bp_pool_size b' = bp_pool_size b"
proof -
  have A: "bpm_inv b" "bp_view b = v" "bp_pins b = P" using at by (simp_all add: pool_at_def)
  have u: "BufferPoolManager_UnpinPage p True b = (fst (BufferPoolManager_UnpinPage p True b), b')" using b' by simp
  note U = unpin_page [OF A(1) u, simplified]
  show "pool_at b' v (P(p := P p - 1))" using U(2-4) A by (simp add: pool_at_def)
  show "bp_table b' = bp_table b" "bp_disk b' = bp_disk b" "bp_pool_size b' = bp_pool_size b" using U(6-8) by simp_all
  then show "frames_kept b b'" by (simp add: frames_kept_def)
qed

lemma footprint_unpin: "pool_at b v P \<Longrightarrow> footprint S b S (bp_unpin p True b)"
  using unpin_held(1) [OF _ refl, of b v P p] by (simp add: footprint_def pool_at_def)

lemma new_held:
  assumes at: "pool_at b v P" and fr: "free_frames b 1" and room: "0 < disk_room (bp_disk b)"
  obtains p f b1 where "BufferPoolManager_NewPage b = (Inr (Some f), b1)" "v p = None" "p \<noteq> INVALID_PAGE_ID" "P p = 0"
    "pool_at b1 (v(p \<mapsto> page_image (Page_new p))) (P(p := 1))" "bp_table b1 p = Some f" "frame_page b1 f = Page_new p"
    "frames_kept b b1" "Suc (disk_room (bp_disk b1)) = disk_room (bp_disk b)"
proof -
  have A: "bpm_inv b" "bp_view b = v" "bp_pins b = P" using at by (simp_all add: pool_at_def)
  obtain r b1 where new: "BufferPoolManager_NewPage b = (r, b1)" by fastforce
  show ?thesis
  proof (cases rule: new_page [OF A(1) room new])
    case 1
    then show ?thesis using no_frame_full [OF A(1)] fr by blast
  next
    case (2 p f)
    have vp: "v p = None" using 2(3) A(2) dom_bp_view [of b] by blast
    have p0: "P p = 0"
      using bp_pins_pos_table [of b p] bp_table_frame(4) [OF A(1)] 2(3) A(3) by (metis gr0I)
    have "bp_table b1 q = Some g" if "0 < bp_pins b q" "bp_table b q = Some g" for q g
    proof -
      have "q \<noteq> p" using that(1) p0 A(3) by auto
      then show ?thesis using stable_kept [of p b b1 q g] 2(11) that by blast
    qed
    then have "frames_kept b b1" using 2(13) by (simp add: frames_kept_def)
    moreover have "p \<noteq> INVALID_PAGE_ID" using bp_data_valid [of p b1] 2(5) by simp
    ultimately show ?thesis using that [of f b1 p] new 2 A vp p0 by (simp add: pool_at_def)
  qed
qed

text \<open>What is in the frame of a page in the pool is what the contents map says.\<close>

lemma frame_holds:
  assumes at: "pool_at b v P" and t: "bp_table b p = Some f"
  shows "v p = Some (page_image (frame_page b f))" "page_ser_ok (frame_page b f)"
proof -
  have A: "bpm_inv b" "bp_view b = v" using at by (simp_all add: pool_at_def)
  show "v p = Some (page_image (frame_page b f))" using bp_table_frame(4) [OF A(1) t] t A(2) by (auto simp: bp_view_def)
  show "page_ser_ok (frame_page b f)" by (rule bp_table_frame(5) [OF A(1) t])
qed

lemma frames_kept_trans:
  assumes "frames_kept b b1" "frames_kept b1 b2" "\<And>q. 0 < bp_pins b q \<Longrightarrow> 0 < bp_pins b1 q"
  shows "frames_kept b b2"
  using assms by (simp add: frames_kept_def)

lemma frames_via:
  "frames_kept b b1 \<Longrightarrow> pool_at b v P \<Longrightarrow> pool_at b1 v1 P1 \<Longrightarrow> frames_kept b1 b2 \<Longrightarrow> (\<And>q. 0 < P q \<Longrightarrow> 0 < P1 q) \<Longrightarrow>
   frames_kept b b2"
  by (auto simp: frames_kept_def pool_at_def)

lemma pool_at_quiet: "quiet b \<longleftrightarrow> pool_at b (bp_view b) (\<lambda>_. 0) \<and> free_frames b 2"
  by (auto simp: quiet_def pool_at_def free_frames_def pinned_pages_def fun_eq_iff)

lemma pool_size_kept: "frames_kept b b' \<Longrightarrow> bp_pool_size b' = bp_pool_size b"
  by (simp add: frames_kept_def)

section \<open>Clients side by side\<close>

text \<open>
  What two clients of one pool owe each other: what a client holds depends only on the contents of its own pages, which are
  in the pool. Then a run of another client, whose footprint starts elsewhere, does not disturb it.
\<close>

locale pool_client =
  fixes holds :: "u32 set \<Rightarrow> bpm \<Rightarrow> bool"
  assumes own_pages: "holds T b \<Longrightarrow> p \<in> T \<Longrightarrow> bp_view b p \<noteq> None"
    and local: "holds T b \<Longrightarrow> quiet b' \<Longrightarrow> (\<And>p. p \<in> T \<Longrightarrow> bp_view b' p = bp_view b p) \<Longrightarrow> holds T b'"
begin

lemma undisturbed:
  assumes "holds T b" "footprint S b S' b'" "quiet b'" "S \<inter> T = {}"
  shows "holds T b'" "S' \<inter> T = {}"
  using local [OF assms(1,3)] footprint_apart [OF assms(2) own_pages [OF assms(1)] assms(4)] by blast+

end

end
