(* ===== verification/WriteBack.thy ===== *)
theory WriteBack
  imports PoolPins
begin

text \<open>
  What the pool does to the file: a page of the file changes only to what the pool holds for that page, whenever a frame is
  evicted or flushed. So whatever the pages of the pool have been, the file holds some earlier state of each, and so
  does the file that a crash leaves.
\<close>

section \<open>Pages that reach the disk\<close>

text \<open>Page by page, the disk \<open>d\<close> is the one of the pool \<open>b\<close> or has what the pool holds.\<close>

definition written_back :: "bpm \<Rightarrow> disk \<Rightarrow> bool" where
  "written_back b d \<longleftrightarrow>
     dm_header d = dm_header (bp_disk b) \<and> disk_free d = disk_free (bp_disk b) \<and>
     length (dm_file d) = length (dm_file (bp_disk b)) \<and> dm_durable d = dm_durable (bp_disk b) \<and>
     (\<forall>q. unat q < disk_pages (bp_disk b) \<longrightarrow>
        disk_page d q = disk_page (bp_disk b) q \<or> q \<in> bp_data b \<and> bp_view b q = Some (disk_page d q))"

lemma written_back_refl [simp]: "written_back b (bp_disk b)"
  by (simp add: written_back_def)

lemma written_back_data: "written_back b d \<Longrightarrow> disk_used d = disk_used (bp_disk b)"
  by (simp add: written_back_def disk_used_def)

lemma written_back_trans:
  assumes "written_back b (bp_disk b1)" "bp_view b1 = bp_view b" "written_back b1 d"
  shows "written_back b d"
proof -
  have "bp_data b1 = bp_data b" using assms(2) dom_bp_view by metis
  then show ?thesis using assms unfolding written_back_def by metis
qed

lemma written_back_cong: "bp_disk b1 = bp_disk b \<Longrightarrow> bp_view b1 = bp_view b \<Longrightarrow> written_back b1 d = written_back b d"
  by (simp add: written_back_def bp_data_def)

lemma written_back_frame:
  assumes ok: "bpm_ok T b" and t: "bp_table b p = Some f"
  shows "written_back b (bp_disk (write_back p f b))"
proof -
  let ?data = "p_data (Page_SerializeToBuffer (frame_page b f))" and ?d = "bp_disk (write_back p f b)"
  have p: "p \<in> bp_data b" by (rule bp_table_frame(4) [OF ok t])
  have wr: "DiskManager_WritePage p ?data (bp_disk b) = (fst (DiskManager_WritePage p ?data (bp_disk b)), ?d)" by simp
  have "unat p < disk_pages (bp_disk b)" using bp_data_valid [OF p] by blast
  note D = disk_write_page(2,3,5,6) [OF bpm_okD(2) [OF ok] this wr]
  have img: "bp_view b p = Some (disk_page ?d p)"
    using write_back_ok(6) [OF ok t] p t by (simp add: bp_view_def del: write_back_fields)
  have "disk_page ?d q = disk_page (bp_disk b) q \<or> q \<in> bp_data b \<and> bp_view b q = Some (disk_page ?d q)"
    if "unat q < disk_pages (bp_disk b)" for q
    using D(4) [OF that] p img by (cases "q = p") blast+
  then show ?thesis using D(1-3) write_back_ok(9) [OF ok t] by (simp add: written_back_def del: write_back_fields)
qed

lemma written_back_evict:
  assumes ok: "bpm_ok T b" and f: "pool_frame b f" "FrameMetadata_IsEvictable (frame_meta b f)"
  shows "written_back b (bp_disk (BufferPoolManager_EvictFrame f b))"
proof -
  have t: "bp_table b (fm_page_id (frame_meta b f)) = Some f"
    using bpm_memD(3) [OF bpm_okD(1) [OF ok]] f by (simp add: FrameMetadata_IsEvictable_def)
  show ?thesis
    using written_back_frame [OF ok t]
    by (simp add: BufferPoolManager_EvictFrame_def Let_def del: write_back_fields(5-7))
qed

lemma written_back_find:
  assumes ok: "bpm_inv b" and find: "BufferPoolManager_FindFreeFrame b = (f, b')"
  shows "written_back b (bp_disk b')"
proof (cases "bp_free b")
  case (Cons g fs)
  then show ?thesis using find by (auto simp: BufferPoolManager_FindFreeFrame_def written_back_def)
next
  case Nil
  note M = bpm_memD [OF bpm_okD(1) [OF ok]]
  have find': "(let (victim, r) = LRUReplacer_Evict (bp_lru b); b1 = b\<lparr>bp_lru := r\<rparr>
      in if victim = INVALID_FRAME_ID then (INVALID_FRAME_ID, b1)
         else let b2 = BufferPoolManager_EvictFrame victim b1
              in (victim, b2\<lparr>bp_stat := (bp_stat b2)\<lparr>st_evictions := st_evictions (bp_stat b2) + 1\<rparr>\<rparr>)) = (f, b')"
    using find Nil by (simp add: BufferPoolManager_FindFreeFrame_def)
  show ?thesis
  proof (cases rule: lru.evict_cases [OF M(6)])
    case 1
    then show ?thesis using find' by (auto simp: written_back_def)
  next
    case (2 v r)
    have v: "pool_frame b v" "FrameMetadata_IsEvictable (frame_meta b v)" using 2(3) M(7) by auto
    let ?b1 = "b\<lparr>bp_lru := r\<rparr>"
    have "b\<lparr>bp_free := bp_free b, bp_lru := r\<rparr> = ?b1" "set (bp_free b) = set (bp_free b) - {v}"
      using Nil by simp_all
    then have b1: "bpm_ok {v} ?b1" "bp_view ?b1 = bp_view b"
      using bpm_ok_take [OF ok v(1) M(4) _ 2(4,5)] by metis+
    have "written_back ?b1 (bp_disk (BufferPoolManager_EvictFrame v ?b1))"
      using v by (intro written_back_evict [OF b1(1)]) simp_all
    moreover have "bp_disk b' = bp_disk (BufferPoolManager_EvictFrame v ?b1)"
      using find' 2(1,2) by (auto simp: Let_def)
    ultimately show ?thesis using written_back_cong [OF _ b1(2)] by simp
  qed
qed

lemma written_back_fetch:
  assumes ok: "bpm_inv b" and p: "p \<in> bp_data b" and pin: "bp_pins b p < 4294967295"
    and fetch: "BufferPoolManager_FetchPage p b = (r, b')"
  shows "written_back b (bp_disk b')"
proof (cases "bp_table b p")
  case (Some f)
  then show ?thesis using fetch_hit(10) [OF ok Some pin fetch] by simp
next
  case None
  let ?b0 = "b\<lparr>bp_stat := (bp_stat b)\<lparr>st_misses := st_misses (bp_stat b) + 1\<rparr>\<rparr>"
  obtain f b1 where find: "BufferPoolManager_FindFreeFrame ?b0 = (f, b1)" by fastforce
  have ok0: "bpm_inv ?b0" using ok by simp
  have "written_back ?b0 (bp_disk b1)" by (rule written_back_find [OF ok0 find])
  then have wb: "written_back b (bp_disk b1)" by (simp add: written_back_def)
  show ?thesis
  proof (cases rule: find_free_frame [OF ok0 find])
    case 1
    then show ?thesis using fetch_miss_full(2) [OF ok None find fetch] wb by simp
  next
    case 2
    have "frame_found b f b1" using 2(2) by (simp add: frame_found_def)
    from fetch_miss_load [OF this None p find fetch 2(1)] show ?thesis
      using wb by (simp add: written_back_def)
  qed
qed

lemma written_back_flush:
  assumes "bpm_inv b" "BufferPoolManager_FlushPage p b = (r, b')"
  shows "written_back b (bp_disk b')"
  using assms written_back_frame [OF assms(1)]
  by (auto simp: BufferPoolManager_FlushPage_def simp del: write_back_fields split: option.splits)

lemma written_back_flush_frame:
  assumes inv: "flushed_upto b k b'" and k: "k < unat (bp_pool_size b)"
  shows "written_back b' (bp_disk (flush_frame b' k))"
proof -
  note I = inv [unfolded flushed_upto_def]
  have ok: "bpm_inv b'" using I by blast
  have "k < 4294967296" using k unat32_lt [of "bp_pool_size b"] by linarith
  then have "unat (of_nat k :: u32) = k" by (simp add: unat32_of_nat)
  then show ?thesis
    using bpm_memD(3) [OF bpm_okD(1) [OF ok], of "fm_page_id (bp_meta b' ! k)" "of_nat k"] I k written_back_frame [OF ok]
    by (auto simp: flush_frame_def simp del: write_back_fields)
qed

lemma written_back_flush_all:
  assumes ok: "bpm_inv b"
  obtains d where "written_back b d" "bp_disk (BufferPoolManager_FlushAllPages b) = d\<lparr>dm_durable := dm_file d\<rparr>"
proof -
  have step: "written_back b (bp_disk (foldl flush_frame b [0..<k]))" if "k \<le> unat (bp_pool_size b)" for k
    using that
  proof (induction k)
    case (Suc k)
    have F: "flushed_upto b k (foldl flush_frame b [0..<k])" by (rule flush_all_upto [OF ok]) (use Suc.prems in simp)
    show ?case
      using written_back_trans [OF Suc.IH _ written_back_flush_frame [OF F]] F Suc.prems by (simp add: flushed_upto_def)
  qed simp
  let ?b1 = "foldl flush_frame b [0..<unat (bp_pool_size b)]"
  have "bpm_inv ?b1" using flush_all_upto [OF ok, of "unat (bp_pool_size b)"] by (simp add: flushed_upto_def)
  then have "dm_is_open (bp_disk ?b1)" using bpm_okD(2) by (auto simp: disk_inv_def disk_rep_def)
  then show ?thesis
    by (intro that [OF step [OF order_refl]])
      (simp add: BufferPoolManager_FlushAllPages_def DiskManager_Flush_def os_fsync_def Let_def)
qed

section \<open>Crashes\<close>

text \<open>A file that a crash can leave: page by page what was last synced or what was last written.\<close>

definition survives :: "disk \<Rightarrow> file_bytes \<Rightarrow> bool" where
  "survives d f \<longleftrightarrow>
     length f = length (dm_file d) \<and>
     (\<forall>q. unat q < disk_pages d \<longrightarrow> file_page f q \<in> {file_page (dm_durable d) q, disk_page d q})"

text \<open>What is known about the data pages of the file, synced or not; the other pages are synced.\<close>

definition disk_holds :: "(u32 \<Rightarrow> u8 list \<Rightarrow> bool) \<Rightarrow> disk \<Rightarrow> bool" where
  "disk_holds V d \<longleftrightarrow>
     (\<forall>q. unat q < disk_pages d \<longrightarrow>
        (if q \<in> disk_used d - {0} then V q (disk_page d q) \<and> V q (file_page (dm_durable d) q)
         else file_page (dm_durable d) q = disk_page d q))"

lemma disk_holds_mono: "disk_holds V d \<Longrightarrow> (\<And>q img. V q img \<Longrightarrow> V' q img) \<Longrightarrow> disk_holds V' d"
  by (auto simp: disk_holds_def)

lemma disk_holds_written:
  assumes "disk_holds V (bp_disk b)" "written_back b d" "\<And>q img. bp_view b q = Some img \<Longrightarrow> V q img"
  shows "disk_holds V d"
  unfolding disk_holds_def
proof (intro allI impI)
  fix q :: u32 assume "unat q < disk_pages d"
  then have q: "unat q < disk_pages (bp_disk b)" using assms(2) by (simp add: written_back_def)
  have W: "dm_durable d = dm_durable (bp_disk b)" "disk_used d = disk_used (bp_disk b)"
    "disk_page d q = disk_page (bp_disk b) q \<or> q \<in> bp_data b \<and> bp_view b q = Some (disk_page d q)"
    using assms(2) q written_back_data [OF assms(2)] by (auto simp: written_back_def)
  show "if q \<in> disk_used d - {0} then V q (disk_page d q) \<and> V q (file_page (dm_durable d) q)
      else file_page (dm_durable d) q = disk_page d q"
    using assms(1,3) W q by (auto simp: disk_holds_def bp_data_def split: if_splits)
qed

lemma disk_holds_sync: "disk_holds V d \<Longrightarrow> disk_holds V (d\<lparr>dm_durable := dm_file d\<rparr>)"
  by (auto simp: disk_holds_def disk_used_def disk_free_def)

lemma crash_page:
  assumes "disk_holds V d" "survives d f" "unat q < disk_pages d"
  shows "q \<in> disk_used d - {0} \<Longrightarrow> V q (file_page f q)" "q \<notin> disk_used d - {0} \<Longrightarrow> file_page f q = disk_page d q"
proof -
  have "file_page f q = file_page (dm_durable d) q \<or> file_page f q = disk_page d q"
    using assms(2,3) by (simp add: survives_def)
  moreover note assms(1) [unfolded disk_holds_def, rule_format, OF assms(3)]
  ultimately show "q \<in> disk_used d - {0} \<Longrightarrow> V q (file_page f q)"
    "q \<notin> disk_used d - {0} \<Longrightarrow> file_page f q = disk_page d q"
    by (auto split: if_splits)
qed

text \<open>Such a file opens as the disk it was, with the pages it has.\<close>

lemma crash_open:
  assumes inv: "disk_inv d" and holds: "disk_holds V d" and f: "survives d f"
  obtains d' where "DiskManager_open (Exists f) [] = Inr d'" "disk_inv d'" "dm_file d' = f" "disk_used d' = disk_used d"
    "dm_durable d' = f" "dm_header d' = dm_header d"
proof -
  have rep: "disk_rep d (disk_free d)" using inv by (simp add: disk_inv_def)
  note R = disk_repD [OF rep]
  have out: "file_page f q = disk_page d q" if "unat q < disk_pages d" "q \<notin> disk_used d - {0}" for q :: u32
    by (rule crash_page(2) [OF holds f that])
  have zero: "file_page f 0 = header_bytes (dm_header d)" using out [of 0] R(3,5) by simp
  have "free_chain f (dh_free_list_head (dm_header d)) (disk_free d)"
    by (rule free_chain_cong [OF _ R(6)]) (use out R(8) in \<open>auto simp: disk_used_def\<close>)
  then have rep': "disk_rep (d\<lparr>dm_file := f, dm_durable := f\<rparr>) (disk_free d)"
    using rep zero f by (simp add: disk_rep_def survives_def)
  have "DiskManager_open (Exists f) [] = Inr ((disk_of_file f [])\<lparr>dm_header := dm_header d\<rparr>)"
    using reopen [OF rep'] by simp
  moreover have "disk_rep ((disk_of_file f [])\<lparr>dm_header := dm_header d\<rparr>) (disk_free d)"
    using rep' by (simp add: disk_rep_def disk_of_file_def)
  ultimately show ?thesis using that by (auto simp: disk_inv_iff disk_of_file_def disk_used_def)
qed

text \<open>A pool on the opened disk: nothing is pinned, and its contents are those of the file.\<close>

lemma crash_pool:
  assumes "disk_inv d" "2 \<le> unat k" "\<And>p. p \<in> disk_used d - {0} \<Longrightarrow> image_ok (disk_page d p)"
  defines "b \<equiv> BufferPoolManager_new k d"
  shows "quiet b" "bp_data b = disk_used d - {0}" "p \<in> disk_used d - {0} \<Longrightarrow> bp_view b p = Some (disk_page d p)"
    "bp_disk b = d"
proof -
  have "bpm_inv b" unfolding b_def using assms(3) by (intro new_pool_inv [OF assms(1)]) blast
  then show "quiet b" using assms(2) by (simp add: quiet_def b_def BufferPoolManager_new_def bp_pins_def)
  show "bp_data b = disk_used d - {0}" "p \<in> disk_used d - {0} \<Longrightarrow> bp_view b p = Some (disk_page d p)" "bp_disk b = d"
    by (simp_all add: b_def BufferPoolManager_new_def bp_data_def bp_view_def)
qed

lemma view_image_ok:
  assumes ok: "bpm_inv b" and v: "bp_view b p = Some img"
  shows "image_ok img"
proof -
  have p: "p \<in> bp_data b" using v by (auto simp: bp_view_def split: if_splits)
  show ?thesis
    using v p bpm_okD(6) [OF ok p] bp_table_frame(5) [OF ok, of p] image_ok_page_image
    by (cases "bp_table b p") (auto simp: bp_view_def)
qed

end
