(* ===== verification/CrashRecovery.thy ===== *)
theory CrashRecovery
  imports RedoInsertions WriteBack
begin

text \<open>
  A database in use: insertions that are logged, reads, write-backs of single pages, log flushes and checkpoints, over the
  buffer pool and the log together. The pool writes pages back whenever it needs a frame, so a crash leaves each page as
  it was at some earlier time. The invariant of a run is that every such page is a state of the log's history; then
  recovery brings back everything the surviving log tells, and adds nothing that was not there.
\<close>

section \<open>Runs\<close>

datatype wal_op = WInsert u32 "u8 list" | WRead u32 | WWriteBack u32 | WCheckpoint | WLogFlush

text \<open>
  How a client inserts: the record goes into the fetched page, the log gets the slot it has, the page is unpinned as dirty.
  \<open>None\<close> is an exception of the log manager; without failing writes there is none.
\<close>

definition wal_insert :: "u32 \<Rightarrow> u8 list \<Rightarrow> recovery \<Rightarrow> recovery option" where
  "wal_insert p bytes m =
     (case BufferPoolManager_FetchPage p (rm_bpm m) of
        (None, b) \<Rightarrow> Some (m\<lparr>rm_bpm := b\<rparr>)
      | (Some f, b) \<Rightarrow>
          (case Page_InsertRecord (Some bytes) (of_nat (length bytes)) (frame_page b f) of
             (None, pg) \<Rightarrow> Some (m\<lparr>rm_bpm := bp_unpin p False (set_page f pg b)\<rparr>)
           | (Some s, pg) \<Rightarrow>
               (case RecoveryManager_LogInsert p s bytes (of_nat (length bytes)) (m\<lparr>rm_bpm := set_page f pg b\<rparr>) of
                  Some (Inr _, m1) \<Rightarrow> Some (m1\<lparr>rm_bpm := bp_unpin p True (rm_bpm m1)\<rparr>)
                | _ \<Rightarrow> None)))"

definition wal_read :: "u32 \<Rightarrow> recovery \<Rightarrow> recovery" where
  "wal_read p m =
     (case BufferPoolManager_FetchPage p (rm_bpm m) of
        (None, b) \<Rightarrow> m\<lparr>rm_bpm := b\<rparr>
      | (Some f, b) \<Rightarrow> m\<lparr>rm_bpm := bp_unpin p False b\<rparr>)"

fun wal_exec :: "wal_op \<Rightarrow> recovery \<Rightarrow> recovery option" where
  "wal_exec (WInsert p bytes) m = wal_insert p bytes m"
| "wal_exec (WRead p) m = Some (wal_read p m)"
| "wal_exec (WWriteBack p) m = Some (m\<lparr>rm_bpm := snd (BufferPoolManager_FlushPage p (rm_bpm m))\<rparr>)"
| "wal_exec WCheckpoint m =
     (case RecoveryManager_Checkpoint m of Some (Inr _, m1) \<Rightarrow> Some m1 | _ \<Rightarrow> None)"
| "wal_exec WLogFlush m =
     (case LogManager_Flush (rm_log m) of (Inr _, l) \<Rightarrow> Some (m\<lparr>rm_log := l\<rparr>) | _ \<Rightarrow> None)"

fun wal_run :: "wal_op list \<Rightarrow> recovery \<Rightarrow> recovery option" where
  "wal_run [] m = Some m"
| "wal_run (x # xs) m = Option.bind (wal_exec x m) (wal_run xs)"

text \<open>The client inserts into pages in \<open>S\<close>, with a length of 16 bits, and reads pages in use.\<close>

fun wal_legal :: "u32 set \<Rightarrow> u32 set \<Rightarrow> wal_op \<Rightarrow> bool" where
  "wal_legal S D (WInsert p bytes) = (p \<in> S \<and> length bytes < 65536)"
| "wal_legal S D (WRead p) = (p \<in> D)"
| "wal_legal S D _ = True"

section \<open>The invariant\<close>

text \<open>The image \<open>img\<close> of page \<open>q\<close> is one of the states that the log \<open>rs\<close> has led through.\<close>

definition earlier_state :: "u32 set \<Rightarrow> (u32 \<Rightarrow> page) \<Rightarrow> log_record list \<Rightarrow> u32 \<Rightarrow> u8 list \<Rightarrow> bool" where
  "earlier_state S P rs q img \<longleftrightarrow>
     image_ok img \<and> (q \<in> S \<longrightarrow> (\<exists>k\<le>length rs. same_page (page_of img) (pages_after k rs P q)))"

abbreviation pages_now :: "log_record list \<Rightarrow> (u32 \<Rightarrow> page) \<Rightarrow> u32 \<Rightarrow> page" where
  "pages_now rs P \<equiv> pages_after (length rs) rs P"

definition wal_inv :: "u32 set \<Rightarrow> u32 set \<Rightarrow> (u32 \<Rightarrow> page) \<Rightarrow> log_record list \<Rightarrow> recovery \<Rightarrow> bool" where
  "wal_inv S D P rs m \<longleftrightarrow>
     history rs P = Some (pages_now rs P) \<and> pages_are (rm_bpm m) S (pages_now rs P) \<and> bp_data (rm_bpm m) = D \<and>
     insert_log S rs \<and> log_inv (rm_log m) \<and> lm_io (rm_log m) = [] \<and> log_contents (rm_log m) = log_image rs \<and>
     disk_holds (earlier_state S P rs) (bp_disk (rm_bpm m))"

lemma wal_invD:
  assumes "wal_inv S D P rs m"
  shows "history rs P = Some (pages_now rs P)" "pages_are (rm_bpm m) S (pages_now rs P)" "bp_data (rm_bpm m) = D"
    "insert_log S rs" "log_inv (rm_log m)" "lm_io (rm_log m) = []" "log_contents (rm_log m) = log_image rs"
    "disk_holds (earlier_state S P rs) (bp_disk (rm_bpm m))" "quiet (rm_bpm m)" "bpm_inv (rm_bpm m)" "S \<subseteq> D"
  using assms by (auto simp: wal_inv_def pages_are_def quiet_def)

lemma earlier_state_append: "earlier_state S P rs q img \<Longrightarrow> earlier_state S P (rs @ rs') q img"
proof -
  have "pages_after k (rs @ rs') P = pages_after k rs P" if "k \<le> length rs" for k
    using that by (simp add: pages_after_def)
  then show "earlier_state S P rs q img \<Longrightarrow> earlier_state S P (rs @ rs') q img"
    unfolding earlier_state_def by (metis le_add1 length_append order_trans)
qed

text \<open>What the pool holds is the latest state; so what it writes back is a state of the history.\<close>

lemma view_earlier:
  assumes "wal_inv S D P rs m" "bp_view (rm_bpm m) q = Some img"
  shows "earlier_state S P rs q img"
proof -
  note I = wal_invD [OF assms(1)]
  have "same_page (page_of img) (pages_now rs P q)" if "q \<in> S"
    using I(2) that assms(2) by (auto simp: pages_are_def hp_page_def)
  then show ?thesis using view_image_ok [OF I(10) assms(2)] by (auto simp: earlier_state_def)
qed

lemma wal_disk:
  assumes "wal_inv S D P rs m" "written_back (rm_bpm m) d"
  shows "disk_holds (earlier_state S P rs) d"
  using disk_holds_written [OF wal_invD(8) [OF assms(1)] assms(2)] view_earlier [OF assms(1)] by blast

lemma wal_inv_pool:
  assumes "wal_inv S D P rs m" "pages_are b S (pages_now rs P)" "bp_data b = D" "written_back (rm_bpm m) (bp_disk b)"
  shows "wal_inv S D P rs (m\<lparr>rm_bpm := b\<rparr>)"
  using assms(2,3) wal_invD [OF assms(1)] wal_disk [OF assms(1,4)] by (simp add: wal_inv_def)

lemma pages_are_view:
  "pages_are b S Q \<Longrightarrow> quiet b' \<Longrightarrow> bp_view b' = bp_view b \<Longrightarrow> pages_are b' S Q \<and> bp_data b' = bp_data b"
  using dom_bp_view [of b] dom_bp_view [of b'] by (simp add: pages_are_def hp_page_def)

text \<open>One more record in the log, and the pages after it.\<close>

lemma wal_inv_record:
  assumes inv: "wal_inv S D P rs m" and r: "insert_log S [r]" and op: "history [r] (pages_now rs P) = Some Q"
    and are: "pages_are b S Q" "bp_data b = D" and wb: "written_back (rm_bpm m) (bp_disk b)"
    and sz: "length (log_image rs) + length (log_bytes r) < 2 ^ 63"
  obtains lsn l where "LogManager_AppendLogRecord r (rm_log m) = Some (Inr lsn, l)"
    "wal_inv S D P (rs @ [r]) (m\<lparr>rm_log := l, rm_bpm := b\<rparr>)"
proof -
  note I = wal_invD [OF inv]
  have ok: "log_ok r" using r by (simp add: insert_log_def)
  have "length (log_contents (rm_log m)) + length (log_bytes r) < 2 ^ 63" using sz I(7) by simp
  then obtain lsn l where L: "LogManager_AppendLogRecord r (rm_log m) = Some (Inr lsn, l)" "log_inv l" "lm_io l = []"
    "log_contents l = log_contents (rm_log m) @ log_bytes r"
    by (rule log_append [OF I(5,6) ok]) blast
  have h: "history (rs @ [r]) P = Some Q" using I(1) op by (simp add: history_append del: history.simps)
  then have Q: "pages_now (rs @ [r]) P = Q" by (simp add: pages_after_def)
  have "disk_holds (earlier_state S P (rs @ [r])) (bp_disk b)"
    using disk_holds_mono [OF wal_disk [OF inv wb]] earlier_state_append by blast
  moreover have "insert_log S (rs @ [r])" using I(4) r by (auto simp: insert_log_def)
  ultimately have "wal_inv S D P (rs @ [r]) (m\<lparr>rm_log := l, rm_bpm := b\<rparr>)"
    using h are L I(7) unfolding wal_inv_def Q by simp
  then show ?thesis using that [OF L(1)] by blast
qed

lemma wal_inv_quiet_record:
  assumes inv: "wal_inv S D P rs m" and r: "log_ok r" "\<not> touches_page r"
    and sz: "length (log_image rs) + length (log_bytes r) < 2 ^ 63"
  obtains lsn l where "LogManager_AppendLogRecord r (rm_log m) = Some (Inr lsn, l)"
    "wal_inv S D P (rs @ [r]) (m\<lparr>rm_log := l\<rparr>)"
proof -
  note I = wal_invD [OF inv]
  have "insert_log S [r]" "history [r] (pages_now rs P) = Some (pages_now rs P)" using r by (simp_all add: insert_log_def)
  then obtain lsn l where "LogManager_AppendLogRecord r (rm_log m) = Some (Inr lsn, l)"
    "wal_inv S D P (rs @ [r]) (m\<lparr>rm_log := l, rm_bpm := rm_bpm m\<rparr>)"
    by (rule wal_inv_record [OF inv _ _ I(2,3) written_back_refl sz])
  then show ?thesis using that by simp
qed

section \<open>The operations keep the invariant\<close>

lemma wal_insert_step:
  assumes inv: "wal_inv S D P rs m" and p: "p \<in> S" and n: "length bytes < 65536"
    and sz: "length (log_image rs) + 65600 < 2 ^ 63"
  shows "\<exists>m' rs'. wal_insert p bytes m = Some m' \<and> wal_inv S D P (rs @ rs') m' \<and> length (log_image rs') \<le> 65600 \<and>
    (insert_fits (of_nat (length bytes)) (pages_now rs P p) \<longrightarrow>
      (\<exists>s. page_recs (pages_now (rs @ rs') P p) = (page_recs (pages_now rs P p))(s \<mapsto> bytes)))"
proof -
  note I = wal_invD [OF inv]
  let ?Q = "pages_now rs P" and ?len = "of_nat (length bytes) :: u16"
  have len: "unat ?len = length bytes" using n by (simp add: unat16_of_nat)
  obtain f b1 where B: "BufferPoolManager_FetchPage p (rm_bpm m) = (Some f, b1)" "same_page (frame_page b1 f) (?Q p)"
    "page_inv (frame_page b1 f)"
    "\<And>pg q' d. page_inv pg \<Longrightarrow> same_page pg q' \<Longrightarrow> d \<or> pg = frame_page b1 f \<Longrightarrow>
       pages_are (bp_unpin p d (set_page f pg b1)) S (?Q(p := q')) \<and>
       bp_data (bp_unpin p d (set_page f pg b1)) = bp_data (rm_bpm m)"
    by (rule page_session [OF I(2) p]) blast
  have pd: "p \<in> bp_data (rm_bpm m)" "bp_pins (rm_bpm m) p < 4294967295"
    using p I(3,11) quietD(2) [OF I(9)] by auto
  have wb: "written_back (rm_bpm m) (bp_disk (bp_unpin p d (set_page f pg b1)))" for d pg
    using written_back_fetch [OF I(10) pd B(1)] by simp
  obtain s pg where ins: "Page_InsertRecord (Some bytes) ?len (frame_page b1 f) = (s, pg)" by fastforce
  show ?thesis
  proof (cases s)
    case None
    then have "\<not> insert_fits ?len (frame_page b1 f)" using InsertRecord_fits_iff [OF B(3), of bytes ?len] ins by auto
    then have pg: "pg = frame_page b1 f" and no: "\<not> insert_fits ?len (?Q p)"
      using InsertRecord_no_fit [OF B(3)] ins same_page_free(3) [OF B(2)] by auto
    have "wal_inv S D P rs (m\<lparr>rm_bpm := bp_unpin p False (set_page f pg b1)\<rparr>)"
      using B(4) [of pg "?Q p" False] B(2,3) pg I(3) by (intro wal_inv_pool [OF inv _ _ wb]) simp_all
    then show ?thesis
      using B(1) ins None no by (intro exI [of _ "[]"] exI [of _ "m\<lparr>rm_bpm := bp_unpin p False (set_page f pg b1)\<rparr>"])
        (simp add: wal_insert_def)
  next
    case (Some t)
    let ?r = "LogRecord_MakeInsert 0 p t bytes ?len" and ?b2 = "bp_unpin p True (set_page f pg b1)"
    have invQ: "page_inv (?Q p)" using I(2) p by (simp add: pages_are_def)
    obtain q' where Q: "Page_InsertRecord (Some bytes) ?len (?Q p) = (Some t, q')" "same_page q' pg" "page_inv q'"
      by (rule insert_same [OF same_page_sym [OF B(2)] invQ _ ins [unfolded Some]]) (use len in simp)
    have b2: "pages_are ?b2 S (?Q(p := q'))" "bp_data ?b2 = D"
      using B(4) [of pg q' True] same_page_sym [OF Q(2)] same_page_inv [OF Q(2)] Q(3) I(3) by auto
    have r: "log_ok ?r" using len by (intro Make_ok) simp
    then have log: "insert_log S [?r]" using p by (simp add: insert_log_def LogRecord_MakeInsert_def)
    have op: "history [?r] ?Q = Some (?Q(p := q'))"
      using Q(1) len by (simp add: touches_page_def logged_op_def LogRecord_MakeInsert_def)
    have bl: "length (log_bytes ?r) \<le> 65557" using len n by (simp add: LogRecord_MakeInsert_def)
    obtain lsn l where L: "LogManager_AppendLogRecord ?r (rm_log m) = Some (Inr lsn, l)"
      "wal_inv S D P (rs @ [?r]) (m\<lparr>rm_log := l, rm_bpm := ?b2\<rparr>)"
      by (rule wal_inv_record [OF inv log op b2 wb]) (use sz bl in linarith)
    have "wal_insert p bytes m = Some (m\<lparr>rm_log := l, rm_bpm := ?b2\<rparr>)"
      using B(1) ins Some L(1) by (simp add: wal_insert_def RecoveryManager_LogInsert_def rm_append_def)
    moreover have "?Q(p := q') = pages_now (rs @ [?r]) P"
      using wal_invD(1) [OF L(2)] op I(1) by (simp add: history_append del: history.simps)
    then have "pages_now (rs @ [?r]) P p = q'" by (metis fun_upd_same)
    then have "page_recs (pages_now (rs @ [?r]) P p) = (page_recs (?Q p))(unat t \<mapsto> bytes)"
      using InsertRecord_step [OF invQ Q(1)] len by simp
    ultimately show ?thesis
      using L(2) bl by (intro exI [of _ "[?r]"] exI [of _ "m\<lparr>rm_log := l, rm_bpm := ?b2\<rparr>"]) auto
  qed
qed

lemma wal_read_step:
  assumes inv: "wal_inv S D P rs m" and p: "p \<in> D"
  shows "wal_inv S D P rs (wal_read p m)"
proof -
  note I = wal_invD [OF inv]
  have pd: "p \<in> bp_data (rm_bpm m)" "bp_pins (rm_bpm m) p < 4294967295"
    using p I(3) quietD(2) [OF I(9)] by auto
  obtain f b1 where B: "BufferPoolManager_FetchPage p (rm_bpm m) = (Some f, b1)"
    "same_frame (rm_bpm m) (bp_unpin p False b1)" "bp_view (bp_unpin p False b1) = bp_view (rm_bpm m)"
    by (rule session [OF I(10) pd(1) quietD(2,3) [OF I(9)]]) blast
  have "written_back (rm_bpm m) (bp_disk (bp_unpin p False b1))"
    using written_back_fetch [OF I(10) pd B(1)] by simp
  then show ?thesis
    using wal_inv_pool [OF inv] pages_are_view [OF I(2) quiet_same_frame [OF I(9) B(2)] B(3)] I(3) B(1)
    by (simp add: wal_read_def)
qed

lemma wal_write_back_step:
  assumes inv: "wal_inv S D P rs m"
  shows "wal_inv S D P rs (m\<lparr>rm_bpm := snd (BufferPoolManager_FlushPage p (rm_bpm m))\<rparr>)"
proof -
  note I = wal_invD [OF inv]
  obtain r b where F: "BufferPoolManager_FlushPage p (rm_bpm m) = (r, b)" by fastforce
  note A = flush_page(2-4) [OF I(10) F]
  have "bp_pool_size b = bp_pool_size (rm_bpm m)"
    using F by (auto simp: BufferPoolManager_FlushPage_def split: option.splits)
  then have "quiet b" using A(1,3) I(9) by (simp add: quiet_def)
  from pages_are_view [OF I(2) this A(2)] show ?thesis
    using wal_inv_pool [OF inv _ _ written_back_flush [OF I(10) F]] I(3) F by simp
qed

lemma wal_flush_all_step:
  assumes inv: "wal_inv S D P rs m"
  shows "wal_inv S D P rs (m\<lparr>rm_bpm := BufferPoolManager_FlushAllPages (rm_bpm m)\<rparr>)"
proof -
  note I = wal_invD [OF inv]
  obtain d where d: "written_back (rm_bpm m) d"
    "bp_disk (BufferPoolManager_FlushAllPages (rm_bpm m)) = d\<lparr>dm_durable := dm_file d\<rparr>"
    by (rule written_back_flush_all [OF I(10)])
  have "disk_holds (earlier_state S P rs) (bp_disk (BufferPoolManager_FlushAllPages (rm_bpm m)))"
    unfolding d(2) by (rule disk_holds_sync [OF wal_disk [OF inv d(1)]])
  then show ?thesis
    using I(1,3-7) pages_are_flush [OF I(2)] flush_all(5) [OF I(10)] by (simp add: wal_inv_def)
qed

lemma wal_log_flush_step:
  assumes inv: "wal_inv S D P rs m" and sz: "length (log_image rs) < 2 ^ 63"
  obtains l where "LogManager_Flush (rm_log m) = (Inr (), l)" "wal_inv S D P rs (m\<lparr>rm_log := l\<rparr>)"
    "lm_durable l = log_image rs"
proof -
  note I = wal_invD [OF inv]
  have "length (log_contents (rm_log m)) < 2 ^ 63" using sz I(7) by simp
  then obtain l where L: "LogManager_Flush (rm_log m) = (Inr (), l)" "log_inv l" "log_contents l = log_contents (rm_log m)"
    "lm_durable l = log_contents (rm_log m)" "lm_io l = []"
    by (rule log_flush [OF I(5,6)])
  then show ?thesis using that [OF L(1)] I by (simp add: wal_inv_def)
qed

text \<open>
  A checkpoint: its two records are in the log and the log is synced, the file has every page as it is, and is synced. No
  page changes.
\<close>

lemma MakeCheckpointEnd_other: "LogRecord_MakeCheckpointEnd lsn ps = Some r \<Longrightarrow> \<not> touches_page r"
  by (auto simp: LogRecord_MakeCheckpointEnd_def Let_def touches_page_def log_types split: if_splits)

lemma log_ok_length: "log_ok r \<Longrightarrow> length (log_bytes r) < 65557"
  using unat16_lt [of "lh_payload_size (lg_header r)"] by (simp add: log_ok_def del: unat16_lt)

lemma wal_checkpoint_step:
  assumes inv: "wal_inv S D P rs m" and sz: "length (log_image rs) + 131200 < 2 ^ 63"
  obtains m' r where "RecoveryManager_Checkpoint m = Some (Inr (), m')" "LogRecord_MakeCheckpointEnd 0 [] = Some r"
    "wal_inv S D P (rs @ [LogRecord_MakeCheckpointBegin 0, r]) m'" "bp_view (rm_bpm m') = bp_view (rm_bpm m)"
    "length (log_image [LogRecord_MakeCheckpointBegin 0, r]) < 131200"
    "lm_durable (rm_log m') = log_contents (rm_log m')"
    "rm_bpm m' = BufferPoolManager_FlushAllPages (rm_bpm m)"
proof -
  let ?c = "LogRecord_MakeCheckpointBegin 0"
  have c: "log_ok ?c" "\<not> touches_page ?c"
    by (rule Make_ok) (simp add: LogRecord_MakeCheckpointBegin_def touches_page_def log_types)
  obtain r where r: "LogRecord_MakeCheckpointEnd 0 [] = Some r" "log_ok r"
    by (rule MakeCheckpointEnd_ok [of "[]" 0]) simp_all
  note n = log_ok_length [OF c(1)] log_ok_length [OF r(2)]
  obtain l1 k1 where L1: "LogManager_AppendLogRecord ?c (rm_log m) = Some (Inr k1, l1)" "wal_inv S D P (rs @ [?c]) (m\<lparr>rm_log := l1\<rparr>)"
    by (rule wal_inv_quiet_record [OF inv c]) (use sz n in linarith)
  let ?m2 = "m\<lparr>rm_log := l1, rm_bpm := BufferPoolManager_FlushAllPages (rm_bpm m)\<rparr>"
  have m2: "wal_inv S D P (rs @ [?c]) ?m2" using wal_flush_all_step [OF L1(2)] by simp
  obtain l2 k2 where L2: "LogManager_AppendLogRecord r l1 = Some (Inr k2, l2)" "wal_inv S D P ((rs @ [?c]) @ [r]) (?m2\<lparr>rm_log := l2\<rparr>)"
    by (rule wal_inv_quiet_record [OF m2 r(2) MakeCheckpointEnd_other [OF r(1)]]) (use sz n in \<open>simp_all del: length_log_bytes\<close>)
  obtain l3 where L3: "LogManager_Flush l2 = (Inr (), l3)" "wal_inv S D P ((rs @ [?c]) @ [r]) (?m2\<lparr>rm_log := l3\<rparr>)"
    "lm_durable l3 = log_image ((rs @ [?c]) @ [r])"
    by (rule wal_log_flush_step [OF L2(2)]) (use sz n in \<open>simp_all del: length_log_bytes\<close>)
  let ?m3 = "?m2\<lparr>rm_log := l3\<rparr>"
  have "RecoveryManager_Checkpoint m = Some (Inr (), ?m3)"
    using L1(1) L2(1) L3(1) r(1) by (simp add: RecoveryManager_Checkpoint_def rm_append_def)
  moreover have "lm_durable (rm_log ?m3) = log_contents (rm_log ?m3)" using L3(3) wal_invD(7) [OF L3(2)] by simp
  ultimately show ?thesis
    using L3(2) flush_all(2) [OF wal_invD(10) [OF inv]] n by (intro that [of ?m3 r, OF _ r(1)]) (simp_all del: length_log_bytes)
qed

lemma wal_step:
  assumes inv: "wal_inv S D P rs m" and legal: "wal_legal S D x" and sz: "length (log_image rs) + 131200 < 2 ^ 63"
  obtains m' rs' where "wal_exec x m = Some m'" "wal_inv S D P (rs @ rs') m'" "length (log_image rs') \<le> 131200"
proof (cases x)
  case (WInsert p bytes)
  have "\<exists>m' rs'. wal_insert p bytes m = Some m' \<and> wal_inv S D P (rs @ rs') m' \<and> length (log_image rs') \<le> 65600"
    using wal_insert_step [OF inv, of p bytes] WInsert legal sz by auto
  then obtain m' rs' where A: "wal_insert p bytes m = Some m'" "wal_inv S D P (rs @ rs') m'"
    "length (log_image rs') \<le> 65600" by blast
  from A(3) have "length (log_image rs') \<le> 131200" by (rule order_trans) simp
  with A(1,2) show ?thesis using that WInsert by simp
next
  case (WRead p)
  then show ?thesis using that [of "wal_read p m" "[]"] wal_read_step [OF inv] legal by simp
next
  case (WWriteBack p)
  then show ?thesis using that [of _ "[]"] wal_write_back_step [OF inv] by simp
next
  case WCheckpoint
  obtain m' r where C: "RecoveryManager_Checkpoint m = Some (Inr (), m')"
    "wal_inv S D P (rs @ [LogRecord_MakeCheckpointBegin 0, r]) m'" "length (log_image [LogRecord_MakeCheckpointBegin 0, r]) < 131200"
    by (rule wal_checkpoint_step [OF inv sz])
  then show ?thesis using that [OF _ C(2)] WCheckpoint by (simp del: length_log_bytes)
next
  case WLogFlush
  have "length (log_image rs) < 2 ^ 63" using sz by simp
  then obtain l where L: "LogManager_Flush (rm_log m) = (Inr (), l)" "wal_inv S D P rs (m\<lparr>rm_log := l\<rparr>)"
    by (rule wal_log_flush_step [OF inv])
  then show ?thesis using that [of _ "[]"] WLogFlush by simp
qed

lemma wal_run_inv:
  assumes "wal_inv S D P rs m" "\<forall>x\<in>set xs. wal_legal S D x" "length (log_image rs) + length xs * 131200 < 2 ^ 63"
  shows "\<exists>m' rs'. wal_run xs m = Some m' \<and> wal_inv S D P (rs @ rs') m' \<and> length (log_image rs') \<le> length xs * 131200"
  using assms
proof (induction xs arbitrary: m rs)
  case Nil
  then show ?case by (intro exI [of _ m] exI [of _ "[]"]) simp
next
  case (Cons x xs)
  have legal: "wal_legal S D x" "\<forall>x\<in>set xs. wal_legal S D x" and "length (log_image rs) + 131200 < 2 ^ 63"
    using Cons.prems(2,3) by auto
  then obtain m1 rs1 where A: "wal_exec x m = Some m1" "wal_inv S D P (rs @ rs1) m1" "length (log_image rs1) \<le> 131200"
    using wal_step [OF Cons.prems(1)] by blast
  have "length (log_image (rs @ rs1)) + length xs * 131200 < 2 ^ 63" using A(3) Cons.prems(3) by simp
  from Cons.IH [OF A(2) legal(2) this] obtain m2 rs2 where "wal_run xs m1 = Some m2" "wal_inv S D P ((rs @ rs1) @ rs2) m2"
    "length (log_image rs2) \<le> length xs * 131200" by blast
  then show ?case using A by (intro exI [of _ m2] exI [of _ "rs1 @ rs2"]) simp
qed

section \<open>Crashes\<close>

text \<open>The restart: the disk and the log open what the crash left, and recovery runs over a new pool of \<open>k\<close> frames.\<close>

definition restart :: "u32 \<Rightarrow> disk \<Rightarrow> log_manager \<Rightarrow> recovery" where
  "restart k d l = RecoveryManager_new l (BufferPoolManager_new k d)"

lemma crash_recovers:
  assumes inv: "wal_inv S D P rs m" and P: "\<And>p. p \<in> S \<Longrightarrow> page_inv (P p)"
    and f: "survives (bp_disk (rm_bpm m)) f" and n: "n \<le> length (log_image rs)"
    and sz: "length (log_image rs) < 2 ^ 63" and k: "2 \<le> unat k"
  obtains d l c m' j g where "DiskManager_open (Exists f) [] = Inr d"
    "LogManager_open (Some (take n (log_image rs))) = Inr l" "RecoveryManager_Recover (restart k d l) = Some (Inr c, m')"
    "pages_are (rm_bpm m') S (\<lambda>p. pages_after (max j (g p)) rs P p)" "j \<le> length rs" "\<forall>p\<in>S. g p \<le> length rs"
    "j < length rs \<longrightarrow> n < length (log_image (take (Suc j) rs))"
    "\<forall>p\<in>S. bp_view (rm_bpm m') p = Some (disk_page (bp_disk (rm_bpm m')) p)"
proof -
  note I = wal_invD [OF inv] and inv' = bpm_okD(2) [OF wal_invD(10) [OF inv]]
  let ?d = "bp_disk (rm_bpm m)"
  obtain d where d: "DiskManager_open (Exists f) [] = Inr d" "disk_inv d" "dm_file d = f" "disk_used d = disk_used ?d"
    by (rule crash_open [OF inv' I(8) f])
  have D: "disk_used d - {0} = D" using d(4) I(3) by (simp add: bp_data_def)
  have st: "earlier_state S P rs q (disk_page d q)" if "q \<in> D" for q
    using crash_page(1) [OF I(8) f, of q] that D d(3,4) by (auto simp: disk_used_def)
  then have "\<forall>q\<in>S. \<exists>i\<le>length rs. same_page (page_of (disk_page d q)) (pages_after i rs P q)"
    using I(11) by (auto simp: earlier_state_def)
  then obtain g where g: "\<forall>q\<in>S. g q \<le> length rs \<and> same_page (page_of (disk_page d q)) (pages_after (g q) rs P q)"
    by metis
  have img: "image_ok (disk_page d q)" if "q \<in> disk_used d - {0}" for q
    using st that D by (simp add: earlier_state_def)
  note B = crash_pool [OF d(2) k img, unfolded D]
  have "page_inv (pages_after (g q) rs P q)" if "q \<in> S" for q by (rule pages_after_inv [OF I(1,4) P that])
  then have are: "pages_are (BufferPoolManager_new k d) S (\<lambda>q. pages_after (g q) rs P q)"
    using B(1-3) g I(11) by (auto simp: pages_are_def hp_page_def)
  have ok: "\<forall>r\<in>set rs. log_ok r" using I(4) by (simp add: insert_log_def)
  obtain j tail where J: "j \<le> length rs" "take n (log_image rs) = log_image (take j rs) @ tail" "torn tail"
    "j < length rs \<longrightarrow> n < length (log_image (take (Suc j) rs))"
    using log_image_prefix [OF ok n] by blast
  obtain l where l: "LogManager_open (Some (take n (log_image rs))) = Inr l" "lm_file l = log_image (take j rs) @ tail"
    "lm_buffer_offset l = 0"
    using J(2) by (simp add: LogManager_open_def)
  have fsz: "length (lm_file l) < 2 ^ 63"
    using sz arg_cong [OF J(2), of length] l(2) by simp
  let ?m = "restart k d l"
  obtain m1 where m1: "redo_all (take j rs) (?m\<lparr>rm_redo_count := 0, rm_log := log_fsync l\<rparr>) = Some m1"
    "pages_are (rm_bpm m1) S (\<lambda>p. pages_after (max j (g p)) rs P p)"
    using redo_mixed [OF I(1,4) P, of "?m\<lparr>rm_redo_count := 0, rm_log := log_fsync l\<rparr>" g j] are J(1)
    by (auto simp: restart_def RecoveryManager_new_def)
  have ok': "\<forall>r\<in>set (take j rs). log_ok r" using ok by (meson in_set_takeD)
  have L: "lm_file (rm_log ?m) = log_image (take j rs) @ tail" "lm_buffer_offset (rm_log ?m) = 0"
    "length (lm_file (rm_log ?m)) < 2 ^ 63"
    "redo_all (take j rs) (?m\<lparr>rm_redo_count := 0, rm_log := log_fsync (rm_log ?m)\<rparr>) = Some m1"
    using l fsz m1(1) by (simp_all add: restart_def RecoveryManager_new_def)
  obtain m' where "RecoveryManager_Recover ?m = Some (Inr (rm_redo_count m1), m')"
    "pages_are (rm_bpm m') S (\<lambda>p. pages_after (max j (g p)) rs P p)"
    "\<forall>p\<in>S. bp_view (rm_bpm m') p = Some (disk_page (bp_disk (rm_bpm m')) p)"
    using recover_by_redo [OF L(1) J(3) L(2,3) ok' L(4) m1(2)] by blast
  then show ?thesis using that [OF d(1) l(1)] J(1,4) g by blast
qed

text \<open>Where a run starts: the pages are in the synced file, and the log is empty.\<close>

definition wal_start :: "u32 set \<Rightarrow> recovery \<Rightarrow> bool" where
  "wal_start S m \<longleftrightarrow>
     quiet (rm_bpm m) \<and> S \<subseteq> bp_data (rm_bpm m) \<and> (\<forall>p\<in>S. page_inv (hp_page (rm_bpm m) p)) \<and>
     (\<forall>p\<in>bp_data (rm_bpm m). bp_view (rm_bpm m) p = Some (disk_page (bp_disk (rm_bpm m)) p)) \<and>
     dm_durable (bp_disk (rm_bpm m)) = dm_file (bp_disk (rm_bpm m)) \<and>
     log_inv (rm_log m) \<and> lm_io (rm_log m) = [] \<and> log_contents (rm_log m) = []"

lemma wal_start_inv:
  assumes "wal_start S m"
  shows "wal_inv S (bp_data (rm_bpm m)) (hp_page (rm_bpm m)) [] m" "p \<in> S \<Longrightarrow> page_inv (hp_page (rm_bpm m) p)"
proof -
  note A = assms [unfolded wal_start_def]
  have "earlier_state S (hp_page (rm_bpm m)) [] q (disk_page (bp_disk (rm_bpm m)) q)" if "q \<in> bp_data (rm_bpm m)" for q
    using A that view_image_ok [OF quietD(1), of "rm_bpm m" q] by (simp add: earlier_state_def hp_page_def same_page_def)
  then have "disk_holds (earlier_state S (hp_page (rm_bpm m)) []) (bp_disk (rm_bpm m))"
    using A by (simp add: disk_holds_def bp_data_def)
  then show "wal_inv S (bp_data (rm_bpm m)) (hp_page (rm_bpm m)) [] m"
    using A by (simp add: wal_inv_def pages_are_def same_page_def insert_log_def)
  show "p \<in> S \<Longrightarrow> page_inv (hp_page (rm_bpm m) p)" using A by blast
qed

lemma wal_recs:
  "wal_inv S D P rs m \<Longrightarrow> p \<in> S \<Longrightarrow> page_recs (hp_page (rm_bpm m) p) = page_recs (pages_now rs P p)"
  by (simp add: wal_inv_def pages_are_def same_page_def)

lemma log_image_take_le: "i \<le> length rs \<Longrightarrow> length (log_image (take i (rs @ rs'))) \<le> length (log_image rs)"
  by (metis append_take_drop_id concat_append length_append le_add1 map_append take_append diff_is_0_eq take0 append_Nil2)

text \<open>
  A crash in the state \<open>m2\<close> whose log file keeps at least what it had in the earlier state \<open>m1\<close>.
\<close>

lemma crash_between:
  assumes m1: "wal_inv S D P rs m1" and m2: "wal_inv S D P (rs @ rs') m2" and P: "\<And>p. p \<in> S \<Longrightarrow> page_inv (P p)"
    and sz: "length (log_image (rs @ rs')) < 2 ^ 63" and k: "2 \<le> unat k"
    and f: "survives (bp_disk (rm_bpm m2)) f"
    and n: "length (log_contents (rm_log m1)) \<le> n" "n \<le> length (log_contents (rm_log m2))"
  shows "\<exists>d l c m'. DiskManager_open (Exists f) [] = Inr d \<and>
      LogManager_open (Some (take n (log_contents (rm_log m2)))) = Inr l \<and>
      RecoveryManager_Recover (restart k d l) = Some (Inr c, m') \<and>
      (\<forall>p\<in>S. page_inv (hp_page (rm_bpm m') p) \<and>
         page_recs (hp_page (rm_bpm m1) p) \<subseteq>\<^sub>m page_recs (hp_page (rm_bpm m') p) \<and>
         page_recs (hp_page (rm_bpm m') p) \<subseteq>\<^sub>m page_recs (hp_page (rm_bpm m2) p))"
proof -
  note I1 = wal_invD [OF m1] and I2 = wal_invD [OF m2]
  have n2: "n \<le> length (log_image (rs @ rs'))" using n(2) I2(7) by simp
  obtain d l c m' j g where R: "DiskManager_open (Exists f) [] = Inr d"
    "LogManager_open (Some (take n (log_image (rs @ rs')))) = Inr l" "RecoveryManager_Recover (restart k d l) = Some (Inr c, m')"
    "pages_are (rm_bpm m') S (\<lambda>p. pages_after (max j (g p)) (rs @ rs') P p)" "j \<le> length (rs @ rs')"
    "\<forall>p\<in>S. g p \<le> length (rs @ rs')" "j < length (rs @ rs') \<longrightarrow> n < length (log_image (take (Suc j) (rs @ rs')))"
    by (rule crash_recovers [OF m2 P f n2 sz k]) (assumption | rule that; assumption)+
  have "length rs \<le> j"
  proof (rule ccontr)
    assume "\<not> length rs \<le> j"
    then have "Suc j \<le> length rs" "j < length (rs @ rs')" by simp_all
    then show False using R(7) log_image_take_le [of "Suc j" rs rs'] n(1) I1(7) by simp
  qed
  then have j: "length rs \<le> max j (g p)" for p by simp
  have "page_inv (hp_page (rm_bpm m') p) \<and>
       page_recs (hp_page (rm_bpm m1) p) \<subseteq>\<^sub>m page_recs (hp_page (rm_bpm m') p) \<and>
       page_recs (hp_page (rm_bpm m') p) \<subseteq>\<^sub>m page_recs (hp_page (rm_bpm m2) p)" if p: "p \<in> S" for p
  proof -
    let ?Q = "pages_after (max j (g p)) (rs @ rs') P p"
    have Q: "page_inv ?Q" "same_page (hp_page (rm_bpm m') p) ?Q" using R(4) p by (simp_all add: pages_are_def)
    have "pages_now rs P = pages_after (length rs) (rs @ rs') P" by (simp add: pages_after_def)
    then have "page_recs (hp_page (rm_bpm m1) p) \<subseteq>\<^sub>m page_recs ?Q"
      using pages_after_mono [OF I2(1,4) P p j] wal_recs [OF m1] p by simp
    moreover have "max j (g p) \<le> length (rs @ rs')" using R(5,6) p by (metis max.bounded_iff)
    then have "page_recs ?Q \<subseteq>\<^sub>m page_recs (hp_page (rm_bpm m2) p)"
      using pages_after_mono [OF I2(1,4) P p] wal_recs [OF m2 p] by simp
    ultimately show ?thesis using Q same_page_inv [OF Q(2)] by (simp add: same_page_def)
  qed
  then show ?thesis unfolding I2(7) using R(1-3)
    by (intro exI [of _ d] exI [of _ l] exI [of _ c] exI [of _ m'] conjI [OF R(1)] conjI [OF R(2)] conjI [OF R(3)] ballI)
qed

section \<open>Properties\<close>

text \<open>
  C5. A crash loses nothing that the surviving log has: start with synced pages and an empty log, insert and read, write back,
  sync the log and checkpoint in any order, and crash. The file may have each page as it was last synced or last written, and the
  log any prefix that covers the first part of the run. Both open, recovery ends, and every page has all its records
  from the end of the first part and only records it had at the crash, in their slots.
\<close>

theorem crash_recovery_keeps_insertions:
  assumes "wal_start S m0" and "\<forall>x\<in>set (xs @ ys). wal_legal S (bp_data (rm_bpm m0)) x"
    and "length (xs @ ys) < 2 ^ 40" and "2 \<le> unat k"
  shows "\<exists>m1 m2. wal_run xs m0 = Some m1 \<and> wal_run ys m1 = Some m2 \<and>
    (\<forall>f n. survives (bp_disk (rm_bpm m2)) f \<longrightarrow> length (log_contents (rm_log m1)) \<le> n \<longrightarrow>
       n \<le> length (log_contents (rm_log m2)) \<longrightarrow>
       (\<exists>d l c m'. DiskManager_open (Exists f) [] = Inr d \<and>
          LogManager_open (Some (take n (log_contents (rm_log m2)))) = Inr l \<and>
          RecoveryManager_Recover (restart k d l) = Some (Inr c, m') \<and>
          (\<forall>p\<in>S. page_inv (hp_page (rm_bpm m') p) \<and>
             page_recs (hp_page (rm_bpm m1) p) \<subseteq>\<^sub>m page_recs (hp_page (rm_bpm m') p) \<and>
             page_recs (hp_page (rm_bpm m') p) \<subseteq>\<^sub>m page_recs (hp_page (rm_bpm m2) p))))"
proof -
  let ?P = "hp_page (rm_bpm m0)" and ?D = "bp_data (rm_bpm m0)"
  note start = wal_start_inv [OF assms(1)]
  have len: "length xs + length ys < 2 ^ 40" using assms(3) by simp
  have legal: "\<forall>x\<in>set xs. wal_legal S ?D x" "\<forall>x\<in>set ys. wal_legal S ?D x" using assms(2) by auto
  obtain m1 rs where m1: "wal_run xs m0 = Some m1" "wal_inv S ?D ?P rs m1" "length (log_image rs) \<le> length xs * 131200"
    using wal_run_inv [OF start(1) legal(1)] len by auto
  have "length (log_image rs) + length ys * 131200 < 2 ^ 63" using m1(3) len by simp
  then obtain m2 rs' where m2: "wal_run ys m1 = Some m2" "wal_inv S ?D ?P (rs @ rs') m2"
    "length (log_image rs') \<le> length ys * 131200"
    using wal_run_inv [OF m1(2) legal(2)] by blast
  have sz: "length (log_image (rs @ rs')) < 2 ^ 63" using m1(3) m2(3) len by simp
  note C = crash_between [OF m1(2) m2(2) start(2) sz assms(4)]
  show ?thesis using m1(1) m2(1) C by blast
qed

text \<open>A page of a new heap file on a pool that was flushed, and a new log.\<close>

lemma demo_start:
  obtains m p where "wal_start {p} m" "page_recs (hp_page (rm_bpm m) p) = (\<lambda>_. None)" "insert_fits 3 (hp_page (rm_bpm m) p)"
proof -
  obtain b p P where D: "pages_are b {p} P" "page_recs (P p) = (\<lambda>_. None)" "page_free (P p) = 4076"
    "ph_num_slots (p_header (P p)) = 0" "Page_FindEmptySlot (P p) = None" by (rule demo_recovery)
  obtain l where l: "log_inv l" "log_contents l = []" "lm_io l = []" using log_open_inv [of "[]"] by auto
  let ?b = "BufferPoolManager_FlushAllPages b"
  have q: "quiet b" "p \<in> bp_data b" and same: "same_page (hp_page ?b p) (P p)" "page_inv (P p)"
    using D(1) pages_are_flush [OF D(1)] by (simp_all add: pages_are_def)
  have quiet: "quiet ?b" using pages_are_flush [OF D(1)] by (simp add: pages_are_def)
  note F = flush_all [OF quietD(1) [OF q(1)]]
  have "bp_view ?b r = Some (disk_page (bp_disk ?b) r)" if "r \<in> bp_data ?b" for r
    using F(2,5) F(6,7) [of r] quietD(2) [OF q(1)] that by (cases "bp_table b r") auto
  moreover have "dm_durable (bp_disk ?b) = dm_file (bp_disk ?b)"
    using F(8) bpm_okD(2) [OF F(1)] by (simp add: disk_inv_def disk_rep_def)
  ultimately have "wal_start {p} \<lparr>rm_log = l, rm_bpm = ?b, rm_redo_count = 0\<rparr>"
    using l quiet q(2) F(5) same same_page_inv [OF same(1)] by (simp add: wal_start_def)
  moreover have "insert_fits 3 (P p)" using D(3,5) by (simp add: insert_fits_def)
  ultimately show ?thesis
    using that D(2) same(1) same_page_free(3) [OF same(1), of 3] by (simp add: same_page_def)
qed

text \<open>A record that was logged and synced, and whose page the client never flushed, is there after the crash.\<close>

theorem crash_recovery_keeps_insertions_witness:
  "\<exists>m0 m1 m2 p f d l c m' s. wal_run [WInsert p [1, 2, 3], WLogFlush] m0 = Some m1 \<and> wal_run [WRead p] m1 = Some m2 \<and>
     page_recs (hp_page (rm_bpm m0) p) = (\<lambda>_. None) \<and> survives (bp_disk (rm_bpm m2)) f \<and>
     DiskManager_open (Exists f) [] = Inr d \<and> LogManager_open (Some (log_contents (rm_log m2))) = Inr l \<and>
     RecoveryManager_Recover (restart 4 d l) = Some (Inr c, m') \<and>
     page_recs (hp_page (rm_bpm m') p) s = Some [1, 2, 3]"
proof -
  let ?bytes = "[1, 2, 3] :: u8 list"
  obtain m0 p where S: "wal_start {p} m0" "page_recs (hp_page (rm_bpm m0) p) = (\<lambda>_. None)" "insert_fits 3 (hp_page (rm_bpm m0) p)"
    by (rule demo_start)
  note start = wal_start_inv(1) [OF S(1)]
  let ?D = "bp_data (rm_bpm m0)" and ?P = "hp_page (rm_bpm m0)"
  have pd: "p \<in> ?D" using S(1) by (simp add: wal_start_def)
  obtain ma rs s where A: "wal_insert p ?bytes m0 = Some ma" "wal_inv {p} ?D ?P rs ma" "length (log_image rs) \<le> 65600"
    "page_recs (pages_now rs ?P p) = (page_recs (?P p))(s \<mapsto> ?bytes)"
    using wal_insert_step [OF start singletonI, of ?bytes] S(3) by auto
  obtain la where B: "LogManager_Flush (rm_log ma) = (Inr (), la)" "wal_inv {p} ?D ?P rs (ma\<lparr>rm_log := la\<rparr>)"
    by (rule wal_log_flush_step [OF A(2)]) (use A(3) in simp)
  have run: "wal_run [WInsert p ?bytes, WLogFlush] m0 = Some (ma\<lparr>rm_log := la\<rparr>)" using A(1) B(1) by simp
  have rec: "page_recs (hp_page (rm_bpm (ma\<lparr>rm_log := la\<rparr>)) p) s = Some ?bytes"
    using wal_recs [OF B(2) singletonI] A(4) by simp
  have legal: "\<forall>x\<in>set ([WInsert p ?bytes, WLogFlush] @ [WRead p]). wal_legal {p} ?D x" using pd by simp
  obtain m2 where M: "wal_run [WRead p] (ma\<lparr>rm_log := la\<rparr>) = Some m2" by simp
  let ?f = "dm_file (bp_disk (rm_bpm m2))" and ?n = "length (log_contents (rm_log m2))"
  have f: "survives (bp_disk (rm_bpm m2)) ?f" by (simp add: survives_def)
  have "wal_inv {p} ?D ?P rs m2" using wal_read_step [OF B(2) pd] M by simp
  then have n: "length (log_contents (rm_log (ma\<lparr>rm_log := la\<rparr>))) \<le> ?n"
    using wal_invD(7) [OF B(2)] wal_invD(7) [of "{p}" ?D ?P rs m2] by simp
  have "length ([WInsert p ?bytes, WLogFlush] @ [WRead p]) < 2 ^ 40" "2 \<le> unat (4 :: u32)" by simp_all
  then obtain m1' m2' where T: "wal_run [WInsert p ?bytes, WLogFlush] m0 = Some m1'" "wal_run [WRead p] m1' = Some m2'"
    "\<forall>f n. survives (bp_disk (rm_bpm m2')) f \<longrightarrow> length (log_contents (rm_log m1')) \<le> n \<longrightarrow>
       n \<le> length (log_contents (rm_log m2')) \<longrightarrow>
       (\<exists>d l c m'. DiskManager_open (Exists f) [] = Inr d \<and>
          LogManager_open (Some (take n (log_contents (rm_log m2')))) = Inr l \<and>
          RecoveryManager_Recover (restart 4 d l) = Some (Inr c, m') \<and>
          (\<forall>p\<in>{p}. page_inv (hp_page (rm_bpm m') p) \<and>
             page_recs (hp_page (rm_bpm m1') p) \<subseteq>\<^sub>m page_recs (hp_page (rm_bpm m') p) \<and>
             page_recs (hp_page (rm_bpm m') p) \<subseteq>\<^sub>m page_recs (hp_page (rm_bpm m2') p)))"
    using crash_recovery_keeps_insertions [OF S(1) legal] by blast
  have m1': "m1' = ma\<lparr>rm_log := la\<rparr>" using T(1) run by simp
  have m2': "m2' = m2" using T(2) M unfolding m1' by simp
  obtain d l c m' where R: "DiskManager_open (Exists ?f) [] = Inr d" "LogManager_open (Some (log_contents (rm_log m2))) = Inr l"
    "RecoveryManager_Recover (restart 4 d l) = Some (Inr c, m')"
    "page_recs (hp_page (rm_bpm (ma\<lparr>rm_log := la\<rparr>)) p) \<subseteq>\<^sub>m page_recs (hp_page (rm_bpm m') p)"
    using T(3) [unfolded m1' m2', rule_format, OF f n order_refl] unfolding take_all [OF order_refl] by blast
  have "page_recs (hp_page (rm_bpm m') p) s = Some ?bytes" using R(4) rec unfolding map_le_def by (metis domI)
  then show ?thesis using run M S(2) f R(1-3) by blast
qed

text \<open>
  C11. After any such run a checkpoint succeeds: the log ends with the two checkpoint records and is synced, no page
  changes, and the synced file opens and has every data page as the pool has it.
\<close>

theorem checkpoint_makes_durable:
  assumes "wal_start S m0" and "\<forall>x\<in>set xs. wal_legal S (bp_data (rm_bpm m0)) x" and "length xs < 2 ^ 40"
    and "wal_run xs m0 = Some m"
  shows "\<exists>r m'. RecoveryManager_Checkpoint m = Some (Inr (), m') \<and> LogRecord_MakeCheckpointEnd 0 [] = Some r \<and>
    log_contents (rm_log m') = log_contents (rm_log m) @ log_bytes (LogRecord_MakeCheckpointBegin 0) @ log_bytes r \<and>
    lm_durable (rm_log m') = log_contents (rm_log m') \<and>
    bp_view (rm_bpm m') = bp_view (rm_bpm m) \<and> dm_durable (bp_disk (rm_bpm m')) = dm_file (bp_disk (rm_bpm m')) \<and>
    (\<exists>d. DiskManager_open (Exists (dm_durable (bp_disk (rm_bpm m')))) [] = Inr d \<and> disk_inv d \<and>
       (\<forall>p\<in>bp_data (rm_bpm m). bp_view (rm_bpm m) p = Some (disk_page d p)))"
proof -
  obtain rs where m: "wal_inv S (bp_data (rm_bpm m0)) (hp_page (rm_bpm m0)) rs m" "length (log_image rs) \<le> length xs * 131200"
    using wal_run_inv [OF wal_start_inv(1) [OF assms(1)] assms(2)] assms(3,4) by auto
  have "length (log_image rs) + 131200 < 2 ^ 63" using m(2) assms(3) by simp
  then obtain m' r where C: "RecoveryManager_Checkpoint m = Some (Inr (), m')" "LogRecord_MakeCheckpointEnd 0 [] = Some r"
    "wal_inv S (bp_data (rm_bpm m0)) (hp_page (rm_bpm m0)) (rs @ [LogRecord_MakeCheckpointBegin 0, r]) m'"
    "bp_view (rm_bpm m') = bp_view (rm_bpm m)" "lm_durable (rm_log m') = log_contents (rm_log m')"
    "rm_bpm m' = BufferPoolManager_FlushAllPages (rm_bpm m)"
    by (rule wal_checkpoint_step [OF m(1)])
  note I = wal_invD [OF m(1)] and I' = wal_invD [OF C(3)] and F = flush_all [OF wal_invD(10) [OF m(1)]]
  have "log_contents (rm_log m') = log_contents (rm_log m) @ log_bytes (LogRecord_MakeCheckpointBegin 0) @ log_bytes r"
    using I(7) I'(7) by simp
  moreover have "dm_is_open (bp_disk (rm_bpm m'))"
    using bpm_okD(2) [OF I'(10)] by (simp add: disk_inv_def disk_rep_def)
  then have sync: "dm_durable (bp_disk (rm_bpm m')) = dm_file (bp_disk (rm_bpm m'))" using F(8) C(6) by simp
  moreover have f: "survives (bp_disk (rm_bpm m')) (dm_durable (bp_disk (rm_bpm m')))" using sync by (simp add: survives_def)
  obtain d where "DiskManager_open (Exists (dm_durable (bp_disk (rm_bpm m')))) [] = Inr d" "disk_inv d"
    "dm_file d = dm_durable (bp_disk (rm_bpm m'))"
    by (rule crash_open [OF bpm_okD(2) [OF I'(10)] I'(8) f])
  moreover have "bp_view (rm_bpm m) p = Some (disk_page (bp_disk (rm_bpm m')) p)" if "p \<in> bp_data (rm_bpm m)" for p
    using F(6,7) [of p] that quietD(2) [OF I(9)] C(6) by (cases "bp_table (rm_bpm m) p") auto
  ultimately show ?thesis using C(1,2,4,5) by metis
qed

theorem checkpoint_makes_durable_witness:
  "\<exists>m0 m m' p. wal_run [WInsert p [1, 2, 3]] m0 = Some m \<and> RecoveryManager_Checkpoint m = Some (Inr (), m') \<and>
     lm_durable (rm_log m') = log_contents (rm_log m') \<and>
     (\<exists>d. DiskManager_open (Exists (dm_durable (bp_disk (rm_bpm m')))) [] = Inr d)"
proof -
  obtain m0 p where S: "wal_start {p} m0" by (rule demo_start)
  have legal: "\<forall>x\<in>set [WInsert p [1, 2, 3]]. wal_legal {p} (bp_data (rm_bpm m0)) x" by simp
  obtain m where m: "wal_run [WInsert p [1, 2, 3]] m0 = Some m"
    using wal_run_inv [OF wal_start_inv(1) [OF S] legal] by auto
  then show ?thesis using checkpoint_makes_durable [OF S legal _ m] by fastforce
qed

end
