(* ===== verification/BTreeNode.thy ===== *)
theory BTreeNode
  imports Page NbaRecord
begin

text \<open>
  The nodes of the B+ tree (\<open>include/index/btree.h\<close> and the classes \<open>InternalNode\<close> and \<open>LeafNode\<close> of
  \<open>src/index/btree.cpp\<close>): binary search, insertion and deletion in a node, and the byte layout of nodes behind the page header.
  The comparator is a parameter, as in the code; what the lemmas need of it is the locale \<open>key_order\<close>.
\<close>

section \<open>Data\<close>

definition DefaultKeyComparator :: "u32 \<Rightarrow> u32 \<Rightarrow> int" where
  "DefaultKeyComparator a b = (if a < b then -1 else if a > b then 1 else 0)"

text \<open>\<open>BTreeNodeType\<close> has an underlying byte; a byte read from a page need not be one of the names.\<close>

definition kInternalNode :: u8 where "kInternalNode = 1"
definition kLeafNode :: u8 where "kLeafNode = 2"

record bt_header =
  bh_node_type :: u8
  bh_parent_page_id :: u32
  bh_num_keys :: u16
  bh_next_page_id :: u32

definition InternalNode_MAX_KEYS :: u16 where
  "InternalNode_MAX_KEYS = 507"

definition LeafNode_MAX_KEYS :: u16 where
  "LeafNode_MAX_KEYS = 406"

record internal_node =
  in_header :: bt_header
  in_children :: "u32 list"
  in_keys :: "u32 list"

record leaf_node =
  ln_header :: bt_header
  ln_keys :: "u32 list"
  ln_rids :: "rid list"

text \<open>The bytes of the node header, from offset 20 of the page on.\<close>

definition write_node_header :: "buf \<Rightarrow> bt_header \<Rightarrow> buf" where
  "write_node_header d h =
     (let d1 = d(20 := bh_node_type h);
          d2 = put32 d1 21 (bh_parent_page_id h);
          d3 = put16 d2 25 (bh_num_keys h)
      in put32 d3 27 (bh_next_page_id h))"

definition read_node_header :: "buf \<Rightarrow> bt_header" where
  "read_node_header d =
     \<lparr>bh_node_type = d 20, bh_parent_page_id = get32 d 21, bh_num_keys = get16 d 25, bh_next_page_id = get32 d 27\<rparr>"

section \<open>Internal nodes\<close>

text \<open>A vector that is assigned past its end is resized first.\<close>

definition vec_set :: "'a list \<Rightarrow> nat \<Rightarrow> 'a \<Rightarrow> 'a \<Rightarrow> 'a list" where
  "vec_set xs i fill x = (xs @ replicate (Suc i - length xs) fill)[i := x]"

definition InternalNode_GetChildAt :: "u16 \<Rightarrow> internal_node \<Rightarrow> u32" where
  "InternalNode_GetChildAt i n = in_children n ! unat i"

definition InternalNode_SetChildAt :: "u16 \<Rightarrow> u32 \<Rightarrow> internal_node \<Rightarrow> internal_node" where
  "InternalNode_SetChildAt i c n = n\<lparr>in_children := vec_set (in_children n) (unat i) INVALID_PAGE_ID c\<rparr>"

definition InternalNode_GetKeyAt :: "u16 \<Rightarrow> internal_node \<Rightarrow> u32" where
  "InternalNode_GetKeyAt i n = in_keys n ! unat i"

definition InternalNode_SetKeyAt :: "u16 \<Rightarrow> u32 \<Rightarrow> internal_node \<Rightarrow> internal_node" where
  "InternalNode_SetKeyAt i k n = n\<lparr>in_keys := vec_set (in_keys n) (unat i) 0 k\<rparr>"

text \<open>The binary search loop of both node classes: go right of \<open>mid\<close> as long as the test holds there.\<close>

function bt_search :: "(u32 \<Rightarrow> bool) \<Rightarrow> u32 list \<Rightarrow> u16 \<Rightarrow> u16 \<Rightarrow> u16" where
  "bt_search P keys lo hi =
     (if lo < hi
      then let mid = lo + (hi - lo) div 2
           in if P (keys ! unat mid) then bt_search P keys (mid + 1) hi else bt_search P keys lo mid
      else lo)"
  by pat_completeness auto

lemma bt_search_mid:
  assumes "(lo :: u16) < hi"
  shows "unat (lo + (hi - lo) div 2) = unat lo + (unat hi - unat lo) div 2"
    and "unat lo + (unat hi - unat lo) div 2 < unat hi"
    and "unat (lo + (hi - lo) div 2 + 1) = Suc (unat lo + (unat hi - unat lo) div 2)"
proof -
  have lt: "unat lo < unat hi" and hi: "unat hi < 65536" using assms by (simp_all add: word_less_nat_alt)
  have "unat ((hi - lo) div 2) = (unat hi - unat lo) div 2"
    using lt by (simp add: unat_div unat_sub_le)
  moreover show m: "unat lo + (unat hi - unat lo) div 2 < unat hi" using lt by linarith
  ultimately show e: "unat (lo + (hi - lo) div 2) = unat lo + (unat hi - unat lo) div 2"
    using hi by (subst unat16_add) linarith+
  show "unat (lo + (hi - lo) div 2 + 1) = Suc (unat lo + (unat hi - unat lo) div 2)"
  proof (subst unat16_add)
    show "unat (lo + (hi - lo) div 2) + unat (1 :: u16) < 65536" using e m hi by (simp del: unat16_lt)
    show "unat (lo + (hi - lo) div 2) + unat (1 :: u16) = Suc (unat lo + (unat hi - unat lo) div 2)" using e by simp
  qed
qed

termination bt_search
  by (relation "measure (\<lambda>(P, keys, lo, hi). unat hi - unat lo)")
    (auto simp: bt_search_mid word_less_nat_alt dest!: bt_search_mid(2) simp del: unat16_lt)

declare bt_search.simps [simp del]

definition InternalNode_FindChild :: "(u32 \<Rightarrow> u32 \<Rightarrow> int) \<Rightarrow> u32 \<Rightarrow> internal_node \<Rightarrow> u16" where
  "InternalNode_FindChild cmp key n = bt_search (\<lambda>k. cmp k key \<le> 0) (in_keys n) 0 (bh_num_keys (in_header n))"

definition insert_at :: "nat \<Rightarrow> 'a \<Rightarrow> 'a list \<Rightarrow> 'a list" where
  "insert_at i x xs = take i xs @ x # drop i xs"

definition InternalNode_InsertAfter :: "u16 \<Rightarrow> u32 \<Rightarrow> u32 \<Rightarrow> internal_node \<Rightarrow> internal_node" where
  "InternalNode_InsertAfter pos key right_child n =
     n\<lparr>in_keys := insert_at (unat pos) key (in_keys n),
       in_children := insert_at (Suc (unat pos)) right_child (in_children n),
       in_header := (in_header n)\<lparr>bh_num_keys := bh_num_keys (in_header n) + 1\<rparr>\<rparr>"

definition InternalNode_IsFull :: "internal_node \<Rightarrow> bool" where
  "InternalNode_IsFull n \<longleftrightarrow> InternalNode_MAX_KEYS \<le> bh_num_keys (in_header n)"

text \<open>The interleaved children and keys; the offset is a \<open>uint16_t\<close>.\<close>

primrec write_pairs :: "buf \<Rightarrow> u16 \<Rightarrow> (u32 \<times> u32) list \<Rightarrow> buf" where
  "write_pairs d off [] = d"
| "write_pairs d off (x # xs) =
     write_pairs (put32 (put32 d (unat off) (fst x)) (unat (off + 4)) (snd x)) (off + 4 + 4) xs"

primrec read_pairs :: "buf \<Rightarrow> u16 \<Rightarrow> nat \<Rightarrow> (u32 \<times> u32) list" where
  "read_pairs d off 0 = []"
| "read_pairs d off (Suc n) = (get32 d (unat off), get32 d (unat (off + 4))) # read_pairs d (off + 4 + 4) n"

definition InternalNode_SerializeToPage :: "internal_node \<Rightarrow> page \<Rightarrow> page" where
  "InternalNode_SerializeToPage n pg =
     (let num = unat (bh_num_keys (in_header n));
          d = write_pairs (write_node_header (p_data pg) (in_header n)) 31 (zip (take num (in_children n)) (take num (in_keys n)))
      in pg\<lparr>p_data := (if 0 < num then put32 d (unat (31 + 8 * bh_num_keys (in_header n))) (in_children n ! num) else d)\<rparr>)"

definition InternalNode_DeserializeFromPage :: "page \<Rightarrow> internal_node" where
  "InternalNode_DeserializeFromPage pg =
     (let d = p_data pg; h = read_node_header d; num = unat (bh_num_keys h); ps = read_pairs d 31 num
      in \<lparr>in_header = h,
          in_children = map fst ps @ [if 0 < num then get32 d (unat (31 + 8 * bh_num_keys h)) else 0],
          in_keys = map snd ps\<rparr>)"

section \<open>Leaf nodes\<close>

definition LeafNode_GetKeyAt :: "u16 \<Rightarrow> leaf_node \<Rightarrow> u32" where
  "LeafNode_GetKeyAt i n = ln_keys n ! unat i"

definition LeafNode_GetRIDAt :: "u16 \<Rightarrow> leaf_node \<Rightarrow> rid" where
  "LeafNode_GetRIDAt i n = ln_rids n ! unat i"

definition LeafNode_FindKeyPosition :: "(u32 \<Rightarrow> u32 \<Rightarrow> int) \<Rightarrow> u32 \<Rightarrow> leaf_node \<Rightarrow> u16" where
  "LeafNode_FindKeyPosition cmp key n = bt_search (\<lambda>k. cmp k key < 0) (ln_keys n) 0 (bh_num_keys (ln_header n))"

definition LeafNode_IsFull :: "leaf_node \<Rightarrow> bool" where
  "LeafNode_IsFull n \<longleftrightarrow> LeafNode_MAX_KEYS \<le> bh_num_keys (ln_header n)"

definition LeafNode_Insert :: "(u32 \<Rightarrow> u32 \<Rightarrow> int) \<Rightarrow> u32 \<Rightarrow> rid \<Rightarrow> leaf_node \<Rightarrow> bool \<times> leaf_node" where
  "LeafNode_Insert cmp key r n =
     (if LeafNode_IsFull n then (False, n)
      else
        let pos = unat (LeafNode_FindKeyPosition cmp key n)
        in (True, n\<lparr>ln_keys := insert_at pos key (ln_keys n), ln_rids := insert_at pos r (ln_rids n),
                   ln_header := (ln_header n)\<lparr>bh_num_keys := bh_num_keys (ln_header n) + 1\<rparr>\<rparr>))"

text \<open>The loop over the entries with the key, from position \<open>pos\<close> on.\<close>

function leaf_find_entry :: "(u32 \<Rightarrow> u32 \<Rightarrow> int) \<Rightarrow> u32 \<Rightarrow> rid \<Rightarrow> leaf_node \<Rightarrow> u16 \<Rightarrow> u16 option" where
  "leaf_find_entry cmp key r n pos =
     (if pos < bh_num_keys (ln_header n) \<and> cmp (ln_keys n ! unat pos) key = 0
      then if RID_eq (ln_rids n ! unat pos) r then Some pos else leaf_find_entry cmp key r n (pos + 1)
      else None)"
  by pat_completeness auto

lemma word16_step: "(pos :: u16) < m \<Longrightarrow> unat (pos + 1) = Suc (unat pos) \<and> unat m - unat (pos + 1) < unat m - unat pos"
proof -
  assume "pos < m"
  then have "unat pos < unat m" "unat m < 65536" by (simp_all add: word_less_nat_alt)
  then show ?thesis by (simp add: unat16_add del: unat16_lt)
qed

termination leaf_find_entry
  by (relation "measure (\<lambda>(cmp, key, r, n, pos). unat (bh_num_keys (ln_header n)) - unat pos)")
    (auto dest: word16_step)

definition erase_at :: "nat \<Rightarrow> 'a list \<Rightarrow> 'a list" where
  "erase_at i xs = take i xs @ drop (Suc i) xs"

definition LeafNode_Delete :: "(u32 \<Rightarrow> u32 \<Rightarrow> int) \<Rightarrow> u32 \<Rightarrow> rid \<Rightarrow> leaf_node \<Rightarrow> bool \<times> leaf_node" where
  "LeafNode_Delete cmp key r n =
     (case leaf_find_entry cmp key r n (LeafNode_FindKeyPosition cmp key n) of
        None \<Rightarrow> (False, n)
      | Some pos \<Rightarrow>
          (True, n\<lparr>ln_keys := erase_at (unat pos) (ln_keys n), ln_rids := erase_at (unat pos) (ln_rids n),
                   ln_header := (ln_header n)\<lparr>bh_num_keys := bh_num_keys (ln_header n) - 1\<rparr>\<rparr>))"

function leaf_collect :: "(u32 \<Rightarrow> u32 \<Rightarrow> int) \<Rightarrow> u32 \<Rightarrow> leaf_node \<Rightarrow> u16 \<Rightarrow> rid list" where
  "leaf_collect cmp key n pos =
     (if pos < bh_num_keys (ln_header n) \<and> cmp (ln_keys n ! unat pos) key = 0
      then ln_rids n ! unat pos # leaf_collect cmp key n (pos + 1) else [])"
  by pat_completeness auto

termination leaf_collect
  by (relation "measure (\<lambda>(cmp, key, n, pos). unat (bh_num_keys (ln_header n)) - unat pos)")
    (auto dest: word16_step)

declare leaf_find_entry.simps [simp del] leaf_collect.simps [simp del]

definition LeafNode_FindAll :: "(u32 \<Rightarrow> u32 \<Rightarrow> int) \<Rightarrow> u32 \<Rightarrow> leaf_node \<Rightarrow> rid list" where
  "LeafNode_FindAll cmp key n = leaf_collect cmp key n (LeafNode_FindKeyPosition cmp key n)"

primrec write_entries :: "buf \<Rightarrow> u16 \<Rightarrow> (u32 \<times> rid) list \<Rightarrow> buf" where
  "write_entries d off [] = d"
| "write_entries d off (x # xs) =
     write_entries (put16 (put32 (put32 d (unat off) (fst x)) (unat (off + 4)) (rid_page_id (snd x)))
       (unat (off + 4 + 4)) (rid_slot_id (snd x))) (off + 4 + 4 + 2) xs"

primrec read_entries :: "buf \<Rightarrow> u16 \<Rightarrow> nat \<Rightarrow> (u32 \<times> rid) list" where
  "read_entries d off 0 = []"
| "read_entries d off (Suc n) =
     (get32 d (unat off), RID (get32 d (unat (off + 4))) (get16 d (unat (off + 4 + 4)))) #
       read_entries d (off + 4 + 4 + 2) n"

definition LeafNode_SerializeToPage :: "leaf_node \<Rightarrow> page \<Rightarrow> page" where
  "LeafNode_SerializeToPage n pg =
     (let num = unat (bh_num_keys (ln_header n))
      in pg\<lparr>p_data := write_entries (write_node_header (p_data pg) (ln_header n)) 31
                        (zip (take num (ln_keys n)) (take num (ln_rids n)))\<rparr>)"

definition LeafNode_DeserializeFromPage :: "page \<Rightarrow> leaf_node" where
  "LeafNode_DeserializeFromPage pg =
     (let d = p_data pg; h = read_node_header d; es = read_entries d 31 (unat (bh_num_keys h))
      in \<lparr>ln_header = h, ln_keys = map fst es, ln_rids = map snd es\<rparr>)"

section \<open>Key orders\<close>

text \<open>What the tree needs of the comparator: it decides a linear order.\<close>

locale key_order =
  fixes cmp :: "u32 \<Rightarrow> u32 \<Rightarrow> int"
  assumes cmp_eq: "cmp a b = 0 \<longleftrightarrow> a = b"
    and cmp_swap: "cmp a b < 0 \<longleftrightarrow> 0 < cmp b a"
    and cmp_trans: "cmp a b < 0 \<Longrightarrow> cmp b c < 0 \<Longrightarrow> cmp a c < 0"
begin

abbreviation sorted_keys :: "u32 list \<Rightarrow> bool" where
  "sorted_keys \<equiv> sorted_wrt (\<lambda>a b. cmp a b \<le> 0)"

lemma cmp_refl [simp]: "cmp a a = 0"
  by (simp add: cmp_eq)

lemma cmp_le_less: "cmp a b \<le> 0 \<Longrightarrow> cmp b c < 0 \<Longrightarrow> cmp a c < 0"
  using cmp_trans cmp_eq by (metis less_eq_int_code(1) linorder_not_le order_le_less)

lemma cmp_less_le: "cmp a b < 0 \<Longrightarrow> cmp b c \<le> 0 \<Longrightarrow> cmp a c < 0"
  using cmp_trans cmp_eq by (metis order_le_less)

lemma cmp_le_trans: "cmp a b \<le> 0 \<Longrightarrow> cmp b c \<le> 0 \<Longrightarrow> cmp a c \<le> 0"
  using cmp_le_less cmp_eq by (metis order_le_less)

lemma cmp_not_less: "\<not> cmp a b < 0 \<longleftrightarrow> cmp b a \<le> 0"
  using cmp_swap cmp_eq by (metis linorder_not_le order_le_less)

text \<open>The tests of the binary searches are closed downwards, so on a sorted list they hold on a prefix.\<close>

definition down_test :: "(u32 \<Rightarrow> bool) \<Rightarrow> bool" where
  "down_test P \<longleftrightarrow> (\<forall>a b. cmp a b \<le> 0 \<longrightarrow> P b \<longrightarrow> P a)"

lemma down_test_less [simp]: "down_test (\<lambda>k. cmp k key < 0)"
  using cmp_le_less by (auto simp: down_test_def)

lemma down_test_le [simp]: "down_test (\<lambda>k. cmp k key \<le> 0)"
  using cmp_le_trans by (auto simp: down_test_def)

lemma sorted_test:
  assumes s: "sorted_keys keys" and P: "down_test P" and i: "i < length keys"
  shows "P (keys ! i) \<longleftrightarrow> i < length (takeWhile P keys)"
proof
  assume "i < length (takeWhile P keys)"
  then show "P (keys ! i)" using takeWhile_nth set_takeWhileD nth_mem by metis
next
  assume Pi: "P (keys ! i)"
  show "i < length (takeWhile P keys)"
  proof (rule ccontr)
    let ?k = "length (takeWhile P keys)"
    assume "\<not> i < ?k"
    then have k: "?k \<le> i" "?k < length keys" using i by simp_all
    then have "\<not> P (keys ! ?k)" using nth_length_takeWhile by blast
    moreover have "P (keys ! ?k)"
    proof (cases "?k = i")
      case False
      then have "cmp (keys ! ?k) (keys ! i) \<le> 0" using s k i by (simp add: sorted_wrt_iff_nth_less)
      then show ?thesis using P Pi by (auto simp: down_test_def)
    qed (use Pi in simp)
    ultimately show False by simp
  qed
qed

lemma search_correct:
  assumes "sorted_keys keys" "down_test P"
    and "unat lo \<le> length (takeWhile P keys)" "length (takeWhile P keys) \<le> unat hi" "unat hi \<le> length keys"
  shows "unat (bt_search P keys lo hi) = length (takeWhile P keys)"
  using assms
proof (induction P keys lo hi rule: bt_search.induct)
  case (1 P keys lo hi)
  let ?mid = "lo + (hi - lo) div 2" and ?k = "length (takeWhile P keys)"
  show ?case
  proof (cases "lo < hi")
    case True
    note M = bt_search_mid [OF True]
    have t: "P (keys ! unat ?mid) \<longleftrightarrow> unat ?mid < ?k"
      using sorted_test [OF 1(3,4), of "unat ?mid"] M 1(7) by linarith
    show ?thesis
    proof (cases "P (keys ! unat ?mid)")
      case P: True
      have "unat (bt_search P keys (?mid + 1) hi) = ?k"
        using P t M 1(6,7) by (intro 1(1) [OF True refl P 1(3,4)]) simp_all
      then show ?thesis using True P by (subst bt_search.simps) (simp add: Let_def)
    next
      case P: False
      have "unat (bt_search P keys lo ?mid) = ?k"
        using P t M 1(5,7) by (intro 1(2) [OF True refl P 1(3,4)]) simp_all
      then show ?thesis using True P by (subst bt_search.simps) (simp add: Let_def)
    qed
  next
    case False
    then have "unat hi \<le> unat lo" by (simp add: word_less_nat_alt)
    then show ?thesis using False 1(5,6) by (subst bt_search.simps) simp
  qed
qed

text \<open>Where the searches of the two node classes end.\<close>

lemma FindKeyPosition_correct:
  assumes "sorted_keys (ln_keys n)" "length (ln_keys n) = unat (bh_num_keys (ln_header n))"
  shows "unat (LeafNode_FindKeyPosition cmp key n) = length (takeWhile (\<lambda>k. cmp k key < 0) (ln_keys n))"
  using search_correct [OF assms(1), of "\<lambda>k. cmp k key < 0" 0 "bh_num_keys (ln_header n)"] assms(2)
    length_takeWhile_le [of "\<lambda>k. cmp k key < 0" "ln_keys n"]
  by (simp add: LeafNode_FindKeyPosition_def)

lemma FindChild_correct:
  assumes "sorted_keys (in_keys n)" "length (in_keys n) = unat (bh_num_keys (in_header n))"
  shows "unat (InternalNode_FindChild cmp key n) = length (takeWhile (\<lambda>k. cmp k key \<le> 0) (in_keys n))"
  using search_correct [OF assms(1), of "\<lambda>k. cmp k key \<le> 0" 0 "bh_num_keys (in_header n)"] assms(2)
    length_takeWhile_le [of "\<lambda>k. cmp k key \<le> 0" "in_keys n"]
  by (simp add: InternalNode_FindChild_def)

end

section \<open>Leaves as sorted lists of entries\<close>

text \<open>What a leaf promises, on the list of its entries: insertion in front of the entries that are not below the key.\<close>

type_synonym entry = "u32 \<times> rid"

definition leaf_entries :: "leaf_node \<Rightarrow> entry list" where
  "leaf_entries n = zip (ln_keys n) (ln_rids n)"

definition leaf_ok :: "leaf_node \<Rightarrow> bool" where
  "leaf_ok n \<longleftrightarrow>
     length (ln_keys n) = unat (bh_num_keys (ln_header n)) \<and> length (ln_rids n) = unat (bh_num_keys (ln_header n)) \<and>
     unat (bh_num_keys (ln_header n)) \<le> unat LeafNode_MAX_KEYS"

definition entries_sorted :: "(u32 \<Rightarrow> u32 \<Rightarrow> int) \<Rightarrow> entry list \<Rightarrow> bool" where
  "entries_sorted cmp es \<longleftrightarrow> sorted_wrt (\<lambda>a b. cmp a b \<le> 0) (map fst es)"

definition entries_insert :: "(u32 \<Rightarrow> u32 \<Rightarrow> int) \<Rightarrow> entry \<Rightarrow> entry list \<Rightarrow> entry list" where
  "entries_insert cmp e es =
     takeWhile (\<lambda>x. cmp (fst x) (fst e) < 0) es @ e # dropWhile (\<lambda>x. cmp (fst x) (fst e) < 0) es"

definition entries_find :: "u32 \<Rightarrow> entry list \<Rightarrow> rid list" where
  "entries_find key es = map snd (filter (\<lambda>x. fst x = key) es)"

lemma length_insert_at [simp]: "i \<le> length xs \<Longrightarrow> length (insert_at i x xs) = Suc (length xs)"
  by (simp add: insert_at_def)

lemma length_erase_at [simp]: "i < length xs \<Longrightarrow> length (erase_at i xs) = length xs - 1"
  by (simp add: erase_at_def)

lemma zip_insert_at: "length xs = length ys \<Longrightarrow> zip (insert_at i x xs) (insert_at i y ys) = insert_at i (x, y) (zip xs ys)"
  by (simp add: insert_at_def take_zip drop_zip)

lemma zip_erase_at: "length xs = length ys \<Longrightarrow> zip (erase_at i xs) (erase_at i ys) = erase_at i (zip xs ys)"
  by (simp add: erase_at_def take_zip drop_zip)

lemma length_takeWhile_zip:
  "length xs = length ys \<Longrightarrow> length (takeWhile P xs) = length (takeWhile (\<lambda>x. P (fst x)) (zip xs ys))"
  by (induction xs ys rule: list_induct2) auto

lemma insert_at_takeWhile: "insert_at (length (takeWhile P xs)) x xs = takeWhile P xs @ x # dropWhile P xs"
  by (simp add: insert_at_def takeWhile_eq_take [symmetric] dropWhile_eq_drop [symmetric])

lemma leaf_ok_entries:
  assumes "leaf_ok n"
  shows "map fst (leaf_entries n) = ln_keys n" "map snd (leaf_entries n) = ln_rids n"
    "length (leaf_entries n) = unat (bh_num_keys (ln_header n))"
  using assms by (simp_all add: leaf_ok_def leaf_entries_def)

lemma mset_entries_insert: "mset (entries_insert cmp e es) = add_mset e (mset es)"
  by (induction es) (simp_all add: entries_insert_def)

lemma set_entries_insert: "set (entries_insert cmp e es) = insert e (set es)"
  by (metis mset_entries_insert set_mset_add_mset_insert set_mset_mset)

context key_order begin

abbreviation sorted_entries :: "entry list \<Rightarrow> bool" where
  "sorted_entries \<equiv> entries_sorted cmp"

lemma sorted_entries_Nil [simp]: "sorted_entries []"
  by (simp add: entries_sorted_def)

lemma sorted_entries_Cons: "sorted_entries (e # es) \<longleftrightarrow> (\<forall>x\<in>set es. cmp (fst e) (fst x) \<le> 0) \<and> sorted_entries es"
  by (simp add: entries_sorted_def)

lemma sorted_entries_append:
  "sorted_entries (xs @ ys) \<longleftrightarrow>
     sorted_entries xs \<and> sorted_entries ys \<and> (\<forall>x\<in>set xs. \<forall>y\<in>set ys. cmp (fst x) (fst y) \<le> 0)"
  by (simp add: entries_sorted_def sorted_wrt_append)

lemma entries_insert_Cons:
  "entries_insert cmp e (x # es) = (if cmp (fst x) (fst e) < 0 then x # entries_insert cmp e es else e # x # es)"
  by (simp add: entries_insert_def)

lemma sorted_entries_insert: "sorted_entries es \<Longrightarrow> sorted_entries (entries_insert cmp e es)"
proof (induction es)
  case Nil
  then show ?case by (simp add: entries_insert_def sorted_entries_Cons)
next
  case (Cons x es)
  show ?case
  proof (cases "cmp (fst x) (fst e) < 0")
    case True
    then show ?thesis using Cons by (auto simp: entries_insert_Cons sorted_entries_Cons set_entries_insert)
  next
    case False
    then have "cmp (fst e) (fst x) \<le> 0" by (simp add: cmp_not_less)
    then show ?thesis using Cons.prems False cmp_le_trans
      by (auto simp: entries_insert_Cons sorted_entries_Cons)
  qed
qed

text \<open>The entries with a key follow those below it in one run.\<close>

lemma run_of_key:
  assumes "sorted_entries es"
  shows "takeWhile (\<lambda>x. cmp (fst x) key = 0) (dropWhile (\<lambda>x. cmp (fst x) key < 0) es) = filter (\<lambda>x. fst x = key) es"
  using assms
proof (induction es)
  case (Cons x es)
  show ?case
  proof (cases "cmp (fst x) key < 0")
    case True
    then have "fst x \<noteq> key" using cmp_eq [of "fst x" key] by auto
    then show ?thesis using Cons True by (simp add: sorted_entries_Cons)
  next
    case False
    note nless = this
    show ?thesis
    proof (cases "fst x = key")
      case True
      have "\<not> cmp (fst y) key < 0" if "y \<in> set es" for y
        using Cons.prems that True by (simp add: sorted_entries_Cons cmp_not_less)
      then have "dropWhile (\<lambda>x. cmp (fst x) key < 0) es = es" by (metis dropWhile_eq_self_iff hd_in_set)
      then show ?thesis using Cons nless True cmp_eq by (simp add: sorted_entries_Cons)
    next
      case neq: False
      have "fst y \<noteq> key" if "y \<in> set es" for y
      proof
        assume "fst y = key"
        then have "cmp (fst x) key \<le> 0" using Cons.prems that by (auto simp: sorted_entries_Cons)
        then show False using nless neq cmp_eq by (metis order_le_less)
      qed
      then show ?thesis using nless neq cmp_eq by (simp add: filter_empty_conv)
    qed
  qed
qed simp

lemma leaf_position:
  assumes "leaf_ok n" "sorted_entries (leaf_entries n)"
  shows "unat (LeafNode_FindKeyPosition cmp key n) = length (takeWhile (\<lambda>x. cmp (fst x) key < 0) (leaf_entries n))"
proof -
  have "sorted_keys (ln_keys n)" using assms by (simp add: entries_sorted_def leaf_ok_entries)
  then have "unat (LeafNode_FindKeyPosition cmp key n) = length (takeWhile (\<lambda>k. cmp k key < 0) (ln_keys n))"
    using FindKeyPosition_correct assms(1) by (simp add: leaf_ok_def)
  then show ?thesis
    using assms(1) length_takeWhile_zip [of "ln_keys n" "ln_rids n" "\<lambda>k. cmp k key < 0"]
    by (simp add: leaf_ok_def leaf_entries_def)
qed

lemma leaf_insert:
  assumes ok: "leaf_ok n" and s: "sorted_entries (leaf_entries n)" and room: "\<not> LeafNode_IsFull n"
  obtains n' where "LeafNode_Insert cmp key r n = (True, n')" "leaf_ok n'"
    "leaf_entries n' = entries_insert cmp (key, r) (leaf_entries n)"
    "ln_header n' = (ln_header n)\<lparr>bh_num_keys := bh_num_keys (ln_header n) + 1\<rparr>"
proof -
  let ?pos = "unat (LeafNode_FindKeyPosition cmp key n)"
  let ?n = "n\<lparr>ln_keys := insert_at ?pos key (ln_keys n), ln_rids := insert_at ?pos r (ln_rids n),
    ln_header := (ln_header n)\<lparr>bh_num_keys := bh_num_keys (ln_header n) + 1\<rparr>\<rparr>"
  have lt: "unat (bh_num_keys (ln_header n)) < 406"
    using room by (simp add: LeafNode_IsFull_def LeafNode_MAX_KEYS_def word_le_nat_alt)
  then have u: "unat (bh_num_keys (ln_header n) + 1) = Suc (unat (bh_num_keys (ln_header n)))"
    by (simp add: unat16_add)
  have pos: "?pos = length (takeWhile (\<lambda>x. cmp (fst x) key < 0) (leaf_entries n))" by (rule leaf_position [OF ok s])
  then have le: "?pos \<le> unat (bh_num_keys (ln_header n))"
    using length_takeWhile_le [of "\<lambda>x. cmp (fst x) key < 0" "leaf_entries n"] leaf_ok_entries(3) [OF ok] by simp
  have "leaf_entries ?n = insert_at ?pos (key, r) (leaf_entries n)"
    using ok by (simp add: leaf_entries_def leaf_ok_def zip_insert_at)
  then have "leaf_entries ?n = entries_insert cmp (key, r) (leaf_entries n)"
    unfolding pos by (simp add: insert_at_takeWhile entries_insert_def)
  moreover have "leaf_ok ?n" using ok le lt u by (simp add: leaf_ok_def LeafNode_MAX_KEYS_def)
  moreover have "LeafNode_Insert cmp key r n = (True, ?n)" using room by (simp add: LeafNode_Insert_def Let_def)
  ultimately show ?thesis by (intro that [of ?n]) simp_all
qed

lemma collect_run:
  assumes ok: "leaf_ok n"
  shows "leaf_collect cmp key n pos = map snd (takeWhile (\<lambda>x. cmp (fst x) key = 0) (drop (unat pos) (leaf_entries n)))"
  using ok
proof (induction cmp key n pos rule: leaf_collect.induct)
  case (1 cmp key n pos)
  show ?case
  proof (cases "pos < bh_num_keys (ln_header n)")
    case True
    then have i: "unat pos < length (leaf_entries n)" using 1(2) by (simp add: leaf_ok_entries word_less_nat_alt)
    then have d: "drop (unat pos) (leaf_entries n) =
        (ln_keys n ! unat pos, ln_rids n ! unat pos) # drop (unat (pos + 1)) (leaf_entries n)"
      using word16_step [OF True] by (simp add: leaf_entries_def flip: Cons_nth_drop_Suc)
    show ?thesis using 1 True by (subst leaf_collect.simps) (simp add: d)
  next
    case False
    then have "drop (unat pos) (leaf_entries n) = []" using 1(2) by (simp add: leaf_ok_entries word_less_nat_alt)
    then show ?thesis using False by (subst leaf_collect.simps) simp
  qed
qed

lemma leaf_find:
  assumes ok: "leaf_ok n" and s: "sorted_entries (leaf_entries n)"
  shows "LeafNode_FindAll cmp key n = entries_find key (leaf_entries n)"
  by (simp add: LeafNode_FindAll_def collect_run [OF ok] leaf_position [OF ok s] entries_find_def
      run_of_key [OF s] flip: dropWhile_eq_drop)

lemma find_entry_run:
  assumes "leaf_ok n"
  shows "case leaf_find_entry cmp key r n pos of
      None \<Rightarrow> \<forall>x\<in>set (takeWhile (\<lambda>x. cmp (fst x) key = 0) (drop (unat pos) (leaf_entries n))). snd x \<noteq> r
    | Some q \<Rightarrow> unat pos \<le> unat q \<and> unat q < length (leaf_entries n) \<and> leaf_entries n ! unat q = (key, r) \<and>
        (\<forall>i. unat pos \<le> i \<and> i < unat q \<longrightarrow> leaf_entries n ! i \<noteq> (key, r))"
  using assms key_order_axioms
proof (induction cmp key r n pos rule: leaf_find_entry.induct)
  case (1 cmp key r n pos)
  show ?case
  proof (cases "pos < bh_num_keys (ln_header n) \<and> cmp (ln_keys n ! unat pos) key = 0")
    case True
    then have i: "unat pos < length (leaf_entries n)" using 1(2) by (simp add: leaf_ok_entries word_less_nat_alt)
    have k: "ln_keys n ! unat pos = key" using True key_order.cmp_eq [OF 1(3)] by blast
    have e: "leaf_entries n ! unat pos = (key, ln_rids n ! unat pos)" using i k by (simp add: leaf_entries_def)
    have d: "drop (unat pos) (leaf_entries n) = (key, ln_rids n ! unat pos) # drop (unat (pos + 1)) (leaf_entries n)"
      using word16_step [of pos "bh_num_keys (ln_header n)"] True i e by (simp flip: Cons_nth_drop_Suc)
    show ?thesis
    proof (cases "ln_rids n ! unat pos = r")
      case False
      have "leaf_entries n ! j \<noteq> (key, r)"
        if "\<forall>i. unat (pos + 1) \<le> i \<and> i < q \<longrightarrow> leaf_entries n ! i \<noteq> (key, r)" "unat pos \<le> j" "j < q" for j q
        using that word16_step [of pos "bh_num_keys (ln_header n)"] True False e by (cases "j = unat pos") auto
      then show ?thesis using 1(1) [OF True] 1(2,3) True False word16_step [of pos "bh_num_keys (ln_header n)"] k
        by (subst leaf_find_entry.simps) (fastforce simp: d split: option.splits)
    qed (use True i e in \<open>subst leaf_find_entry.simps, auto\<close>)
  next
    case False
    then have "takeWhile (\<lambda>x. cmp (fst x) key = 0) (drop (unat pos) (leaf_entries n)) = []"
      using 1(2) by (cases "unat pos < length (leaf_entries n)")
        (auto simp: leaf_ok_def word_less_nat_alt leaf_entries_def simp flip: Cons_nth_drop_Suc)
    then show ?thesis using False by (subst leaf_find_entry.simps) auto
  qed
qed

lemma erase_first: "i < length xs \<Longrightarrow> xs ! i = x \<Longrightarrow> \<forall>j<i. xs ! j \<noteq> x \<Longrightarrow> erase_at i xs = remove1 x xs"
proof (induction xs arbitrary: i)
  case (Cons y ys)
  then show ?case
    using Cons.IH [of "i - 1"] by (cases i) (fastforce simp: erase_at_def)+
qed simp

lemma leaf_delete_absent:
  assumes ok: "leaf_ok n" and s: "sorted_entries (leaf_entries n)" and "(key, r) \<notin> set (leaf_entries n)"
  shows "LeafNode_Delete cmp key r n = (False, n)"
  using find_entry_run [OF ok, where key = key and r = r and pos = "LeafNode_FindKeyPosition cmp key n"] assms(3)
  by (auto simp: LeafNode_Delete_def split: option.splits dest: nth_mem)

lemma leaf_delete:
  assumes ok: "leaf_ok n" and s: "sorted_entries (leaf_entries n)" and mem: "(key, r) \<in> set (leaf_entries n)"
  obtains n' where "LeafNode_Delete cmp key r n = (True, n')" "leaf_ok n'"
    "leaf_entries n' = remove1 (key, r) (leaf_entries n)"
    "ln_header n' = (ln_header n)\<lparr>bh_num_keys := bh_num_keys (ln_header n) - 1\<rparr>"
proof -
  let ?es = "leaf_entries n" and ?p = "LeafNode_FindKeyPosition cmp key n"
  let ?run = "takeWhile (\<lambda>x. cmp (fst x) key = 0) (drop (unat ?p) ?es)"
  note pos = leaf_position [OF ok s, of key]
  have "?run = filter (\<lambda>x. fst x = key) ?es" using run_of_key [OF s, of key] by (simp add: pos flip: dropWhile_eq_drop)
  then have "(key, r) \<in> set ?run" using mem by simp
  then obtain q where q: "leaf_find_entry cmp key r n ?p = Some q"
    using find_entry_run [OF ok, where key = key and r = r and pos = ?p] by (fastforce split: option.splits)
  then have Q: "unat q < length ?es" "?es ! unat q = (key, r)" "\<forall>i. unat ?p \<le> i \<and> i < unat q \<longrightarrow> ?es ! i \<noteq> (key, r)"
    using find_entry_run [OF ok, where key = key and r = r and pos = ?p] by simp_all
  have below: "?es ! i \<noteq> (key, r)" if "i < unat ?p" for i
  proof -
    have "takeWhile (\<lambda>x. cmp (fst x) key < 0) ?es ! i \<in> set (takeWhile (\<lambda>x. cmp (fst x) key < 0) ?es)"
      using that pos by simp
    then have "cmp (fst (?es ! i)) key < 0" using set_takeWhileD that pos takeWhile_nth by metis
    then show ?thesis using cmp_eq [of key key] by auto
  qed
  have "erase_at (unat q) ?es = remove1 (key, r) ?es"
    using Q below by (intro erase_first) (auto simp: not_le [symmetric])
  moreover let ?n = "n\<lparr>ln_keys := erase_at (unat q) (ln_keys n), ln_rids := erase_at (unat q) (ln_rids n),
    ln_header := (ln_header n)\<lparr>bh_num_keys := bh_num_keys (ln_header n) - 1\<rparr>\<rparr>"
  have "leaf_entries ?n = erase_at (unat q) ?es" using ok by (simp add: leaf_entries_def leaf_ok_def zip_erase_at)
  moreover have "unat (bh_num_keys (ln_header n) - 1) = unat (bh_num_keys (ln_header n)) - 1"
    using Q(1) leaf_ok_entries(3) [OF ok] by (simp add: unat_sub_le)
  then have "leaf_ok ?n" using ok Q(1) leaf_ok_entries(3) [OF ok] by (auto simp: leaf_ok_def)
  moreover have "LeafNode_Delete cmp key r n = (True, ?n)" using q by (simp add: LeafNode_Delete_def)
  ultimately show ?thesis by (intro that [of ?n]) simp_all
qed

lemma sorted_entries_remove1: "sorted_entries es \<Longrightarrow> sorted_entries (remove1 e es)"
  by (induction es) (auto simp: sorted_entries_Cons dest: notin_set_remove1)

end

interpretation default_order: key_order DefaultKeyComparator
  by unfold_locales (auto simp: DefaultKeyComparator_def split: if_splits)

section \<open>Nodes in pages\<close>

text \<open>
  The loops that copy the items of a node into the page and back: items of \<open>width\<close> bytes, one
  after the other. The laws are those of one item.
\<close>

locale byte_array =
  fixes put1 :: "buf \<Rightarrow> u16 \<Rightarrow> 'a \<Rightarrow> buf" and get1 :: "buf \<Rightarrow> u16 \<Rightarrow> 'a" and width :: nat
    and wr :: "buf \<Rightarrow> u16 \<Rightarrow> 'a list \<Rightarrow> buf" and rd :: "buf \<Rightarrow> u16 \<Rightarrow> nat \<Rightarrow> 'a list"
  assumes wr_Nil: "wr d off [] = d"
    and wr_Cons: "wr d off (x # xs) = wr (put1 d off x) (off + of_nat width) xs"
    and rd_0: "rd d off 0 = []"
    and rd_Suc: "rd d off (Suc n) = get1 d off # rd d (off + of_nat width) n"
    and width_small: "width < 65536"
    and put1_other: "unat off + width < 65536 \<Longrightarrow> i < unat off \<or> unat off + width \<le> i \<Longrightarrow> put1 d off x i = d i"
    and get1_cong: "unat off + width < 65536 \<Longrightarrow> (\<And>i. unat off \<le> i \<Longrightarrow> i < unat off + width \<Longrightarrow> d i = d' i) \<Longrightarrow>
      get1 d off = get1 d' off"
    and get1_put1: "unat off + width < 65536 \<Longrightarrow> get1 (put1 d off x) off = x"
begin

lemma unat_step: "unat (off :: u16) + width < 65536 \<Longrightarrow> unat (off + of_nat width) = unat off + width"
  using width_small unat16_add [of off "of_nat width"] by (simp add: unat16_of_nat)

lemma wr_other:
  "unat off + width * length xs < 65536 \<Longrightarrow> i < unat off \<or> unat off + width * length xs \<le> i \<Longrightarrow> wr d off xs i = d i"
proof (induction xs arbitrary: d off)
  case (Cons x xs)
  then have "unat off + width < 65536" by simp
  then show ?case using Cons by (auto simp: wr_Cons unat_step put1_other)
qed (simp add: wr_Nil)

lemma length_rd [simp]: "length (rd d off n) = n"
  by (induction n arbitrary: off) (simp_all add: rd_0 rd_Suc)

lemma rd_cong:
  "unat off + width * n < 65536 \<Longrightarrow> (\<And>i. unat off \<le> i \<Longrightarrow> i < unat off + width * n \<Longrightarrow> d i = d' i) \<Longrightarrow>
   rd d off n = rd d' off n"
proof (induction n arbitrary: off)
  case (Suc n)
  then have "unat off + width < 65536" by simp
  moreover from this have "rd d (off + of_nat width) n = rd d' (off + of_nat width) n"
    using Suc.prems by (intro Suc.IH) (simp_all add: unat_step)
  moreover have "get1 d off = get1 d' off" using Suc.prems by (intro get1_cong) simp_all
  ultimately show ?case by (simp add: rd_Suc)
qed (simp add: rd_0)

lemma rd_wr: "unat off + width * length xs < 65536 \<Longrightarrow> rd (wr d off xs) off (length xs) = xs"
proof (induction xs arbitrary: d off)
  case (Cons x xs)
  then have w: "unat off + width < 65536" by simp
  have "get1 (wr (put1 d off x) (off + of_nat width) xs) off = get1 (put1 d off x) off"
    using Cons.prems w by (intro get1_cong wr_other) (simp_all add: unat_step)
  then show ?case using Cons w by (simp add: wr_Cons rd_Suc get1_put1 unat_step)
qed (simp add: rd_0)

end

interpretation pairs: byte_array
  "\<lambda>d off x. put32 (put32 d (unat off) (fst x)) (unat (off + 4)) (snd x)"
  "\<lambda>d off. (get32 d (unat off), get32 d (unat (off + 4)))" 8 write_pairs read_pairs
  by unfold_locales (auto simp: unat16_add add.commute [of "8 :: u16"] add.commute [of "10 :: u16"] c32.dec_enc intro!: arg_cong [of _ _ of_le_bytes] buf_read_cong)

interpretation entries: byte_array
  "\<lambda>d off x. put16 (put32 (put32 d (unat off) (fst x)) (unat (off + 4)) (rid_page_id (snd x)))
     (unat (off + 4 + 4)) (rid_slot_id (snd x))"
  "\<lambda>d off. (get32 d (unat off), RID (get32 d (unat (off + 4))) (get16 d (unat (off + 4 + 4))))"
  10 write_entries read_entries
  by unfold_locales (auto simp: unat16_add add.commute [of "8 :: u16"] add.commute [of "10 :: u16"] c32.dec_enc c16.dec_enc intro!: arg_cong [of _ _ of_le_bytes] buf_read_cong)

lemma write_node_header_other: "i < 20 \<or> 31 \<le> i \<Longrightarrow> write_node_header d h i = d i"
  by (auto simp: write_node_header_def Let_def)

lemma read_write_node_header: "read_node_header (write_node_header d h) = h"
  by (simp add: read_node_header_def write_node_header_def Let_def c32.dec_enc c16.dec_enc)

lemma read_node_header_cong:
  assumes "\<And>i. 20 \<le> i \<Longrightarrow> i < 31 \<Longrightarrow> d i = d' i"
  shows "read_node_header d = read_node_header d'"
proof -
  have "buf_read d off n = buf_read d' off n" if "20 \<le> off" "off + n \<le> 31" for off n
    using that assms by (intro buf_read_cong) auto
  then show ?thesis using assms by (simp add: read_node_header_def)
qed

lemma leaf_fits: "leaf_ok n \<Longrightarrow> 31 + 10 * length (leaf_entries n) \<le> 4091"
  by (simp add: leaf_ok_entries leaf_ok_def LeafNode_MAX_KEYS_def)

lemma leaf_serialize_data:
  assumes "leaf_ok n"
  shows "p_data (LeafNode_SerializeToPage n pg) = write_entries (write_node_header (p_data pg) (ln_header n)) 31 (leaf_entries n)"
  using assms by (simp add: LeafNode_SerializeToPage_def leaf_entries_def leaf_ok_def)

lemma serialize_page_fields [simp]:
  "p_header (LeafNode_SerializeToPage n pg) = p_header pg" "p_slots (LeafNode_SerializeToPage n pg) = p_slots pg"
  "p_header (InternalNode_SerializeToPage m pg) = p_header pg" "p_slots (InternalNode_SerializeToPage m pg) = p_slots pg"
  by (simp_all add: LeafNode_SerializeToPage_def InternalNode_SerializeToPage_def Let_def)

lemma leaf_serialize_other:
  assumes "leaf_ok n" "i < 20 \<or> 4091 \<le> i"
  shows "p_data (LeafNode_SerializeToPage n pg) i = p_data pg i"
  using leaf_fits [OF assms(1)] assms(2)
  by (auto simp: leaf_serialize_data [OF assms(1)] entries.wr_other write_node_header_other)

text \<open>What is read back from any page that agrees with the written one on the bytes of the node.\<close>

lemma leaf_roundtrip:
  assumes ok: "leaf_ok n"
    and eq: "\<And>i. 20 \<le> i \<Longrightarrow> i < 4096 \<Longrightarrow> p_data q i = p_data (LeafNode_SerializeToPage n pg) i"
  shows "LeafNode_DeserializeFromPage q = n"
proof -
  let ?w = "write_node_header (p_data pg) (ln_header n)" and ?es = "leaf_entries n"
  let ?d = "write_entries ?w 31 ?es"
  note fit = leaf_fits [OF ok]
  have eq': "p_data q i = ?d i" if "20 \<le> i" "i < 4096" for i
    using eq [OF that] by (simp add: leaf_serialize_data [OF ok])
  have "read_node_header (p_data q) = read_node_header ?w"
    using fit eq' by (intro read_node_header_cong) (simp add: entries.wr_other)
  then have h: "read_node_header (p_data q) = ln_header n" by (simp add: read_write_node_header)
  have "read_entries (p_data q) 31 (length ?es) = read_entries ?d 31 (length ?es)"
    using fit eq' by (intro entries.rd_cong) simp_all
  also have "\<dots> = ?es" using fit by (intro entries.rd_wr) simp
  finally have "read_entries (p_data q) 31 (unat (bh_num_keys (ln_header n))) = ?es"
    by (simp add: leaf_ok_entries(3) [OF ok])
  then show ?thesis
    by (simp add: LeafNode_DeserializeFromPage_def h leaf_ok_entries [OF ok] Let_def)
qed

definition internal_ok :: "internal_node \<Rightarrow> bool" where
  "internal_ok n \<longleftrightarrow>
     length (in_keys n) = unat (bh_num_keys (in_header n)) \<and> length (in_children n) = Suc (unat (bh_num_keys (in_header n))) \<and>
     0 < unat (bh_num_keys (in_header n)) \<and> unat (bh_num_keys (in_header n)) \<le> unat InternalNode_MAX_KEYS"

lemma unat_last_child: "unat (k :: u16) \<le> 507 \<Longrightarrow> unat (31 + 8 * k) = 31 + 8 * unat k"
  by (simp add: unat_word_ariths)

lemma internal_serialize_data:
  assumes "internal_ok n"
  shows "p_data (InternalNode_SerializeToPage n pg) =
    put32 (write_pairs (write_node_header (p_data pg) (in_header n)) 31 (zip (butlast (in_children n)) (in_keys n)))
      (31 + 8 * length (in_keys n)) (last (in_children n))"
proof -
  have "in_children n \<noteq> []" using assms by (auto simp: internal_ok_def)
  then have "last (in_children n) = in_children n ! length (in_keys n)"
    using assms by (simp add: internal_ok_def last_conv_nth)
  moreover have "butlast (in_children n) = take (length (in_keys n)) (in_children n)"
    using assms by (simp add: internal_ok_def butlast_conv_take)
  ultimately show ?thesis
    using assms by (simp add: InternalNode_SerializeToPage_def internal_ok_def Let_def unat_last_child InternalNode_MAX_KEYS_def)
qed

lemma internal_serialize_other:
  assumes ok: "internal_ok n" and "i < 20 \<or> 4091 \<le> i"
  shows "p_data (InternalNode_SerializeToPage n pg) i = p_data pg i"
proof -
  have "length (in_keys n) \<le> 507" "length (in_children n) = Suc (length (in_keys n))"
    using ok by (simp_all add: internal_ok_def InternalNode_MAX_KEYS_def)
  then show ?thesis
    using assms(2) by (auto simp: internal_serialize_data [OF ok] pairs.wr_other write_node_header_other)
qed

lemma internal_roundtrip:
  assumes ok: "internal_ok n"
    and eq: "\<And>i. 20 \<le> i \<Longrightarrow> i < 4096 \<Longrightarrow> p_data q i = p_data (InternalNode_SerializeToPage n pg) i"
  shows "InternalNode_DeserializeFromPage q = n"
proof -
  let ?w = "write_node_header (p_data pg) (in_header n)" and ?k = "length (in_keys n)"
  let ?ps = "zip (butlast (in_children n)) (in_keys n)"
  let ?p = "write_pairs ?w 31 ?ps"
  let ?d = "put32 ?p (31 + 8 * ?k) (last (in_children n))"
  have k: "?k = unat (bh_num_keys (in_header n))" "?k \<le> 507" "0 < ?k" and len: "length ?ps = ?k"
    and c: "length (in_children n) = Suc ?k"
    using ok by (simp_all add: internal_ok_def InternalNode_MAX_KEYS_def)
  have eq': "p_data q i = ?d i" if "20 \<le> i" "i < 4096" for i
    using eq [OF that] by (simp add: internal_serialize_data [OF ok])
  have "read_node_header (p_data q) = read_node_header ?w"
    using k len eq' by (intro read_node_header_cong) (simp add: pairs.wr_other)
  then have h: "read_node_header (p_data q) = in_header n" by (simp add: read_write_node_header)
  have "read_pairs (p_data q) 31 ?k = read_pairs ?p 31 (length ?ps)"
    unfolding len using k eq' by (intro pairs.rd_cong) simp_all
  also have "\<dots> = ?ps" using k len by (intro pairs.rd_wr) simp
  finally have ps: "read_pairs (p_data q) 31 ?k = ?ps" .
  have "buf_read (p_data q) (31 + 8 * ?k) 4 = buf_read ?d (31 + 8 * ?k) 4"
    using k eq' by (intro buf_read_cong) simp_all
  then have l: "get32 (p_data q) (31 + 8 * ?k) = last (in_children n)" by (simp add: c32.dec_enc)
  have "in_children n \<noteq> []" using c by auto
  then have "map fst ?ps @ [last (in_children n)] = in_children n" using c by simp
  moreover have "map snd ?ps = in_keys n" using c by simp
  ultimately show ?thesis
    using ps l k h by (simp add: InternalNode_DeserializeFromPage_def Let_def unat_last_child)
qed

end
