(* ===== verification/BPlusTree.thy ===== *)
theory BPlusTree
  imports BTreeNode PoolPins
begin

text \<open>
  The tree operations of \<open>src/index/btree.cpp\<close>: descent to a leaf, insertion with leaf, internal and root splits,
  lazy deletion, point lookup and range scan. They work on pages in buffer pool frames; a \<open>Page*\<close> is the frame the
  pool returned. The loops follow page ids read from pages, so they are partial functions: \<open>None\<close> is a loop that does not end.
\<close>

section \<open>The tree and its pages\<close>

record btree =
  bt_bpm :: bpm
  bt_root :: u32
  bt_cmp :: "u32 \<Rightarrow> u32 \<Rightarrow> int"

definition BPlusTree_new :: "bpm \<Rightarrow> u32 \<Rightarrow> (u32 \<Rightarrow> u32 \<Rightarrow> int) \<Rightarrow> btree" where
  "BPlusTree_new b root_page_id comparator = \<lparr>bt_bpm = b, bt_root = root_page_id, bt_cmp = comparator\<rparr>"

definition BPlusTree_IsEmpty :: "btree \<Rightarrow> bool" where
  "BPlusTree_IsEmpty t \<longleftrightarrow> bt_root t = INVALID_PAGE_ID"

text \<open>Pool calls the operations make through \<open>bpm_\<close> and through the page pointers.\<close>

abbreviation leaf_in :: "bpm \<Rightarrow> u32 \<Rightarrow> leaf_node" where
  "leaf_in b f \<equiv> LeafNode_DeserializeFromPage (frame_page b f)"

abbreviation internal_in :: "bpm \<Rightarrow> u32 \<Rightarrow> internal_node" where
  "internal_in b f \<equiv> InternalNode_DeserializeFromPage (frame_page b f)"

definition put_leaf :: "u32 \<Rightarrow> leaf_node \<Rightarrow> bpm \<Rightarrow> bpm" where
  "put_leaf f n b = set_page f (LeafNode_SerializeToPage n (frame_page b f)) b"

definition put_internal :: "u32 \<Rightarrow> internal_node \<Rightarrow> bpm \<Rightarrow> bpm" where
  "put_internal f n b = set_page f (InternalNode_SerializeToPage n (frame_page b f)) b"

definition put_parent :: "u32 \<Rightarrow> u32 \<Rightarrow> bpm \<Rightarrow> bpm" where
  "put_parent f parent_id b =
     set_page f ((frame_page b f)\<lparr>p_data := put32 (p_data (frame_page b f)) 21 parent_id\<rparr>) b"

section \<open>Finding a leaf\<close>

partial_function (option) descend :: "(u32 \<Rightarrow> u32 \<Rightarrow> int) \<Rightarrow> u32 \<Rightarrow> u32 \<Rightarrow> bpm \<Rightarrow> (u32 option \<times> bpm) option" where
  "descend cmp key f b =
     (if p_data (frame_page b f) 20 = kLeafNode then Some (Some f, b)
      else
        let internal = internal_in b f;
            child_page_id = InternalNode_GetChildAt (InternalNode_FindChild cmp key internal) internal;
            b1 = bp_unpin (Page_GetPageId (frame_page b f)) False b
        in case BufferPoolManager_FetchPage child_page_id b1 of
             (None, b2) \<Rightarrow> Some (None, b2)
           | (Some g, b2) \<Rightarrow> descend cmp key g b2)"

definition BPlusTree_FindLeafPage :: "u32 \<Rightarrow> btree \<Rightarrow> (u32 option \<times> bpm) option" where
  "BPlusTree_FindLeafPage key t =
     (case BufferPoolManager_FetchPage (bt_root t) (bt_bpm t) of
        (None, b1) \<Rightarrow> Some (None, b1)
      | (Some f, b1) \<Rightarrow> descend (bt_cmp t) key f b1)"

section \<open>Lookup, range scan and deletion\<close>

partial_function (option) lookup_next ::
  "(u32 \<Rightarrow> u32 \<Rightarrow> int) \<Rightarrow> u32 \<Rightarrow> u32 \<Rightarrow> rid list \<Rightarrow> bpm \<Rightarrow> (rid list \<times> bpm) option" where
  "lookup_next cmp key next_leaf_id results b =
     (if next_leaf_id \<noteq> INVALID_PAGE_ID \<and> results \<noteq> [] then
        case BufferPoolManager_FetchPage next_leaf_id b of
          (None, b1) \<Rightarrow> Some (results, b1)
        | (Some g, b1) \<Rightarrow>
            let next_leaf = leaf_in b1 g
            in if bh_num_keys (ln_header next_leaf) = 0 \<or> cmp (LeafNode_GetKeyAt 0 next_leaf) key \<noteq> 0
               then Some (results, bp_unpin next_leaf_id False b1)
               else lookup_next cmp key (bh_next_page_id (ln_header next_leaf))
                      (results @ LeafNode_FindAll cmp key next_leaf)
                      (bp_unpin (Page_GetPageId (frame_page b1 g)) False b1)
      else Some (results, b))"

definition BPlusTree_Lookup :: "u32 \<Rightarrow> btree \<Rightarrow> (rid list \<times> btree) option" where
  "BPlusTree_Lookup key t =
     (if bt_root t = INVALID_PAGE_ID then Some ([], t)
      else Option.bind (BPlusTree_FindLeafPage key t) (\<lambda>(r, b1).
        case r of
          None \<Rightarrow> Some ([], t\<lparr>bt_bpm := b1\<rparr>)
        | Some f \<Rightarrow>
            let leaf = leaf_in b1 f
            in Option.bind (lookup_next (bt_cmp t) key (bh_next_page_id (ln_header leaf)) (LeafNode_FindAll (bt_cmp t) key leaf)
                              (bp_unpin (Page_GetPageId (frame_page b1 f)) False b1))
                 (\<lambda>(results, b2). Some (results, t\<lparr>bt_bpm := b2\<rparr>))))"

text \<open>The loop over the entries of one leaf: the entries up to \<open>high\<close>, and whether one above it was met.\<close>

function range_entries :: "(u32 \<Rightarrow> u32 \<Rightarrow> int) \<Rightarrow> u32 \<Rightarrow> leaf_node \<Rightarrow> u16 \<Rightarrow> bool \<times> entry list" where
  "range_entries cmp high n i =
     (if i < bh_num_keys (ln_header n) then
        if 0 < cmp (LeafNode_GetKeyAt i n) high then (True, [])
        else let (past, es) = range_entries cmp high n (i + 1)
             in (past, (LeafNode_GetKeyAt i n, LeafNode_GetRIDAt i n) # es)
      else (False, []))"
  by pat_completeness auto

termination range_entries
  by (relation "measure (\<lambda>(cmp, high, n, i). unat (bh_num_keys (ln_header n)) - unat i)") (auto dest: word16_step)

declare range_entries.simps [simp del]

partial_function (option) scan_leaves ::
  "(u32 \<Rightarrow> u32 \<Rightarrow> int) \<Rightarrow> u32 \<Rightarrow> u32 \<Rightarrow> u32 \<Rightarrow> entry list \<Rightarrow> bpm \<Rightarrow> (entry list \<times> bpm) option" where
  "scan_leaves cmp low high f results b =
     (let leaf = leaf_in b f;
          (past, es) = range_entries cmp high leaf (LeafNode_FindKeyPosition cmp low leaf);
          b1 = bp_unpin (Page_GetPageId (frame_page b f)) False b;
          next_id = bh_next_page_id (ln_header leaf)
      in if past \<or> next_id = INVALID_PAGE_ID then Some (results @ es, b1)
         else case BufferPoolManager_FetchPage next_id b1 of
                (None, b2) \<Rightarrow> Some (results @ es, b2)
              | (Some g, b2) \<Rightarrow> scan_leaves cmp low high g (results @ es) b2)"

definition BPlusTree_RangeScan :: "u32 \<Rightarrow> u32 \<Rightarrow> btree \<Rightarrow> (entry list \<times> btree) option" where
  "BPlusTree_RangeScan low high t =
     (if bt_root t = INVALID_PAGE_ID then Some ([], t)
      else Option.bind (BPlusTree_FindLeafPage low t) (\<lambda>(r, b1).
        case r of
          None \<Rightarrow> Some ([], t\<lparr>bt_bpm := b1\<rparr>)
        | Some f \<Rightarrow>
            Option.bind (scan_leaves (bt_cmp t) low high f [] b1) (\<lambda>(results, b2). Some (results, t\<lparr>bt_bpm := b2\<rparr>))))"

definition BPlusTree_Delete :: "u32 \<Rightarrow> rid \<Rightarrow> btree \<Rightarrow> (bool \<times> btree) option" where
  "BPlusTree_Delete key r t =
     (if bt_root t = INVALID_PAGE_ID then Some (False, t)
      else Option.bind (BPlusTree_FindLeafPage key t) (\<lambda>(found, b1).
        case found of
          None \<Rightarrow> Some (False, t\<lparr>bt_bpm := b1\<rparr>)
        | Some f \<Rightarrow>
            let (deleted, leaf) = LeafNode_Delete (bt_cmp t) key r (leaf_in b1 f);
                b2 = (if deleted then put_leaf f leaf b1 else b1)
            in Some (deleted, t\<lparr>bt_bpm := bp_unpin (Page_GetPageId (frame_page b2 f)) deleted b2\<rparr>)))"

section \<open>Insertion\<close>

text \<open>\<open>CreateNewRoot\<close>. Nothing is reported when the pool has no frame for the new root.\<close>

definition update_parent :: "u32 \<Rightarrow> u32 \<Rightarrow> bpm \<Rightarrow> bpm" where
  "update_parent parent_id child_id b =
     (case BufferPoolManager_FetchPage child_id b of
        (None, b1) \<Rightarrow> b1
      | (Some f, b1) \<Rightarrow> bp_unpin child_id True (put_parent f parent_id b1))"

definition BPlusTree_CreateNewRoot :: "u32 \<Rightarrow> u32 \<Rightarrow> u32 \<Rightarrow> btree \<Rightarrow> (db_error + unit) \<times> btree" where
  "BPlusTree_CreateNewRoot left_id split_key right_id t =
     (case BufferPoolManager_NewPage (bt_bpm t) of
        (Inl e, b1) \<Rightarrow> (Inl e, t\<lparr>bt_bpm := b1\<rparr>)
      | (Inr None, b1) \<Rightarrow> (Inr (), t\<lparr>bt_bpm := b1\<rparr>)
      | (Inr (Some f), b1) \<Rightarrow>
          let new_root_id = Page_GetPageId (frame_page b1 f);
              root_node = (internal_in b1 f)\<lparr>in_header :=
                \<lparr>bh_node_type = kInternalNode, bh_parent_page_id = INVALID_PAGE_ID, bh_num_keys = 1,
                 bh_next_page_id = INVALID_PAGE_ID\<rparr>\<rparr>;
              root_node = InternalNode_SetKeyAt 0 split_key root_node;
              root_node = InternalNode_SetChildAt 0 left_id root_node;
              root_node = InternalNode_SetChildAt 1 right_id root_node;
              b2 = put_internal f root_node b1;
              b3 = update_parent new_root_id left_id b2;
              b4 = update_parent new_root_id right_id b3
          in (Inr (), t\<lparr>bt_root := new_root_id, bt_bpm := bp_unpin new_root_id True b4\<rparr>))"

text \<open>
  The two halves of a full parent with the new key and child: the loops that copy them into the nodes.
  The left node keeps its longer vectors; only the first \<open>mid\<close> keys are written to its page.
\<close>

definition split_right :: "u16 \<Rightarrow> u32 list \<Rightarrow> u32 list \<Rightarrow> internal_node \<Rightarrow> internal_node" where
  "split_right mid keys children n =
     fold (\<lambda>i. InternalNode_SetChildAt (of_nat i - mid - 1) (children ! i)) [unat mid + 1..<length children]
       (fold (\<lambda>i. InternalNode_SetKeyAt (of_nat i - mid - 1) (keys ! i)) [unat mid + 1..<length keys] n)"

definition split_left :: "u16 \<Rightarrow> u32 list \<Rightarrow> u32 list \<Rightarrow> internal_node \<Rightarrow> internal_node" where
  "split_left mid keys children n =
     fold (\<lambda>i. InternalNode_SetChildAt (of_nat i) (children ! i)) [0..<unat mid + 1]
       (fold (\<lambda>i. InternalNode_SetKeyAt (of_nat i) (keys ! i)) [0..<unat mid] n)"

partial_function (option) BPlusTree_InsertIntoParent ::
  "u32 \<Rightarrow> u32 \<Rightarrow> u32 \<Rightarrow> btree \<Rightarrow> ((db_error + unit) \<times> btree) option" where
  "BPlusTree_InsertIntoParent lf split_key rf t =
     (let b = bt_bpm t; cmp = bt_cmp t;
          left_id = Page_GetPageId (frame_page b lf); right_id = Page_GetPageId (frame_page b rf);
          parent_id = get32 (p_data (frame_page b lf)) 21
      in if parent_id = INVALID_PAGE_ID then Some (BPlusTree_CreateNewRoot left_id split_key right_id t)
         else case BufferPoolManager_FetchPage parent_id b of
           (None, b1) \<Rightarrow> Some (Inr (), t\<lparr>bt_bpm := b1\<rparr>)
         | (Some pf, b1) \<Rightarrow>
             let parent_node = internal_in b1 pf; pos = InternalNode_FindChild cmp split_key parent_node
             in if \<not> InternalNode_IsFull parent_node
                then Some (Inr (), t\<lparr>bt_bpm :=
                       bp_unpin parent_id True (put_internal pf (InternalNode_InsertAfter pos split_key right_id parent_node) b1)\<rparr>)
                else
                  let num = unat (bh_num_keys (in_header parent_node));
                      keys = insert_at (unat pos) split_key (take num (in_keys parent_node));
                      children = insert_at (Suc (unat pos)) right_id (take (Suc num) (in_children parent_node));
                      mid = of_nat (length keys div 2) :: u16;
                      push_up_key = keys ! unat mid
                  in case BufferPoolManager_NewPage b1 of
                       (Inl e, b2) \<Rightarrow> Some (Inl e, t\<lparr>bt_bpm := b2\<rparr>)
                     | (Inr None, b2) \<Rightarrow> Some (Inr (), t\<lparr>bt_bpm := bp_unpin parent_id False b2\<rparr>)
                     | (Inr (Some nf), b2) \<Rightarrow>
                         let new_parent_id = Page_GetPageId (frame_page b2 nf);
                             fresh = internal_in b2 nf;
                             new_parent = split_right mid keys children (fresh\<lparr>in_header := (in_header fresh)
                               \<lparr>bh_node_type := kInternalNode, bh_parent_page_id := bh_parent_page_id (in_header parent_node),
                                bh_num_keys := of_nat (length keys) - mid - 1\<rparr>\<rparr>);
                             left_parent = split_left mid keys children
                               (parent_node\<lparr>in_header := (in_header parent_node)\<lparr>bh_num_keys := mid\<rparr>\<rparr>);
                             b3 = fold (\<lambda>i. update_parent new_parent_id (in_children new_parent ! i))
                                    [0..<Suc (unat (bh_num_keys (in_header new_parent)))] b2;
                             b4 = put_internal nf new_parent (put_internal pf left_parent b3)
                         in Option.bind (BPlusTree_InsertIntoParent pf push_up_key nf (t\<lparr>bt_bpm := b4\<rparr>)) (\<lambda>(res, t5).
                              case res of
                                Inl e \<Rightarrow> Some (Inl e, t5)
                              | Inr _ \<Rightarrow> Some (Inr (), t5\<lparr>bt_bpm :=
                                  bp_unpin new_parent_id True (bp_unpin parent_id True (bt_bpm t5))\<rparr>)))"

definition BPlusTree_Insert :: "u32 \<Rightarrow> rid \<Rightarrow> btree \<Rightarrow> ((db_error + bool) \<times> btree) option" where
  "BPlusTree_Insert key r t =
     (let cmp = bt_cmp t in
      if bt_root t = INVALID_PAGE_ID then
        case BufferPoolManager_NewPage (bt_bpm t) of
          (Inl e, b1) \<Rightarrow> Some (Inl e, t\<lparr>bt_bpm := b1\<rparr>)
        | (Inr None, b1) \<Rightarrow> Some (Inr False, t\<lparr>bt_bpm := b1\<rparr>)
        | (Inr (Some f), b1) \<Rightarrow>
            let root = Page_GetPageId (frame_page b1 f);
                leaf = \<lparr>ln_header = \<lparr>bh_node_type = kLeafNode, bh_parent_page_id = INVALID_PAGE_ID, bh_num_keys = 0,
                         bh_next_page_id = INVALID_PAGE_ID\<rparr>, ln_keys = [], ln_rids = []\<rparr>;
                leaf = snd (LeafNode_Insert cmp key r leaf)
            in Some (Inr True, t\<lparr>bt_root := root, bt_bpm := bp_unpin root True (put_leaf f leaf b1)\<rparr>)
      else Option.bind (BPlusTree_FindLeafPage key t) (\<lambda>(found, b1).
        case found of
          None \<Rightarrow> Some (Inr False, t\<lparr>bt_bpm := b1\<rparr>)
        | Some f \<Rightarrow>
            let (done, leaf) = LeafNode_Insert cmp key r (leaf_in b1 f);
                leaf_id = Page_GetPageId (frame_page b1 f)
            in if done then Some (Inr True, t\<lparr>bt_bpm := bp_unpin leaf_id True (put_leaf f leaf b1)\<rparr>)
               else
                 let pos = unat (LeafNode_FindKeyPosition cmp key leaf);
                     all_keys = insert_at pos key (ln_keys leaf); all_rids = insert_at pos r (ln_rids leaf);
                     split_pos = of_nat (length all_keys div 2) :: u16; sp = unat split_pos
                 in case BufferPoolManager_NewPage b1 of
                      (Inl e, b2) \<Rightarrow> Some (Inl e, t\<lparr>bt_bpm := b2\<rparr>)
                    | (Inr None, b2) \<Rightarrow> Some (Inr False, t\<lparr>bt_bpm := bp_unpin leaf_id False b2\<rparr>)
                    | (Inr (Some g), b2) \<Rightarrow>
                        let right_page_id = Page_GetPageId (frame_page b2 g);
                            right_leaf = \<lparr>ln_header = \<lparr>bh_node_type = kLeafNode,
                                bh_parent_page_id = bh_parent_page_id (ln_header leaf),
                                bh_num_keys = of_nat (length all_keys - sp),
                                bh_next_page_id = bh_next_page_id (ln_header leaf)\<rparr>,
                              ln_keys = drop sp all_keys, ln_rids = drop sp all_rids\<rparr>;
                            left_leaf = leaf\<lparr>ln_header := (ln_header leaf)\<lparr>bh_num_keys := split_pos,
                                bh_next_page_id := right_page_id\<rparr>,
                              ln_keys := take sp all_keys, ln_rids := take sp all_rids\<rparr>;
                            split_key = LeafNode_GetKeyAt 0 right_leaf;
                            b3 = put_leaf g right_leaf (put_leaf f left_leaf b2)
                        in Option.bind (BPlusTree_InsertIntoParent f split_key g (t\<lparr>bt_bpm := b3\<rparr>)) (\<lambda>(res, t4).
                             case res of
                               Inl e \<Rightarrow> Some (Inl e, t4)
                             | Inr _ \<Rightarrow> Some (Inr True, t4\<lparr>bt_bpm :=
                                 bp_unpin right_page_id True (bp_unpin leaf_id True (bt_bpm t4))\<rparr>))))"

end
