(* ===== verification/BTreePages.thy ===== *)
theory BTreePages
  imports BPlusTree
begin

text \<open>
  What the pages of an index hold, as predicates on the contents map of the buffer pool, and the sessions in which
  the tree operations read and change one node: fetch, decode, encode, unpin.
\<close>

section \<open>Nodes in the contents map\<close>

type_synonym view = "u32 \<Rightarrow> u8 list option"

definition view_page :: "view \<Rightarrow> u32 \<Rightarrow> page" where
  "view_page v p = page_of (the (v p))"

text \<open>An index page has no slots, so its node has the bytes behind the page header to itself.\<close>

definition index_page :: "page \<Rightarrow> u32 \<Rightarrow> bool" where
  "index_page pg p \<longleftrightarrow> page_ser_ok pg \<and> ph_page_id (p_header pg) = p \<and> p_slots pg = []"

definition same_node :: "page \<Rightarrow> page \<Rightarrow> bool" where
  "same_node pg q \<longleftrightarrow> p_header pg = p_header q \<and> p_slots pg = p_slots q \<and> (\<forall>i. 20 \<le> i \<longrightarrow> i < 4096 \<longrightarrow> p_data pg i = p_data q i)"

lemma same_node_sym: "same_node pg q \<Longrightarrow> same_node q pg"
  by (simp add: same_node_def)

lemma same_node_trans: "same_node pg q \<Longrightarrow> same_node q r \<Longrightarrow> same_node pg r"
  by (simp add: same_node_def)

lemma same_node_refl [simp]: "same_node pg pg"
  by (simp add: same_node_def)

lemma same_node_index: "same_node pg q \<Longrightarrow> index_page pg p = index_page q p"
  by (simp add: same_node_def index_page_def page_ser_ok_def)

lemma same_node_image:
  assumes "index_page pg p"
  shows "same_node (page_of (page_image pg)) pg"
proof -
  have ok: "page_ser_ok pg" "p_slots pg = []" using assms by (simp_all add: index_page_def)
  have "p_data (page_of (page_image pg)) i = p_data pg i" if "20 \<le> i" "i < 4096" for i
    using that load_image_data [of i pg] Serialize_other [OF ok(1), of i] ok(2) by (simp add: page_of_def PAGE_SIZE_def)
  then show ?thesis using ok by (simp add: same_node_def page_of_image_fields)
qed

definition leaf_node_at :: "page \<Rightarrow> u32 \<Rightarrow> leaf_node \<Rightarrow> bool" where
  "leaf_node_at pg p n \<longleftrightarrow>
     index_page pg p \<and> LeafNode_DeserializeFromPage pg = n \<and> leaf_ok n \<and> bh_node_type (ln_header n) = kLeafNode"

definition internal_node_at :: "page \<Rightarrow> u32 \<Rightarrow> internal_node \<Rightarrow> bool" where
  "internal_node_at pg p n \<longleftrightarrow>
     index_page pg p \<and> InternalNode_DeserializeFromPage pg = n \<and> internal_ok n \<and> bh_node_type (in_header n) = kInternalNode"

lemma same_node_buf: "same_node pg q \<Longrightarrow> 20 \<le> off \<Longrightarrow> off + n \<le> 4096 \<Longrightarrow> buf_read (p_data pg) off n = buf_read (p_data q) off n"
  by (intro buf_read_cong) (simp add: same_node_def)

lemma same_node_header: "same_node pg q \<Longrightarrow> read_node_header (p_data pg) = read_node_header (p_data q)"
  by (intro read_node_header_cong) (simp add: same_node_def)

lemma same_node_leaf:
  assumes s: "same_node pg q" and n: "leaf_node_at pg p n"
  shows "leaf_node_at q p n"
proof -
  let ?h = "read_node_header (p_data pg)"
  have h: "ln_header n = ?h" using n by (auto simp: leaf_node_at_def LeafNode_DeserializeFromPage_def Let_def)
  have "unat (bh_num_keys ?h) \<le> 406" using n h by (simp add: leaf_node_at_def leaf_ok_def LeafNode_MAX_KEYS_def)
  then have "read_entries (p_data pg) 31 (unat (bh_num_keys ?h)) = read_entries (p_data q) 31 (unat (bh_num_keys ?h))"
    using s by (intro entries.rd_cong) (simp_all add: same_node_def)
  then have "LeafNode_DeserializeFromPage q = LeafNode_DeserializeFromPage pg"
    by (simp add: LeafNode_DeserializeFromPage_def Let_def same_node_header [OF s])
  then show ?thesis using n same_node_index [OF s] by (simp add: leaf_node_at_def)
qed

lemma same_node_internal:
  assumes s: "same_node pg q" and n: "internal_node_at pg p n"
  shows "internal_node_at q p n"
proof -
  let ?h = "read_node_header (p_data pg)"
  have h: "in_header n = ?h" using n by (auto simp: internal_node_at_def InternalNode_DeserializeFromPage_def Let_def)
  have k: "unat (bh_num_keys ?h) \<le> 507" using n h by (simp add: internal_node_at_def internal_ok_def InternalNode_MAX_KEYS_def)
  then have "read_pairs (p_data pg) 31 (unat (bh_num_keys ?h)) = read_pairs (p_data q) 31 (unat (bh_num_keys ?h))"
    using s by (intro pairs.rd_cong) (simp_all add: same_node_def)
  moreover have "buf_read (p_data pg) (31 + 8 * unat (bh_num_keys ?h)) 4 = buf_read (p_data q) (31 + 8 * unat (bh_num_keys ?h)) 4"
    using k by (intro same_node_buf [OF s]) simp_all
  ultimately have "InternalNode_DeserializeFromPage q = InternalNode_DeserializeFromPage pg"
    using k by (simp add: InternalNode_DeserializeFromPage_def Let_def same_node_header [OF s] unat_last_child)
  then show ?thesis using n same_node_index [OF s] by (simp add: internal_node_at_def)
qed

text \<open>The type byte decides how a page is read.\<close>

lemma node_type_byte:
  "leaf_node_at pg p n \<Longrightarrow> p_data pg 20 = kLeafNode" "internal_node_at pg p m \<Longrightarrow> p_data pg 20 = kInternalNode"
  by (auto simp: leaf_node_at_def internal_node_at_def LeafNode_DeserializeFromPage_def
      InternalNode_DeserializeFromPage_def read_node_header_def Let_def)

lemma index_page_id: "index_page pg p \<Longrightarrow> Page_GetPageId pg = p"
  by (simp add: index_page_def Page_GetPageId_def)

lemma index_page_serialize [simp]:
  "index_page (LeafNode_SerializeToPage n pg) p = index_page pg p"
  "index_page (InternalNode_SerializeToPage m pg) p = index_page pg p"
  "index_page (pg\<lparr>p_data := d\<rparr>) p = index_page pg p"
  by (simp_all add: index_page_def page_ser_ok_def)

lemma leaf_serialized:
  "index_page pg p \<Longrightarrow> leaf_ok n \<Longrightarrow> bh_node_type (ln_header n) = kLeafNode \<Longrightarrow>
   leaf_node_at (LeafNode_SerializeToPage n pg) p n"
  by (simp add: leaf_node_at_def leaf_roundtrip [where pg = pg])

lemma internal_serialized:
  "index_page pg p \<Longrightarrow> internal_ok n \<Longrightarrow> bh_node_type (in_header n) = kInternalNode \<Longrightarrow>
   internal_node_at (InternalNode_SerializeToPage n pg) p n"
  by (simp add: internal_node_at_def internal_roundtrip [where pg = pg])

text \<open>Nodes of the contents map.\<close>

definition leaf_at :: "view \<Rightarrow> u32 \<Rightarrow> leaf_node \<Rightarrow> bool" where
  "leaf_at v p n \<longleftrightarrow> v p \<noteq> None \<and> leaf_node_at (view_page v p) p n"

definition internal_at :: "view \<Rightarrow> u32 \<Rightarrow> internal_node \<Rightarrow> bool" where
  "internal_at v p n \<longleftrightarrow> v p \<noteq> None \<and> internal_node_at (view_page v p) p n"

lemma view_page_upd [simp]: "view_page (v(p \<mapsto> page_image pg)) q = (if q = p then page_of (page_image pg) else view_page v q)"
  by (simp add: view_page_def)

lemma leaf_at_cong: "w p = v p \<Longrightarrow> leaf_at w p n = leaf_at v p n"
  by (simp add: leaf_at_def view_page_def)

lemma internal_at_cong: "w p = v p \<Longrightarrow> internal_at w p n = internal_at v p n"
  by (simp add: internal_at_def view_page_def)

lemma leaf_at_image: "leaf_node_at pg p n \<Longrightarrow> leaf_at (v(p \<mapsto> page_image pg)) p n"
  using same_node_leaf [OF same_node_sym [OF same_node_image], of pg p p n]
  by (simp add: leaf_at_def) (simp add: leaf_node_at_def)

lemma internal_at_image: "internal_node_at pg p n \<Longrightarrow> internal_at (v(p \<mapsto> page_image pg)) p n"
  using same_node_internal [OF same_node_sym [OF same_node_image], of pg p p n]
  by (simp add: internal_at_def) (simp add: internal_node_at_def)

section \<open>Sessions with one node\<close>

lemma page_in_frame:
  assumes "v p = Some (page_image pg)" "page_ser_ok pg" "index_page (view_page v p) p"
  shows "same_node (view_page v p) pg" "index_page pg p"
proof -
  have "p_header (view_page v p) = p_header pg" "p_slots (view_page v p) = p_slots pg"
    using assms(1,2) by (simp_all add: view_page_def page_of_image_fields)
  then show "index_page pg p" using assms(2,3) by (simp add: index_page_def)
  then show "same_node (view_page v p) pg" using assms(1) by (simp add: view_page_def same_node_image)
qed

definition pins_only :: "bpm \<Rightarrow> u32 \<Rightarrow> bpm \<Rightarrow> u32 \<Rightarrow> bool" where
  "pins_only b p b1 f \<longleftrightarrow>
     (\<forall>pg d. page_ser_ok pg \<longrightarrow> d \<or> pg = frame_page b1 f \<longrightarrow>
        same_frame b (bp_unpin p d (set_page f pg b1)) \<and>
        bp_view (bp_unpin p d (set_page f pg b1)) = (bp_view b)(p \<mapsto> page_image pg)) \<and>
     same_frame b (bp_unpin p False b1) \<and> bp_view (bp_unpin p False b1) = bp_view b \<and>
     unat f < length (bp_pages b1) \<and> pool_at b1 (bp_view b) ((bp_pins b)(p := 1)) \<and> bp_table b1 p = Some f"

lemma visit_page:
  assumes q: "quiet b" and p: "bp_view b p \<noteq> None" "index_page (view_page (bp_view b) p) p"
  obtains f b1 where "BufferPoolManager_FetchPage p b = (Some f, b1)" "pins_only b p b1 f"
    "same_node (view_page (bp_view b) p) (frame_page b1 f)" "Page_GetPageId (frame_page b1 f) = p"
proof -
  have pd: "p \<in> bp_data b" using p(1) dom_bp_view [of b] by blast
  obtain f b1 where b1: "BufferPoolManager_FetchPage p b = (Some f, b1)"
    "page_ser_ok (frame_page b1 f)" "bp_view b p = Some (page_image (frame_page b1 f))"
    "same_frame b (bp_unpin p False b1)" "bp_view (bp_unpin p False b1) = bp_view b"
    "\<And>pg d. page_ser_ok pg \<Longrightarrow> d \<or> pg = frame_page b1 f \<Longrightarrow>
       same_frame b (bp_unpin p d (set_page f pg b1)) \<and>
       bp_view (bp_unpin p d (set_page f pg b1)) = (bp_view b)(p \<mapsto> page_image pg) \<and>
       (\<forall>q. q \<noteq> p \<longrightarrow> pinned_stable b (bp_unpin p d (set_page f pg b1)) q)"
    "bpm_inv b1" "bp_table b1 p = Some f" "bp_view b1 = bp_view b" "bp_pins b1 = (bp_pins b)(p := 1)"
    by (rule session [OF quietD(1) [OF q] pd quietD(2,3) [OF q]]) blast
  note F = page_in_frame [OF b1(3,2) p(2)]
  show ?thesis
    by (rule that [OF b1(1) _ F(1) index_page_id [OF F(2)]]) (use b1(4-10) bp_table_frame(7) [OF b1(7,8)] in \<open>simp add: pins_only_def pool_at_def\<close>)
qed

end
