(* ===== verification/BTreeSpec.thy ===== *)
theory BTreeSpec
  imports BTreePages
begin

text \<open>
  The tree behind the pages: what the operations promise on its sequence of entries. A \<open>bt\<close> is the shape of an index,
  a search tree in the sense of the comment on \<open>InternalNode\<close>: the keys of a child are below the separator on its right
  and not below the one on its left.
\<close>

section \<open>Trees\<close>

datatype bt = BLeaf u32 leaf_node | BNode u32 internal_node "bt list"

fun bt_id :: "bt \<Rightarrow> u32" where
  "bt_id (BLeaf p n) = p"
| "bt_id (BNode p n ts) = p"

fun bt_pids :: "bt \<Rightarrow> u32 list" where
  "bt_pids (BLeaf p n) = [p]"
| "bt_pids (BNode p n ts) = p # concat (map bt_pids ts)"

fun bt_leaves :: "bt \<Rightarrow> (u32 \<times> leaf_node) list" where
  "bt_leaves (BLeaf p n) = [(p, n)]"
| "bt_leaves (BNode p n ts) = concat (map bt_leaves ts)"

definition leaves_entries :: "(u32 \<times> leaf_node) list \<Rightarrow> entry list" where
  "leaves_entries ls = concat (map (\<lambda>l. leaf_entries (snd l)) ls)"

definition bt_entries :: "bt \<Rightarrow> entry list" where
  "bt_entries t = leaves_entries (bt_leaves t)"

fun bt_height :: "bt \<Rightarrow> nat" where
  "bt_height (BLeaf p n) = 0"
| "bt_height (BNode p n ts) = Suc (foldr max (map bt_height ts) 0)"

text \<open>
  The shape of the tree: all leaves at the same depth, and every internal node but the root with as many
  children as a split leaves.
\<close>

fun bt_full :: "nat \<Rightarrow> bt \<Rightarrow> bool" where
  "bt_full h (BLeaf p n) \<longleftrightarrow> h = 0"
| "bt_full h (BNode p n ts) \<longleftrightarrow> (case h of 0 \<Rightarrow> False | Suc k \<Rightarrow> 254 \<le> length ts \<and> (\<forall>t\<in>set ts. bt_full k t))"

fun bt_shape :: "bt \<Rightarrow> bool" where
  "bt_shape (BLeaf p n) \<longleftrightarrow> True"
| "bt_shape (BNode p n ts) \<longleftrightarrow> 2 \<le> length ts \<and> (\<exists>h. \<forall>t\<in>set ts. bt_full h t)"

text \<open>The pages hold the tree.\<close>

fun bt_at :: "view \<Rightarrow> bt \<Rightarrow> bool" where
  "bt_at v (BLeaf p n) \<longleftrightarrow> leaf_at v p n"
| "bt_at v (BNode p n ts) \<longleftrightarrow> internal_at v p n \<and> map bt_id ts = in_children n \<and> (\<forall>t\<in>set ts. bt_at v t)"

text \<open>The search order; \<open>None\<close> is no bound.\<close>

definition key_above :: "(u32 \<Rightarrow> u32 \<Rightarrow> int) \<Rightarrow> u32 option \<Rightarrow> u32 \<Rightarrow> bool" where
  "key_above cmp lo k \<longleftrightarrow> (case lo of None \<Rightarrow> True | Some l \<Rightarrow> cmp l k \<le> 0)"

definition key_below :: "(u32 \<Rightarrow> u32 \<Rightarrow> int) \<Rightarrow> u32 \<Rightarrow> u32 option \<Rightarrow> bool" where
  "key_below cmp k hi \<longleftrightarrow> (case hi of None \<Rightarrow> True | Some h \<Rightarrow> cmp k h < 0)"

definition key_after :: "(u32 \<Rightarrow> u32 \<Rightarrow> int) \<Rightarrow> u32 option \<Rightarrow> u32 \<Rightarrow> bool" where
  "key_after cmp lo k \<longleftrightarrow> (case lo of None \<Rightarrow> True | Some l \<Rightarrow> cmp l k < 0)"

fun bt_ord :: "(u32 \<Rightarrow> u32 \<Rightarrow> int) \<Rightarrow> u32 option \<Rightarrow> u32 option \<Rightarrow> bt \<Rightarrow> bool"
  and bts_ord :: "(u32 \<Rightarrow> u32 \<Rightarrow> int) \<Rightarrow> u32 option \<Rightarrow> u32 option \<Rightarrow> u32 list \<Rightarrow> bt list \<Rightarrow> bool" where
  "bt_ord cmp lo hi (BLeaf p n) \<longleftrightarrow>
     entries_sorted cmp (leaf_entries n) \<and> (\<forall>e\<in>set (leaf_entries n). key_above cmp lo (fst e) \<and> key_below cmp (fst e) hi)"
| "bt_ord cmp lo hi (BNode p n ts) \<longleftrightarrow> bts_ord cmp lo hi (in_keys n) ts"
| "bts_ord cmp lo hi ks [] \<longleftrightarrow> False"
| "bts_ord cmp lo hi [] (t # ts) \<longleftrightarrow> ts = [] \<and> bt_ord cmp lo hi t"
| "bts_ord cmp lo hi (k # ks) (t # ts) \<longleftrightarrow>
     key_after cmp lo k \<and> key_below cmp k hi \<and> bt_ord cmp lo (Some k) t \<and> bts_ord cmp (Some k) hi ks ts"

text \<open>What the descent itself needs: separators in order and a child on both sides of each.\<close>

fun bt_search_ok :: "(u32 \<Rightarrow> u32 \<Rightarrow> int) \<Rightarrow> bt \<Rightarrow> bool" where
  "bt_search_ok cmp (BLeaf p n) \<longleftrightarrow> True"
| "bt_search_ok cmp (BNode p n ts) \<longleftrightarrow>
     sorted_wrt (\<lambda>a b. cmp a b \<le> 0) (in_keys n) \<and> length ts = Suc (length (in_keys n)) \<and> (\<forall>t\<in>set ts. bt_search_ok cmp t)"

text \<open>The leaf the search for a key ends in, and the tree with that leaf replaced.\<close>

fun bt_find :: "(u32 \<Rightarrow> u32 \<Rightarrow> int) \<Rightarrow> u32 \<Rightarrow> bt \<Rightarrow> (u32 \<times> leaf_node) option"
  and bts_find :: "(u32 \<Rightarrow> u32 \<Rightarrow> int) \<Rightarrow> u32 \<Rightarrow> u32 list \<Rightarrow> bt list \<Rightarrow> (u32 \<times> leaf_node) option" where
  "bt_find cmp key (BLeaf p n) = Some (p, n)"
| "bt_find cmp key (BNode p n ts) = bts_find cmp key (in_keys n) ts"
| "bts_find cmp key ks [] = None"
| "bts_find cmp key [] (t # ts) = bt_find cmp key t"
| "bts_find cmp key (k # ks) (t # ts) = (if cmp k key \<le> 0 then bts_find cmp key ks ts else bt_find cmp key t)"

fun bt_update :: "(u32 \<Rightarrow> u32 \<Rightarrow> int) \<Rightarrow> u32 \<Rightarrow> leaf_node \<Rightarrow> bt \<Rightarrow> bt"
  and bts_update :: "(u32 \<Rightarrow> u32 \<Rightarrow> int) \<Rightarrow> u32 \<Rightarrow> leaf_node \<Rightarrow> u32 list \<Rightarrow> bt list \<Rightarrow> bt list" where
  "bt_update cmp key n' (BLeaf p n) = BLeaf p n'"
| "bt_update cmp key n' (BNode p n ts) = BNode p n (bts_update cmp key n' (in_keys n) ts)"
| "bts_update cmp key n' ks [] = []"
| "bts_update cmp key n' [] (t # ts) = bt_update cmp key n' t # ts"
| "bts_update cmp key n' (k # ks) (t # ts) =
     (if cmp k key \<le> 0 then t # bts_update cmp key n' ks ts else bt_update cmp key n' t # ts)"

lemma leaves_entries_simps [simp]:
  "leaves_entries [] = []" "leaves_entries (l # ls) = leaf_entries (snd l) @ leaves_entries ls"
  "leaves_entries (ls @ ls') = leaves_entries ls @ leaves_entries ls'"
  by (simp_all add: leaves_entries_def)

lemma bounds_None [simp]: "key_above cmp None k" "key_after cmp None k" "key_below cmp k None"
  by (simp_all add: key_above_def key_after_def key_below_def)

lemma bounds_Some [simp]:
  "key_above cmp (Some l) k \<longleftrightarrow> cmp l k \<le> 0" "key_after cmp (Some l) k \<longleftrightarrow> cmp l k < 0" "key_below cmp k (Some h) \<longleftrightarrow> cmp k h < 0"
  by (simp_all add: key_above_def key_after_def key_below_def)

lemma key_after_above: "key_after cmp lo k \<Longrightarrow> key_above cmp lo k"
  by (cases lo) simp_all

lemma bt_induct [case_names leaf node none last step]:
  assumes "\<And>p n. P (BLeaf p n)" "\<And>p n ts. Q (in_keys n) ts \<Longrightarrow> P (BNode p n ts)" "\<And>ks. Q ks []"
    "\<And>t ts. P t \<Longrightarrow> Q [] (t # ts)" "\<And>k ks t ts. P t \<Longrightarrow> Q ks ts \<Longrightarrow> Q (k # ks) (t # ts)"
  shows "P t" and "Q ks ts"
  by (rule bt_ord_bts_ord.induct [where P = "\<lambda>_ _ _. P" and Q = "\<lambda>_ _ _. Q"]; use assms in blast)+

lemma bts_ord_length: "bts_ord cmp lo hi ks ts \<Longrightarrow> length ts = Suc (length ks)"
  by (induction cmp lo hi ks ts rule: bt_ord_bts_ord.induct(2) [where P = "\<lambda>_ _ _ _. True"]) simp_all

lemma bts_find_nth:
  "length ts = Suc (length ks) \<Longrightarrow>
   bts_find cmp key ks ts = bt_find cmp key (ts ! length (takeWhile (\<lambda>k. cmp k key \<le> 0) ks))"
proof (induction ks arbitrary: ts)
  case Nil
  then show ?case by (cases ts) simp_all
next
  case (Cons k ks)
  then show ?case by (cases ts) simp_all
qed

lemma bt_id_update [simp]: "bt_id (bt_update cmp key n' t) = bt_id t"
  by (cases t) simp_all

lemma bt_pids_update:
  "bt_pids (bt_update cmp key n' t) = bt_pids t"
  "concat (map bt_pids (bts_update cmp key n' ks ts)) = concat (map bt_pids ts)"
  by (induction cmp key n' t and cmp key n' ks ts rule: bt_update_bts_update.induct) simp_all

lemma bt_height_update:
  "bt_height (bt_update cmp key n' t) = bt_height t"
  "map bt_height (bts_update cmp key n' ks ts) = map bt_height ts"
  by (induction cmp key n' t and cmp key n' ks ts rule: bt_update_bts_update.induct) simp_all

lemma bt_full_update:
  "bt_full h (bt_update cmp key n' t) = bt_full h t"
  "list_all (bt_full h) (bts_update cmp key n' ks ts) = list_all (bt_full h) ts \<and> length (bts_update cmp key n' ks ts) = length ts"
proof (induction cmp key n' t and cmp key n' ks ts arbitrary: h and h rule: bt_update_bts_update.induct)
  case (2 cmp key n' p n ts)
  then show ?case by (cases h) (simp_all flip: list_all_iff)
qed simp_all

lemma bt_shape_update: "bt_shape (bt_update cmp key n' t) = bt_shape t"
  using bt_full_update(2) by (cases t) (simp_all flip: list_all_iff)

lemma bt_ids_update: "map bt_id (bts_update cmp key n' ks ts) = map bt_id ts"
  by (induction ks arbitrary: ts) (case_tac ts; simp)+

context key_order begin

lemma key_above_trans: "key_above cmp lo k \<Longrightarrow> cmp k k' \<le> 0 \<Longrightarrow> key_above cmp lo k'"
  by (auto simp: key_above_def intro: cmp_le_trans split: option.splits)

lemma key_below_trans: "cmp k k' \<le> 0 \<Longrightarrow> key_below cmp k' hi \<Longrightarrow> key_below cmp k hi"
  by (auto simp: key_below_def intro: cmp_le_less split: option.splits)

lemma cmp_leI: "cmp a b < 0 \<Longrightarrow> cmp a b \<le> 0"
  by simp

lemma bt_ord_bounds:
  "bt_ord cmp lo hi t \<Longrightarrow> \<forall>e\<in>set (bt_entries t). key_above cmp lo (fst e) \<and> key_below cmp (fst e) hi"
  "bts_ord cmp lo hi ks ts \<Longrightarrow>
     \<forall>e\<in>set (leaves_entries (concat (map bt_leaves ts))). key_above cmp lo (fst e) \<and> key_below cmp (fst e) hi"
proof (induction t and ks ts arbitrary: lo hi and lo hi rule: bt_induct)
  case (step k ks t ts)
  have "key_above cmp lo (fst e) \<and> key_below cmp (fst e) hi"
    if "e \<in> set (bt_entries t) \<or> e \<in> set (leaves_entries (concat (map bt_leaves ts)))" for e
    using that
  proof
    assume "e \<in> set (bt_entries t)"
    then have "key_above cmp lo (fst e)" "cmp (fst e) k < 0" using step.IH(1) [of lo "Some k"] step.prems by auto
    then show ?thesis using step.prems key_below_trans [of "fst e" k hi] by simp
  next
    assume "e \<in> set (leaves_entries (concat (map bt_leaves ts)))"
    then have "cmp k (fst e) \<le> 0" "key_below cmp (fst e) hi" using step.IH(2) [of "Some k" hi] step.prems by auto
    then show ?thesis using step.prems key_above_trans [of lo k "fst e"] key_after_above by simp
  qed
  then show ?case by (auto simp: bt_entries_def)
qed (simp_all add: bt_entries_def)

lemma bt_ord_sorted:
  "bt_ord cmp lo hi t \<Longrightarrow> entries_sorted cmp (bt_entries t)"
  "bts_ord cmp lo hi ks ts \<Longrightarrow> entries_sorted cmp (leaves_entries (concat (map bt_leaves ts)))"
proof (induction t and ks ts arbitrary: lo hi and lo hi rule: bt_induct)
  case (step k ks t ts)
  have "cmp (fst x) k \<le> 0" if "x \<in> set (bt_entries t)" for x
    using bt_ord_bounds(1) [of lo "Some k" t] step.prems that by auto
  moreover have "cmp k (fst y) \<le> 0" if "y \<in> set (leaves_entries (concat (map bt_leaves ts)))" for y
    using bt_ord_bounds(2) [of "Some k" hi ks ts] step.prems that by auto
  ultimately have "\<forall>x\<in>set (bt_entries t). \<forall>y\<in>set (leaves_entries (concat (map bt_leaves ts))). cmp (fst x) (fst y) \<le> 0"
    using cmp_le_trans by blast
  then show ?case
    using step.IH(1) [of lo "Some k"] step.IH(2) [of "Some k" hi] step.prems by (simp add: bt_entries_def sorted_entries_append)
qed (simp_all add: bt_entries_def)

text \<open>The search splits the leaves: the keys on its left are below the key, those on its right above it.\<close>

lemma bt_find_split:
  "bt_ord cmp lo hi t \<Longrightarrow> \<exists>p n ls1 ls2. bt_find cmp key t = Some (p, n) \<and> bt_leaves t = ls1 @ (p, n) # ls2 \<and>
     (\<forall>e\<in>set (leaves_entries ls1). cmp (fst e) key < 0) \<and> (\<forall>e\<in>set (leaves_entries ls2). cmp key (fst e) < 0) \<and>
     (\<forall>n'. bt_leaves (bt_update cmp key n' t) = ls1 @ (p, n') # ls2)"
  "bts_ord cmp lo hi ks ts \<Longrightarrow> \<exists>p n ls1 ls2. bts_find cmp key ks ts = Some (p, n) \<and>
     concat (map bt_leaves ts) = ls1 @ (p, n) # ls2 \<and>
     (\<forall>e\<in>set (leaves_entries ls1). cmp (fst e) key < 0) \<and> (\<forall>e\<in>set (leaves_entries ls2). cmp key (fst e) < 0) \<and>
     (\<forall>n'. concat (map bt_leaves (bts_update cmp key n' ks ts)) = ls1 @ (p, n') # ls2)"
proof (induction t and ks ts arbitrary: lo hi and lo hi rule: bt_induct)
  case (step k ks t ts)
  show ?case
  proof (cases "cmp k key \<le> 0")
    case True
    obtain p n ls1 ls2 where I: "bts_find cmp key ks ts = Some (p, n)" "concat (map bt_leaves ts) = ls1 @ (p, n) # ls2"
      "\<forall>e\<in>set (leaves_entries ls1). cmp (fst e) key < 0" "\<forall>e\<in>set (leaves_entries ls2). cmp key (fst e) < 0"
      "\<forall>n'. concat (map bt_leaves (bts_update cmp key n' ks ts)) = ls1 @ (p, n') # ls2"
      using step.IH(2) [of "Some k" hi] step.prems by auto
    have "\<forall>e\<in>set (bt_entries t). cmp (fst e) key < 0"
      using bt_ord_bounds(1) [of lo "Some k" t] step.prems True cmp_less_le by auto
    then show ?thesis using I True by (intro exI [of _ p] exI [of _ n] exI [of _ "bt_leaves t @ ls1"] exI [of _ ls2])
      (auto simp: bt_entries_def)
  next
    case False
    then have less: "cmp key k < 0" using cmp_swap by auto
    obtain p n ls1 ls2 where I: "bt_find cmp key t = Some (p, n)" "bt_leaves t = ls1 @ (p, n) # ls2"
      "\<forall>e\<in>set (leaves_entries ls1). cmp (fst e) key < 0" "\<forall>e\<in>set (leaves_entries ls2). cmp key (fst e) < 0"
      "\<forall>n'. bt_leaves (bt_update cmp key n' t) = ls1 @ (p, n') # ls2"
      using step.IH(1) [of lo "Some k"] step.prems by auto
    have "\<forall>e\<in>set (leaves_entries (concat (map bt_leaves ts))). cmp key (fst e) < 0"
      using bt_ord_bounds(2) [of "Some k" hi ks ts] step.prems less cmp_less_le by auto
    then show ?thesis using I False
      by (intro exI [of _ p] exI [of _ n] exI [of _ ls1] exI [of _ "ls2 @ concat (map bt_leaves ts)"]) auto
  qed
next
  case (leaf p n)
  show ?case by (intro exI [of _ p] exI [of _ n] exI [of _ "[]"]) simp
next
  case (node p n ts)
  then show ?case by simp
next
  case (last t ts)
  then show ?case by fastforce
qed simp

lemma bt_ord_update:
  assumes n': "entries_sorted cmp (leaf_entries n')"
  shows "bt_ord cmp lo hi t \<Longrightarrow> key_above cmp lo key \<Longrightarrow> key_below cmp key hi \<Longrightarrow>
      (\<And>p n. bt_find cmp key t = Some (p, n) \<Longrightarrow> \<forall>e\<in>set (leaf_entries n'). e \<in> set (leaf_entries n) \<or> fst e = key) \<Longrightarrow>
      bt_ord cmp lo hi (bt_update cmp key n' t)"
    and "bts_ord cmp lo hi ks ts \<Longrightarrow> key_above cmp lo key \<Longrightarrow> key_below cmp key hi \<Longrightarrow>
      (\<And>p n. bts_find cmp key ks ts = Some (p, n) \<Longrightarrow> \<forall>e\<in>set (leaf_entries n'). e \<in> set (leaf_entries n) \<or> fst e = key) \<Longrightarrow>
      bts_ord cmp lo hi ks (bts_update cmp key n' ks ts)"
proof (induction t and ks ts arbitrary: lo hi and lo hi rule: bt_induct)
  case (leaf p n)
  then show ?case using n' by fastforce
next
  case (step k ks t ts)
  then show ?case using cmp_swap by (cases "cmp k key \<le> 0") auto
qed simp_all

end

text \<open>Replacing a leaf page changes only the tree's leaf.\<close>

lemma bt_at_other: "bt_at v t \<Longrightarrow> (\<And>q. q \<in> set (bt_pids t) \<Longrightarrow> w q = v q) \<Longrightarrow> bt_at w t"
proof (induction t)
  case (BLeaf p n)
  then show ?case using leaf_at_cong [of w p v n] by simp
next
  case (BNode p n ts)
  then show ?case using internal_at_cong [of w p v n] by auto
qed

lemma bt_find_pid:
  "bt_find cmp key t = Some (p, n) \<Longrightarrow> p \<in> set (bt_pids t)"
  "bts_find cmp key ks ts = Some (p, n) \<Longrightarrow> p \<in> set (concat (map bt_pids ts))"
  by (induction t and ks ts rule: bt_induct) (auto split: if_splits)

lemma bt_at_update:
  assumes n': "leaf_at w p n'" and w: "\<And>q. q \<noteq> p \<Longrightarrow> w q = v q"
  shows "bt_at v t \<Longrightarrow> distinct (bt_pids t) \<Longrightarrow> bt_find cmp key t = Some (p, n) \<Longrightarrow> bt_at w (bt_update cmp key n' t)"
    and "\<forall>t\<in>set ts. bt_at v t \<Longrightarrow> distinct (concat (map bt_pids ts)) \<Longrightarrow> bts_find cmp key ks ts = Some (p, n) \<Longrightarrow>
      \<forall>t\<in>set (bts_update cmp key n' ks ts). bt_at w t"
proof (induction t and ks ts rule: bt_induct)
  case (leaf q m)
  then show ?case using n' by simp
next
  case (node q m ts)
  then have "q \<noteq> p" using bt_find_pid(2) [of cmp key "in_keys m" ts p n] by auto
  then show ?case using node internal_at_cong [of w q v m] w by (simp add: bt_ids_update)
next
  case (last t ts)
  then have "p \<in> set (bt_pids t)" using bt_find_pid(1) [of cmp key t p n] by simp
  then have "p \<notin> set (bt_pids s)" if "s \<in> set ts" for s using last.prems(2) that by auto
  then have "\<forall>s\<in>set ts. bt_at w s" using last.prems(1) w by (metis bt_at_other list.set_intros(2))
  then show ?case using last by simp
next
  case (step k ks t ts)
  show ?case
  proof (cases "cmp k key \<le> 0")
    case True
    then have "p \<notin> set (bt_pids t)" using step.prems bt_find_pid(2) [of cmp key ks ts p n] by auto
    then have "bt_at w t" using step.prems(1) w by (metis bt_at_other list.set_intros(1))
    then show ?thesis using step True by simp
  next
    case False
    then have "p \<in> set (bt_pids t)" using step.prems bt_find_pid(1) [of cmp key t p n] by simp
    then have "p \<notin> set (bt_pids s)" if "s \<in> set ts" for s using step.prems(2) that by auto
    then have "\<forall>s\<in>set ts. bt_at w s" using step.prems(1) w by (metis bt_at_other list.set_intros(2))
    then show ?thesis using step False by simp
  qed
qed simp

section \<open>The invariant of an index\<close>

fun leaf_chain :: "(u32 \<times> leaf_node) list \<Rightarrow> bool" where
  "leaf_chain [] \<longleftrightarrow> True"
| "leaf_chain [l] \<longleftrightarrow> bh_next_page_id (ln_header (snd l)) = INVALID_PAGE_ID"
| "leaf_chain (l # l' # ls) \<longleftrightarrow> bh_next_page_id (ln_header (snd l)) = fst l' \<and> leaf_chain (l' # ls)"

fun bt_parents :: "u32 \<Rightarrow> bt \<Rightarrow> bool" where
  "bt_parents par (BLeaf p n) \<longleftrightarrow> bh_parent_page_id (ln_header n) = par"
| "bt_parents par (BNode p n ts) \<longleftrightarrow> bh_parent_page_id (in_header n) = par \<and> (\<forall>t\<in>set ts. bt_parents p t)"

definition btree_inv :: "btree \<Rightarrow> bt \<Rightarrow> bool" where
  "btree_inv t tr \<longleftrightarrow>
     key_order (bt_cmp t) \<and> quiet (bt_bpm t) \<and> bt_root t = bt_id tr \<and> bt_at (bp_view (bt_bpm t)) tr \<and>
     distinct (bt_pids tr) \<and> bt_ord (bt_cmp t) None None tr \<and> leaf_chain (bt_leaves tr) \<and> bt_parents INVALID_PAGE_ID tr \<and>
     bt_shape tr"

text \<open>The index holds these entries, in this order.\<close>

definition btree_holds :: "btree \<Rightarrow> entry list \<Rightarrow> bool" where
  "btree_holds t es \<longleftrightarrow>
     (if bt_root t = INVALID_PAGE_ID then es = [] \<and> quiet (bt_bpm t) \<and> key_order (bt_cmp t)
      else \<exists>tr. btree_inv t tr \<and> es = bt_entries tr)"

lemma btree_invD:
  assumes "btree_inv t tr"
  shows "key_order (bt_cmp t)" "quiet (bt_bpm t)" "bt_root t = bt_id tr" "bt_at (bp_view (bt_bpm t)) tr"
    "distinct (bt_pids tr)" "bt_ord (bt_cmp t) None None tr" "leaf_chain (bt_leaves tr)" "bt_parents INVALID_PAGE_ID tr" "bt_shape tr"
  using assms by (simp_all add: btree_inv_def)

definition bt_node_at :: "view \<Rightarrow> bt \<Rightarrow> bool" where
  "bt_node_at v t \<longleftrightarrow> v (bt_id t) \<noteq> None \<and> index_page (view_page v (bt_id t)) (bt_id t)"

lemma bt_at_node: "bt_at v t \<Longrightarrow> v (bt_id t) \<noteq> None \<and> index_page (view_page v (bt_id t)) (bt_id t)"
  by (cases t) (auto simp: leaf_at_def internal_at_def leaf_node_at_def internal_node_at_def)

lemma bt_at_leaf: "bt_at v t \<Longrightarrow> (p, n) \<in> set (bt_leaves t) \<Longrightarrow> leaf_at v p n"
  by (induction t) auto

lemma leaf_at_page: "leaf_at v p n \<Longrightarrow> v p \<noteq> None \<and> index_page (view_page v p) p"
  by (simp add: leaf_at_def leaf_node_at_def)

lemma bt_node_valid: "bp_view b p \<noteq> None \<Longrightarrow> p \<noteq> INVALID_PAGE_ID"
  using bp_data_valid [of p b] dom_bp_view [of b] by blast

text \<open>A page that is fetched, and what the frame holds.\<close>

definition at_leaf :: "bpm \<Rightarrow> u32 \<Rightarrow> leaf_node \<Rightarrow> u32 \<Rightarrow> bpm \<Rightarrow> bool" where
  "at_leaf b p n f b1 \<longleftrightarrow> pins_only b p b1 f \<and> leaf_node_at (frame_page b1 f) p n"

lemma fetch_leaf:
  assumes q: "quiet b" and l: "leaf_at (bp_view b) p n"
  obtains f b1 where "BufferPoolManager_FetchPage p b = (Some f, b1)" "at_leaf b p n f b1"
proof -
  obtain f b1 where b1: "BufferPoolManager_FetchPage p b = (Some f, b1)" "pins_only b p b1 f"
    "same_node (view_page (bp_view b) p) (frame_page b1 f)"
    using visit_page [OF q] leaf_at_page [OF l] by metis
  have "leaf_node_at (frame_page b1 f) p n" using same_node_leaf [OF b1(3)] l by (simp add: leaf_at_def)
  then show ?thesis using that b1 by (simp add: at_leaf_def)
qed

lemma at_leafD:
  assumes "at_leaf b p n f b1"
  shows "leaf_in b1 f = n" "Page_GetPageId (frame_page b1 f) = p" "leaf_ok n"
    "same_frame b (bp_unpin p False b1)" "bp_view (bp_unpin p False b1) = bp_view b"
  using assms index_page_id [of "frame_page b1 f" p] by (auto simp: at_leaf_def leaf_node_at_def pins_only_def)

lemma at_leaf_write:
  assumes l: "at_leaf b p n f b1" and n': "leaf_ok n'" "bh_node_type (ln_header n') = kLeafNode"
  defines "b2 \<equiv> put_leaf f n' b1"
  shows "Page_GetPageId (frame_page b2 f) = p" "same_frame b (bp_unpin p True b2)"
    "leaf_at (bp_view (bp_unpin p True b2)) p n'" "q \<noteq> p \<Longrightarrow> bp_view (bp_unpin p True b2) q = bp_view b q"
proof -
  let ?pg = "LeafNode_SerializeToPage n' (frame_page b1 f)"
  have i: "index_page (frame_page b1 f) p" using l by (simp add: at_leaf_def leaf_node_at_def)
  have fp: "frame_page b2 f = ?pg" using l by (simp add: b2_def put_leaf_def set_page_def at_leaf_def pins_only_def)
  have n: "leaf_node_at ?pg p n'" by (rule leaf_serialized [OF i n'])
  then show "Page_GetPageId (frame_page b2 f) = p" using fp index_page_id [of ?pg p] by (simp add: leaf_node_at_def)
  have ok: "page_ser_ok ?pg" using n by (simp add: leaf_node_at_def index_page_def)
  then have S: "same_frame b (bp_unpin p True b2)" "bp_view (bp_unpin p True b2) = (bp_view b)(p \<mapsto> page_image ?pg)"
    using l by (simp_all add: at_leaf_def pins_only_def b2_def put_leaf_def)
  show "same_frame b (bp_unpin p True b2)" by (rule S(1))
  show "leaf_at (bp_view (bp_unpin p True b2)) p n'" unfolding S(2) by (rule leaf_at_image [OF n])
  show "bp_view (bp_unpin p True b2) q = bp_view b q" if "q \<noteq> p" using that S(2) by simp
qed

context key_order begin

text \<open>The descent ends in the leaf the search of the tree finds.\<close>

lemma bts_ord_keys: "bts_ord cmp lo hi ks ts \<Longrightarrow> sorted_keys ks \<and> (\<forall>k\<in>set ks. key_above cmp lo k)"
proof (induction ks arbitrary: lo ts)
  case (Cons k ks)
  then obtain t ts' where ts: "ts = t # ts'" by (cases ts) auto
  then have "sorted_keys ks \<and> (\<forall>k'\<in>set ks. cmp k k' \<le> 0)" "key_above cmp lo k"
    using Cons.IH [of "Some k" ts'] Cons.prems key_after_above by simp_all
  then show ?case using key_above_trans by auto
qed simp

lemma bts_ord_child: "bts_ord cmp lo hi ks ts \<Longrightarrow> t \<in> set ts \<Longrightarrow> \<exists>lo hi. bt_ord cmp lo hi t"
proof (induction ks arbitrary: lo ts)
  case Nil
  then show ?case by (cases ts) auto
next
  case (Cons k ks)
  then obtain u us where "ts = u # us" by (cases ts) auto
  then show ?case using Cons.IH [of "Some k" us] Cons.prems by auto
qed

lemma child_page:
  assumes n: "internal_node_at (frame_page b f) p n" and ts: "map bt_id ts = in_children n"
    and ord: "sorted_keys (in_keys n)" "length ts = Suc (length (in_keys n))"
  obtains t where "t \<in> set ts" "bts_find cmp key (in_keys n) ts = bt_find cmp key t"
    "InternalNode_GetChildAt (InternalNode_FindChild cmp key (internal_in b f)) (internal_in b f) = bt_id t"
proof -
  have ok: "internal_in b f = n" "length (in_keys n) = unat (bh_num_keys (in_header n))"
    using n by (simp_all add: internal_node_at_def internal_ok_def)
  let ?i = "length (takeWhile (\<lambda>k. cmp k key \<le> 0) (in_keys n))"
  have c: "unat (InternalNode_FindChild cmp key n) = ?i"
    using FindChild_correct ord(1) ok(2) by blast
  have i: "?i < length ts"
    using ord(2) length_takeWhile_le [of "\<lambda>k. cmp k key \<le> 0" "in_keys n"] by simp
  then have "in_children n ! ?i = bt_id (ts ! ?i)" by (simp flip: ts)
  then show ?thesis
    using that [of "ts ! ?i"] i c ok(1) bts_find_nth [OF ord(2)]
    by (simp add: InternalNode_GetChildAt_def)
qed

lemma bt_ord_search: "bt_ord cmp lo hi t \<Longrightarrow> bt_search_ok cmp t"
proof (induction t arbitrary: lo hi)
  case (BNode p n ts)
  then have ord: "bts_ord cmp lo hi (in_keys n) ts" by simp
  have "bt_search_ok cmp t" if "t \<in> set ts" for t using BNode.IH [OF that] bts_ord_child [OF ord that] by blast
  then show ?case using bts_ord_keys [OF ord] bts_ord_length [OF ord] by simp
qed simp

lemma descend_correct:
  assumes "bt_at (bp_view b) t" "bt_search_ok cmp t" "quiet b" "BufferPoolManager_FetchPage (bt_id t) b = (Some f, b1)"
    "pins_only b (bt_id t) b1 f" "same_node (view_page (bp_view b) (bt_id t)) (frame_page b1 f)"
  shows "\<exists>p n b' g b2. bt_find cmp key t = Some (p, n) \<and> descend cmp key f b1 = Some (Some g, b2) \<and>
    quiet b' \<and> same_frame b b' \<and> bp_view b' = bp_view b \<and> at_leaf b' p n g b2"
  using assms
proof (induction t arbitrary: b f b1)
  case (BLeaf p n)
  have l: "leaf_node_at (frame_page b1 f) p n"
    using same_node_leaf [OF BLeaf.prems(6)] BLeaf.prems(1) by (simp add: leaf_at_def)
  then have "descend cmp key f b1 = Some (Some f, b1)"
    by (subst descend.simps) (simp add: node_type_byte(1))
  moreover have "same_frame b b" using BLeaf.prems(3) by (simp add: same_frame_def quiet_def)
  moreover have "at_leaf b p n f b1" using l BLeaf.prems(5) by (simp add: at_leaf_def)
  ultimately show ?case using BLeaf.prems(3) by auto
next
  case (BNode p n ts)
  have n: "internal_node_at (frame_page b1 f) p n"
    using same_node_internal [OF BNode.prems(6)] BNode.prems(1) by (simp add: internal_at_def)
  have ts: "map bt_id ts = in_children n" and ord: "sorted_keys (in_keys n)" "length ts = Suc (length (in_keys n))"
    using BNode.prems(1,2) by simp_all
  obtain t where t: "t \<in> set ts" "bts_find cmp key (in_keys n) ts = bt_find cmp key t"
    "InternalNode_GetChildAt (InternalNode_FindChild cmp key (internal_in b1 f)) (internal_in b1 f) = bt_id t"
    by (rule child_page [OF n ts ord])
  have o: "bt_search_ok cmp t" using BNode.prems(2) t(1) by simp
  let ?b = "bp_unpin p False b1"
  have b: "same_frame b ?b" "bp_view ?b = bp_view b" using BNode.prems(5) by (simp_all add: pins_only_def)
  have qb: "quiet ?b" by (rule quiet_same_frame [OF BNode.prems(3) b(1)])
  have at: "bt_at (bp_view ?b) t" using BNode.prems(1) t(1) b(2) by simp
  obtain g b2 where g: "BufferPoolManager_FetchPage (bt_id t) ?b = (Some g, b2)" "pins_only ?b (bt_id t) b2 g"
    "same_node (view_page (bp_view ?b) (bt_id t)) (frame_page b2 g)"
    using visit_page [OF qb] bt_at_node [OF at] by metis
  obtain q m b' h b3 where I: "bt_find cmp key t = Some (q, m)" "descend cmp key g b2 = Some (Some h, b3)"
    "quiet b'" "same_frame ?b b'" "bp_view b' = bp_view ?b" "at_leaf b' q m h b3"
    using BNode.IH [OF t(1) at o qb g] by blast
  have "p_data (frame_page b1 f) 20 \<noteq> kLeafNode"
    using node_type_byte(2) [OF n] by (simp add: kInternalNode_def kLeafNode_def)
  moreover have "Page_GetPageId (frame_page b1 f) = p" using n index_page_id by (simp add: internal_node_at_def)
  ultimately have "descend cmp key f b1 = Some (Some h, b3)"
    using g(1) I(2) t(3) by (subst descend.simps) (simp add: Let_def)
  then show ?case using I t(2) b same_frame_trans [OF b(1)] by (intro exI conjI) (assumption | simp)+
qed

lemma find_leaf_page:
  assumes q: "quiet (bt_bpm t)" and at: "bt_at (bp_view (bt_bpm t)) tr" and ok: "bt_search_ok cmp tr"
    and root: "bt_root t = bt_id tr" and cmp: "bt_cmp t = cmp"
  obtains p n b g b2 where "BPlusTree_FindLeafPage key t = Some (Some g, b2)" "at_leaf b p n g b2"
    "quiet b" "same_frame (bt_bpm t) b" "bp_view b = bp_view (bt_bpm t)" "bt_find cmp key tr = Some (p, n)"
    "bt_root t \<noteq> INVALID_PAGE_ID"
proof -
  obtain f b1 where f: "BufferPoolManager_FetchPage (bt_id tr) (bt_bpm t) = (Some f, b1)" "pins_only (bt_bpm t) (bt_id tr) b1 f"
    "same_node (view_page (bp_view (bt_bpm t)) (bt_id tr)) (frame_page b1 f)"
    using visit_page [OF q] bt_at_node [OF at] by metis
  obtain p n b g b2 where D: "bt_find cmp key tr = Some (p, n)" "descend cmp key f b1 = Some (Some g, b2)"
    "quiet b" "same_frame (bt_bpm t) b" "bp_view b = bp_view (bt_bpm t)" "at_leaf b p n g b2"
    using descend_correct [OF at ok q f, of key] by blast
  moreover have "bt_root t \<noteq> INVALID_PAGE_ID" using bt_node_valid bt_at_node [OF at] root by metis
  moreover have "BPlusTree_FindLeafPage key t = Some (Some g, b2)"
    using f(1) D(2) root cmp by (simp add: BPlusTree_FindLeafPage_def)
  ultimately show ?thesis using that by blast
qed

lemma find_leaf:
  assumes inv: "btree_inv t tr" and cmp: "bt_cmp t = cmp"
  obtains p n b g b2 ls1 ls2 where "BPlusTree_FindLeafPage key t = Some (Some g, b2)" "at_leaf b p n g b2"
    "quiet b" "same_frame (bt_bpm t) b" "bp_view b = bp_view (bt_bpm t)" "bt_find cmp key tr = Some (p, n)"
    "bt_leaves tr = ls1 @ (p, n) # ls2" "\<forall>e\<in>set (leaves_entries ls1). cmp (fst e) key < 0"
    "\<forall>e\<in>set (leaves_entries ls2). cmp key (fst e) < 0" "sorted_entries (leaf_entries n)" "bt_root t \<noteq> INVALID_PAGE_ID"
    "\<And>n'. bt_leaves (bt_update cmp key n' tr) = ls1 @ (p, n') # ls2"
proof -
  note I = btree_invD [OF inv, unfolded cmp]
  obtain p n b g b2 where D: "BPlusTree_FindLeafPage key t = Some (Some g, b2)" "at_leaf b p n g b2"
    "quiet b" "same_frame (bt_bpm t) b" "bp_view b = bp_view (bt_bpm t)" "bt_find cmp key tr = Some (p, n)"
    "bt_root t \<noteq> INVALID_PAGE_ID"
    by (rule find_leaf_page [OF I(2,4) bt_ord_search [OF I(6)] I(3) cmp])
  obtain p' n' ls1 ls2 where S: "bt_find cmp key tr = Some (p', n')" "bt_leaves tr = ls1 @ (p', n') # ls2"
     "\<forall>e\<in>set (leaves_entries ls1). cmp (fst e) key < 0" "\<forall>e\<in>set (leaves_entries ls2). cmp key (fst e) < 0"
     "\<And>m. bt_leaves (bt_update cmp key m tr) = ls1 @ (p', m) # ls2"
    using bt_find_split(1) [OF I(6), of key] by blast
  have same: "p' = p" "n' = n" using D(6) S(1) by simp_all
  have "sorted_entries (leaf_entries n)"
    using bt_ord_sorted(1) [OF I(6)] S(2) same by (simp add: bt_entries_def sorted_entries_append)
  then show ?thesis using that D S same by blast
qed

end

end
