(* ===== verification/BTreeOps.thy ===== *)
theory BTreeOps
  imports BTreeSpec
begin

text \<open>
  The operations of the index against its sequence of entries: lookup, range scan, deletion and insertion into a leaf
  with room.
\<close>

definition entries_range :: "(u32 \<Rightarrow> u32 \<Rightarrow> int) \<Rightarrow> u32 \<Rightarrow> u32 \<Rightarrow> entry list \<Rightarrow> entry list" where
  "entries_range cmp low high es = filter (\<lambda>e. cmp low (fst e) \<le> 0 \<and> cmp (fst e) high \<le> 0) es"

lemma entries_range_simps [simp]:
  "entries_range cmp low high [] = []"
  "entries_range cmp low high (xs @ ys) = entries_range cmp low high xs @ entries_range cmp low high ys"
  by (simp_all add: entries_range_def)

text \<open>
  What a lookup itself relies on. The descent needs pages that form a tree with separators in order; the loop over the next
  leaves needs a chain \<open>ls\<close> of leaf pages, beginning with the leaf the descent ends in, whose entries are in order. The leaves
  of the chain need not be below the root, and a key may be on several of them.
\<close>

definition search_pages :: "btree \<Rightarrow> bt \<Rightarrow> bool" where
  "search_pages t tr \<longleftrightarrow>
     quiet (bt_bpm t) \<and> bt_at (bp_view (bt_bpm t)) tr \<and> bt_search_ok (bt_cmp t) tr \<and> bt_root t = bt_id tr"

definition leaf_run :: "btree \<Rightarrow> u32 \<Rightarrow> bt \<Rightarrow> (u32 \<times> leaf_node) list \<Rightarrow> bool" where
  "leaf_run t key tr ls \<longleftrightarrow>
     ls \<noteq> [] \<and> bt_find (bt_cmp t) key tr = Some (hd ls) \<and> leaf_chain ls \<and>
     (\<forall>l\<in>set ls. leaf_at (bp_view (bt_bpm t)) (fst l) (snd l)) \<and> entries_sorted (bt_cmp t) (leaves_entries ls)"

abbreviation filled_leaves :: "(u32 \<times> leaf_node) list \<Rightarrow> (u32 \<times> leaf_node) list" where
  "filled_leaves ls \<equiv> takeWhile (\<lambda>l. leaf_entries (snd l) \<noteq> []) ls"

context key_order begin

section \<open>Point lookup\<close>

lemma leaf_chain_suffix: "leaf_chain (ls1 @ ls2) \<Longrightarrow> leaf_chain ls2"
  by (induction ls1) (auto elim: leaf_chain.elims)

lemma leaf_chain_next:
  assumes "leaf_chain (ls1 @ (p, n) # ls2)"
  shows "case ls2 of [] \<Rightarrow> bh_next_page_id (ln_header n) = INVALID_PAGE_ID | l # ls \<Rightarrow> bh_next_page_id (ln_header n) = fst l"
  using leaf_chain_suffix [OF assms] by (cases ls2) auto

lemma entries_find_append [simp]: "entries_find key (xs @ ys) = entries_find key xs @ entries_find key ys"
  by (simp add: entries_find_def)

lemma entries_find_none: "\<forall>e\<in>set es. cmp (fst e) key \<noteq> 0 \<Longrightarrow> entries_find key es = []"
  using cmp_eq by (auto simp: entries_find_def filter_empty_conv)

lemma filled_entries: "set (leaves_entries (filled_leaves ls)) \<subseteq> set (leaves_entries ls)"
  by (auto simp: leaves_entries_def dest: set_takeWhileD)

text \<open>The loop collects the record ids of the key from the following leaves, up to the first empty one.\<close>

lemma lookup_next_run:
  assumes "quiet b" "leaf_chain ls" "nxt = (case ls of [] \<Rightarrow> INVALID_PAGE_ID | l # _ \<Rightarrow> fst l)"
    "\<forall>l\<in>set ls. leaf_at (bp_view b) (fst l) (snd l)" "sorted_entries (leaves_entries ls)"
    "\<forall>e\<in>set (leaves_entries ls). cmp key (fst e) \<le> 0" "rs \<noteq> []"
  shows "\<exists>b'. lookup_next cmp key nxt rs b = Some (rs @ entries_find key (leaves_entries (filled_leaves ls)), b') \<and>
    same_frame b b' \<and> bp_view b' = bp_view b"
  using assms
proof (induction ls arbitrary: b nxt rs)
  case Nil
  then have "same_frame b b" by (simp add: same_frame_def quiet_def)
  then show ?case using Nil.prems(3) by (subst lookup_next.simps) (auto simp: entries_find_def)
next
  case (Cons l ls)
  obtain q n where l: "l = (q, n)" by (cases l)
  have n: "leaf_at (bp_view b) q n" and nxt: "nxt = q" using Cons.prems(3,4) l by simp_all
  have nz: "q \<noteq> INVALID_PAGE_ID" using leaf_at_page [OF n] bt_node_valid by blast
  have srt: "sorted_entries (leaf_entries n)" "sorted_entries (leaves_entries ls)"
    using Cons.prems(5) l by (simp_all add: sorted_entries_append)
  obtain f b1 where f: "BufferPoolManager_FetchPage q b = (Some f, b1)" "at_leaf b q n f b1"
    by (rule fetch_leaf [OF Cons.prems(1) n])
  note A = at_leafD [OF f(2)] and K = leaf_ok_entries [OF at_leafD(3) [OF f(2)]]
  have empty: "bh_num_keys (ln_header n) = 0 \<longleftrightarrow> leaf_entries n = []"
    using K(3) by (metis length_0_conv unat_eq_zero)
  show ?case
  proof (cases "leaf_entries n = [] \<or> cmp (LeafNode_GetKeyAt 0 n) key \<noteq> 0")
    case True
    have "entries_find key (leaves_entries (filled_leaves (l # ls))) = []"
    proof (cases "leaf_entries n = []")
      case False
      then obtain e es where e: "leaf_entries n = e # es" by (cases "leaf_entries n") auto
      then have "fst e = LeafNode_GetKeyAt 0 n" by (simp add: LeafNode_GetKeyAt_def flip: K(1))
      then have "cmp key (fst e) < 0" using True False Cons.prems(6) l e cmp_eq by (fastforce simp: order.order_iff_strict)
      moreover have "\<forall>x\<in>set (leaves_entries (l # ls)). cmp (fst e) (fst x) \<le> 0"
        using Cons.prems(5) l e by (simp add: sorted_entries_Cons)
      ultimately have "cmp key (fst x) < 0" if "x \<in> set (leaves_entries (l # ls))" for x
        using that cmp_less_le by blast
      then have "\<forall>x\<in>set (leaves_entries (filled_leaves (l # ls))). cmp (fst x) key \<noteq> 0"
        using filled_entries [of "l # ls"] cmp_eq by fastforce
      then show ?thesis by (rule entries_find_none)
    qed (simp add: l entries_find_def)
    moreover have "lookup_next cmp key nxt rs b = Some (rs, bp_unpin q False b1)"
      using True empty f(1) A(1) nz nxt Cons.prems(7) by (subst lookup_next.simps) (auto simp: Let_def)
    ultimately show ?thesis using A(4,5) by auto
  next
    case False
    let ?b = "bp_unpin q False b1" and ?rs = "rs @ entries_find key (leaf_entries n)"
    have "\<exists>b'. lookup_next cmp key (bh_next_page_id (ln_header n)) ?rs ?b =
        Some (?rs @ entries_find key (leaves_entries (filled_leaves ls)), b') \<and> same_frame ?b b' \<and> bp_view b' = bp_view ?b"
    proof (rule Cons.IH [OF quiet_same_frame [OF Cons.prems(1) A(4)] _ _ _ srt(2)])
      show "leaf_chain ls" "bh_next_page_id (ln_header n) = (case ls of [] \<Rightarrow> INVALID_PAGE_ID | l # _ \<Rightarrow> fst l)"
        using Cons.prems(2) l by (cases ls; simp)+
    qed (use Cons.prems A(5) l in simp_all)
    then obtain b' where L: "lookup_next cmp key (bh_next_page_id (ln_header n)) ?rs ?b =
        Some (?rs @ entries_find key (leaves_entries (filled_leaves ls)), b')" "same_frame ?b b'" "bp_view b' = bp_view ?b"
      by blast
    have "lookup_next cmp key nxt rs b = lookup_next cmp key (bh_next_page_id (ln_header n)) ?rs ?b"
      using False empty f(1) A(1,2) nz nxt Cons.prems(7) leaf_find [OF A(3) srt(1)]
      by (subst lookup_next.simps) (auto simp: Let_def)
    then show ?thesis using L A(5) same_frame_trans [OF A(4) L(2)] False l by simp
  qed
qed

text \<open>The whole lookup, on any chain of leaves.\<close>

lemma lookup_run:
  assumes pages: "search_pages t tr" and cmp: "bt_cmp t = cmp" and run: "leaf_run t key tr ((p, n) # ls)"
  obtains b' where "BPlusTree_Lookup key t = Some (if entries_find key (leaf_entries n) = [] then []
      else entries_find key (leaves_entries ((p, n) # filled_leaves ls)), t\<lparr>bt_bpm := b'\<rparr>)"
    "same_frame (bt_bpm t) b'" "bp_view b' = bp_view (bt_bpm t)"
proof -
  note P = pages [unfolded search_pages_def cmp] and R = run [unfolded leaf_run_def cmp, simplified]
  obtain p' n' b g b2 where F: "BPlusTree_FindLeafPage key t = Some (Some g, b2)" "at_leaf b p' n' g b2"
    "quiet b" "same_frame (bt_bpm t) b" "bp_view b = bp_view (bt_bpm t)" "bt_find cmp key tr = Some (p', n')"
    "bt_root t \<noteq> INVALID_PAGE_ID"
    by (rule find_leaf_page [of t tr key]) (use P cmp in auto)
  have same: "p' = p" "n' = n" using F(6) R by simp_all
  note A = at_leafD [OF F(2), unfolded same]
  let ?b = "bp_unpin p False b2" and ?nxt = "bh_next_page_id (ln_header n)" and ?rs = "entries_find key (leaf_entries n)"
  have srt: "sorted_entries (leaf_entries n)" "sorted_entries (leaves_entries ls)"
    using R by (simp_all add: sorted_entries_append)
  have "\<exists>b'. lookup_next cmp key ?nxt ?rs ?b = Some (if ?rs = [] then []
      else ?rs @ entries_find key (leaves_entries (filled_leaves ls)), b') \<and> same_frame ?b b' \<and> bp_view b' = bp_view ?b"
  proof (cases "?rs = []")
    case True
    have "same_frame ?b ?b" using quiet_same_frame [OF F(3) A(4)] by (simp add: same_frame_def quiet_def)
    then show ?thesis using True by (subst lookup_next.simps) simp
  next
    case False
    then obtain e where e: "e \<in> set (leaf_entries n)" "fst e = key" by (auto simp: entries_find_def filter_empty_conv)
    have "\<exists>b'. lookup_next cmp key ?nxt ?rs ?b = Some (?rs @ entries_find key (leaves_entries (filled_leaves ls)), b') \<and>
        same_frame ?b b' \<and> bp_view b' = bp_view ?b"
    proof (rule lookup_next_run [OF quiet_same_frame [OF F(3) A(4)] _ _ _ srt(2) _ False])
      show "leaf_chain ls" "?nxt = (case ls of [] \<Rightarrow> INVALID_PAGE_ID | l # _ \<Rightarrow> fst l)" using R by (cases ls; simp)+
      show "\<forall>l\<in>set ls. leaf_at (bp_view ?b) (fst l) (snd l)" using R A(5) F(5) by simp
      show "\<forall>x\<in>set (leaves_entries ls). cmp key (fst x) \<le> 0" using R e by (auto simp: sorted_entries_append)
    qed
    then show ?thesis using False by simp
  qed
  then obtain b' where L: "lookup_next cmp key ?nxt ?rs ?b = Some (if ?rs = [] then []
      else ?rs @ entries_find key (leaves_entries (filled_leaves ls)), b')" "same_frame ?b b'" "bp_view b' = bp_view ?b"
    by blast
  have "BPlusTree_Lookup key t = Some (if ?rs = [] then [] else entries_find key (leaves_entries ((p, n) # filled_leaves ls)),
      t\<lparr>bt_bpm := b'\<rparr>)"
    using F(1,7) A(1,2) L(1) leaf_find [OF A(3) srt(1)] cmp by (simp add: BPlusTree_Lookup_def Let_def)
  then show ?thesis
    using that same_frame_trans [OF F(4) same_frame_trans [OF A(4) L(2)]] L(3) A(5) F(5) by simp
qed

lemma same_view_inv:
  assumes "btree_inv t tr" "same_frame (bt_bpm t) b" "bp_view b = bp_view (bt_bpm t)"
  shows "btree_inv (t\<lparr>bt_bpm := b\<rparr>) tr"
  using assms(1,3) quiet_same_frame [OF _ assms(2)] by (simp add: btree_inv_def)

lemma lookup_correct:
  assumes inv: "btree_inv t tr" and cmp: "bt_cmp t = cmp"
  obtains b' where "BPlusTree_Lookup key t = Some (entries_find key (bt_entries tr), t\<lparr>bt_bpm := b'\<rparr>)"
    "same_frame (bt_bpm t) b'" "bp_view b' = bp_view (bt_bpm t)"
proof -
  note I = btree_invD [OF inv, unfolded cmp]
  obtain p n ls1 ls2 where F: "bt_find cmp key tr = Some (p, n)"
    "bt_leaves tr = ls1 @ (p, n) # ls2" "\<forall>e\<in>set (leaves_entries ls1). cmp (fst e) key < 0"
    "\<forall>e\<in>set (leaves_entries ls2). cmp key (fst e) < 0"
    by (rule find_leaf [OF inv cmp, where key = key]) blast
  have pages: "search_pages t tr" using I(2-4) bt_ord_search [OF I(6)] cmp by (simp add: search_pages_def)
  have "sorted_entries (leaves_entries ((p, n) # ls2))"
    using bt_ord_sorted(1) [OF I(6)] F(2) by (simp add: bt_entries_def sorted_entries_append)
  moreover have "leaf_chain ((p, n) # ls2)" using leaf_chain_suffix I(7) F(2) by metis
  moreover have "leaf_at (bp_view (bt_bpm t)) (fst l) (snd l)" if "l \<in> set ((p, n) # ls2)" for l
    using bt_at_leaf [OF I(4), of "fst l" "snd l"] F(2) that by auto
  ultimately have run: "leaf_run t key tr ((p, n) # ls2)" using F(1) cmp by (simp add: leaf_run_def)
  obtain b' where L: "BPlusTree_Lookup key t = Some (if entries_find key (leaf_entries n) = [] then []
      else entries_find key (leaves_entries ((p, n) # filled_leaves ls2)), t\<lparr>bt_bpm := b'\<rparr>)"
    "same_frame (bt_bpm t) b'" "bp_view b' = bp_view (bt_bpm t)"
    by (rule lookup_run [OF pages cmp run])
  have "entries_find key (leaves_entries ls1) = []" "entries_find key (leaves_entries ls2) = []"
    "entries_find key (leaves_entries (filled_leaves ls2)) = []"
    using F(3,4) cmp_eq cmp_swap filled_entries [of ls2] by (fastforce intro!: entries_find_none)+
  then show ?thesis using that L by (simp add: bt_entries_def F(2) split: if_splits)
qed

section \<open>Range scan\<close>

lemma range_run:
  assumes ok: "leaf_ok n"
  shows "range_entries cmp high n i =
    (takeWhile (\<lambda>e. cmp (fst e) high \<le> 0) (drop (unat i) (leaf_entries n)) \<noteq> drop (unat i) (leaf_entries n),
     takeWhile (\<lambda>e. cmp (fst e) high \<le> 0) (drop (unat i) (leaf_entries n)))"
  using ok
proof (induction cmp high n i rule: range_entries.induct)
  case (1 cmp high n i)
  show ?case
  proof (cases "i < bh_num_keys (ln_header n)")
    case True
    then have l: "unat i < length (leaf_entries n)" using 1(2) by (simp add: leaf_ok_entries word_less_nat_alt)
    then have d: "drop (unat i) (leaf_entries n) = (ln_keys n ! unat i, ln_rids n ! unat i) # drop (unat (i + 1)) (leaf_entries n)"
      using word16_step [OF True] by (simp add: leaf_entries_def flip: Cons_nth_drop_Suc)
    show ?thesis using 1 True
      by (subst range_entries.simps) (simp add: d LeafNode_GetKeyAt_def LeafNode_GetRIDAt_def not_less)
  next
    case False
    then have "drop (unat i) (leaf_entries n) = []" using 1(2) by (simp add: leaf_ok_entries word_less_nat_alt)
    then show ?thesis using False by (subst range_entries.simps) simp
  qed
qed

lemma takeWhile_sorted:
  "sorted_entries es \<Longrightarrow> takeWhile (\<lambda>e. cmp (fst e) high \<le> 0) es = filter (\<lambda>e. cmp (fst e) high \<le> 0) es"
proof (induction es)
  case (Cons x es)
  have "\<not> cmp (fst y) high \<le> 0" if "\<not> cmp (fst x) high \<le> 0" "y \<in> set es" for y
    using Cons.prems that cmp_le_trans [of "fst x" "fst y" high] by (auto simp: sorted_entries_Cons)
  then show ?case using Cons by (auto simp: sorted_entries_Cons filter_empty_conv)
qed simp

lemma dropWhile_sorted:
  "sorted_entries es \<Longrightarrow> dropWhile (\<lambda>e. cmp (fst e) low < 0) es = filter (\<lambda>e. cmp low (fst e) \<le> 0) es"
proof (induction es)
  case (Cons x es)
  show ?case
  proof (cases "cmp (fst x) low < 0")
    case True
    then have "\<not> cmp low (fst x) \<le> 0" using cmp_swap [of "fst x" low] by simp
    then show ?thesis using Cons True by (simp add: sorted_entries_Cons)
  next
    case False
    then have le: "cmp low (fst x) \<le> 0" by (simp add: cmp_not_less)
    then have "\<forall>y\<in>set es. cmp low (fst y) \<le> 0"
      using Cons.prems cmp_le_trans [of low "fst x"] by (auto simp: sorted_entries_Cons)
    then show ?thesis using False le by simp
  qed
qed simp

lemma leaf_range:
  assumes ok: "leaf_ok n" and s: "sorted_entries (leaf_entries n)"
  shows "snd (range_entries cmp high n (LeafNode_FindKeyPosition cmp low n)) = entries_range cmp low high (leaf_entries n)"
    and "fst (range_entries cmp high n (LeafNode_FindKeyPosition cmp low n)) \<Longrightarrow> \<exists>e\<in>set (leaf_entries n). 0 < cmp (fst e) high"
proof -
  let ?d = "drop (unat (LeafNode_FindKeyPosition cmp low n)) (leaf_entries n)"
  have d: "?d = filter (\<lambda>e. cmp low (fst e) \<le> 0) (leaf_entries n)"
    using dropWhile_sorted [OF s, of low] by (simp add: leaf_position [OF ok s] flip: dropWhile_eq_drop)
  have "sorted_entries ?d" using s by (simp add: entries_sorted_def sorted_wrt_drop flip: drop_map)
  then show "snd (range_entries cmp high n (LeafNode_FindKeyPosition cmp low n)) = entries_range cmp low high (leaf_entries n)"
    by (simp add: range_run [OF ok] takeWhile_sorted) (simp add: d entries_range_def conj_commute)
  assume "fst (range_entries cmp high n (LeafNode_FindKeyPosition cmp low n))"
  then have "takeWhile (\<lambda>e. cmp (fst e) high \<le> 0) ?d \<noteq> ?d" by (simp add: range_run [OF ok])
  then have "\<exists>e\<in>set ?d. \<not> cmp (fst e) high \<le> 0" by (meson takeWhile_eq_all_conv)
  then show "\<exists>e\<in>set (leaf_entries n). 0 < cmp (fst e) high" by (meson in_set_dropD not_le)
qed

lemma scan_correct:
  assumes "at_leaf b p n f b1" "quiet b" "leaf_chain ((p, n) # ls)" "\<forall>(q, m)\<in>set ls. leaf_at (bp_view b) q m"
    "sorted_entries (leaves_entries ((p, n) # ls))"
  shows "\<exists>b'. scan_leaves cmp low high f rs b1 = Some (rs @ entries_range cmp low high (leaves_entries ((p, n) # ls)), b') \<and>
    same_frame b b' \<and> bp_view b' = bp_view b"
  using assms
proof (induction ls arbitrary: b p n f b1 rs)
  case Nil
  note A = at_leafD [OF Nil.prems(1)]
  note R = leaf_range [OF A(3), of high low]
  have "sorted_entries (leaf_entries n)" "bh_next_page_id (ln_header n) = INVALID_PAGE_ID" using Nil.prems by simp_all
  then have "scan_leaves cmp low high f rs b1 = Some (rs @ entries_range cmp low high (leaf_entries n), bp_unpin p False b1)"
    using R(1) A(1,2) by (subst scan_leaves.simps) (auto simp: Let_def split: prod.split)
  then show ?case using A(4,5) by simp
next
  case (Cons l ls)
  obtain q m where l: "l = (q, m)" by (cases l)
  note A = at_leafD [OF Cons.prems(1)]
  let ?b = "bp_unpin p False b1"
  have s: "sorted_entries (leaf_entries n)" and nx: "bh_next_page_id (ln_header n) = q" and at: "leaf_at (bp_view ?b) q m"
    and above: "\<forall>x\<in>set (leaf_entries n). \<forall>y\<in>set (leaves_entries (l # ls)). cmp (fst x) (fst y) \<le> 0"
    using Cons.prems(3-5) A(5) l by (auto simp: sorted_entries_append)
  have nv: "q \<noteq> INVALID_PAGE_ID" using at bt_node_valid [of ?b q] by (simp add: leaf_at_def)
  note R = leaf_range [OF A(3) s, of high low]
  note qb = quiet_same_frame [OF Cons.prems(2) A(4)]
  obtain g b2 where g: "BufferPoolManager_FetchPage q ?b = (Some g, b2)" "at_leaf ?b q m g b2" by (rule fetch_leaf [OF qb at])
  obtain past es where res: "range_entries cmp high n (LeafNode_FindKeyPosition cmp low n) = (past, es)" by fastforce
  have es: "es = entries_range cmp low high (leaf_entries n)" using R(1) res by simp
  show ?case
  proof (cases past)
    case True
    then obtain e where e: "e \<in> set (leaf_entries n)" "0 < cmp (fst e) high" using R(2) res by auto
    have "\<not> cmp (fst y) high \<le> 0" if "y \<in> set (leaves_entries (l # ls))" for y
      using e above that cmp_le_trans [of "fst e" "fst y" high] by force
    then have "entries_range cmp low high (leaves_entries (l # ls)) = []"
      by (auto simp: entries_range_def filter_empty_conv)
    then have "scan_leaves cmp low high f rs b1 = Some (rs @ entries_range cmp low high (leaves_entries ((p, n) # l # ls)), ?b)"
      using True res es A(1,2) by (subst scan_leaves.simps) (simp add: Let_def)
    then show ?thesis using A(4,5) by blast
  next
    case False
    have "leaf_chain ((q, m) # ls)" "\<forall>(q, m)\<in>set ls. leaf_at (bp_view ?b) q m" "sorted_entries (leaves_entries ((q, m) # ls))"
      using Cons.prems(3-5) A(5) l by (simp_all add: sorted_entries_append)
    then obtain b' where I: "scan_leaves cmp low high g (rs @ es) b2 =
        Some ((rs @ es) @ entries_range cmp low high (leaves_entries ((q, m) # ls)), b')" "same_frame ?b b'" "bp_view b' = bp_view ?b"
      using Cons.IH [OF g(2) qb] by blast
    have "scan_leaves cmp low high f rs b1 = scan_leaves cmp low high g (rs @ es) b2"
      using False res A(1,2) nx nv g(1) by (subst scan_leaves.simps) (simp add: Let_def)
    then show ?thesis using I(1,3) same_frame_trans [OF A(4) I(2)] A(5) es l by auto
  qed
qed

lemma range_scan_correct:
  assumes inv: "btree_inv t tr" and cmp: "bt_cmp t = cmp"
  obtains b' where "BPlusTree_RangeScan low high t = Some (entries_range cmp low high (bt_entries tr), t\<lparr>bt_bpm := b'\<rparr>)"
    "same_frame (bt_bpm t) b'" "bp_view b' = bp_view (bt_bpm t)"
proof -
  note I = btree_invD [OF inv, unfolded cmp]
  obtain p n b g b2 ls1 ls2 where F: "BPlusTree_FindLeafPage low t = Some (Some g, b2)" "at_leaf b p n g b2"
    "quiet b" "same_frame (bt_bpm t) b" "bp_view b = bp_view (bt_bpm t)"
    "bt_leaves tr = ls1 @ (p, n) # ls2" "\<forall>e\<in>set (leaves_entries ls1). cmp (fst e) low < 0"
    "bt_root t \<noteq> INVALID_PAGE_ID"
    by (rule find_leaf [OF inv cmp])
  have "leaf_chain ((p, n) # ls2)" using I(7) F(6) leaf_chain_suffix by simp
  moreover have "\<forall>(q, m)\<in>set ls2. leaf_at (bp_view b) q m"
    using bt_at_leaf [OF I(4)] F(5,6) by auto
  moreover have "sorted_entries (leaves_entries ((p, n) # ls2))"
    using bt_ord_sorted(1) [OF I(6)] F(6) by (simp add: bt_entries_def sorted_entries_append)
  ultimately obtain b' where S: "scan_leaves cmp low high g [] b2 =
      Some ([] @ entries_range cmp low high (leaves_entries ((p, n) # ls2)), b')" "same_frame b b'" "bp_view b' = bp_view b"
    using scan_correct [OF F(2,3)] by blast
  have "\<not> cmp low (fst e) \<le> 0" if "e \<in> set (leaves_entries ls1)" for e
    using F(7) that cmp_swap [of "fst e" low] by auto
  then have "entries_range cmp low high (leaves_entries ls1) = []" by (auto simp: entries_range_def filter_empty_conv)
  then have "BPlusTree_RangeScan low high t = Some (entries_range cmp low high (bt_entries tr), t\<lparr>bt_bpm := b'\<rparr>)"
    using F(1,8) S(1) cmp by (simp add: BPlusTree_RangeScan_def bt_entries_def F(6))
  then show ?thesis using that same_frame_trans [OF F(4) S(2)] S(3) F(5) by simp
qed

end

section \<open>Changing one leaf\<close>

lemma leaf_chain_replace:
  "leaf_chain (ls1 @ (p, n) # ls2) \<Longrightarrow> bh_next_page_id (ln_header n') = bh_next_page_id (ln_header n) \<Longrightarrow>
   leaf_chain (ls1 @ (p, n') # ls2)"
proof (induction ls1)
  case Nil
  then show ?case by (cases ls2) simp_all
next
  case (Cons l ls1)
  then show ?case by (cases ls1) simp_all
qed

lemma bt_parents_update:
  assumes "bh_parent_page_id (ln_header n') = bh_parent_page_id (ln_header n)"
  shows "bt_find cmp key t = Some (p, n) \<Longrightarrow> bt_parents par t \<Longrightarrow> bt_parents par (bt_update cmp key n' t)"
    and "bts_find cmp key ks ts = Some (p, n) \<Longrightarrow> \<forall>t\<in>set ts. bt_parents par t \<Longrightarrow>
      \<forall>t\<in>set (bts_update cmp key n' ks ts). bt_parents par t"
  using assms by (induction t and ks ts arbitrary: par and par rule: bt_induct) (auto split: if_splits)

context key_order begin

lemma leaf_changed:
  assumes inv: "btree_inv t tr" and cmp: "bt_cmp t = cmp" and find: "bt_find cmp key tr = Some (p, n)"
    and leaves: "bt_leaves tr = ls1 @ (p, n) # ls2" "bt_leaves (bt_update cmp key n' tr) = ls1 @ (p, n') # ls2"
    and at: "at_leaf b p n g b2" "same_frame (bt_bpm t) b" "bp_view b = bp_view (bt_bpm t)"
    and n': "leaf_ok n'" "sorted_entries (leaf_entries n')" "\<forall>e\<in>set (leaf_entries n'). e \<in> set (leaf_entries n) \<or> fst e = key"
    and h: "ln_header n' = (ln_header n)\<lparr>bh_num_keys := k\<rparr>"
  defines "t' \<equiv> t\<lparr>bt_bpm := bp_unpin p True (put_leaf g n' b2)\<rparr>"
  shows "btree_inv t' (bt_update cmp key n' tr)"
    "bt_entries (bt_update cmp key n' tr) = leaves_entries ls1 @ leaf_entries n' @ leaves_entries ls2"
    "Page_GetPageId (frame_page (put_leaf g n' b2) g) = p"
    "disk_room (bp_disk (bt_bpm t')) = disk_room (bp_disk (bt_bpm t))" "bp_pool_size (bt_bpm t') = bp_pool_size (bt_bpm t)"
    "footprint (set (bt_pids tr)) (bt_bpm t) (set (bt_pids (bt_update cmp key n' tr))) (bt_bpm t')"
proof -
  note I = btree_invD [OF inv, unfolded cmp]
  have ty: "bh_node_type (ln_header n') = kLeafNode" using at(1) h by (simp add: at_leaf_def leaf_node_at_def)
  note W = at_leaf_write [OF at(1) n'(1) ty]
  show "Page_GetPageId (frame_page (put_leaf g n' b2) g) = p" by (rule W(1))
  have sf: "same_frame (bt_bpm t) (bt_bpm t')" using same_frame_trans [OF at(2) W(2)] by (simp add: t'_def)
  then show "disk_room (bp_disk (bt_bpm t')) = disk_room (bp_disk (bt_bpm t))" "bp_pool_size (bt_bpm t') = bp_pool_size (bt_bpm t)"
    by (simp_all add: same_frame_def)
  show "footprint (set (bt_pids tr)) (bt_bpm t) (set (bt_pids (bt_update cmp key n' tr))) (bt_bpm t')"
    unfolding bt_pids_update(1)
  proof (rule footprint_write)
    fix r assume "r \<notin> set (bt_pids tr)"
    then have "r \<noteq> p" using bt_find_pid(1) [OF find] by blast
    then show "bp_view (bt_bpm t') r = bp_view (bt_bpm t) r" using W(4) at(3) by (simp add: t'_def)
  qed (use sf in \<open>simp add: same_frame_def\<close>)
  have "bt_ord cmp None None (bt_update cmp key n' tr)"
    using find n'(3) by (intro bt_ord_update(1) [OF n'(2) I(6)]) simp_all
  moreover have "bt_at (bp_view (bt_bpm t')) (bt_update cmp key n' tr)"
    using W(3,4) at(3) find I(4,5) by (intro bt_at_update(1)) (simp_all add: t'_def)
  moreover have "leaf_chain (bt_leaves (bt_update cmp key n' tr))"
    using leaf_chain_replace [of ls1 p n ls2 n'] I(7) leaves h by simp
  moreover have "bt_parents INVALID_PAGE_ID (bt_update cmp key n' tr)"
    using bt_parents_update(1) [OF _ find I(8)] h by simp
  ultimately show "btree_inv t' (bt_update cmp key n' tr)"
    using I quiet_same_frame [OF I(2) sf] by (simp add: btree_inv_def t'_def bt_pids_update bt_shape_update cmp)
  show "bt_entries (bt_update cmp key n' tr) = leaves_entries ls1 @ leaf_entries n' @ leaves_entries ls2"
    by (simp add: bt_entries_def leaves(2))
qed

lemma delete_correct:
  assumes inv: "btree_inv t tr" and cmp: "bt_cmp t = cmp"
  obtains t' tr' where "BPlusTree_Delete key r t = Some ((key, r) \<in> set (bt_entries tr), t')" "btree_inv t' tr'"
    "bt_entries tr' = remove1 (key, r) (bt_entries tr)" "bt_cmp t' = cmp" "bt_root t' = bt_root t"
    "footprint (set (bt_pids tr)) (bt_bpm t) (set (bt_pids tr')) (bt_bpm t')"
proof -
  obtain p n b g b2 ls1 ls2 where F: "BPlusTree_FindLeafPage key t = Some (Some g, b2)" "at_leaf b p n g b2"
    "quiet b" "same_frame (bt_bpm t) b" "bp_view b = bp_view (bt_bpm t)" "bt_find cmp key tr = Some (p, n)"
    "bt_leaves tr = ls1 @ (p, n) # ls2" "\<forall>e\<in>set (leaves_entries ls1). cmp (fst e) key < 0"
    "\<forall>e\<in>set (leaves_entries ls2). cmp key (fst e) < 0" "sorted_entries (leaf_entries n)" "bt_root t \<noteq> INVALID_PAGE_ID"
    "\<And>n'. bt_leaves (bt_update cmp key n' tr) = ls1 @ (p, n') # ls2"
    by (rule find_leaf [OF inv cmp, where key = key]) (assumption | rule that; assumption)+
  note A = at_leafD [OF F(2)]
  have es: "bt_entries tr = leaves_entries ls1 @ leaf_entries n @ leaves_entries ls2" by (simp add: bt_entries_def F(7))
  have out: "(key, r) \<notin> set (leaves_entries ls1)" "(key, r) \<notin> set (leaves_entries ls2)" using F(8,9) by fastforce+
  show ?thesis
  proof (cases "(key, r) \<in> set (leaf_entries n)")
    case True
    obtain n' where n': "LeafNode_Delete cmp key r n = (True, n')" "leaf_ok n'"
      "leaf_entries n' = remove1 (key, r) (leaf_entries n)"
      "ln_header n' = (ln_header n)\<lparr>bh_num_keys := bh_num_keys (ln_header n) - 1\<rparr>"
      by (rule leaf_delete [OF A(3) F(10) True])
    have "sorted_entries (leaf_entries n')" "\<forall>e\<in>set (leaf_entries n'). e \<in> set (leaf_entries n) \<or> fst e = key"
      using sorted_entries_remove1 [OF F(10)] n'(3) by (auto dest: notin_set_remove1)
    note C = leaf_changed [OF inv cmp F(6,7) F(12) F(2,4,5) n'(2) this n'(4)]
    have "BPlusTree_Delete key r t = Some ((key, r) \<in> set (bt_entries tr), t\<lparr>bt_bpm := bp_unpin p True (put_leaf g n' b2)\<rparr>)"
      using F(1,11) A(1) n'(1) cmp C(3) True es by (simp add: BPlusTree_Delete_def)
    moreover have "bt_entries (bt_update cmp key n' tr) = remove1 (key, r) (bt_entries tr)"
      using C(2) n'(3) out True es by (simp add: remove1_append)
    ultimately show ?thesis using that [OF _ C(1)] C(6) cmp by simp
  next
    case False
    then have "BPlusTree_Delete key r t = Some ((key, r) \<in> set (bt_entries tr), t\<lparr>bt_bpm := bp_unpin p False b2\<rparr>)"
      using F(1,11) A(1,2) leaf_delete_absent [OF A(3) F(10) False] cmp es out by (simp add: BPlusTree_Delete_def)
    moreover have "remove1 (key, r) (bt_entries tr) = bt_entries tr" using False out es by (simp add: remove1_idem)
    moreover have "btree_inv (t\<lparr>bt_bpm := bp_unpin p False b2\<rparr>) tr"
      using same_frame_trans [OF F(4) A(4)] A(5) F(5) by (intro same_view_inv [OF inv]) simp_all
    moreover have "footprint (set (bt_pids tr)) (bt_bpm t) (set (bt_pids tr)) (bp_unpin p False b2)"
      using same_frame_trans [OF F(4) A(4)] A(5) F(5) by (intro footprint_write) (simp_all add: same_frame_def)
    ultimately show ?thesis using that cmp by simp
  qed
qed

lemma entries_insert_between:
  "\<forall>e\<in>set xs. cmp (fst e) key < 0 \<Longrightarrow> \<forall>e\<in>set zs. cmp key (fst e) < 0 \<Longrightarrow>
   entries_insert cmp (key, r) (xs @ ys @ zs) = xs @ entries_insert cmp (key, r) ys @ zs"
proof (induction xs)
  case Nil
  then show ?case
  proof (induction ys)
    case Nil
    then have "\<not> cmp (fst z) key < 0" if "z \<in> set zs" for z using that cmp_swap [of key "fst z"] by auto
    then show ?case by (cases zs) (simp_all add: entries_insert_def)
  qed (auto simp: entries_insert_Cons)
qed (simp add: entries_insert_Cons)

lemma insert_room:
  assumes inv: "btree_inv t tr" and cmp: "bt_cmp t = cmp" and room: "\<And>p n. bt_find cmp key tr = Some (p, n) \<Longrightarrow> \<not> LeafNode_IsFull n"
  obtains t' tr' where "BPlusTree_Insert key r t = Some (Inr True, t')" "btree_inv t' tr'"
    "bt_entries tr' = entries_insert cmp (key, r) (bt_entries tr)" "bt_cmp t' = cmp"
    "disk_room (bp_disk (bt_bpm t')) = disk_room (bp_disk (bt_bpm t))" "bp_pool_size (bt_bpm t') = bp_pool_size (bt_bpm t)"
    "bt_height tr' = bt_height tr" "footprint (set (bt_pids tr)) (bt_bpm t) (set (bt_pids tr')) (bt_bpm t')"
proof -
  obtain p n b g b2 ls1 ls2 where F: "BPlusTree_FindLeafPage key t = Some (Some g, b2)" "at_leaf b p n g b2"
    "quiet b" "same_frame (bt_bpm t) b" "bp_view b = bp_view (bt_bpm t)" "bt_find cmp key tr = Some (p, n)"
    "bt_leaves tr = ls1 @ (p, n) # ls2" "\<forall>e\<in>set (leaves_entries ls1). cmp (fst e) key < 0"
    "\<forall>e\<in>set (leaves_entries ls2). cmp key (fst e) < 0" "sorted_entries (leaf_entries n)" "bt_root t \<noteq> INVALID_PAGE_ID"
    "\<And>n'. bt_leaves (bt_update cmp key n' tr) = ls1 @ (p, n') # ls2"
    by (rule find_leaf [OF inv cmp, where key = key]) (assumption | rule that; assumption)+
  note A = at_leafD [OF F(2)]
  obtain n' where n': "LeafNode_Insert cmp key r n = (True, n')" "leaf_ok n'"
    "leaf_entries n' = entries_insert cmp (key, r) (leaf_entries n)"
    "ln_header n' = (ln_header n)\<lparr>bh_num_keys := bh_num_keys (ln_header n) + 1\<rparr>"
    by (rule leaf_insert [OF A(3) F(10) room [OF F(6)]])
  have "sorted_entries (leaf_entries n')" "\<forall>e\<in>set (leaf_entries n'). e \<in> set (leaf_entries n) \<or> fst e = key"
    using sorted_entries_insert [OF F(10)] n'(3) by (auto simp: set_entries_insert)
  note C = leaf_changed [OF inv cmp F(6,7) F(12) F(2,4,5) n'(2) this n'(4)]
  have "BPlusTree_Insert key r t = Some (Inr True, t\<lparr>bt_bpm := bp_unpin p True (put_leaf g n' b2)\<rparr>)"
    using F(1,11) A(1,2) n'(1) cmp by (simp add: BPlusTree_Insert_def Let_def)
  moreover have "bt_entries (bt_update cmp key n' tr) = entries_insert cmp (key, r) (bt_entries tr)"
    using C(2) n'(3) entries_insert_between [OF F(8,9), of r "leaf_entries n"] by (simp add: bt_entries_def F(7))
  ultimately show ?thesis using that [OF _ C(1)] C(4-6) cmp by (simp add: bt_height_update)
qed

end

end
