(* ===== verification/BTreeSplitPages.thy ===== *)
theory BTreeSplitPages
  imports BTreeOps
begin

text \<open>
  The page changes of a split, for a client that holds several pages: writing a node through a pinned frame,
  redirecting the parent pointer of a child, and the loops that divide a full internal node.
\<close>

section \<open>Writing through a pinned frame\<close>

lemma frame_node:
  assumes at: "pool_at b v P" and t: "bp_table b p = Some f" and p: "index_page (view_page v p) p"
  shows "same_node (view_page v p) (frame_page b f)" "index_page (frame_page b f) p" "Page_GetPageId (frame_page b f) = p"
proof -
  note F = frame_holds [OF at t]
  show "same_node (view_page v p) (frame_page b f)" "index_page (frame_page b f) p"
    by (rule page_in_frame [OF F(1,2) p])+
  then show "Page_GetPageId (frame_page b f) = p" by (simp add: index_page_id)
qed

lemma held_page:
  assumes at: "pool_at b v P" and t: "bp_table b p = Some f" and pin: "0 < P p" and pg: "index_page pg p"
  obtains v' where "pool_at (set_page f pg b) v' P" "\<And>q. q \<noteq> p \<Longrightarrow> v' q = v q" "v' p = Some (page_image pg)"
    "bp_table (set_page f pg b) = bp_table b" "bp_disk (set_page f pg b) = bp_disk b"
    "frames_kept b (set_page f pg b)" "frame_page (set_page f pg b) f = pg"
proof -
  have "page_ser_ok pg" using pg by (simp add: index_page_def)
  note U = put_held [OF at t pin this]
  show ?thesis by (rule that [OF U(1)]) (use U in simp_all)
qed

lemma put_leaf_held:
  assumes at: "pool_at b v P" and t: "bp_table b p = Some f" and pin: "0 < P p" and pg: "index_page (frame_page b f) p"
    and n: "leaf_ok n" "bh_node_type (ln_header n) = kLeafNode"
  obtains v' where "pool_at (put_leaf f n b) v' P" "\<And>q. q \<noteq> p \<Longrightarrow> v' q = v q" "leaf_at v' p n"
    "bp_table (put_leaf f n b) = bp_table b" "bp_disk (put_leaf f n b) = bp_disk b" "frames_kept b (put_leaf f n b)"
proof -
  let ?pg = "LeafNode_SerializeToPage n (frame_page b f)"
  note N = leaf_serialized [OF pg n]
  have "index_page ?pg p" using pg by simp
  from held_page [OF at t pin this] obtain v' where v': "pool_at (set_page f ?pg b) v' P" "\<And>q. q \<noteq> p \<Longrightarrow> v' q = v q"
    "v' p = Some (page_image ?pg)" "bp_table (set_page f ?pg b) = bp_table b" "bp_disk (set_page f ?pg b) = bp_disk b"
    "frames_kept b (set_page f ?pg b)" by blast
  have "leaf_at (v'(p \<mapsto> page_image ?pg)) p n" by (rule leaf_at_image [OF N])
  moreover have "v'(p \<mapsto> page_image ?pg) = v'" using v'(3) by auto
  ultimately show ?thesis using that v' by (simp add: put_leaf_def)
qed

lemma put_internal_held:
  assumes at: "pool_at b v P" and t: "bp_table b p = Some f" and pin: "0 < P p" and pg: "index_page (frame_page b f) p"
    and n: "internal_ok n" "bh_node_type (in_header n) = kInternalNode"
  obtains v' where "pool_at (put_internal f n b) v' P" "\<And>q. q \<noteq> p \<Longrightarrow> v' q = v q" "internal_at v' p n"
    "bp_table (put_internal f n b) = bp_table b" "bp_disk (put_internal f n b) = bp_disk b" "frames_kept b (put_internal f n b)"
proof -
  let ?pg = "InternalNode_SerializeToPage n (frame_page b f)"
  note N = internal_serialized [OF pg n]
  have "index_page ?pg p" using pg by simp
  from held_page [OF at t pin this] obtain v' where v': "pool_at (set_page f ?pg b) v' P" "\<And>q. q \<noteq> p \<Longrightarrow> v' q = v q"
    "v' p = Some (page_image ?pg)" "bp_table (set_page f ?pg b) = bp_table b" "bp_disk (set_page f ?pg b) = bp_disk b"
    "frames_kept b (set_page f ?pg b)" by blast
  have "internal_at (v'(p \<mapsto> page_image ?pg)) p n" by (rule internal_at_image [OF N])
  moreover have "v'(p \<mapsto> page_image ?pg) = v'" using v'(3) by auto
  ultimately show ?thesis using that v' by (simp add: put_internal_def)
qed

section \<open>Parent pointers\<close>

lemma put_parent_header:
  "read_node_header (put32 d 21 x) = (read_node_header d)\<lparr>bh_parent_page_id := x\<rparr>"
  by (simp add: read_node_header_def c32.dec_enc)

lemma parent_leaf:
  assumes "leaf_node_at pg p n"
  shows "leaf_node_at (pg\<lparr>p_data := put32 (p_data pg) 21 x\<rparr>) p (n\<lparr>ln_header := (ln_header n)\<lparr>bh_parent_page_id := x\<rparr>\<rparr>)"
proof -
  let ?h = "read_node_header (p_data pg)"
  have h: "ln_header n = ?h" using assms by (auto simp: leaf_node_at_def LeafNode_DeserializeFromPage_def Let_def)
  have "unat (bh_num_keys ?h) \<le> 406" using assms h by (simp add: leaf_node_at_def leaf_ok_def LeafNode_MAX_KEYS_def)
  then have "read_entries (put32 (p_data pg) 21 x) 31 (unat (bh_num_keys ?h)) = read_entries (p_data pg) 31 (unat (bh_num_keys ?h))"
    by (intro entries.rd_cong) simp_all
  then show ?thesis
    using assms by (auto simp: leaf_node_at_def LeafNode_DeserializeFromPage_def put_parent_header Let_def leaf_ok_def)
qed

lemma parent_internal:
  assumes "internal_node_at pg p n"
  shows "internal_node_at (pg\<lparr>p_data := put32 (p_data pg) 21 x\<rparr>) p (n\<lparr>in_header := (in_header n)\<lparr>bh_parent_page_id := x\<rparr>\<rparr>)"
proof -
  let ?h = "read_node_header (p_data pg)"
  have h: "in_header n = ?h" using assms by (auto simp: internal_node_at_def InternalNode_DeserializeFromPage_def Let_def)
  have k: "unat (bh_num_keys ?h) \<le> 507" using assms h by (simp add: internal_node_at_def internal_ok_def InternalNode_MAX_KEYS_def)
  then have "read_pairs (put32 (p_data pg) 21 x) 31 (unat (bh_num_keys ?h)) = read_pairs (p_data pg) 31 (unat (bh_num_keys ?h))"
    by (intro pairs.rd_cong) simp_all
  then show ?thesis
    using assms k by (auto simp: internal_node_at_def InternalNode_DeserializeFromPage_def put_parent_header Let_def internal_ok_def
        unat_last_child)
qed

fun bt_reparent :: "u32 \<Rightarrow> bt \<Rightarrow> bt" where
  "bt_reparent x (BLeaf p n) = BLeaf p (n\<lparr>ln_header := (ln_header n)\<lparr>bh_parent_page_id := x\<rparr>\<rparr>)"
| "bt_reparent x (BNode p n ts) = BNode p (n\<lparr>in_header := (in_header n)\<lparr>bh_parent_page_id := x\<rparr>\<rparr>) ts"

lemma reparent_same [simp]:
  "bt_id (bt_reparent x t) = bt_id t" "bt_pids (bt_reparent x t) = bt_pids t"
  by (cases t; simp)+

lemma bt_id_in_pids [simp]: "bt_id t \<in> set (bt_pids t)"
  by (cases t) simp_all

lemma bt_at_reparent:
  assumes at: "bt_at v t" and d: "distinct (bt_pids t)" and w: "\<And>q. q \<noteq> bt_id t \<Longrightarrow> w q = v q"
    and img: "w (bt_id t) = Some (page_image (pg\<lparr>p_data := put32 (p_data pg) 21 x\<rparr>))"
    and pg: "same_node (view_page v (bt_id t)) pg"
  shows "bt_at w (bt_reparent x t)"
proof (cases t)
  case (BLeaf p n)
  then have "leaf_node_at pg p n" using same_node_leaf [OF pg] at by (simp add: leaf_at_def)
  from leaf_at_image [OF parent_leaf [OF this]]
  have "leaf_at (w(p \<mapsto> page_image (pg\<lparr>p_data := put32 (p_data pg) 21 x\<rparr>))) p (n\<lparr>ln_header := (ln_header n)\<lparr>bh_parent_page_id := x\<rparr>\<rparr>)" .
  moreover have "w(p \<mapsto> page_image (pg\<lparr>p_data := put32 (p_data pg) 21 x\<rparr>)) = w" using img BLeaf by auto
  ultimately show ?thesis using BLeaf by simp
next
  case (BNode p n ts)
  then have "internal_node_at pg p n" using same_node_internal [OF pg] at by (simp add: internal_at_def)
  from internal_at_image [OF parent_internal [OF this]]
  have "internal_at (w(p \<mapsto> page_image (pg\<lparr>p_data := put32 (p_data pg) 21 x\<rparr>))) p (n\<lparr>in_header := (in_header n)\<lparr>bh_parent_page_id := x\<rparr>\<rparr>)" .
  moreover have "w(p \<mapsto> page_image (pg\<lparr>p_data := put32 (p_data pg) 21 x\<rparr>)) = w" using img BNode by auto
  moreover have "bt_at w s" if s: "s \<in> set ts" for s
  proof (rule bt_at_other)
    show "bt_at v s" using at BNode s by simp
    show "w q = v q" if "q \<in> set (bt_pids s)" for q using that s d w BNode by (cases "q = p") auto
  qed
  ultimately show ?thesis using BNode at by simp
qed

lemma update_parent_held:
  assumes at: "pool_at b v P" and t: "bt_at v t" "distinct (bt_pids t)" and pin: "P (bt_id t) < 4294967295"
    and fr: "0 < P (bt_id t) \<or> free_frames b 1"
  obtains v' where "pool_at (update_parent x (bt_id t) b) v' P" "\<And>q. q \<noteq> bt_id t \<Longrightarrow> v' q = v q" "bt_at v' (bt_reparent x t)"
    "frames_kept b (update_parent x (bt_id t) b)" "disk_room (bp_disk (update_parent x (bt_id t) b)) = disk_room (bp_disk b)"
proof -
  let ?p = "bt_id t"
  have p: "v ?p \<noteq> None" "index_page (view_page v ?p) ?p" using bt_at_node [OF t(1)] by auto
  obtain f b1 where f: "BufferPoolManager_FetchPage ?p b = (Some f, b1)" "pool_at b1 v (P(?p := Suc (P ?p)))"
    "bp_table b1 ?p = Some f" "frames_kept b b1" "disk_room (bp_disk b1) = disk_room (bp_disk b)"
    by (rule fetch_held [OF at p(1) pin fr])
  note N = frame_node [OF f(2,3) p(2)]
  let ?pg = "(frame_page b1 f)\<lparr>p_data := put32 (p_data (frame_page b1 f)) 21 x\<rparr>"
  have "index_page ?pg ?p" using N(2) by simp
  from held_page [OF f(2,3) _ this] obtain v' where v': "pool_at (set_page f ?pg b1) v' (P(?p := Suc (P ?p)))"
    "\<And>q. q \<noteq> ?p \<Longrightarrow> v' q = v q" "v' ?p = Some (page_image ?pg)" "bp_table (set_page f ?pg b1) = bp_table b1"
    "bp_disk (set_page f ?pg b1) = bp_disk b1" "frames_kept b1 (set_page f ?pg b1)" by auto
  let ?b3 = "bp_unpin ?p True (set_page f ?pg b1)"
  note U = unpin_held [OF v'(1) refl, of ?p]
  have e: "update_parent x ?p b = ?b3" using f(1) by (simp add: update_parent_def put_parent_def)
  have "bp_table ?b3 = bp_table b1" "bp_pool_size ?b3 = bp_pool_size b" "bp_disk ?b3 = bp_disk b1"
    using U(2,4) v'(4,5) pool_size_kept [OF U(3)] pool_size_kept [OF v'(6)] pool_size_kept [OF f(4)] by simp_all
  then have k: "frames_kept b ?b3" "disk_room (bp_disk ?b3) = disk_room (bp_disk b)"
    using f(4,5) by (simp_all add: frames_kept_def)
  have "pool_at ?b3 v' P" using U(1) by simp
  then show ?thesis using that e k v'(2) bt_at_reparent [OF t v'(2,3) N(1)] by simp
qed

lemma fold_nth: "fold (\<lambda>i. g (xs ! i)) [0..<length xs] = fold g xs"
  using fold_map [of g "\<lambda>i. xs ! i" "[0..<length xs]"] by (simp add: map_nth comp_def)

lemma update_parents_held:
  assumes "pool_at b v P" "\<And>t. t \<in> set ts \<Longrightarrow> bt_at v t" "distinct (concat (map bt_pids ts))" "\<And>q. P q < 4294967295" "free_frames b 1"
  shows "\<exists>v'. pool_at (fold (update_parent x) (map bt_id ts) b) v' P \<and> (\<forall>q. q \<notin> bt_id ` set ts \<longrightarrow> v' q = v q) \<and>
    (\<forall>t\<in>set ts. bt_at v' (bt_reparent x t)) \<and> frames_kept b (fold (update_parent x) (map bt_id ts) b) \<and>
    disk_room (bp_disk (fold (update_parent x) (map bt_id ts) b)) = disk_room (bp_disk b)"
  using assms
proof (induction ts arbitrary: b v)
  case (Cons t ts)
  have t: "bt_at v t" "distinct (bt_pids t)" "\<And>s. s \<in> set ts \<Longrightarrow> set (bt_pids t) \<inter> set (bt_pids s) = {}"
    using Cons.prems(2,3) by auto
  let ?b = "update_parent x (bt_id t) b"
  obtain w where w: "pool_at ?b w P" "\<And>q. q \<noteq> bt_id t \<Longrightarrow> w q = v q" "bt_at w (bt_reparent x t)" "frames_kept b ?b"
    "disk_room (bp_disk ?b) = disk_room (bp_disk b)"
    by (rule update_parent_held [OF Cons.prems(1) t(1,2), of x]) (use Cons.prems(4,5) in auto)
  have "bt_at w s" if s: "s \<in> set ts" for s
  proof (rule bt_at_other)
    show "bt_at v s" using Cons.prems(2) s by simp
    show "w q = v q" if "q \<in> set (bt_pids s)" for q using that t(3) [OF s] bt_id_in_pids [of t] w(2) by (cases "q = bt_id t") (auto simp: disjoint_iff)
  qed
  moreover have "free_frames ?b 1"
    using free_frames_pins [OF Cons.prems(1) w(1) pool_size_kept [OF w(4)]] Cons.prems(5) by simp
  ultimately obtain v' where v': "pool_at (fold (update_parent x) (map bt_id ts) ?b) v' P"
    "\<forall>q. q \<notin> bt_id ` set ts \<longrightarrow> v' q = w q" "\<forall>t\<in>set ts. bt_at v' (bt_reparent x t)"
    "frames_kept ?b (fold (update_parent x) (map bt_id ts) ?b)"
    "disk_room (bp_disk (fold (update_parent x) (map bt_id ts) ?b)) = disk_room (bp_disk ?b)"
    using Cons.IH [OF w(1)] Cons.prems(3,4) by auto
  have "bt_at v' (bt_reparent x t)"
  proof (rule bt_at_other [OF w(3)])
    fix q assume "q \<in> set (bt_pids (bt_reparent x t))"
    then have "q \<notin> bt_id ` set ts" using t(3) bt_id_in_pids by fastforce
    then show "v' q = w q" using v'(2) by blast
  qed
  moreover have "frames_kept b (fold (update_parent x) (map bt_id ts) ?b)"
    using frames_kept_trans [OF w(4) v'(4)] Cons.prems(1) w(1) by (simp add: pool_at_def)
  ultimately show ?case using v' w(2,5) by (intro exI [of _ v']) simp
qed (simp, blast)

section \<open>Dividing a full internal node\<close>

lemma vec_set_fold:
  "fold (\<lambda>i xs. vec_set xs (i - a) z (ys ! i)) [a..<a + k] xs = map (\<lambda>i. ys ! i) [a..<a + k] @ drop k xs"
proof (induction k)
  case (Suc k)
  let ?m = "map (\<lambda>i. ys ! i) [a..<a + k]"
  have "vec_set (?m @ drop k xs) k z y = (?m @ [y]) @ drop (Suc k) xs" for y
  proof (cases "k < length xs")
    case True
    then have "drop k xs = xs ! k # drop (Suc k) xs" by (simp add: Cons_nth_drop_Suc)
    then show ?thesis by (simp add: vec_set_def list_update_append)
  next
    case False
    then show ?thesis by (simp add: vec_set_def list_update_append)
  qed
  then show ?case using Suc by simp
qed simp

lemma set_keys_fold:
  "fold (\<lambda>i. InternalNode_SetKeyAt (w i) (ks ! i)) is n =
   n\<lparr>in_keys := fold (\<lambda>i xs. vec_set xs (unat (w i)) 0 (ks ! i)) is (in_keys n)\<rparr>"
  by (induction "is" arbitrary: n) (simp_all add: InternalNode_SetKeyAt_def)

lemma set_children_fold:
  "fold (\<lambda>i. InternalNode_SetChildAt (w i) (cs ! i)) is n =
   n\<lparr>in_children := fold (\<lambda>i xs. vec_set xs (unat (w i)) INVALID_PAGE_ID (cs ! i)) is (in_children n)\<rparr>"
  by (induction "is" arbitrary: n) (simp_all add: InternalNode_SetChildAt_def)

lemma vec_set_fold_word:
  assumes "\<And>i. a \<le> i \<Longrightarrow> i < length ys \<Longrightarrow> unat (w i) = i - a" "b \<le> length ys" "a \<le> b"
  shows "fold (\<lambda>i xs. vec_set xs (unat (w i)) z (ys ! i)) [a..<b] xs = drop a (take b ys) @ drop (b - a) xs"
proof -
  have "fold (\<lambda>i xs. vec_set xs (unat (w i)) z (ys ! i)) [a..<b] xs = fold (\<lambda>i xs. vec_set xs (i - a) z (ys ! i)) [a..<b] xs"
    using assms(1,2) by (intro fold_cong) (auto simp: fun_eq_iff)
  also have "\<dots> = map (\<lambda>i. ys ! i) [a..<b] @ drop (b - a) xs"
    using vec_set_fold [of a z ys "b - a" xs] assms(3) by simp
  also have "map (\<lambda>i. ys ! i) [a..<b] = drop a (take b ys)"
    using assms(2,3) by (intro nth_equalityI) simp_all
  finally show ?thesis .
qed

lemma split_right_eq:
  assumes "length keys < 65536" "length children < 65536" "unat mid < length keys" "unat mid < length children"
    "in_keys n = []" "length (in_children n) \<le> 1" "Suc (unat mid) < length children"
  shows "split_right mid keys children n = n\<lparr>in_keys := drop (Suc (unat mid)) keys, in_children := drop (Suc (unat mid)) children\<rparr>"
proof -
  have w: "unat (of_nat i - mid - 1 :: u16) = i - Suc (unat mid)" if "Suc (unat mid) \<le> i" "i < 65536" for i
  proof -
    have i: "unat (of_nat i :: u16) = i" using that(2) by (rule unat16_of_nat)
    then have "unat (of_nat i - mid :: u16) = i - unat mid" using that(1) by (simp add: unat_sub_le)
    then show ?thesis using that(1) unat_sub_le [of 1 "of_nat i - mid :: u16"] by simp
  qed
  have k: "fold (\<lambda>i xs. vec_set xs (unat (of_nat i - mid - 1 :: u16)) 0 (keys ! i)) [unat mid + 1..<length keys] [] =
      drop (Suc (unat mid)) keys"
    using assms vec_set_fold_word [of "unat mid + 1" keys "\<lambda>i. of_nat i - mid - 1" "length keys" 0 "[]"] w by simp
  have c: "fold (\<lambda>i xs. vec_set xs (unat (of_nat i - mid - 1 :: u16)) INVALID_PAGE_ID (children ! i)) [unat mid + 1..<length children]
      (in_children n) = drop (Suc (unat mid)) children"
    using assms vec_set_fold_word [of "unat mid + 1" children "\<lambda>i. of_nat i - mid - 1" "length children" INVALID_PAGE_ID "in_children n"] w
    by simp
  show ?thesis
    unfolding split_right_def set_keys_fold set_children_fold using k c assms(5) by simp
qed

lemma split_left_eq:
  assumes "length keys < 65536" "length children < 65536" "unat mid < length keys" "Suc (unat mid) \<le> length children"
  shows "split_left mid keys children n =
    n\<lparr>in_keys := take (unat mid) keys @ drop (unat mid) (in_keys n),
      in_children := take (Suc (unat mid)) children @ drop (Suc (unat mid)) (in_children n)\<rparr>"
proof -
  have w: "unat (of_nat i :: u16) = i - 0" if "i < 65536" for i using unat16_of_nat [OF that] by simp
  have k: "fold (\<lambda>i xs. vec_set xs (unat (of_nat i :: u16)) 0 (keys ! i)) [0..<unat mid] (in_keys n) =
      take (unat mid) keys @ drop (unat mid) (in_keys n)"
    using assms vec_set_fold_word [of 0 keys "of_nat :: nat \<Rightarrow> u16" "unat mid" 0 "in_keys n"] w by simp
  have c: "fold (\<lambda>i xs. vec_set xs (unat (of_nat i :: u16)) INVALID_PAGE_ID (children ! i)) [0..<unat mid + 1] (in_children n) =
      take (Suc (unat mid)) children @ drop (Suc (unat mid)) (in_children n)"
    using assms vec_set_fold_word [of 0 children "of_nat :: nat \<Rightarrow> u16" "unat mid + 1" INVALID_PAGE_ID "in_children n"] w by simp
  show ?thesis
    unfolding split_left_def set_keys_fold set_children_fold using k c by simp
qed

text \<open>Only the first keys and children of longer vectors are written.\<close>

lemma internal_trim:
  assumes "length ks = unat (bh_num_keys h)" "length cs = Suc (unat (bh_num_keys h))"
  shows "InternalNode_SerializeToPage \<lparr>in_header = h, in_children = cs @ cs', in_keys = ks @ ks'\<rparr> pg =
    InternalNode_SerializeToPage \<lparr>in_header = h, in_children = cs, in_keys = ks\<rparr> pg"
  using assms by (simp add: InternalNode_SerializeToPage_def Let_def nth_append)

end
