(* ===== verification/BTreeContext.thy ===== *)
theory BTreeContext
  imports BTreeSplitPages
begin

text \<open>
  The way from a node up to the root, as a list of internal nodes with the siblings on both sides. A split replaces one
  child by two and a separator; if the node has no room it is divided in turn and the change moves one node up.
\<close>

section \<open>Contexts\<close>

type_synonym bt_context = "(u32 \<times> internal_node \<times> bt list \<times> bt list) list"

fun bt_plug :: "bt_context \<Rightarrow> bt \<Rightarrow> bt" where
  "bt_plug [] t = t"
| "bt_plug ((q, n, ls, rs) # c) t = bt_plug c (BNode q n (ls @ t # rs))"

fun ctx_at :: "view \<Rightarrow> bt_context \<Rightarrow> u32 \<Rightarrow> bool" where
  "ctx_at v [] p \<longleftrightarrow> True"
| "ctx_at v ((q, n, ls, rs) # c) p \<longleftrightarrow>
     internal_at v q n \<and> map bt_id ls @ p # map bt_id rs = in_children n \<and> (\<forall>t\<in>set ls \<union> set rs. bt_at v t) \<and> ctx_at v c q"

fun ctx_par :: "bt_context \<Rightarrow> u32" where
  "ctx_par [] = INVALID_PAGE_ID"
| "ctx_par ((q, n, ls, rs) # c) = q"

fun ctx_parents :: "bt_context \<Rightarrow> bool" where
  "ctx_parents [] \<longleftrightarrow> True"
| "ctx_parents ((q, n, ls, rs) # c) \<longleftrightarrow>
     bh_parent_page_id (in_header n) = ctx_par c \<and> (\<forall>t\<in>set ls \<union> set rs. bt_parents q t) \<and> ctx_parents c"

fun ctx_pids :: "bt_context \<Rightarrow> u32 list" where
  "ctx_pids [] = []"
| "ctx_pids ((q, n, ls, rs) # c) = q # concat (map bt_pids ls) @ concat (map bt_pids rs) @ ctx_pids c"

fun ctx_left :: "bt_context \<Rightarrow> (u32 \<times> leaf_node) list" where
  "ctx_left [] = []"
| "ctx_left ((q, n, ls, rs) # c) = ctx_left c @ concat (map bt_leaves ls)"

fun ctx_right :: "bt_context \<Rightarrow> (u32 \<times> leaf_node) list" where
  "ctx_right [] = []"
| "ctx_right ((q, n, ls, rs) # c) = concat (map bt_leaves rs) @ ctx_right c"

text \<open>The bounds a node gives to the child between the siblings \<open>ls\<close> and \<open>rs\<close>.\<close>

fun hole_ord :: "(u32 \<Rightarrow> u32 \<Rightarrow> int) \<Rightarrow> u32 option \<Rightarrow> u32 option \<Rightarrow> u32 list \<Rightarrow> bt list \<Rightarrow> bt list \<Rightarrow>
    u32 option \<Rightarrow> u32 option \<Rightarrow> bool" where
  "hole_ord cmp lo' hi' [] [] rs lo hi \<longleftrightarrow> rs = [] \<and> lo = lo' \<and> hi = hi'"
| "hole_ord cmp lo' hi' (k # ks) [] rs lo hi \<longleftrightarrow>
     lo = lo' \<and> hi = Some k \<and> key_after cmp lo' k \<and> key_below cmp k hi' \<and> bts_ord cmp (Some k) hi' ks rs"
| "hole_ord cmp lo' hi' [] (l # ls) rs lo hi \<longleftrightarrow> False"
| "hole_ord cmp lo' hi' (k # ks) (l # ls) rs lo hi \<longleftrightarrow>
     key_after cmp lo' k \<and> key_below cmp k hi' \<and> bt_ord cmp lo' (Some k) l \<and> hole_ord cmp (Some k) hi' ks ls rs lo hi"

fun ctx_ord :: "(u32 \<Rightarrow> u32 \<Rightarrow> int) \<Rightarrow> u32 option \<Rightarrow> u32 option \<Rightarrow> u32 option \<Rightarrow> u32 option \<Rightarrow> bt_context \<Rightarrow> bool" where
  "ctx_ord cmp L H lo hi [] \<longleftrightarrow> lo = L \<and> hi = H"
| "ctx_ord cmp L H lo hi ((q, n, ls, rs) # c) \<longleftrightarrow>
     (\<exists>lo' hi'. hole_ord cmp lo' hi' (in_keys n) ls rs lo hi \<and> ctx_ord cmp L H lo' hi' c)"

text \<open>The siblings are as deep as the child, at height \<open>h\<close>.\<close>

fun ctx_full :: "nat \<Rightarrow> bt_context \<Rightarrow> bool" where
  "ctx_full h [] \<longleftrightarrow> True"
| "ctx_full h ((q, n, ls, rs) # c) \<longleftrightarrow>
     (\<forall>t\<in>set ls \<union> set rs. bt_full h t) \<and> (if c = [] then 2 else 254) \<le> Suc (length ls + length rs) \<and> ctx_full (Suc h) c"

lemma shape_plug: "c \<noteq> [] \<Longrightarrow> bt_shape (bt_plug c t) \<longleftrightarrow> (\<exists>h. bt_full h t \<and> ctx_full h c)"
proof (induction c t rule: bt_plug.induct)
  case (2 q n ls rs c t)
  show ?case
  proof (cases "c = []")
    case False
    have "bt_full h (BNode q n (ls @ t # rs)) \<and> ctx_full h c \<longleftrightarrow> (\<exists>k. h = Suc k \<and> bt_full k t \<and> ctx_full k ((q, n, ls, rs) # c))" for h
      using False by (cases h) auto
    then show ?thesis using 2 False by auto
  qed auto
qed simp

lemma shape_plug_leaf: "bt_shape (bt_plug c (BLeaf p n)) \<Longrightarrow> ctx_full 0 c"
  using shape_plug [of c "BLeaf p n"] by (cases "c = []") auto

lemma plug_append [simp]: "bt_plug (c @ c') t = bt_plug c' (bt_plug c t)"
  by (induction c t rule: bt_plug.induct) auto

lemma bt_at_plug: "bt_at v (bt_plug c t) \<longleftrightarrow> bt_at v t \<and> ctx_at v c (bt_id t)"
  by (induction c t rule: bt_plug.induct) auto

lemma bt_parents_plug: "bt_parents INVALID_PAGE_ID (bt_plug c t) \<longleftrightarrow> bt_parents (ctx_par c) t \<and> ctx_parents c"
  by (induction c t rule: bt_plug.induct) auto

lemma bt_leaves_plug: "bt_leaves (bt_plug c t) = ctx_left c @ bt_leaves t @ ctx_right c"
  by (induction c t rule: bt_plug.induct) auto

lemma bt_pids_plug: "mset (bt_pids (bt_plug c t)) = mset (bt_pids t) + mset (ctx_pids c)"
  by (induction c t rule: bt_plug.induct) (auto simp: mset_concat)

lemma set_bt_pids_plug: "set (bt_pids (bt_plug c t)) = set (bt_pids t) \<union> set (ctx_pids c)"
  using arg_cong [OF bt_pids_plug, of set_mset c t] by simp

lemma distinct_plug: "distinct (bt_pids (bt_plug c t)) \<longleftrightarrow> distinct (bt_pids t @ ctx_pids c)"
  using bt_pids_plug [of c t] mset_eq_imp_distinct_iff by (metis mset_append)

lemma bt_id_plug: "c \<noteq> [] \<Longrightarrow> bt_id (bt_plug c t) = bt_id (bt_plug c t')"
proof (induction c arbitrary: t t')
  case (Cons x c)
  then show ?case by (cases x; cases "c = []") (simp, metis bt_plug.simps(2))
qed simp

lemma ctx_at_other: "ctx_at v c p \<Longrightarrow> (\<And>q. q \<in> set (ctx_pids c) \<Longrightarrow> w q = v q) \<Longrightarrow> ctx_at w c p"
proof (induction v c p rule: ctx_at.induct)
  case (2 v q n ls rs c p)
  have "internal_at w q n" using internal_at_cong [of w q v n] 2(2,3) by simp
  moreover have "bt_at w t" if "t \<in> set ls \<union> set rs" for t
    using that 2(2,3) by (intro bt_at_other [of v t w]) auto
  moreover have "ctx_at w c q" using 2 by simp
  ultimately show ?case using 2(2) by simp
qed simp

lemma bt_at_dom: "bt_at v t \<Longrightarrow> q \<in> set (bt_pids t) \<Longrightarrow> v q \<noteq> None"
  by (induction t) (auto simp: leaf_at_def internal_at_def)

lemma ctx_at_dom: "ctx_at v c p \<Longrightarrow> q \<in> set (ctx_pids c) \<Longrightarrow> v q \<noteq> None"
  by (induction v c p rule: ctx_at.induct) (auto simp: internal_at_def dest: bt_at_dom)

section \<open>Search order\<close>

lemma bts_ord_fill:
  "bts_ord cmp lo' hi' ks (ls @ t # rs) \<longleftrightarrow> (\<exists>lo hi. hole_ord cmp lo' hi' ks ls rs lo hi \<and> bt_ord cmp lo hi t)"
proof (induction ls arbitrary: lo' ks)
  case Nil
  then show ?case by (cases ks) auto
next
  case (Cons l ls)
  then show ?case by (cases ks) auto
qed

lemma bt_ord_plug: "ctx_ord cmp L H lo hi c \<Longrightarrow> bt_ord cmp lo hi t \<Longrightarrow> bt_ord cmp L H (bt_plug c t)"
proof (induction c t arbitrary: lo hi rule: bt_plug.induct)
  case (2 q n ls rs c t)
  then obtain lo' hi' where h: "hole_ord cmp lo' hi' (in_keys n) ls rs lo hi" "ctx_ord cmp L H lo' hi' c" by auto
  then have "bt_ord cmp lo' hi' (BNode q n (ls @ t # rs))" using 2(3) bts_ord_fill by auto
  then show ?case using 2(1) h(2) by simp
qed simp

lemma ctx_ord_append: "ctx_ord cmp L H L' H' c' \<Longrightarrow> ctx_ord cmp L' H' lo hi c \<Longrightarrow> ctx_ord cmp L H lo hi (c @ c')"
proof (induction c arbitrary: lo hi)
  case (Cons x c)
  then show ?case by (cases x) auto
qed simp

lemma hole_ord_length: "hole_ord cmp lo' hi' ks ls rs lo hi \<Longrightarrow> length ks = length ls + length rs"
proof (induction ls arbitrary: lo' ks)
  case Nil
  then show ?case using bts_ord_length by (cases ks) fastforce+
next
  case (Cons l ls)
  then show ?case by (cases ks) auto
qed

context key_order begin

lemma key_after_trans: "key_after cmp lo k \<Longrightarrow> cmp k k' < 0 \<Longrightarrow> key_after cmp lo k'"
  by (cases lo) (auto intro: cmp_trans)

lemma bts_ord_divide:
  "bts_ord cmp lo hi (ks @ k # ks') (ts @ ts') \<Longrightarrow> length ts = Suc (length ks) \<Longrightarrow>
   bts_ord cmp lo (Some k) ks ts \<and> bts_ord cmp (Some k) hi ks' ts' \<and> key_after cmp lo k \<and> key_below cmp k hi"
proof (induction ks arbitrary: lo ts)
  case Nil
  then obtain t where "ts = [t]" by (cases ts) auto
  then show ?case using Nil by simp
next
  case (Cons k' ks)
  then obtain t us where ts: "ts = t # us" by (cases ts) auto
  then have "bts_ord cmp (Some k') (Some k) ks us" "bts_ord cmp (Some k) hi ks' ts'" "cmp k' k < 0" "key_below cmp k hi"
    using Cons.IH [of "Some k'" us] Cons.prems by auto
  then show ?case using ts Cons.prems key_after_trans [of lo k' k] by simp
qed

lemma hole_above: "hole_ord cmp lo' hi' ks ls rs lo hi \<Longrightarrow> key_above cmp lo k \<Longrightarrow> key_above cmp lo' k"
proof (induction ls arbitrary: lo' ks)
  case Nil
  then show ?case by (cases ks) auto
next
  case (Cons l ls)
  then obtain k' ks' where ks: "ks = k' # ks'" by (cases ks) auto
  then have "cmp k' k \<le> 0" "key_above cmp lo' k'" using Cons.IH [of "Some k'" ks'] Cons.prems key_after_above by auto
  then show ?case using key_above_trans by blast
qed

lemma hole_position:
  "hole_ord cmp lo' hi' ks ls rs lo hi \<Longrightarrow> key_above cmp lo k \<Longrightarrow> key_below cmp k hi \<Longrightarrow>
   length (takeWhile (\<lambda>k'. cmp k' k \<le> 0) ks) = length ls"
proof (induction ls arbitrary: lo' ks)
  case Nil
  then show ?case using cmp_swap by (cases ks) fastforce+
next
  case (Cons l ls)
  then obtain k' ks' where ks: "ks = k' # ks'" by (cases ks) auto
  then have "cmp k' k \<le> 0" using hole_above [of "Some k'" hi' ks' ls rs lo hi k] Cons.prems by simp
  then show ?case using Cons ks by auto
qed

lemma hole_split:
  "hole_ord cmp lo' hi' ks ls rs lo hi \<Longrightarrow> key_after cmp lo k \<Longrightarrow> key_below cmp k hi \<Longrightarrow>
   bt_ord cmp lo (Some k) t1 \<Longrightarrow> bt_ord cmp (Some k) hi t2 \<Longrightarrow>
   bts_ord cmp lo' hi' (insert_at (length ls) k ks) (ls @ t1 # t2 # rs)"
proof (induction ls arbitrary: lo' ks)
  case Nil
  show ?case
  proof (cases ks)
    case (Cons k' ks')
    then have "key_below cmp k hi'" using Nil.prems key_below_trans [of k k' hi'] by simp
    then show ?thesis using Nil.prems Cons by (simp add: insert_at_def)
  qed (use Nil.prems in \<open>simp add: insert_at_def\<close>)
next
  case (Cons l ls)
  then show ?case by (cases ks) (auto simp: insert_at_def)
qed

lemma bt_find_context:
  "bt_ord cmp L H t \<Longrightarrow> key_above cmp L key \<Longrightarrow> key_below cmp key H \<Longrightarrow>
   \<exists>c p n lo hi. bt_find cmp key t = Some (p, n) \<and> t = bt_plug c (BLeaf p n) \<and> ctx_ord cmp L H lo hi c \<and>
     key_above cmp lo key \<and> key_below cmp key hi \<and> bt_ord cmp lo hi (BLeaf p n)"
  "bts_ord cmp L H ks ts \<Longrightarrow> key_above cmp L key \<Longrightarrow> key_below cmp key H \<Longrightarrow>
   \<exists>ls s rs c p n lo' hi' lo hi. bts_find cmp key ks ts = Some (p, n) \<and> ts = ls @ s # rs \<and> s = bt_plug c (BLeaf p n) \<and>
     hole_ord cmp L H ks ls rs lo' hi' \<and> ctx_ord cmp lo' hi' lo hi c \<and>
     key_above cmp lo key \<and> key_below cmp key hi \<and> bt_ord cmp lo hi (BLeaf p n)"
proof (induction t and ks ts arbitrary: L H and L H rule: bt_induct)
  case (leaf p n)
  then show ?case by (intro exI [of _ "[]"]) auto
next
  case (node p n ts)
  have "bts_ord cmp L H (in_keys n) ts" using node.prems(1) by simp
  from node.IH [OF this node.prems(2,3)]
  obtain ls s rs c q m lo' hi' lo hi where I: "bts_find cmp key (in_keys n) ts = Some (q, m)" "ts = ls @ s # rs"
    "s = bt_plug c (BLeaf q m)" "hole_ord cmp L H (in_keys n) ls rs lo' hi'" "ctx_ord cmp lo' hi' lo hi c"
    "key_above cmp lo key" "key_below cmp key hi" "bt_ord cmp lo hi (BLeaf q m)"
    by blast
  have "ctx_ord cmp L H lo hi (c @ [(p, n, ls, rs)])" using I(4,5) by (intro ctx_ord_append) auto
  moreover have "BNode p n ts = bt_plug (c @ [(p, n, ls, rs)]) (BLeaf q m)" using I(2,3) by simp
  ultimately show ?case using I(1,6-8) by (metis bt_find.simps(2))
next
  case (last t ts)
  then have "bt_ord cmp L H t" by simp
  from last.IH [OF this last.prems(2,3)]
  obtain c p n lo hi where "bt_find cmp key t = Some (p, n)" "t = bt_plug c (BLeaf p n)" "ctx_ord cmp L H lo hi c"
    "key_above cmp lo key" "key_below cmp key hi" "bt_ord cmp lo hi (BLeaf p n)"
    by blast
  then show ?case using last.prems(1)
    by (intro exI [of _ "[]"] exI [of _ t] exI [of _ "[]"] exI [of _ c] exI [of _ p] exI [of _ n] exI [of _ L] exI [of _ H]
        exI [of _ lo] exI [of _ hi]) simp
next
  case (step k ks t ts)
  show ?case
  proof (cases "cmp k key \<le> 0")
    case True
    then have "bts_ord cmp (Some k) H ks ts" "key_above cmp (Some k) key" using step.prems(1) by simp_all
    from step.IH(2) [OF this step.prems(3)]
    obtain ls s rs c p n lo' hi' lo hi where I: "bts_find cmp key ks ts = Some (p, n)" "ts = ls @ s # rs"
      "s = bt_plug c (BLeaf p n)" "hole_ord cmp (Some k) H ks ls rs lo' hi'" "ctx_ord cmp lo' hi' lo hi c"
      "key_above cmp lo key" "key_below cmp key hi" "bt_ord cmp lo hi (BLeaf p n)"
      by blast
    show ?thesis using I True step.prems(1)
      by (intro exI [of _ "t # ls"] exI [of _ s] exI [of _ rs] exI [of _ c] exI [of _ p] exI [of _ n] exI [of _ lo']
          exI [of _ hi'] exI [of _ lo] exI [of _ hi]) simp
  next
    case False
    then have "cmp key k < 0" using cmp_swap by auto
    then have "bt_ord cmp L (Some k) t" "key_below cmp key (Some k)" using step.prems(1) by simp_all
    from step.IH(1) [OF this(1) step.prems(2) this(2)]
    obtain c p n lo hi where I: "bt_find cmp key t = Some (p, n)" "t = bt_plug c (BLeaf p n)" "ctx_ord cmp L (Some k) lo hi c"
      "key_above cmp lo key" "key_below cmp key hi" "bt_ord cmp lo hi (BLeaf p n)"
      by blast
    show ?thesis using I False step.prems(1)
      by (intro exI [of _ "[]"] exI [of _ t] exI [of _ ts] exI [of _ c] exI [of _ p] exI [of _ n] exI [of _ L]
          exI [of _ "Some k"] exI [of _ lo] exI [of _ hi]) simp
  qed
qed simp

end

end
