(* ===== verification/BTreeInsert.thy ===== *)
theory BTreeInsert
  imports BTreeContext
begin

text \<open>
  Insertion with splits: after \<open>InsertIntoParent\<close> the pages hold a search tree again, in which the divided node is
  replaced by its halves, with parent pointers and the leaf chain intact and every pin given back.
\<close>

section \<open>What parent pointers do not change\<close>

definition leaf_sig :: "u32 \<times> leaf_node \<Rightarrow> u32 \<times> u32 \<times> entry list" where
  "leaf_sig l = (fst l, bh_next_page_id (ln_header (snd l)), leaf_entries (snd l))"

lemma leaf_chain_sig: "map leaf_sig ls = map leaf_sig ls' \<Longrightarrow> leaf_chain ls = leaf_chain ls'"
proof (induction ls arbitrary: ls' rule: leaf_chain.induct)
  case 1
  then show ?case by simp
next
  case (2 l)
  then show ?case by (auto simp: leaf_sig_def)
next
  case (3 l m ls)
  then obtain l' m' ms where ls: "ls' = l' # m' # ms" by auto
  then have "leaf_chain (m # ls) = leaf_chain (m' # ms)" using 3 by simp
  then show ?case using 3(2) ls by (simp add: leaf_sig_def)
qed

lemma leaves_entries_sig: "map leaf_sig ls = map leaf_sig ls' \<Longrightarrow> leaves_entries ls = leaves_entries ls'"
proof (induction ls arbitrary: ls')
  case (Cons l ls)
  then obtain l' ms where "ls' = l' # ms" by auto
  then show ?case using Cons by (auto simp: leaf_sig_def)
qed simp

lemma reparent_sig: "map leaf_sig (bt_leaves (bt_reparent x t)) = map leaf_sig (bt_leaves t)"
  by (cases t) (simp_all add: leaf_sig_def leaf_entries_def)

lemma reparents_sig: "map leaf_sig (concat (map (\<lambda>t. bt_leaves (bt_reparent x t)) ts)) = map leaf_sig (concat (map bt_leaves ts))"
  by (induction ts) (simp_all add: reparent_sig)

lemma reparent_ord [simp]: "bt_ord cmp lo hi (bt_reparent x t) = bt_ord cmp lo hi t"
  by (cases t) (simp_all add: leaf_entries_def)

lemma reparents_ord: "bts_ord cmp lo hi ks (map (bt_reparent x) ts) = bts_ord cmp lo hi ks ts"
proof (induction ks arbitrary: lo ts)
  case Nil
  then show ?case by (cases ts) auto
next
  case (Cons k ks)
  then show ?case by (cases ts) auto
qed

lemma reparent_parents: "bt_parents par t \<Longrightarrow> bt_parents x (bt_reparent x t)"
  by (cases t) simp_all

lemma parent_field:
  assumes "bt_at v t" "bt_parents par t" "same_node (view_page v (bt_id t)) pg"
  shows "get32 (p_data pg) 21 = par"
proof (cases t)
  case (BLeaf p n)
  then have "leaf_node_at pg p n" using same_node_leaf [OF assms(3)] assms(1) by (simp add: leaf_at_def)
  then have "ln_header n = read_node_header (p_data pg)"
    by (auto simp: leaf_node_at_def LeafNode_DeserializeFromPage_def Let_def)
  then show ?thesis using assms(2) BLeaf by (simp add: read_node_header_def)
next
  case (BNode p n ts)
  then have "internal_node_at pg p n" using same_node_internal [OF assms(3)] assms(1) by (simp add: internal_at_def)
  then have "in_header n = read_node_header (p_data pg)"
    by (auto simp: internal_node_at_def InternalNode_DeserializeFromPage_def Let_def)
  then show ?thesis using assms(2) BNode by (simp add: read_node_header_def)
qed

lemma of_le_zeros [simp]: "of_le_bytes (buf_read (\<lambda>_. 0) off 2) = (0 :: u16)" "of_le_bytes (buf_read (\<lambda>_. 0) off 4) = (0 :: u32)"
  by (simp_all add: buf_read_def of_le_bytes_def eval_nat_numeral upt_rec)

lemma new_page_node: "InternalNode_DeserializeFromPage (Page_new p) =
  \<lparr>in_header = \<lparr>bh_node_type = 0, bh_parent_page_id = 0, bh_num_keys = 0, bh_next_page_id = 0\<rparr>, in_children = [0], in_keys = []\<rparr>"
  by (simp add: InternalNode_DeserializeFromPage_def read_node_header_def Let_def)

lemma new_page_index [simp]: "index_page (Page_new p) p"
  by (simp add: index_page_def)

section \<open>A split that waits for the parent\<close>

definition split_ready :: "btree \<Rightarrow> view \<Rightarrow> (u32 \<Rightarrow> nat) \<Rightarrow> u32 \<Rightarrow> u32 \<Rightarrow> bt_context \<Rightarrow> bt \<Rightarrow> bt \<Rightarrow> bool" where
  "split_ready t v P lf rf c t1 t2 \<longleftrightarrow>
     pool_at (bt_bpm t) v P \<and> (\<forall>q. P q \<le> 1) \<and> P (bt_id t1) = 1 \<and> P (bt_id t2) = 1 \<and>
     bp_table (bt_bpm t) (bt_id t1) = Some lf \<and> bp_table (bt_bpm t) (bt_id t2) = Some rf \<and> (\<forall>q\<in>set (ctx_pids c). P q = 0) \<and>
     bt_at v t1 \<and> bt_at v t2 \<and> ctx_at v c (bt_id t1) \<and> bt_parents (ctx_par c) t1 \<and> bt_parents (ctx_par c) t2 \<and>
     ctx_parents c \<and> distinct (bt_pids t1 @ bt_pids t2 @ ctx_pids c) \<and> bt_root t = bt_id (bt_plug c t1)"

definition split_order :: "(u32 \<Rightarrow> u32 \<Rightarrow> int) \<Rightarrow> bt_context \<Rightarrow> bt \<Rightarrow> u32 \<Rightarrow> bt \<Rightarrow> bool" where
  "split_order cmp c t1 k t2 \<longleftrightarrow>
     (\<exists>lo hi. ctx_ord cmp None None lo hi c \<and> key_after cmp lo k \<and> key_below cmp k hi \<and>
       bt_ord cmp lo (Some k) t1 \<and> bt_ord cmp (Some k) hi t2) \<and>
     (\<exists>h. bt_full h t1 \<and> bt_full h t2 \<and> ctx_full h c)"

definition split_done :: "btree \<Rightarrow> (u32 \<Rightarrow> nat) \<Rightarrow> btree \<Rightarrow> bt \<Rightarrow> (u32 \<times> leaf_node) list \<Rightarrow> bool" where
  "split_done t P t' tr ls \<longleftrightarrow>
     (\<exists>v'. pool_at (bt_bpm t') v' P \<and> bt_at v' tr) \<and> frames_kept (bt_bpm t) (bt_bpm t') \<and> bt_parents INVALID_PAGE_ID tr \<and>
     distinct (bt_pids tr) \<and> bt_ord (bt_cmp t) None None tr \<and> map leaf_sig (bt_leaves tr) = map leaf_sig ls \<and>
     bt_root t' = bt_id tr \<and> bt_cmp t' = bt_cmp t \<and> bt_shape tr"

lemma reparent_full [simp]: "bt_full h (bt_reparent x t) = bt_full h t"
  by (cases t) simp_all

lemma split_readyD:
  assumes "split_ready t v P lf rf c t1 t2"
  shows "pool_at (bt_bpm t) v P" "P q \<le> 1" "P (bt_id t1) = 1" "P (bt_id t2) = 1" "bp_table (bt_bpm t) (bt_id t1) = Some lf"
    "bp_table (bt_bpm t) (bt_id t2) = Some rf" "q \<in> set (ctx_pids c) \<Longrightarrow> P q = 0" "bt_at v t1" "bt_at v t2"
    "ctx_at v c (bt_id t1)" "bt_parents (ctx_par c) t1" "bt_parents (ctx_par c) t2" "ctx_parents c"
    "distinct (bt_pids t1 @ bt_pids t2 @ ctx_pids c)" "bt_root t = bt_id (bt_plug c t1)"
  using assms by (simp_all add: split_ready_def)

lemma split_frames:
  assumes R: "split_ready t v P lf rf c t1 t2"
  shows "Page_GetPageId (frame_page (bt_bpm t) lf) = bt_id t1" "Page_GetPageId (frame_page (bt_bpm t) rf) = bt_id t2"
    "get32 (p_data (frame_page (bt_bpm t) lf)) 21 = ctx_par c"
proof -
  note D = split_readyD [OF R]
  have i: "index_page (view_page v (bt_id t1)) (bt_id t1)" "index_page (view_page v (bt_id t2)) (bt_id t2)"
    using bt_at_node D(8,9) by blast+
  note L = frame_node [OF D(1,5) i(1)] and R = frame_node [OF D(1,6) i(2)]
  show "Page_GetPageId (frame_page (bt_bpm t) lf) = bt_id t1" "Page_GetPageId (frame_page (bt_bpm t) rf) = bt_id t2"
    by (rule L(3) R(3))+
  show "get32 (p_data (frame_page (bt_bpm t) lf)) 21 = ctx_par c" by (rule parent_field [OF D(8,11) L(1)])
qed

text \<open>Trees whose pages a step does not write.\<close>

lemma bt_at_new_page: "bt_at v t \<Longrightarrow> v p = None \<Longrightarrow> bt_at (v(p \<mapsto> img)) t \<and> p \<notin> set (bt_pids t)"
  using bt_at_dom [of v t p] bt_at_other [of v t "v(p \<mapsto> img)"] by (metis fun_upd_apply)

lemma bt_at_keep: "bt_at v t \<Longrightarrow> p \<notin> set (bt_pids t) \<Longrightarrow> (\<And>q. q \<noteq> p \<Longrightarrow> w q = v q) \<Longrightarrow> bt_at w t"
  by (erule bt_at_other) metis

lemma ctx_at_keep: "ctx_at v c r \<Longrightarrow> p \<notin> set (ctx_pids c) \<Longrightarrow> (\<And>q. q \<noteq> p \<Longrightarrow> w q = v q) \<Longrightarrow> ctx_at w c r"
  by (erule ctx_at_other) metis

section \<open>A new root\<close>

lemma root_children:
  "InternalNode_SetChildAt 1 r (InternalNode_SetChildAt 0 l (InternalNode_SetKeyAt 0 k \<lparr>in_header = h, in_children = [c], in_keys = []\<rparr>)) =
   \<lparr>in_header = h, in_children = [l, r], in_keys = [k]\<rparr>"
  by (simp add: InternalNode_SetChildAt_def InternalNode_SetKeyAt_def vec_set_def)

lemma create_root_pages:
  assumes R: "split_ready t v P lf rf [] t1 t2"
    and fr: "free_frames (bt_bpm t) 1" and room: "0 < disk_room (bp_disk (bt_bpm t))"
  obtains b p n v' where "BPlusTree_CreateNewRoot (bt_id t1) k (bt_id t2) t = (Inr (), t\<lparr>bt_root := p, bt_bpm := b\<rparr>)"
    "bt_at v' (BNode p n [bt_reparent p t1, bt_reparent p t2])" "in_keys n = [k]" "bh_parent_page_id (in_header n) = INVALID_PAGE_ID"
    "distinct (bt_pids (BNode p n [bt_reparent p t1, bt_reparent p t2]))" "pool_at b v' P" "frames_kept (bt_bpm t) b"
    "Suc (disk_room (bp_disk b)) = disk_room (bp_disk (bt_bpm t))"
    "footprint (set (bt_pids t1) \<union> set (bt_pids t2)) (bt_bpm t) (set (bt_pids (BNode p n [bt_reparent p t1, bt_reparent p t2]))) b"
proof -
  note D = split_readyD [OF R]
  let ?b = "bt_bpm t"
  obtain p f b1 where N: "BufferPoolManager_NewPage ?b = (Inr (Some f), b1)" "v p = None" "p \<noteq> INVALID_PAGE_ID" "P p = 0"
    "pool_at b1 (v(p \<mapsto> page_image (Page_new p))) (P(p := 1))" "bp_table b1 p = Some f" "frame_page b1 f = Page_new p"
    "frames_kept ?b b1" "Suc (disk_room (bp_disk b1)) = disk_room (bp_disk ?b)"
    by (rule new_held [OF D(1) fr room])
  let ?P = "P(p := 1)" and ?v1 = "v(p \<mapsto> page_image (Page_new p))"
  let ?h = "\<lparr>bh_node_type = kInternalNode, bh_parent_page_id = INVALID_PAGE_ID, bh_num_keys = 1, bh_next_page_id = INVALID_PAGE_ID\<rparr>"
  let ?n = "\<lparr>in_header = ?h, in_children = [bt_id t1, bt_id t2], in_keys = [k]\<rparr>"
  have n: "internal_ok ?n" "bh_node_type (in_header ?n) = kInternalNode" by (simp_all add: internal_ok_def InternalNode_MAX_KEYS_def)
  have A1: "bt_at ?v1 t1" "p \<notin> set (bt_pids t1)" and A2: "bt_at ?v1 t2" "p \<notin> set (bt_pids t2)"
    using bt_at_new_page [OF D(8) N(2)] bt_at_new_page [OF D(9) N(2)] by auto
  have pg: "index_page (frame_page b1 f) p" using N(7) by simp
  obtain v2 where v2: "pool_at (put_internal f ?n b1) v2 ?P" "\<And>q. q \<noteq> p \<Longrightarrow> v2 q = ?v1 q" "internal_at v2 p ?n"
    "bp_table (put_internal f ?n b1) = bp_table b1" "bp_disk (put_internal f ?n b1) = bp_disk b1"
    "frames_kept b1 (put_internal f ?n b1)"
    by (rule put_internal_held [OF N(5,6) _ pg n]) auto
  let ?b2 = "put_internal f ?n b1"
  have B: "bt_at v2 t1" "bt_at v2 t2" using bt_at_keep [OF A1 v2(2)] bt_at_keep [OF A2 v2(2)] by blast+
  have d: "distinct (bt_pids t1)" "distinct (bt_pids t2)" "set (bt_pids t1) \<inter> set (bt_pids t2) = {}" using D(14) by auto
  have ne: "bt_id t1 \<noteq> p" "bt_id t2 \<noteq> p" "bt_id t1 \<noteq> bt_id t2"
    using A1(2) A2(2) d(3) bt_id_in_pids by (metis disjoint_iff)+
  let ?b3 = "update_parent p (bt_id t1) ?b2"
  obtain v3 where v3: "pool_at ?b3 v3 ?P" "\<And>q. q \<noteq> bt_id t1 \<Longrightarrow> v3 q = v2 q" "bt_at v3 (bt_reparent p t1)"
    "frames_kept ?b2 ?b3" "disk_room (bp_disk ?b3) = disk_room (bp_disk ?b2)"
    by (rule update_parent_held [OF v2(1) B(1) d(1), of p]) (use D(3) ne in auto)
  have "bt_at v3 t2" by (rule bt_at_other [OF B(2)], rule v3(2)) (use d(3) bt_id_in_pids [of t1] in blast)
  let ?b4 = "update_parent p (bt_id t2) ?b3"
  obtain v4 where v4: "pool_at ?b4 v4 ?P" "\<And>q. q \<noteq> bt_id t2 \<Longrightarrow> v4 q = v3 q" "bt_at v4 (bt_reparent p t2)"
    "frames_kept ?b3 ?b4" "disk_room (bp_disk ?b4) = disk_room (bp_disk ?b3)"
    by (rule update_parent_held [OF v3(1) \<open>bt_at v3 t2\<close> d(2), of p]) (use D(4) ne in auto)
  have "bt_at v4 (bt_reparent p t1)"
    by (rule bt_at_other [OF v3(3)], rule v4(2)) (use d(3) bt_id_in_pids [of t2] in auto)
  let ?b5 = "bp_unpin p True ?b4"
  note U = unpin_held [OF v4(1) refl, of p]
  let ?tr = "BNode p ?n [bt_reparent p t1, bt_reparent p t2]" and ?t = "t\<lparr>bt_root := p, bt_bpm := ?b5\<rparr>"
  have "BPlusTree_CreateNewRoot (bt_id t1) k (bt_id t2) t = (Inr (), ?t)"
    using N(1,7) root_children
    by (simp add: BPlusTree_CreateNewRoot_def Let_def new_page_node Page_GetPageId_def)
  moreover have "internal_at v4 p ?n" using v2(3) v3(2) v4(2) ne internal_at_cong [of v4 p v2] by metis
  then have "bt_at v4 ?tr" using v4(3) \<open>bt_at v4 (bt_reparent p t1)\<close> by simp
  moreover have at5: "pool_at ?b5 v4 P" using U(1) N(4) by (simp add: fun_upd_idem)
  moreover have kept: "frames_kept ?b ?b5"
  proof -
    note k = frames_via [OF _ D(1)]
    show ?thesis
      by (rule k [OF k [OF k [OF k [OF N(8) N(5) v2(6)] v2(1) v3(4)] v3(1) v4(4)] v4(1) U(3)]) (simp_all add: N(4))
  qed
  moreover have "distinct (bt_pids ?tr)" using d A1(2) A2(2) by auto
  moreover have "footprint (set (bt_pids t1) \<union> set (bt_pids t2)) ?b (set (bt_pids ?tr)) ?b5"
  proof (rule footprint_pool [OF D(1) at5 kept])
    fix r
    show "v4 r = v r" if r: "r \<notin> set (bt_pids t1) \<union> set (bt_pids t2)" "v r \<noteq> None"
    proof -
      have "r \<noteq> p" "r \<noteq> bt_id t1" "r \<noteq> bt_id t2" using r N(2) bt_id_in_pids [of t1] bt_id_in_pids [of t2] by auto
      then show ?thesis using v4(2) v3(2) v2(2) by simp
    qed
    show "r \<in> set (bt_pids t1) \<union> set (bt_pids t2)" if "r \<in> set (bt_pids ?tr)" "v r \<noteq> None" using that N(2) by auto
  qed
  moreover have "Suc (disk_room (bp_disk ?b5)) = disk_room (bp_disk ?b)" using U(4) v4(5) v3(5) v2(5) N(9) by simp
  ultimately show ?thesis using that [of ?b5 p v4 ?n] by simp
qed

lemma create_root:
  assumes R: "split_ready t v P lf rf [] t1 t2" and O: "split_order (bt_cmp t) [] t1 k t2"
    and fr: "free_frames (bt_bpm t) 1" and room: "0 < disk_room (bp_disk (bt_bpm t))"
  obtains t' tr where "BPlusTree_CreateNewRoot (bt_id t1) k (bt_id t2) t = (Inr (), t')"
    "split_done t P t' tr (bt_leaves t1 @ bt_leaves t2)" "Suc (disk_room (bp_disk (bt_bpm t'))) = disk_room (bp_disk (bt_bpm t))"
    "footprint (set (bt_pids t1) \<union> set (bt_pids t2)) (bt_bpm t) (set (bt_pids tr)) (bt_bpm t')"
proof -
  note D = split_readyD [OF R]
  obtain b p n v' where C: "BPlusTree_CreateNewRoot (bt_id t1) k (bt_id t2) t = (Inr (), t\<lparr>bt_root := p, bt_bpm := b\<rparr>)"
    "bt_at v' (BNode p n [bt_reparent p t1, bt_reparent p t2])" "in_keys n = [k]" "bh_parent_page_id (in_header n) = INVALID_PAGE_ID"
    "distinct (bt_pids (BNode p n [bt_reparent p t1, bt_reparent p t2]))" "pool_at b v' P" "frames_kept (bt_bpm t) b"
    "Suc (disk_room (bp_disk b)) = disk_room (bp_disk (bt_bpm t))"
    "footprint (set (bt_pids t1) \<union> set (bt_pids t2)) (bt_bpm t) (set (bt_pids (BNode p n [bt_reparent p t1, bt_reparent p t2]))) b"
    by (rule create_root_pages [OF R fr room])
  let ?tr = "BNode p n [bt_reparent p t1, bt_reparent p t2]"
  have "bt_ord (bt_cmp t) None None ?tr" "bt_shape ?tr" using O C(3) by (auto simp: split_order_def)
  moreover have "bt_parents INVALID_PAGE_ID ?tr" using reparent_parents D(11,12) C(4) by simp
  ultimately have "split_done t P (t\<lparr>bt_root := p, bt_bpm := b\<rparr>) ?tr (bt_leaves t1 @ bt_leaves t2)"
    using C(2,5-7) by (auto simp: split_done_def reparent_sig)
  then show ?thesis using that [OF C(1)] C(8,9) by simp
qed

end
