(* ===== verification/BTreeDivide.thy ===== *)
theory BTreeDivide
  imports BTreeInsert
begin

text \<open>\<open>InsertIntoParent\<close>: a parent with room takes the new child, a full one is divided and the change moves up.\<close>

context key_order begin

lemma split_bts_ord:
  assumes "split_order cmp ((q, n, ls, rs) # c) t1 k t2"
  obtains lo' hi' where "bts_ord cmp lo' hi' (insert_at (length ls) k (in_keys n)) (ls @ t1 # t2 # rs)"
    "ctx_ord cmp None None lo' hi' c" "length (in_keys n) = length ls + length rs"
    "length (takeWhile (\<lambda>k'. cmp k' k \<le> 0) (in_keys n)) = length ls"
proof -
  from assms obtain lo hi lo' hi' where O: "hole_ord cmp lo' hi' (in_keys n) ls rs lo hi" "ctx_ord cmp None None lo' hi' c"
    "key_after cmp lo k" "key_below cmp k hi" "bt_ord cmp lo (Some k) t1" "bt_ord cmp (Some k) hi t2"
    by (auto simp: split_order_def)
  show ?thesis
    by (rule that [OF hole_split [OF O(1,3-6)] O(2) hole_ord_length [OF O(1)] hole_position [OF O(1) key_after_above [OF O(3)] O(4)]])
qed

lemma split_position:
  assumes O: "split_order cmp ((q, n, ls, rs) # c) t1 k t2" and n: "internal_ok n"
  shows "unat (InternalNode_FindChild cmp k n) = length ls"
proof -
  obtain lo' hi' where B: "bts_ord cmp lo' hi' (insert_at (length ls) k (in_keys n)) (ls @ t1 # t2 # rs)"
    "length (in_keys n) = length ls + length rs"
    "length (takeWhile (\<lambda>k'. cmp k' k \<le> 0) (in_keys n)) = length ls"
    by (rule split_bts_ord [OF O]) blast
  have "sorted_keys (take (length ls) (in_keys n) @ k # drop (length ls) (in_keys n))"
    using bts_ord_keys [OF B(1)] by (simp add: insert_at_def)
  then have "sorted_keys (take (length ls) (in_keys n) @ drop (length ls) (in_keys n))"
    by (simp add: sorted_wrt_append del: append_take_drop_id)
  then show ?thesis using FindChild_correct [of n k] B(3) n by (simp add: internal_ok_def)
qed

lemma divide_order:
  assumes O: "split_order cmp ((q, n, ls, rs) # c) t1 k t2"
    and K: "K = insert_at (length ls) k (in_keys n)" and T: "T = ls @ t1 # t2 # rs" and m: "m < length K" and half: "254 \<le> Suc m" "254 + Suc m \<le> length T"
  shows "split_order cmp c (BNode q \<lparr>in_header = h, in_children = cs, in_keys = take m K\<rparr> (take (Suc m) T)) (K ! m)
    (BNode p \<lparr>in_header = h', in_children = cs', in_keys = drop (Suc m) K\<rparr> (map (bt_reparent p) (drop (Suc m) T)))"
proof -
  obtain lo' hi' where B: "bts_ord cmp lo' hi' K T" "ctx_ord cmp None None lo' hi' c"
    by (rule split_bts_ord [OF O, folded K T])
  have len: "length T = Suc (length K)" by (rule bts_ord_length [OF B(1)])
  have "K = take m K @ K ! m # drop (Suc m) K" using m by (rule id_take_nth_drop)
  moreover have "T = take (Suc m) T @ drop (Suc m) T" by simp
  ultimately have "bts_ord cmp lo' hi' (take m K @ K ! m # drop (Suc m) K) (take (Suc m) T @ drop (Suc m) T)"
    using B(1) by metis
  from bts_ord_divide [OF this] have "bts_ord cmp lo' (Some (K ! m)) (take m K) (take (Suc m) T)"
    "bts_ord cmp (Some (K ! m)) hi' (drop (Suc m) K) (drop (Suc m) T)" "key_after cmp lo' (K ! m)" "key_below cmp (K ! m) hi'"
    using m len by simp_all
  moreover obtain h where h: "bt_full h t1" "bt_full h t2" "ctx_full h ((q, n, ls, rs) # c)"
    using O by (auto simp: split_order_def)
  then have "\<forall>t\<in>set T. bt_full h t" by (auto simp: T)
  then have "bt_full (Suc h) (BNode q n' (take (Suc m) T))" "bt_full (Suc h) (BNode p n'' (map (bt_reparent p) (drop (Suc m) T)))"
    for n' n'' using half len by (auto dest: in_set_takeD in_set_dropD)
  moreover have "ctx_full (Suc h) c" using h(3) by simp
  ultimately show ?thesis using B(2) unfolding split_order_def by (intro conjI exI) (auto simp: reparents_ord)
qed

end

section \<open>A parent with room\<close>

lemma insert_after_ok:
  assumes "internal_ok n" "\<not> InternalNode_IsFull n" "unat pos = i" "i \<le> length (in_keys n)"
  shows "internal_ok (InternalNode_InsertAfter pos k r n)"
    "bh_node_type (in_header (InternalNode_InsertAfter pos k r n)) = bh_node_type (in_header n)"
    "bh_parent_page_id (in_header (InternalNode_InsertAfter pos k r n)) = bh_parent_page_id (in_header n)"
    "in_keys (InternalNode_InsertAfter pos k r n) = insert_at i k (in_keys n)"
    "in_children (InternalNode_InsertAfter pos k r n) = insert_at (Suc i) r (in_children n)"
proof -
  have "unat (bh_num_keys (in_header n)) < 507"
    using assms(2) by (simp add: InternalNode_IsFull_def InternalNode_MAX_KEYS_def word_le_nat_alt)
  then have "unat (bh_num_keys (in_header n) + 1) = Suc (unat (bh_num_keys (in_header n)))"
    by (simp add: unat16_add)
  then show "internal_ok (InternalNode_InsertAfter pos k r n)"
    using assms \<open>unat (bh_num_keys (in_header n)) < 507\<close>
    by (simp add: internal_ok_def InternalNode_InsertAfter_def InternalNode_MAX_KEYS_def)
qed (use assms(3) in \<open>simp_all add: InternalNode_InsertAfter_def\<close>)

lemma parent_fetched:
  assumes R: "split_ready t v P lf rf ((q, n, ls, rs) # c) t1 t2" and fr: "free_frames (bt_bpm t) (Suc k)"
  obtains f b1 where "BufferPoolManager_FetchPage q (bt_bpm t) = (Some f, b1)" "pool_at b1 v (P(q := 1))" "bp_table b1 q = Some f"
    "frames_kept (bt_bpm t) b1" "disk_room (bp_disk b1) = disk_room (bp_disk (bt_bpm t))" "internal_in b1 f = n"
    "index_page (frame_page b1 f) q" "P q = 0" "internal_ok n" "bh_node_type (in_header n) = kInternalNode"
    "q \<noteq> INVALID_PAGE_ID" "free_frames b1 k"
proof -
  note D = split_readyD [OF R]
  have at: "internal_at v q n" using D(10) by simp
  then have p: "v q \<noteq> None" "index_page (view_page v q) q" by (simp_all add: internal_at_def internal_node_at_def)
  have P0: "P q = 0" using D(7) [of q] by simp
  have f1: "free_frames (bt_bpm t) 1" by (rule free_frames_mono [OF fr]) simp
  obtain f b1 where f: "BufferPoolManager_FetchPage q (bt_bpm t) = (Some f, b1)" "pool_at b1 v (P(q := Suc (P q)))"
    "bp_table b1 q = Some f" "frames_kept (bt_bpm t) b1" "disk_room (bp_disk b1) = disk_room (bp_disk (bt_bpm t))"
    by (rule fetch_held [OF D(1) p(1)]) (use P0 f1 in auto)
  note N = frame_node [OF f(2,3) p(2)]
  have n: "internal_node_at (frame_page b1 f) q n"
    using same_node_internal [OF N(1)] at by (simp add: internal_at_def)
  have "q \<noteq> INVALID_PAGE_ID" using bt_node_valid [of "bt_bpm t" q] p(1) D(1) by (simp add: pool_at_def)
  moreover have "free_frames b1 k"
    using free_frames_more [OF _ pool_size_kept [OF f(4)] fr, of q] f(2) D(1) by (simp add: pool_at_def)
  ultimately show ?thesis using that f N(2) P0 n by (simp add: internal_node_at_def)
qed

lemma children_inserted:
  "map bt_id ls @ bt_id t1 # map bt_id rs = in_children n \<Longrightarrow>
   insert_at (Suc (length ls)) (bt_id t2) (in_children n) = map bt_id (ls @ t1 # t2 # rs)"
  by (drule sym) (simp add: insert_at_def)

context key_order begin

text \<open>The tree with the new child below the parent \<open>q\<close>, whose node is now \<open>n'\<close>.\<close>

lemma parent_grown:
  assumes R: "split_ready t v P lf rf ((q, n, ls, rs) # c) t1 t2" and O: "split_order cmp ((q, n, ls, rs) # c) t1 k t2"
    and n': "in_keys n' = insert_at (length ls) k (in_keys n)"
      "in_children n' = insert_at (Suc (length ls)) (bt_id t2) (in_children n)"
      "bh_parent_page_id (in_header n') = bh_parent_page_id (in_header n)"
    and v': "internal_at v' q n'" "\<And>r. r \<noteq> q \<Longrightarrow> v' r = v r"
  defines "tr \<equiv> bt_plug c (BNode q n' (ls @ t1 # t2 # rs))"
  shows "bt_at v' tr" "bt_ord cmp None None tr" "bt_parents INVALID_PAGE_ID tr" "distinct (bt_pids tr)" "bt_shape tr"
    and "bt_root t = bt_id tr" "set (bt_pids tr) = set (bt_pids t1 @ bt_pids t2 @ ctx_pids ((q, n, ls, rs) # c))"
proof -
  note D = split_readyD [OF R]
  have d: "distinct (bt_pids t1 @ bt_pids t2 @ q # concat (map bt_pids ls) @ concat (map bt_pids rs) @ ctx_pids c)"
    using D(14) by simp
  have "bt_at v' s" if "s \<in> set ls \<union> {t1, t2} \<union> set rs" for s
  proof (rule bt_at_keep [OF _ _ v'(2)])
    show "bt_at v s" using that D(8-10) by auto
    show "q \<notin> set (bt_pids s)" using that d by auto
  qed
  moreover have "ctx_at v' c q" using d D(10) by (intro ctx_at_keep [OF _ _ v'(2)]) auto
  moreover have "map bt_id (ls @ t1 # t2 # rs) = in_children n'"
    using children_inserted [of ls t1 rs n t2] D(10) n'(2) by simp
  ultimately show "bt_at v' tr" using v'(1) by (simp add: tr_def bt_at_plug)
  obtain lo' hi' where B: "bts_ord cmp lo' hi' (insert_at (length ls) k (in_keys n)) (ls @ t1 # t2 # rs)"
    "ctx_ord cmp None None lo' hi' c"
    by (rule split_bts_ord [OF O]) blast
  show "bt_ord cmp None None tr"
    unfolding tr_def using B(1) n'(1) by (intro bt_ord_plug [OF B(2)]) simp
  show "bt_parents INVALID_PAGE_ID tr" unfolding tr_def using D(11-13) n'(3) by (auto simp: bt_parents_plug)
  show "distinct (bt_pids tr)" unfolding tr_def using d by (auto simp: distinct_plug)
  obtain h where "bt_full h t1" "bt_full h t2" "ctx_full h ((q, n, ls, rs) # c)" using O by (auto simp: split_order_def)
  then have "bt_full h t2 \<and> ctx_full h ((q, n', ls @ [t1], rs) # c)" by (auto split: if_splits)
  then show "bt_shape tr" using shape_plug [of "(q, n', ls @ [t1], rs) # c" t2] by (auto simp: tr_def)
  show "bt_root t = bt_id tr"
    unfolding tr_def using D(15) bt_id_plug [of c] by (cases c) (simp, metis bt_plug.simps(2) list.distinct(1))
  show "set (bt_pids tr) = set (bt_pids t1 @ bt_pids t2 @ ctx_pids ((q, n, ls, rs) # c))"
    unfolding tr_def using set_bt_pids_plug [of c] by auto
qed

lemma parent_with_room:
  assumes R: "split_ready t v P lf rf ((q, n, ls, rs) # c) t1 t2" and O: "split_order (bt_cmp t) ((q, n, ls, rs) # c) t1 k t2"
    and cmp: "bt_cmp t = cmp" and fr: "free_frames (bt_bpm t) 1" and room: "\<not> InternalNode_IsFull n"
  obtains t' tr where "BPlusTree_InsertIntoParent lf k rf t = Some (Inr (), t')"
    "split_done t P t' tr (ctx_left ((q, n, ls, rs) # c) @ bt_leaves t1 @ bt_leaves t2 @ ctx_right ((q, n, ls, rs) # c))"
    "disk_room (bp_disk (bt_bpm t')) = disk_room (bp_disk (bt_bpm t))"
    "footprint (set (bt_pids t1 @ bt_pids t2 @ ctx_pids ((q, n, ls, rs) # c))) (bt_bpm t) (set (bt_pids tr)) (bt_bpm t')"
proof -
  note D = split_readyD [OF R]
  let ?b = "bt_bpm t"
  have "free_frames (bt_bpm t) (Suc 0)" using fr by simp
  from parent_fetched [OF R this]
  obtain f b1 where F: "BufferPoolManager_FetchPage q ?b = (Some f, b1)" "pool_at b1 v (P(q := 1))" "bp_table b1 q = Some f"
    "frames_kept ?b b1" "disk_room (bp_disk b1) = disk_room (bp_disk ?b)" "internal_in b1 f = n"
    "index_page (frame_page b1 f) q" "P q = 0" "internal_ok n" "bh_node_type (in_header n) = kInternalNode"
    "q \<noteq> INVALID_PAGE_ID" by metis
  let ?pos = "InternalNode_FindChild cmp k n" and ?i = "length ls"
  let ?n = "InternalNode_InsertAfter ?pos k (bt_id t2) n"
  have O': "split_order cmp ((q, n, ls, rs) # c) t1 k t2" using O cmp by simp
  have pos: "unat ?pos = ?i" by (rule split_position [OF O' F(9)])
  have "length (in_keys n) = length ls + length rs" by (rule split_bts_ord [OF O']) blast
  then have "?i \<le> length (in_keys n)" by simp
  note N = insert_after_ok [OF F(9) room pos this, of k "bt_id t2"]
  have ty: "bh_node_type (in_header ?n) = kInternalNode" using N(2) F(10) by simp
  obtain v2 where v2: "pool_at (put_internal f ?n b1) v2 (P(q := 1))" "\<And>r. r \<noteq> q \<Longrightarrow> v2 r = v r" "internal_at v2 q ?n"
    "bp_table (put_internal f ?n b1) = bp_table b1" "bp_disk (put_internal f ?n b1) = bp_disk b1"
    "frames_kept b1 (put_internal f ?n b1)"
    by (rule put_internal_held [OF F(2,3) _ F(7) N(1) ty]) auto
  let ?b3 = "bp_unpin q True (put_internal f ?n b1)"
  note U = unpin_held [OF v2(1) refl, of q]
  let ?t = "t\<lparr>bt_bpm := ?b3\<rparr>" and ?tr = "bt_plug c (BNode q ?n (ls @ t1 # t2 # rs))"
  have call: "BPlusTree_InsertIntoParent lf k rf t = Some (Inr (), ?t)"
    using F(1,6,11) room cmp by (subst BPlusTree_InsertIntoParent.simps) (simp add: Let_def split_frames [OF R])
  note G = parent_grown [OF R O' N(4,5,3) v2(3,2)]
  have at3: "pool_at ?b3 v2 P" using U(1) F(8) by (simp add: fun_upd_idem)
  have kept: "frames_kept ?b ?b3"
    by (rule frames_via [OF frames_via [OF F(4) D(1) F(2) v2(6)] D(1) v2(1) U(3)]) simp_all
  have "split_done t P ?t ?tr (ctx_left ((q, n, ls, rs) # c) @ bt_leaves t1 @ bt_leaves t2 @ ctx_right ((q, n, ls, rs) # c))"
    using cmp at3 kept G by (auto simp: split_done_def bt_leaves_plug)
  moreover have "disk_room (bp_disk ?b3) = disk_room (bp_disk ?b)" using U(4) v2(5) F(5) by simp
  moreover have "footprint (set (bt_pids t1 @ bt_pids t2 @ ctx_pids ((q, n, ls, rs) # c))) ?b (set (bt_pids ?tr)) ?b3"
    by (rule footprint_pool [OF D(1) at3 kept]) (use v2(2) in \<open>simp_all add: G(7)\<close>)
  ultimately show ?thesis using that call by simp
qed

end

section \<open>A full parent\<close>

definition left_half :: "u32 list \<Rightarrow> u32 list \<Rightarrow> internal_node \<Rightarrow> internal_node" where
  "left_half K C n = \<lparr>in_header = (in_header n)\<lparr>bh_num_keys := 254\<rparr>, in_children = take 255 C, in_keys = take 254 K\<rparr>"

definition right_half :: "u32 list \<Rightarrow> u32 list \<Rightarrow> internal_node \<Rightarrow> internal_node" where
  "right_half K C n =
     \<lparr>in_header = \<lparr>bh_node_type = kInternalNode, bh_parent_page_id = bh_parent_page_id (in_header n), bh_num_keys = 253,
        bh_next_page_id = 0\<rparr>, in_children = drop 255 C, in_keys = drop 255 K\<rparr>"

lemma halves_ok:
  assumes "length K = 508" "length C = 509"
  shows "internal_ok (left_half K C n)" "internal_ok (right_half K C n)"
  using assms by (simp_all add: internal_ok_def left_half_def right_half_def InternalNode_MAX_KEYS_def)

lemma full_node:
  assumes "internal_ok n" "InternalNode_IsFull n"
  shows "bh_num_keys (in_header n) = 507" "length (in_keys n) = 507" "length (in_children n) = 508"
proof -
  have "unat (bh_num_keys (in_header n)) = 507"
    using assms by (simp add: internal_ok_def InternalNode_IsFull_def InternalNode_MAX_KEYS_def word_le_nat_alt)
  then show "bh_num_keys (in_header n) = 507" "length (in_keys n) = 507" "length (in_children n) = 508"
    using assms(1) by (simp_all add: internal_ok_def word_unat_eq_iff)
qed

lemma halves_split:
  assumes K: "length K = 508" "length C = 509" and n: "length (in_keys n) = 507" "length (in_children n) = 508"
  shows "split_right 254 K C \<lparr>in_header = \<lparr>bh_node_type = kInternalNode, bh_parent_page_id = bh_parent_page_id (in_header n),
      bh_num_keys = 253, bh_next_page_id = 0\<rparr>, in_children = [0], in_keys = []\<rparr> = right_half K C n"
    "InternalNode_SerializeToPage (split_left 254 K C (n\<lparr>in_header := (in_header n)\<lparr>bh_num_keys := 254\<rparr>\<rparr>)) pg =
     InternalNode_SerializeToPage (left_half K C n) pg"
proof -
  show "split_right 254 K C \<lparr>in_header = \<lparr>bh_node_type = kInternalNode, bh_parent_page_id = bh_parent_page_id (in_header n),
      bh_num_keys = 253, bh_next_page_id = 0\<rparr>, in_children = [0], in_keys = []\<rparr> = right_half K C n"
    using K by (subst split_right_eq) (simp_all add: right_half_def)
  have "split_left 254 K C (n\<lparr>in_header := (in_header n)\<lparr>bh_num_keys := 254\<rparr>\<rparr>) =
    \<lparr>in_header = (in_header n)\<lparr>bh_num_keys := 254\<rparr>, in_children = take 255 C @ drop 255 (in_children n),
     in_keys = take 254 K @ drop 254 (in_keys n)\<rparr>"
    using K by (subst split_left_eq) simp_all
  then show "InternalNode_SerializeToPage (split_left 254 K C (n\<lparr>in_header := (in_header n)\<lparr>bh_num_keys := 254\<rparr>\<rparr>)) pg =
     InternalNode_SerializeToPage (left_half K C n) pg"
    unfolding left_half_def using K by (simp only:) (rule internal_trim, simp_all)
qed

text \<open>Two nodes written one after the other, in pages that are pinned.\<close>

lemma put_two_internal:
  assumes at: "pool_at b v P" and t: "bp_table b q = Some f" "bp_table b p = Some g" and pin: "0 < P q" "0 < P p" "p \<noteq> q"
    and pg: "index_page (view_page v q) q" "index_page (view_page v p) p"
    and l: "internal_ok l" "bh_node_type (in_header l) = kInternalNode"
    and r: "internal_ok r" "bh_node_type (in_header r) = kInternalNode"
  obtains v' where "pool_at (put_internal g r (put_internal f l b)) v' P" "internal_at v' q l" "internal_at v' p r"
    "\<And>x. x \<noteq> q \<Longrightarrow> x \<noteq> p \<Longrightarrow> v' x = v x" "bp_table (put_internal g r (put_internal f l b)) = bp_table b"
    "bp_disk (put_internal g r (put_internal f l b)) = bp_disk b" "frames_kept b (put_internal g r (put_internal f l b))"
proof -
  note F = frame_node [OF at t(1) pg(1)]
  let ?b1 = "put_internal f l b"
  obtain v1 where v1: "pool_at ?b1 v1 P" "\<And>r. r \<noteq> q \<Longrightarrow> v1 r = v r" "internal_at v1 q l" "bp_table ?b1 = bp_table b"
    "bp_disk ?b1 = bp_disk b" "frames_kept b ?b1"
    by (rule put_internal_held [OF at t(1) pin(1) F(2) l]) (assumption | rule that; assumption)+
  have t1: "bp_table ?b1 p = Some g" and "index_page (view_page v1 p) p" using v1(2,4) t(2) pg(2) pin(3) by (simp_all add: view_page_def)
  note F1 = frame_node [OF v1(1) this]
  let ?b2 = "put_internal g r ?b1"
  obtain v2 where v2: "pool_at ?b2 v2 P" "\<And>x. x \<noteq> p \<Longrightarrow> v2 x = v1 x" "internal_at v2 p r" "bp_table ?b2 = bp_table ?b1"
    "bp_disk ?b2 = bp_disk ?b1" "frames_kept ?b1 ?b2"
    by (rule put_internal_held [OF v1(1) t1 pin(2) F1(2) r]) (assumption | rule that; assumption)+
  have "internal_at v2 q l" using v1(3) v2(2) pin(3) internal_at_cong [of v2 q v1] by metis
  moreover have "frames_kept b ?b2" by (rule frames_via [OF v1(6) at v1(1) v2(6)])
  moreover have "v2 x = v x" if "x \<noteq> q" "x \<noteq> p" for x using that v1(2) v2(2) by simp
  ultimately show ?thesis using that [OF v2(1) _ v2(3)] v1(4,5) v2(4,5) by simp
qed

text \<open>The halves are nodes over their children, the right ones with the new parent.\<close>

lemma halves_at:
  assumes C: "C = map bt_id T" and T: "\<And>s. s \<in> set T \<Longrightarrow> bt_at v s" "\<And>s. s \<in> set T \<Longrightarrow> p \<notin> set (bt_pids s)"
    and d: "distinct (q # concat (map bt_pids T))"
    and right: "\<And>s. s \<in> set (drop 255 T) \<Longrightarrow> bt_at v3 (bt_reparent p s)"
    and halves: "internal_at v5 q (left_half K C n)" "internal_at v5 p (right_half K C n)"
    and v3: "\<And>r. r \<notin> bt_id ` set (drop 255 T) \<Longrightarrow> r \<noteq> p \<Longrightarrow> v3 r = v r" and v5: "\<And>r. r \<noteq> q \<Longrightarrow> r \<noteq> p \<Longrightarrow> v5 r = v3 r"
  shows "bt_at v5 (BNode q (left_half K C n) (take 255 T))"
    "bt_at v5 (BNode p (right_half K C n) (map (bt_reparent p) (drop 255 T)))"
proof -
  have notq: "q \<notin> set (bt_pids s)" if "s \<in> set T" for s using d that by auto
  have apart: "set (bt_pids s) \<inter> set (bt_pids s') = {}" if "s \<in> set (take 255 T)" "s' \<in> set (drop 255 T)" for s s'
  proof -
    have "distinct (concat (map bt_pids (take 255 T @ drop 255 T)))" using d by (simp only: append_take_drop_id distinct.simps)
    then show ?thesis using that by (auto simp del: append_take_drop_id)
  qed
  have "bt_at v5 s" if s: "s \<in> set (take 255 T)" for s
  proof (rule bt_at_other [OF T(1)])
    show sT: "s \<in> set T" using s by (rule in_set_takeD)
    show "v5 r = v r" if r: "r \<in> set (bt_pids s)" for r
    proof -
      have "r \<notin> bt_id ` set (drop 255 T)" using apart [OF s] bt_id_in_pids r by fastforce
      moreover have "r \<noteq> q" "r \<noteq> p" using r notq [OF sT] T(2) [OF sT] by auto
      ultimately show ?thesis using v3 v5 by simp
    qed
  qed
  moreover have "map bt_id (take 255 T) = in_children (left_half K C n)" using C by (simp add: left_half_def take_map)
  ultimately show "bt_at v5 (BNode q (left_half K C n) (take 255 T))" using halves(1) by simp
  have "bt_at v5 (bt_reparent p s)" if s: "s \<in> set (drop 255 T)" for s
  proof (rule bt_at_other [OF right [OF s]])
    fix r assume "r \<in> set (bt_pids (bt_reparent p s))"
    then have "r \<noteq> q" "r \<noteq> p" using notq T(2) s by (auto dest: in_set_dropD)
    then show "v5 r = v3 r" by (rule v5)
  qed
  moreover have "in_children (right_half K C n) = map bt_id (drop 255 T)" using C by (simp add: right_half_def drop_map)
  ultimately show "bt_at v5 (BNode p (right_half K C n) (map (bt_reparent p) (drop 255 T)))"
    using halves(2) by (simp add: comp_def)
qed

text \<open>The pages after a full parent was divided, before the recursive call.\<close>

lemma divide_pages:
  assumes at: "pool_at b v P" and tab: "bp_table b q = Some f" and Pq: "P q = 1" and le: "\<And>r. P r \<le> 1"
    and q: "index_page (view_page v q) q" "v q \<noteq> None"
    and fr: "free_frames b 2" and room: "0 < disk_room (bp_disk b)"
    and K: "length K = 508" "length C = 509" and n: "length (in_keys n) = 507" "length (in_children n) = 508"
      "bh_node_type (in_header n) = kInternalNode"
    and C: "C = map bt_id T" and T: "\<And>s. s \<in> set T \<Longrightarrow> bt_at v s" and d: "distinct (q # concat (map bt_pids T))"
  obtains p g b2 b5 v5 where "BufferPoolManager_NewPage b = (Inr (Some g), b2)" "frame_page b2 g = Page_new p" "v p = None"
    "b5 = put_internal g (right_half K C n) (put_internal f
       (split_left 254 K C (n\<lparr>in_header := (in_header n)\<lparr>bh_num_keys := 254\<rparr>\<rparr>))
       (fold (\<lambda>i. update_parent p (in_children (right_half K C n) ! i)) [0..<254] b2))"
    "pool_at b5 v5 (P(p := 1))" "P p = 0" "bp_table b5 q = Some f" "bp_table b5 p = Some g" "frames_kept b b5"
    "Suc (disk_room (bp_disk b5)) = disk_room (bp_disk b)" "p \<noteq> INVALID_PAGE_ID"
    "bt_at v5 (BNode q (left_half K C n) (take 255 T))" "bt_at v5 (BNode p (right_half K C n) (map (bt_reparent p) (drop 255 T)))"
    "\<And>r. r \<noteq> q \<Longrightarrow> r \<noteq> p \<Longrightarrow> r \<notin> bt_id ` set (drop 255 T) \<Longrightarrow> v5 r = v r"
proof -
  have f1: "free_frames b 1" by (rule free_frames_mono [OF fr]) simp
  obtain p g b2 where N: "BufferPoolManager_NewPage b = (Inr (Some g), b2)" "v p = None" "p \<noteq> INVALID_PAGE_ID" "P p = 0"
    "pool_at b2 (v(p \<mapsto> page_image (Page_new p))) (P(p := 1))" "bp_table b2 p = Some g" "frame_page b2 g = Page_new p"
    "frames_kept b b2" "Suc (disk_room (bp_disk b2)) = disk_room (bp_disk b)"
    by (rule new_held [OF at f1 room])
  let ?v2 = "v(p \<mapsto> page_image (Page_new p))" and ?P = "P(p := 1)" and ?L = "left_half K C n" and ?R = "right_half K C n"
  have A2: "bt_at ?v2 s \<and> p \<notin> set (bt_pids s)" if "s \<in> set T" for s using bt_at_new_page [OF T [OF that] N(2)] .
  have t2: "bp_table b2 q = Some f" by (rule frames_keptD [OF N(8) _ tab]) (use Pq at in \<open>simp add: pool_at_def\<close>)
  have pq: "p \<noteq> q" using N(2) q(2) by auto
  have fr2: "free_frames b2 1"
    using free_frames_more [OF _ pool_size_kept [OF N(8)], of p 1 1] N(5) at fr by (simp add: pool_at_def numeral_2_eq_2)
  have "distinct (concat (map bt_pids (take 255 T @ drop 255 T)))" using d by (simp only: append_take_drop_id distinct.simps)
  then have dT: "distinct (concat (map bt_pids (drop 255 T)))" by (auto simp del: append_take_drop_id)
  let ?b3 = "fold (update_parent p) (map bt_id (drop 255 T)) b2"
  have small: "?P r < 4294967295" for r using le [of r] by (simp add: less_le_trans [of _ 2])
  obtain v3 where v3: "pool_at ?b3 v3 ?P" "\<And>r. r \<notin> bt_id ` set (drop 255 T) \<Longrightarrow> v3 r = ?v2 r"
    "\<And>s. s \<in> set (drop 255 T) \<Longrightarrow> bt_at v3 (bt_reparent p s)" "frames_kept b2 ?b3"
    "disk_room (bp_disk ?b3) = disk_room (bp_disk b2)"
    using update_parents_held [OF N(5) _ dT small fr2, of p] A2 by (blast dest: in_set_dropD)
  have kids: "in_children ?R = map bt_id (drop 255 T)" using C by (simp add: right_half_def drop_map)
  then have b3: "fold (\<lambda>i. update_parent p (in_children ?R ! i)) [0..<254] b2 = ?b3"
    using fold_nth [of "update_parent p" "in_children ?R"] K(2) C by simp
  have notq: "q \<notin> bt_id ` set (drop 255 T)" using d bt_id_in_pids by (fastforce dest: in_set_dropD)
  have notp: "p \<notin> bt_id ` set (drop 255 T)" using A2 bt_id_in_pids by (fastforce dest: in_set_dropD)
  have t3: "bp_table ?b3 q = Some f" "bp_table ?b3 p = Some g"
    using frames_keptD [OF v3(4) _ t2] frames_keptD [OF v3(4) _ N(6)] N(5) Pq pq by (simp_all add: pool_at_def)
  let ?b5 = "put_internal g ?R (put_internal f ?L ?b3)"
  have "index_page (view_page v3 q) q" using v3(2) [OF notq] pq q(1) by (simp add: view_page_def)
  moreover have "index_page (view_page v3 p) p"
    using v3(2) [OF notp] same_node_index [OF same_node_image [OF new_page_index]] by (simp add: view_page_def)
  moreover have "bh_node_type (in_header ?L) = kInternalNode" "bh_node_type (in_header ?R) = kInternalNode"
    using n(3) by (simp_all add: left_half_def right_half_def)
  moreover have "0 < ?P q" "0 < ?P p" using Pq pq by simp_all
  ultimately obtain v5 where v5: "pool_at ?b5 v5 ?P" "internal_at v5 q ?L" "internal_at v5 p ?R"
    "\<And>x. x \<noteq> q \<Longrightarrow> x \<noteq> p \<Longrightarrow> v5 x = v3 x" "bp_table ?b5 = bp_table ?b3" "bp_disk ?b5 = bp_disk ?b3" "frames_kept ?b3 ?b5"
    using put_two_internal [OF v3(1) t3 _ _ pq _ _ halves_ok(1) [OF K] _ halves_ok(2) [OF K]] by metis
  have v3': "v3 r = v r" if "r \<notin> bt_id ` set (drop 255 T)" "r \<noteq> p" for r using v3(2) that by simp
  have A: "bt_at v s" "p \<notin> set (bt_pids s)" if "s \<in> set T" for s using T [OF that] A2 [OF that] by simp_all
  note H = halves_at [where v = v and ?v3.0 = v3, OF C A d v3(3) v5(2,3) v3' v5(4)]
  have k5: "frames_kept b ?b5" by (rule frames_via [OF frames_via [OF N(8) at N(5) v3(4)] at v3(1) v5(7)]) simp_all
  have "?b5 = put_internal g ?R (put_internal f (split_left 254 K C (n\<lparr>in_header := (in_header n)\<lparr>bh_num_keys := 254\<rparr>\<rparr>))
       (fold (\<lambda>i. update_parent p (in_children ?R ! i)) [0..<254] b2))"
    unfolding b3 by (simp add: put_internal_def halves_split(2) [OF K n(1,2)])
  moreover have "Suc (disk_room (bp_disk ?b5)) = disk_room (bp_disk b)" using v5(6) v3(5) N(9) by simp
  moreover have "bp_table ?b5 q = Some f" "bp_table ?b5 p = Some g" using v5(5) t3 by simp_all
  moreover have "v5 r = v r" if "r \<noteq> q" "r \<noteq> p" "r \<notin> bt_id ` set (drop 255 T)" for r using that v5(4) v3(2) by simp
  ultimately show ?thesis using that [OF N(1,7,2) _ v5(1) N(4) _ _ k5 _ N(3) H] by blast
qed

text \<open>The two nodes over the children \<open>T\<close>, as trees.\<close>

lemma halves_tree:
  fixes T :: "bt list" and K C :: "u32 list"
  assumes d: "distinct (q # concat (map bt_pids T) @ ctx_pids c)" and p: "p \<notin> set (concat (map bt_pids T))" "p \<notin> set (ctx_pids c)" "p \<noteq> q"
    and par: "\<And>s. s \<in> set T \<Longrightarrow> bt_parents q s" "bh_parent_page_id (in_header n) = ctx_par c"
  defines "T1 \<equiv> BNode q (left_half K C n) (take 255 T)" and "T2 \<equiv> BNode p (right_half K C n) (map (bt_reparent p) (drop 255 T))"
  shows "distinct (bt_pids T1 @ bt_pids T2 @ ctx_pids c)" "bt_parents (ctx_par c) T1" "bt_parents (ctx_par c) T2"
    "map leaf_sig (bt_leaves T1 @ bt_leaves T2) = map leaf_sig (concat (map bt_leaves T))"
    "set (bt_pids T1 @ bt_pids T2 @ ctx_pids c) = insert q (insert p (set (concat (map bt_pids T)) \<union> set (ctx_pids c)))"
    "bt_id ` set (drop 255 T) \<subseteq> set (concat (map bt_pids T))"
proof -
  have split: "concat (map bt_pids T) = concat (map bt_pids (take 255 T)) @ concat (map bt_pids (drop 255 T))"
    by (metis append_take_drop_id concat_append map_append)
  show "distinct (bt_pids T1 @ bt_pids T2 @ ctx_pids c)"
    using d p unfolding split T1_def T2_def by (auto simp: comp_def)
  have "\<forall>s\<in>set (take 255 T). bt_parents q s" "\<forall>s\<in>set (drop 255 T). bt_parents p (bt_reparent p s)"
    using par(1) reparent_parents by (blast dest: in_set_takeD in_set_dropD)+
  then show "bt_parents (ctx_par c) T1" "bt_parents (ctx_par c) T2"
    using par(2) by (simp_all add: T1_def T2_def left_half_def right_half_def)
  have "map leaf_sig (bt_leaves T1 @ bt_leaves T2) =
      map leaf_sig (concat (map bt_leaves (take 255 T)) @ concat (map bt_leaves (drop 255 T)))"
    using reparents_sig [of p "drop 255 T"] by (simp add: T1_def T2_def comp_def)
  also have "concat (map bt_leaves (take 255 T)) @ concat (map bt_leaves (drop 255 T)) = concat (map bt_leaves T)"
    by (metis append_take_drop_id concat_append map_append)
  finally show "map leaf_sig (bt_leaves T1 @ bt_leaves T2) = map leaf_sig (concat (map bt_leaves T))" .
  show "set (bt_pids T1 @ bt_pids T2 @ ctx_pids c) = insert q (insert p (set (concat (map bt_pids T)) \<union> set (ctx_pids c)))"
    unfolding split T1_def T2_def by (auto simp: comp_def)
  show "bt_id ` set (drop 255 T) \<subseteq> set (concat (map bt_pids T))" unfolding split by fastforce
qed

lemma divided_footprint:
  assumes at: "pool_at b v P" "pool_at b5 v5 P5" "frames_kept b b5" and p: "v p = None"
    and sets: "A = insert q (M \<union> D)" "B = insert q (insert p (M \<union> D))" "ids \<subseteq> M"
    and other: "\<And>r. r \<noteq> q \<Longrightarrow> r \<noteq> p \<Longrightarrow> r \<notin> ids \<Longrightarrow> v5 r = v r"
  shows "footprint A b B b5"
proof (rule footprint_pool [OF at])
  fix r assume v: "v r \<noteq> None"
  then have "r \<noteq> p" using p by auto
  then show "r \<in> B \<Longrightarrow> r \<in> A" "r \<notin> A \<Longrightarrow> v5 r = v r" using sets other by auto
qed

context key_order begin

lemma divide_call:
  assumes R: "split_ready t v P lf rf ((q, n, ls, rs) # c) t1 t2" and cmp: "bt_cmp t = cmp"
    and F: "BufferPoolManager_FetchPage q (bt_bpm t) = (Some f, b1)" "internal_in b1 f = n" "q \<noteq> INVALID_PAGE_ID"
    and full: "InternalNode_IsFull n" "internal_ok n" and pos: "unat (InternalNode_FindChild cmp k n) = length ls"
    and N: "BufferPoolManager_NewPage b1 = (Inr (Some g), b2)" "frame_page b2 g = Page_new p"
    and K: "K = insert_at (length ls) k (in_keys n)" "C = insert_at (Suc (length ls)) (bt_id t2) (in_children n)"
    and len: "length K = 508" "length C = 509"
  shows "BPlusTree_InsertIntoParent lf k rf t =
    Option.bind (BPlusTree_InsertIntoParent f (K ! 254) g (t\<lparr>bt_bpm := put_internal g (right_half K C n) (put_internal f
       (split_left 254 K C (n\<lparr>in_header := (in_header n)\<lparr>bh_num_keys := 254\<rparr>\<rparr>))
       (fold (\<lambda>i. update_parent p (in_children (right_half K C n) ! i)) [0..<254] b2))\<rparr>)) (\<lambda>(res, t5).
       case res of Inl e \<Rightarrow> Some (Inl e, t5)
       | Inr _ \<Rightarrow> Some (Inr (), t5\<lparr>bt_bpm := bp_unpin p True (bp_unpin q True (bt_bpm t5))\<rparr>))"
proof -
  note full_n = full_node [OF full(2,1)]
  have mid: "of_nat (length K div 2) = (254 :: u16)" "of_nat (length K) - 254 - 1 = (253 :: u16)" using len(1) by simp_all
  have new_id: "Page_GetPageId (Page_new p) = p" by (simp add: Page_GetPageId_def)
  have nr: "bh_num_keys (in_header (right_half K C n)) = 253" by (simp add: right_half_def)
  show ?thesis
    by (subst BPlusTree_InsertIntoParent.simps)
      (simp add: Let_def split_frames [OF R] F full cmp pos full_n N new_page_node new_id
        K [symmetric] mid halves_split(1) [OF len full_n(2,3)] nr cong: sum.case_cong del: upt_rec_numeral upt_Suc)
qed

lemma parent_divided:
  assumes R: "split_ready t v P lf rf ((q, n, ls, rs) # c) t1 t2" and O: "split_order (bt_cmp t) ((q, n, ls, rs) # c) t1 k t2"
    and cmp: "bt_cmp t = cmp" and fr: "free_frames (bt_bpm t) 3" and room: "0 < disk_room (bp_disk (bt_bpm t))"
    and full: "InternalNode_IsFull n"
  obtains p f g b5 v5 T1 T2 k' where
    "BPlusTree_InsertIntoParent lf k rf t = Option.bind (BPlusTree_InsertIntoParent f k' g (t\<lparr>bt_bpm := b5\<rparr>)) (\<lambda>(res, t5).
       case res of Inl e \<Rightarrow> Some (Inl e, t5)
       | Inr _ \<Rightarrow> Some (Inr (), t5\<lparr>bt_bpm := bp_unpin p True (bp_unpin q True (bt_bpm t5))\<rparr>))"
    "split_ready (t\<lparr>bt_bpm := b5\<rparr>) v5 (P(q := 1, p := 1)) f g c T1 T2" "split_order cmp c T1 k' T2"
    "P q = 0" "P p = 0" "p \<noteq> q" "frames_kept (bt_bpm t) b5" "Suc (disk_room (bp_disk b5)) = disk_room (bp_disk (bt_bpm t))"
    "map leaf_sig (bt_leaves T1 @ bt_leaves T2) =
       map leaf_sig (concat (map bt_leaves ls) @ bt_leaves t1 @ bt_leaves t2 @ concat (map bt_leaves rs))"
    "footprint (set (bt_pids t1 @ bt_pids t2 @ ctx_pids ((q, n, ls, rs) # c))) (bt_bpm t)
       (set (bt_pids T1 @ bt_pids T2 @ ctx_pids c)) b5"
proof -
  note D = split_readyD [OF R]
  let ?b = "bt_bpm t" and ?i = "length ls"
  have "free_frames ?b (Suc 2)" using fr by simp
  from parent_fetched [OF R this]
  obtain f b1 where F: "BufferPoolManager_FetchPage q ?b = (Some f, b1)" "pool_at b1 v (P(q := 1))" "bp_table b1 q = Some f"
    "frames_kept ?b b1" "disk_room (bp_disk b1) = disk_room (bp_disk ?b)" "internal_in b1 f = n"
    "index_page (frame_page b1 f) q" "P q = 0" "internal_ok n" "bh_node_type (in_header n) = kInternalNode"
    "q \<noteq> INVALID_PAGE_ID" "free_frames b1 2" by metis
  have O': "split_order cmp ((q, n, ls, rs) # c) t1 k t2" using O cmp by simp
  have pos: "unat (InternalNode_FindChild cmp k n) = ?i" by (rule split_position [OF O' F(9)])
  obtain lo' hi' where B: "length (in_keys n) = length ls + length rs" by (rule split_bts_ord [OF O']) blast
  note full_n = full_node [OF F(9) full]
  let ?T = "ls @ t1 # t2 # rs"
  define K where "K = insert_at ?i k (in_keys n)"
  define C where "C = map bt_id ?T"
  have C': "C = insert_at (Suc ?i) (bt_id t2) (in_children n)"
    using children_inserted [of ls t1 rs n t2] D(10) by (simp add: C_def)
  have K: "length K = 508" "length C = 509" using full_n B by (simp_all add: K_def C_def)
  have q: "index_page (view_page v q) q" "v q \<noteq> None" using D(10) by (simp_all add: internal_at_def internal_node_at_def)
  have d: "distinct (q # concat (map bt_pids ?T))" "distinct (q # concat (map bt_pids ?T) @ ctx_pids c)" using D(14) by auto
  have T: "bt_at v s" if "s \<in> set ?T" for s using that D(8-10) by auto
  have le: "(P(q := 1)) r \<le> 1" for r using D(2) by simp
  have Pq: "(P(q := 1)) q = 1" by simp
  have room1: "0 < disk_room (bp_disk b1)" using room F(5) by simp
  obtain p g b2 b5 v5 where N: "BufferPoolManager_NewPage b1 = (Inr (Some g), b2)" "frame_page b2 g = Page_new p" "v p = None"
    "b5 = put_internal g (right_half K C n) (put_internal f
       (split_left 254 K C (n\<lparr>in_header := (in_header n)\<lparr>bh_num_keys := 254\<rparr>\<rparr>))
       (fold (\<lambda>i. update_parent p (in_children (right_half K C n) ! i)) [0..<254] b2))"
    "pool_at b5 v5 (P(q := 1, p := 1))" "(P(q := 1)) p = 0" "bp_table b5 q = Some f" "bp_table b5 p = Some g" "frames_kept b1 b5"
    "Suc (disk_room (bp_disk b5)) = disk_room (bp_disk b1)" "p \<noteq> INVALID_PAGE_ID"
    "bt_at v5 (BNode q (left_half K C n) (take 255 ?T))" "bt_at v5 (BNode p (right_half K C n) (map (bt_reparent p) (drop 255 ?T)))"
    "\<And>r. r \<noteq> q \<Longrightarrow> r \<noteq> p \<Longrightarrow> r \<notin> bt_id ` set (drop 255 ?T) \<Longrightarrow> v5 r = v r"
    by (rule divide_pages [OF F(2,3) Pq le q F(12) room1 K full_n(2,3) F(10) C_def T d(1)]) (assumption | rule that; assumption)+
  let ?T1 = "BNode q (left_half K C n) (take 255 ?T)"
  let ?T2 = "BNode p (right_half K C n) (map (bt_reparent p) (drop 255 ?T))"
  have pq: "p \<noteq> q" "P p = 0" using N(3,6) q(2) by (auto split: if_splits)
  note call = divide_call [OF R cmp F(1,6,11) full F(9) pos N(1,2) K_def C' K, folded N(4)]
  have np: "p \<notin> set (concat (map bt_pids ?T))" "p \<notin> set (ctx_pids c)"
    using N(3) T bt_at_dom ctx_at_dom [of v c q] D(10) by (auto simp del: not_None_eq)
  have par: "bt_parents q s" if "s \<in> set ?T" for s using that D(11-13) by auto
  have "bh_parent_page_id (in_header n) = ctx_par c" using D(13) by simp
  note G = halves_tree [OF d(2) np pq(1) par this]
  have "ctx_at v5 c q"
  proof (rule ctx_at_other [of v])
    show "ctx_at v c q" using D(10) by simp
    fix r assume r: "r \<in> set (ctx_pids c)"
    have "r \<notin> set (concat (map bt_pids ?T))" "r \<noteq> q" using r d(2) by auto
    then show "v5 r = v r" using N(14) [of r] np(2) r G(6) by blast
  qed
  moreover have "bt_root t = bt_id (bt_plug c ?T1)"
    using D(15) bt_id_plug [of c] by (cases c) (simp, metis bt_plug.simps(2) list.distinct(1))
  moreover have "\<forall>r. (P(q := 1, p := 1)) r \<le> 1" "\<forall>r\<in>set (ctx_pids c). (P(q := 1, p := 1)) r = 0"
    using D(2,7) np(2) d(2) by auto
  ultimately have ready: "split_ready (t\<lparr>bt_bpm := b5\<rparr>) v5 (P(q := 1, p := 1)) f g c ?T1 ?T2"
    using N(5,7,8,12,13) pq D(13) G(1-3) by (simp add: split_ready_def)
  have "254 < length K" "254 \<le> Suc 254" "254 + Suc 254 \<le> length ?T" using K by (simp_all add: C_def)
  from divide_order [OF O' K_def refl this, of "(in_header n)\<lparr>bh_num_keys := 254\<rparr>" "take 255 C" p
      "in_header (right_half K C n)" "drop 255 C"]
  have order: "split_order cmp c ?T1 (K ! 254) ?T2" by (simp add: left_half_def right_half_def)
  have sig: "map leaf_sig (bt_leaves ?T1 @ bt_leaves ?T2) =
      map leaf_sig (concat (map bt_leaves ls) @ bt_leaves t1 @ bt_leaves t2 @ concat (map bt_leaves rs))"
    using G(4) by simp
  have kept: "frames_kept ?b b5" by (rule frames_via [OF F(4) D(1) F(2) N(9)]) simp
  have "set (bt_pids t1 @ bt_pids t2 @ ctx_pids ((q, n, ls, rs) # c)) = insert q (set (concat (map bt_pids ?T)) \<union> set (ctx_pids c))"
    by auto
  note foot = divided_footprint [OF D(1) N(5) kept N(3) this G(5,6) N(14)]
  show ?thesis by (rule that [OF call ready order F(8) pq(2,1) kept _ sig foot]) (use N(10) F(5) in simp)
qed

end

end
