(* ===== verification/BTreeInsertion.thy ===== *)
theory BTreeInsertion
  imports BTreeDivide
begin

text \<open>
  Insertion as a whole: the recursion of \<open>InsertIntoParent\<close> ends and leaves a search tree, and \<open>Insert\<close> adds
  the entry at its place in the order.
\<close>

text \<open>The two halves of a divided node are unpinned.\<close>

lemma unpin_two:
  assumes at: "pool_at b v (P(q := 1, p := 1))" and P: "P q = 0" "P p = 0" "p \<noteq> q"
  defines "b' \<equiv> bp_unpin p True (bp_unpin q True b)"
  shows "pool_at b' v P" "frames_kept b0 b \<Longrightarrow> frames_kept b0 b'" "bp_pool_size b' = bp_pool_size b" "footprint S b S b'"
proof -
  note U = unpin_held [OF at refl, of q]
  note U' = unpin_held [OF U(1) refl, of p, folded b'_def]
  have "(P(q := 1, p := 1))(q := (P(q := 1, p := 1)) q - 1, p := ((P(q := 1, p := 1))(q := (P(q := 1, p := 1)) q - 1)) p - 1) = P"
    using P by (auto simp: fun_eq_iff)
  then show "pool_at b' v P" using U'(1) by simp
  show size: "bp_pool_size b' = bp_pool_size b" using U(5) U'(5) by simp
  show "frames_kept b0 b'" if "frames_kept b0 b" using that U(2) U'(2) size by (simp add: frames_kept_def)
  show "footprint S b S b'" unfolding b'_def by (rule footprint_trans [OF footprint_unpin [OF at] footprint_unpin [OF U(1)]])
qed

context key_order begin

lemma insert_into_parent:
  assumes "split_ready t v P lf rf c t1 t2" "split_order (bt_cmp t) c t1 k t2" "bt_cmp t = cmp"
    "free_frames (bt_bpm t) (2 * length c + 1)" "length c < disk_room (bp_disk (bt_bpm t))"
  shows "\<exists>t' tr. BPlusTree_InsertIntoParent lf k rf t = Some (Inr (), t') \<and>
    split_done t P t' tr (ctx_left c @ bt_leaves t1 @ bt_leaves t2 @ ctx_right c) \<and>
    footprint (set (bt_pids t1 @ bt_pids t2 @ ctx_pids c)) (bt_bpm t) (set (bt_pids tr)) (bt_bpm t')"
  using assms
proof (induction c arbitrary: t v P lf rf t1 k t2)
  case Nil
  have "free_frames (bt_bpm t) 1" "0 < disk_room (bp_disk (bt_bpm t))" using Nil.prems(4,5) by simp_all
  from create_root [OF Nil.prems(1,2) this]
  obtain t' tr where "BPlusTree_CreateNewRoot (bt_id t1) k (bt_id t2) t = (Inr (), t')"
    "split_done t P t' tr (bt_leaves t1 @ bt_leaves t2)"
    "footprint (set (bt_pids t1) \<union> set (bt_pids t2)) (bt_bpm t) (set (bt_pids tr)) (bt_bpm t')" by blast
  moreover have "BPlusTree_InsertIntoParent lf k rf t = Some (BPlusTree_CreateNewRoot (bt_id t1) k (bt_id t2) t)"
    using split_frames [OF Nil.prems(1)] by (subst BPlusTree_InsertIntoParent.simps) (simp add: Let_def)
  ultimately show ?case by auto
next
  case (Cons x c)
  obtain q n ls rs where x: "x = (q, n, ls, rs)" by (cases x)
  note R = Cons.prems(1) [unfolded x] and O = Cons.prems(2) [unfolded x]
  note D = split_readyD [OF R]
  show ?case
  proof (cases "InternalNode_IsFull n")
    case False
    have "free_frames (bt_bpm t) 1" by (rule free_frames_mono [OF Cons.prems(4)]) simp
    from parent_with_room [OF R O Cons.prems(3) this False] show ?thesis unfolding x by blast
  next
    case True
    have fr: "free_frames (bt_bpm t) 3" "0 < disk_room (bp_disk (bt_bpm t))"
      using free_frames_mono [OF Cons.prems(4), of 3] Cons.prems(5) by simp_all
    obtain p f g b5 v5 T1 T2 k' where S:
      "BPlusTree_InsertIntoParent lf k rf t = Option.bind (BPlusTree_InsertIntoParent f k' g (t\<lparr>bt_bpm := b5\<rparr>)) (\<lambda>(res, t5).
         case res of Inl e \<Rightarrow> Some (Inl e, t5)
         | Inr _ \<Rightarrow> Some (Inr (), t5\<lparr>bt_bpm := bp_unpin p True (bp_unpin q True (bt_bpm t5))\<rparr>))"
      "split_ready (t\<lparr>bt_bpm := b5\<rparr>) v5 (P(q := 1, p := 1)) f g c T1 T2" "split_order cmp c T1 k' T2"
      "P q = 0" "P p = 0" "p \<noteq> q" "frames_kept (bt_bpm t) b5" "Suc (disk_room (bp_disk b5)) = disk_room (bp_disk (bt_bpm t))"
      "map leaf_sig (bt_leaves T1 @ bt_leaves T2) =
         map leaf_sig (concat (map bt_leaves ls) @ bt_leaves t1 @ bt_leaves t2 @ concat (map bt_leaves rs))"
      "footprint (set (bt_pids t1 @ bt_pids t2 @ ctx_pids ((q, n, ls, rs) # c))) (bt_bpm t)
         (set (bt_pids T1 @ bt_pids T2 @ ctx_pids c)) b5"
      by (rule parent_divided [OF R O Cons.prems(3) fr True]) (assumption | rule that; assumption)+
    let ?t5 = "t\<lparr>bt_bpm := b5\<rparr>"
    note D5 = split_readyD [OF S(2)]
    have pins: "bp_pins b5 = (bp_pins (bt_bpm t))(q := 1, p := 1)" using D5(1) D(1) by (simp add: pool_at_def)
    have "free_frames b5 (2 * length c + 1)"
      by (rule free_frames_two [OF pins pool_size_kept [OF S(7)]]) (use Cons.prems(4) in simp)
    then obtain t6 tr where I: "BPlusTree_InsertIntoParent f k' g ?t5 = Some (Inr (), t6)"
      "split_done ?t5 (P(q := 1, p := 1)) t6 tr (ctx_left c @ bt_leaves T1 @ bt_leaves T2 @ ctx_right c)"
      "footprint (set (bt_pids T1 @ bt_pids T2 @ ctx_pids c)) b5 (set (bt_pids tr)) (bt_bpm t6)"
      using Cons.IH [OF S(2)] S(3,8) Cons.prems(3,5) by fastforce
    obtain v6 where v6: "pool_at (bt_bpm t6) v6 (P(q := 1, p := 1))" "bt_at v6 tr" and
      E: "frames_kept b5 (bt_bpm t6)" "bt_parents INVALID_PAGE_ID tr" "distinct (bt_pids tr)" "bt_ord (bt_cmp t) None None tr"
      "map leaf_sig (bt_leaves tr) = map leaf_sig (ctx_left c @ bt_leaves T1 @ bt_leaves T2 @ ctx_right c)"
      "bt_root t6 = bt_id tr" "bt_cmp t6 = bt_cmp t" "bt_shape tr"
      using I(2) by (auto simp: split_done_def)
    let ?b8 = "bp_unpin p True (bp_unpin q True (bt_bpm t6))"
    note U = unpin_two [OF v6(1) S(4-6)]
    have "frames_kept (bt_bpm t) (bt_bpm t6)"
      by (rule frames_via [OF S(7) D(1) _ E(1), of v5 "P(q := 1, p := 1)"]) (use D5(1) in simp_all)
    then have "frames_kept (bt_bpm t) ?b8" by (rule U(2))
    moreover have "map leaf_sig (bt_leaves tr) =
        map leaf_sig (ctx_left (x # c) @ bt_leaves t1 @ bt_leaves t2 @ ctx_right (x # c))"
      using E(5) S(9) x by simp
    ultimately have "split_done t P (t6\<lparr>bt_bpm := ?b8\<rparr>) tr (ctx_left (x # c) @ bt_leaves t1 @ bt_leaves t2 @ ctx_right (x # c))"
      using v6(2) E U(1) by (auto simp: split_done_def)
    moreover have "footprint (set (bt_pids t1 @ bt_pids t2 @ ctx_pids (x # c))) (bt_bpm t) (set (bt_pids tr)) ?b8"
      unfolding x by (rule footprint_trans [OF footprint_trans [OF S(10) I(3)] U(4)])
    ultimately show ?thesis using S(1) I(1) by auto
  qed
qed

end

section \<open>A full leaf\<close>

lemma bt_leaves_distinct: "distinct (bt_pids t) \<Longrightarrow> distinct (bt_leaves t)"
proof -
  have sub: "fst ` set (bt_leaves t) \<subseteq> set (bt_pids t)" for t by (induction t) auto
  assume "distinct (bt_pids t)"
  then show ?thesis
  proof (induction t)
    case (BNode p n ts)
    have "distinct (concat (map bt_pids us)) \<Longrightarrow> \<forall>t\<in>set us. distinct (bt_leaves t) \<Longrightarrow> distinct (concat (map bt_leaves us))" for us
    proof (induction us)
      case (Cons u us)
      have "set (bt_leaves u) \<inter> set (bt_leaves s) = {}" if "s \<in> set us" for s
      proof -
        have "set (bt_pids u) \<inter> set (bt_pids s) = {}" using Cons.prems(1) that by auto
        then show ?thesis using sub [of u] sub [of s] by blast
      qed
      then show ?case using Cons by auto
    qed simp
    moreover have "distinct (concat (map bt_pids ts))" "\<forall>t\<in>set ts. distinct (bt_pids t)"
      using BNode.prems by (auto simp: distinct_concat_iff)
    ultimately show ?case using BNode.IH by simp
  qed simp
qed

lemma foldr_max_ge: "x \<in> set xs \<Longrightarrow> (x :: nat) \<le> foldr max xs 0"
  by (induction xs) (auto intro: le_max_iff_disj [THEN iffD2])

lemma bt_height_plug: "bt_height t + length c \<le> bt_height (bt_plug c t)"
proof (induction c t rule: bt_plug.induct)
  case (2 q n ls rs c t)
  have "bt_height t \<le> foldr max (map bt_height (ls @ t # rs)) 0" by (rule foldr_max_ge) simp
  then show ?case using 2 by simp
qed simp

lemma leaf_chain_split:
  "leaf_chain (ls1 @ (p, n) # ls2) \<Longrightarrow> bh_next_page_id (ln_header l) = q \<Longrightarrow>
   bh_next_page_id (ln_header r) = bh_next_page_id (ln_header n) \<Longrightarrow> leaf_chain (ls1 @ (p, l) # (q, r) # ls2)"
proof (induction ls1)
  case Nil
  then show ?case by (cases ls2) simp_all
next
  case (Cons x ls1)
  then show ?case by (cases ls1) simp_all
qed

definition left_leaf :: "u32 \<Rightarrow> u32 list \<Rightarrow> rid list \<Rightarrow> leaf_node \<Rightarrow> leaf_node" where
  "left_leaf q K R n = \<lparr>ln_header = (ln_header n)\<lparr>bh_num_keys := 203, bh_next_page_id := q\<rparr>, ln_keys = take 203 K, ln_rids = take 203 R\<rparr>"

definition right_leaf :: "u32 list \<Rightarrow> rid list \<Rightarrow> leaf_node \<Rightarrow> leaf_node" where
  "right_leaf K R n =
     \<lparr>ln_header = \<lparr>bh_node_type = kLeafNode, bh_parent_page_id = bh_parent_page_id (ln_header n), bh_num_keys = 204,
        bh_next_page_id = bh_next_page_id (ln_header n)\<rparr>, ln_keys = drop 203 K, ln_rids = drop 203 R\<rparr>"

lemma half_leaves:
  assumes "length K = 407" "length R = 407"
  shows "leaf_ok (left_leaf q K R n)" "leaf_ok (right_leaf K R n)"
    "leaf_entries (left_leaf q K R n) = take 203 (zip K R)" "leaf_entries (right_leaf K R n) = drop 203 (zip K R)"
    "LeafNode_GetKeyAt 0 (right_leaf K R n) = K ! 203"
  using assms by (simp_all add: leaf_ok_def left_leaf_def right_leaf_def leaf_entries_def LeafNode_MAX_KEYS_def take_zip drop_zip
      LeafNode_GetKeyAt_def)

context key_order begin

lemma full_leaf:
  assumes ok: "leaf_ok n" and s: "sorted_entries (leaf_entries n)" and full: "LeafNode_IsFull n"
    and pos_def: "pos = unat (LeafNode_FindKeyPosition cmp key n)"
  shows "bh_num_keys (ln_header n) = 406"
    "length (insert_at pos key (ln_keys n)) = 407" "length (insert_at pos r (ln_rids n)) = 407"
    "zip (insert_at pos key (ln_keys n)) (insert_at pos r (ln_rids n)) = entries_insert cmp (key, r) (leaf_entries n)"
proof -
  have num: "unat (bh_num_keys (ln_header n)) = 406"
    using ok full by (simp add: leaf_ok_def LeafNode_IsFull_def LeafNode_MAX_KEYS_def word_le_nat_alt)
  then show "bh_num_keys (ln_header n) = 406" by (simp add: word_unat_eq_iff)
  have pos: "pos = length (takeWhile (\<lambda>x. cmp (fst x) key < 0) (leaf_entries n))"
    using leaf_position [OF ok s] pos_def by simp
  then have "pos \<le> 406"
    using length_takeWhile_le [of "\<lambda>x. cmp (fst x) key < 0" "leaf_entries n"] leaf_ok_entries(3) [OF ok] num by simp
  then show "length (insert_at pos key (ln_keys n)) = 407" "length (insert_at pos r (ln_rids n)) = 407"
    using ok num by (simp_all add: leaf_ok_def)
  show "zip (insert_at pos key (ln_keys n)) (insert_at pos r (ln_rids n)) = entries_insert cmp (key, r) (leaf_entries n)"
    using ok pos insert_at_takeWhile [of "\<lambda>x. cmp (fst x) key < 0" "leaf_entries n" "(key, r)"]
    by (simp add: zip_insert_at leaf_ok_def leaf_entries_def entries_insert_def)
qed

text \<open>The keys of the left half are below the first of the right half when no key occurs twice.\<close>

lemma halves_order:
  assumes s: "sorted_entries es" and d: "distinct (map fst es)" and i: "i < j" "j < length es"
  shows "cmp (fst (es ! i)) (fst (es ! j)) < 0"
proof -
  have "cmp (fst (es ! i)) (fst (es ! j)) \<le> 0"
    using s i by (simp add: entries_sorted_def sorted_wrt_iff_nth_less)
  moreover have "fst (es ! i) \<noteq> fst (es ! j)" using d i by (auto simp: distinct_conv_nth)
  ultimately show ?thesis using cmp_eq by (metis order_le_less)
qed

lemma leaf_split_order:
  assumes ctx: "ctx_ord cmp None None lo hi c" "key_above cmp lo key" "key_below cmp key hi" "ctx_full 0 c"
    and n: "bt_ord cmp lo hi (BLeaf p n)" and es: "es = entries_insert cmp (key, r) (leaf_entries n)"
    and d: "distinct (map fst es)" and i: "0 < i" "i < length es"
    and l: "leaf_entries l = take i es" and rl: "leaf_entries rl = drop i es"
  shows "split_order cmp c (BLeaf p l) (fst (es ! i)) (BLeaf q rl)"
proof -
  have s: "sorted_entries es" using n sorted_entries_insert by (simp add: es)
  have in_es: "key_above cmp lo (fst e) \<and> key_below cmp (fst e) hi" if "e \<in> set es" for e
    using that n ctx(2,3) by (auto simp: es set_entries_insert)
  note H = halves_order [OF s d]
  have "key_after cmp lo (fst (es ! i))"
  proof (cases lo)
    case (Some l)
    have "es ! 0 \<in> set es" using i by (intro nth_mem) linarith
    then have "cmp l (fst (es ! 0)) \<le> 0" using in_es [of "es ! 0"] Some by simp
    then show ?thesis using H [of 0 i] i cmp_le_less Some by simp
  qed simp
  moreover have "key_below cmp (fst (es ! i)) hi" using in_es nth_mem [OF i(2)] by blast
  moreover have "\<forall>e\<in>set (take i es). cmp (fst e) (fst (es ! i)) < 0"
    using H [OF _ i(2)] by (fastforce simp: in_set_conv_nth)
  moreover have "\<forall>e\<in>set (drop i es). cmp (fst (es ! i)) (fst e) \<le> 0"
  proof
    fix e assume "e \<in> set (drop i es)"
    then obtain j where "e = es ! (i + j)" "i + j < length es" by (auto simp: in_set_conv_nth)
    then show "cmp (fst (es ! i)) (fst e) \<le> 0" using H [of i "i + j"] by (cases j) auto
  qed
  moreover have "sorted_entries (take i es)" "sorted_entries (drop i es)"
    using s sorted_entries_append [of "take i es" "drop i es"] by simp_all
  ultimately have "bt_ord cmp lo (Some (fst (es ! i))) (BLeaf p l)" "bt_ord cmp (Some (fst (es ! i))) hi (BLeaf q rl)"
    "key_after cmp lo (fst (es ! i))" "key_below cmp (fst (es ! i)) hi"
    using in_es l rl by (auto dest: in_set_takeD in_set_dropD)
  then show ?thesis using ctx(1,4) by (auto simp: split_order_def)
qed

text \<open>The leaf that \<open>Insert\<close> goes to, pinned, and its place in the tree.\<close>

lemma leaf_pinned:
  assumes inv: "btree_inv t tr" and cmp: "bt_cmp t = cmp" and find: "bt_find cmp key tr = Some (p, n)"
  obtains g b2 where "BPlusTree_FindLeafPage key t = Some (Some g, b2)" "pool_at b2 (bp_view (bt_bpm t)) ((\<lambda>_. 0)(p := 1))"
    "bp_table b2 p = Some g" "leaf_in b2 g = n" "Page_GetPageId (frame_page b2 g) = p" "leaf_ok n" "sorted_entries (leaf_entries n)"
    "free_frames b2 1" "disk_room (bp_disk b2) = disk_room (bp_disk (bt_bpm t))" "bp_pool_size b2 = bp_pool_size (bt_bpm t)"
    "bt_root t \<noteq> INVALID_PAGE_ID"
proof -
  note I = btree_invD [OF inv, unfolded cmp]
  obtain p' n' b g b2 where F: "BPlusTree_FindLeafPage key t = Some (Some g, b2)" "at_leaf b p' n' g b2" "quiet b"
    "same_frame (bt_bpm t) b" "bp_view b = bp_view (bt_bpm t)" "bt_find cmp key tr = Some (p', n')"
    "sorted_entries (leaf_entries n')" "bt_root t \<noteq> INVALID_PAGE_ID"
    by (rule find_leaf [OF inv cmp, where key = key]) (assumption | rule that; assumption)+
  have "p' = p" "n' = n" using F(6) find by simp_all
  note F = F [unfolded this] and A = at_leafD [OF F(2) [unfolded this]]
  have "bp_pins b = (\<lambda>_. 0)" using F(3) by (auto simp: quiet_def)
  then have st: "pool_at b2 (bp_view (bt_bpm t)) ((\<lambda>_. 0)(p := 1))" "bp_table b2 p = Some g"
    using F(2,5) by (simp_all add: at_leaf_def pins_only_def)
  have unp: "bp_pool_size b2 = bp_pool_size (bt_bpm t)" "disk_room (bp_disk b2) = disk_room (bp_disk (bt_bpm t))"
    using same_frame_trans [OF F(4) A(4)] by (simp_all add: same_frame_def)
  have "card (pinned_pages b2) \<le> 1"
    using st(1) card_mono [of "{p}" "pinned_pages b2"] by (auto simp: pinned_pages_def pool_at_def)
  moreover have "2 \<le> unat (bp_pool_size b2)" using I(2) unp(1) by (simp add: quiet_def)
  ultimately have "free_frames b2 1" by (simp add: free_frames_def)
  then show ?thesis using that [OF F(1) st A(1-3) F(7) _ unp(2,1) F(8)] by simp
qed

lemma leaf_context:
  assumes inv: "btree_inv t tr" and cmp: "bt_cmp t = cmp" and find: "bt_find cmp key tr = Some (p, n)"
  obtains c lo hi where "tr = bt_plug c (BLeaf p n)" "ctx_ord cmp None None lo hi c" "key_above cmp lo key"
    "key_below cmp key hi" "bt_ord cmp lo hi (BLeaf p n)" "ctx_full 0 c"
    "entries_insert cmp (key, r) (bt_entries tr) =
       leaves_entries (ctx_left c) @ entries_insert cmp (key, r) (leaf_entries n) @ leaves_entries (ctx_right c)"
proof -
  note I = btree_invD [OF inv, unfolded cmp]
  have bounds: "key_above cmp None key" "key_below cmp key None" by simp_all
  from bt_find_context(1) [OF I(6) bounds] find
  obtain c lo hi where C: "tr = bt_plug c (BLeaf p n)" "ctx_ord cmp None None lo hi c" "key_above cmp lo key"
    "key_below cmp key hi" "bt_ord cmp lo hi (BLeaf p n)" by auto
  have full: "ctx_full 0 c" using I(9) C(1) shape_plug_leaf by simp
  obtain p' n' ls1 ls2 where F: "bt_find cmp key tr = Some (p', n')" "bt_leaves tr = ls1 @ (p', n') # ls2"
    "\<forall>e\<in>set (leaves_entries ls1). cmp (fst e) key < 0" "\<forall>e\<in>set (leaves_entries ls2). cmp key (fst e) < 0"
    using bt_find_split(1) [OF I(6), of key] by blast
  have "p' = p" "n' = n" using F(1) find by simp_all
  note F = F [unfolded this]
  have "ls1 @ (p, n) # ls2 = ctx_left c @ (p, n) # ctx_right c" "distinct (ls1 @ (p, n) # ls2)"
    using F(2) C(1) bt_leaves_distinct [OF I(5)] by (simp_all add: bt_leaves_plug)
  then have "ls1 = ctx_left c \<and> ls2 = ctx_right c" by (subst (asm) append_Cons_eq_iff) simp_all
  then show ?thesis
    using that [OF C full] entries_insert_between [OF F(3,4), of r "leaf_entries n"] by (simp add: bt_entries_def F(2))
qed

text \<open>The pages after a leaf was divided: a new page \<open>q\<close> for the right half, and the left half in its old page.\<close>

lemma leaf_pages_divided:
  assumes at: "pool_at b v ((\<lambda>_. 0)(p := 1))" "bp_table b p = Some g" and page: "index_page (view_page v p) p"
    and fr: "free_frames b 1" and room: "0 < disk_room (bp_disk b)"
    and l: "\<And>q. leaf_ok (l q)" "\<And>q. bh_node_type (ln_header (l q)) = kLeafNode"
    and r: "leaf_ok rl" "bh_node_type (ln_header rl) = kLeafNode"
  obtains q h b3 v5 where "BufferPoolManager_NewPage b = (Inr (Some h), b3)" "frame_page b3 h = Page_new q" "v q = None"
    "p \<noteq> q" "q \<noteq> INVALID_PAGE_ID" "pool_at (put_leaf h rl (put_leaf g (l q) b3)) v5 ((\<lambda>_. 0)(p := 1, q := 1))"
    "leaf_at v5 p (l q)" "leaf_at v5 q rl" "bp_table (put_leaf h rl (put_leaf g (l q) b3)) p = Some g"
    "bp_table (put_leaf h rl (put_leaf g (l q) b3)) q = Some h" "\<And>x. x \<noteq> p \<Longrightarrow> x \<noteq> q \<Longrightarrow> v5 x = v x"
    "bp_pool_size (put_leaf h rl (put_leaf g (l q) b3)) = bp_pool_size b"
    "Suc (disk_room (bp_disk (put_leaf h rl (put_leaf g (l q) b3)))) = disk_room (bp_disk b)"
proof -
  obtain q h b3 where N: "BufferPoolManager_NewPage b = (Inr (Some h), b3)" "v q = None" "q \<noteq> INVALID_PAGE_ID"
    "((\<lambda>_. 0)(p := 1)) q = (0 :: nat)" "pool_at b3 (v(q \<mapsto> page_image (Page_new q))) ((\<lambda>_. 0)(p := 1, q := 1))"
    "bp_table b3 q = Some h" "frame_page b3 h = Page_new q" "frames_kept b b3" "Suc (disk_room (bp_disk b3)) = disk_room (bp_disk b)"
    by (rule new_held [OF at(1) fr room])
  have pq: "p \<noteq> q" using N(4) by (auto split: if_splits)
  let ?P = "(\<lambda>_. 0 :: nat)(p := 1, q := 1)" and ?v3 = "v(q \<mapsto> page_image (Page_new q))"
  have t3: "bp_table b3 p = Some g" by (rule frames_keptD [OF N(8) _ at(2)]) (use at(1) in \<open>simp add: pool_at_def\<close>)
  have "index_page (view_page ?v3 p) p" using page pq by (simp add: view_page_def)
  note X3 = frame_node [OF N(5) t3 this]
  let ?b4 = "put_leaf g (l q) b3"
  obtain v4 where v4: "pool_at ?b4 v4 ?P" "\<And>x. x \<noteq> p \<Longrightarrow> v4 x = ?v3 x" "leaf_at v4 p (l q)"
    "bp_table ?b4 = bp_table b3" "bp_disk ?b4 = bp_disk b3" "frames_kept b3 ?b4"
    by (rule put_leaf_held [OF N(5) t3 _ X3(2) l]) auto
  have "index_page (view_page v4 q) q"
  proof -
    have "v4 q = Some (page_image (Page_new q))" using v4(2) pq by simp
    then show ?thesis using same_node_index [OF same_node_image [OF new_page_index]] by (simp add: view_page_def)
  qed
  note X4 = frame_node [OF v4(1) _ this, of h]
  let ?b5 = "put_leaf h rl ?b4"
  obtain v5 where v5: "pool_at ?b5 v5 ?P" "\<And>x. x \<noteq> q \<Longrightarrow> v5 x = v4 x" "leaf_at v5 q rl"
    "bp_table ?b5 = bp_table ?b4" "bp_disk ?b5 = bp_disk ?b4" "frames_kept ?b4 ?b5"
    by (rule put_leaf_held [OF v4(1) _ _ _ r, of q h]) (use X4(2) v4(4) N(6) in auto)
  have "leaf_at v5 p (l q)" using v4(3) v5(2) pq leaf_at_cong [of v5 p v4] by metis
  moreover have "bp_table ?b5 p = Some g" "bp_table ?b5 q = Some h" using v5(4) v4(4) t3 N(6) by simp_all
  moreover have "bp_pool_size ?b5 = bp_pool_size b"
    using pool_size_kept [OF v5(6)] pool_size_kept [OF v4(6)] pool_size_kept [OF N(8)] by simp
  moreover have "v5 x = v x" if "x \<noteq> p" "x \<noteq> q" for x using that v5(2) v4(2) by simp
  ultimately show ?thesis using that [OF N(1,7,2) pq N(3) v5(1) _ v5(3)] v5(5) v4(5) N(9) by simp
qed

text \<open>The two halves are ready to be handed to the parent.\<close>

lemma leaf_split_ready:
  assumes inv: "btree_inv t tr" and cmp: "bt_cmp t = cmp" and C: "tr = bt_plug c (BLeaf p n)"
    and at: "pool_at b5 v5 ((\<lambda>_. 0)(p := 1, q := 1))" "leaf_at v5 p l" "leaf_at v5 q rl"
      "bp_table b5 p = Some g" "bp_table b5 q = Some h"
    and q: "bp_view (bt_bpm t) q = None" "p \<noteq> q"
    and other: "\<And>x. x \<noteq> p \<Longrightarrow> x \<noteq> q \<Longrightarrow> v5 x = bp_view (bt_bpm t) x"
    and par: "bh_parent_page_id (ln_header l) = bh_parent_page_id (ln_header n)"
      "bh_parent_page_id (ln_header rl) = bh_parent_page_id (ln_header n)"
    and size: "bp_pool_size b5 = bp_pool_size (bt_bpm t)"
  shows "split_ready (t\<lparr>bt_bpm := b5\<rparr>) v5 ((\<lambda>_. 0)(p := 1, q := 1)) g h c (BLeaf p l) (BLeaf q rl)"
    "footprint (set (bt_pids tr)) (bt_bpm t) (set (p # q # ctx_pids c)) b5"
proof -
  note I = btree_invD [OF inv, unfolded cmp]
  have ctx: "ctx_at (bp_view (bt_bpm t)) c p" using I(4) C by (simp add: bt_at_plug)
  have d: "distinct (p # ctx_pids c)" using I(5) C by (simp add: distinct_plug)
  have qc: "q \<notin> set (ctx_pids c)" using ctx_at_dom [OF ctx, of q] q(1) by auto
  have "bh_parent_page_id (ln_header n) = ctx_par c" "ctx_parents c" using I(8) C by (simp_all add: bt_parents_plug)
  moreover have "ctx_at v5 c p" by (rule ctx_at_other [OF ctx], rule other) (use d qc in auto)
  moreover have "bt_root t = bt_id (bt_plug c (BLeaf p l))"
    using I(3) C bt_id_plug [of c] by (cases c) (simp, metis list.distinct(1))
  ultimately show "split_ready (t\<lparr>bt_bpm := b5\<rparr>) v5 ((\<lambda>_. 0)(p := 1, q := 1)) g h c (BLeaf p l) (BLeaf q rl)"
    using at q(2) d qc par by (auto simp: split_ready_def)
  have "v5 x = bp_view (bt_bpm t) x" if "x \<notin> set (bt_pids tr)" "bp_view (bt_bpm t) x \<noteq> None" for x
    by (rule other) (use that C q(1) in \<open>auto simp: set_bt_pids_plug\<close>)
  then show "footprint (set (bt_pids tr)) (bt_bpm t) (set (p # q # ctx_pids c)) b5"
    using q(1) C at(1) size by (auto simp: footprint_def set_bt_pids_plug pool_at_def)
qed

text \<open>A full leaf and its right half are written, and the parent has to learn of them.\<close>

lemma leaf_divided:
  assumes inv: "btree_inv t tr" and cmp: "bt_cmp t = cmp" and find: "bt_find cmp key tr = Some (p, n)"
    and full: "LeafNode_IsFull n"
    and room: "0 < disk_room (bp_disk (bt_bpm t))" and es_def: "es = entries_insert cmp (key, r) (leaf_entries n)"
  obtains q g h b5 v5 c l rl where
    "BPlusTree_Insert key r t = Option.bind (BPlusTree_InsertIntoParent g (fst (es ! 203)) h (t\<lparr>bt_bpm := b5\<rparr>)) (\<lambda>(res, t4).
       case res of Inl e \<Rightarrow> Some (Inl e, t4)
       | Inr _ \<Rightarrow> Some (Inr True, t4\<lparr>bt_bpm := bp_unpin q True (bp_unpin p True (bt_bpm t4))\<rparr>))"
    "split_ready (t\<lparr>bt_bpm := b5\<rparr>) v5 ((\<lambda>_. 0)(p := 1, q := 1)) g h c (BLeaf p l) (BLeaf q rl)"
    "distinct (map fst es) \<Longrightarrow> split_order cmp c (BLeaf p l) (fst (es ! 203)) (BLeaf q rl)" "tr = bt_plug c (BLeaf p n)" "p \<noteq> q"
    "leaf_entries l = take 203 es" "leaf_entries rl = drop 203 es" "bh_next_page_id (ln_header l) = q"
    "bh_next_page_id (ln_header rl) = bh_next_page_id (ln_header n)" "bp_pool_size b5 = bp_pool_size (bt_bpm t)"
    "Suc (disk_room (bp_disk b5)) = disk_room (bp_disk (bt_bpm t))"
    "entries_insert cmp (key, r) (bt_entries tr) = leaves_entries (ctx_left c) @ es @ leaves_entries (ctx_right c)"
    "length es = 407" "sorted_entries es"
    "footprint (set (bt_pids tr)) (bt_bpm t) (set (p # q # ctx_pids c)) b5"
proof -
  note I = btree_invD [OF inv, unfolded cmp]
  let ?v = "bp_view (bt_bpm t)"
  obtain g b2 where F: "BPlusTree_FindLeafPage key t = Some (Some g, b2)" "pool_at b2 ?v ((\<lambda>_. 0)(p := 1))"
    "bp_table b2 p = Some g" "leaf_in b2 g = n" "Page_GetPageId (frame_page b2 g) = p" "leaf_ok n" "sorted_entries (leaf_entries n)"
    "free_frames b2 1" "disk_room (bp_disk b2) = disk_room (bp_disk (bt_bpm t))" "bp_pool_size b2 = bp_pool_size (bt_bpm t)"
    "bt_root t \<noteq> INVALID_PAGE_ID"
    by (rule leaf_pinned [OF inv cmp find])
  obtain c lo hi where C: "tr = bt_plug c (BLeaf p n)" "ctx_ord cmp None None lo hi c" "key_above cmp lo key"
    "key_below cmp key hi" "bt_ord cmp lo hi (BLeaf p n)" "ctx_full 0 c"
    "entries_insert cmp (key, r) (bt_entries tr) = leaves_entries (ctx_left c) @ es @ leaves_entries (ctx_right c)"
    unfolding es_def by (rule leaf_context [OF inv cmp find])
  define pos where "pos = unat (LeafNode_FindKeyPosition cmp key n)"
  define K where "K = insert_at pos key (ln_keys n)"
  define R where "R = insert_at pos r (ln_rids n)"
  note L = full_leaf(1,2) [OF F(6,7) full pos_def, folded K_def] full_leaf(3,4) [OF F(6,7) full pos_def, of r, folded K_def R_def es_def]
  note H = half_leaves [OF L(2,3), unfolded L(4)]
  have fK: "fst (es ! 203) = K ! 203" and les: "length es = 407" using L(2,3,4) by (simp_all flip: L(4))
  let ?l = "\<lambda>q. left_leaf q K R n" and ?r = "right_leaf K R n"
  have at: "leaf_at ?v p n" using I(4) C(1) by (simp add: bt_at_plug)
  have ty: "bh_node_type (ln_header (?l q)) = kLeafNode" "bh_node_type (ln_header ?r) = kLeafNode" for q
    using at by (simp_all add: left_leaf_def right_leaf_def leaf_at_def leaf_node_at_def)
  have room2: "0 < disk_room (bp_disk b2)" and page: "index_page (view_page ?v p) p"
    using room F(9) leaf_at_page [OF at] by simp_all
  obtain q h b3 v5 where N: "BufferPoolManager_NewPage b2 = (Inr (Some h), b3)" "frame_page b3 h = Page_new q" "?v q = None"
    "p \<noteq> q" "q \<noteq> INVALID_PAGE_ID" "pool_at (put_leaf h ?r (put_leaf g (?l q) b3)) v5 ((\<lambda>_. 0)(p := 1, q := 1))"
    "leaf_at v5 p (?l q)" "leaf_at v5 q ?r" "bp_table (put_leaf h ?r (put_leaf g (?l q) b3)) p = Some g"
    "bp_table (put_leaf h ?r (put_leaf g (?l q) b3)) q = Some h" "\<And>x. x \<noteq> p \<Longrightarrow> x \<noteq> q \<Longrightarrow> v5 x = ?v x"
    "bp_pool_size (put_leaf h ?r (put_leaf g (?l q) b3)) = bp_pool_size b2"
    "Suc (disk_room (bp_disk (put_leaf h ?r (put_leaf g (?l q) b3)))) = disk_room (bp_disk b2)"
    by (rule leaf_pages_divided [where l = ?l, OF F(2,3) page F(8) room2 H(1) ty(1) H(2) ty(2)]) (assumption | rule that; assumption)+
  let ?b5 = "put_leaf h ?r (put_leaf g (?l q) b3)" and ?c = "BLeaf p (?l q)" and ?d = "BLeaf q ?r"
  have size: "bp_pool_size ?b5 = bp_pool_size (bt_bpm t)" using N(12) F(10) by simp
  have par: "bh_parent_page_id (ln_header (?l q)) = bh_parent_page_id (ln_header n)"
    "bh_parent_page_id (ln_header ?r) = bh_parent_page_id (ln_header n)" by (simp_all add: left_leaf_def right_leaf_def)
  note ready = leaf_split_ready [OF inv cmp C(1) N(6-10) N(3,4) N(11) par size]
  have order: "split_order cmp c ?c (fst (es ! 203)) ?d" if "distinct (map fst es)"
    using leaf_split_order [OF C(2-4,6,5) es_def that, of 203 "?l q" ?r q] H(3,4) les by simp
  have call: "BPlusTree_Insert key r t = Option.bind (BPlusTree_InsertIntoParent g (fst (es ! 203)) h (t\<lparr>bt_bpm := ?b5\<rparr>)) (\<lambda>(res, t4).
       case res of Inl e \<Rightarrow> Some (Inl e, t4)
       | Inr _ \<Rightarrow> Some (Inr True, t4\<lparr>bt_bpm := bp_unpin q True (bp_unpin p True (bt_bpm t4))\<rparr>))"
  proof -
    have ins: "LeafNode_Insert cmp key r n = (False, n)" using full by (simp add: LeafNode_Insert_def)
    have l: "n\<lparr>ln_header := (ln_header n)\<lparr>bh_num_keys := 203, bh_next_page_id := q\<rparr>, ln_keys := take 203 K, ln_rids := take 203 R\<rparr> = ?l q"
      by (cases n) (simp add: left_leaf_def)
    have mid: "of_nat (length K div 2) = (203 :: u16)" "of_nat (length K - 203) = (204 :: u16)" using L(2) by simp_all
    have new_id: "Page_GetPageId (Page_new q) = q" by (simp add: Page_GetPageId_def)
    show ?thesis
      by (simp add: BPlusTree_Insert_def Let_def F(1,11) F(4,5) cmp ins N(1,2) new_id mid l
        pos_def [symmetric] K_def [symmetric] R_def [symmetric] right_leaf_def [symmetric] H(5) fK cong: sum.case_cong)
  qed
  have "sorted_entries es" unfolding es_def by (rule sorted_entries_insert [OF F(7)])
  moreover have "Suc (disk_room (bp_disk ?b5)) = disk_room (bp_disk (bt_bpm t))" using N(13) F(9) by simp
  ultimately show ?thesis
    using that [OF call ready(1) order C(1) N(4) H(3,4) _ _ size _ C(7) les _ ready(2)]
    by (simp add: left_leaf_def right_leaf_def)
qed

lemma insert_split:
  assumes inv: "btree_inv t tr" and cmp: "bt_cmp t = cmp" and find: "bt_find cmp key tr = Some (p, n)"
    and full: "LeafNode_IsFull n" and uniq: "distinct (map fst (bt_entries tr))" "key \<notin> fst ` set (bt_entries tr)"
    and frames: "2 * bt_height tr + 3 \<le> unat (bp_pool_size (bt_bpm t))"
    and room: "bt_height tr + 2 \<le> disk_room (bp_disk (bt_bpm t))"
  obtains t' tr' where "BPlusTree_Insert key r t = Some (Inr True, t')" "btree_inv t' tr'"
    "bt_entries tr' = entries_insert cmp (key, r) (bt_entries tr)" "bt_cmp t' = cmp"
    "footprint (set (bt_pids tr)) (bt_bpm t) (set (bt_pids tr')) (bt_bpm t')"
proof -
  note I = btree_invD [OF inv, unfolded cmp]
  have room1: "0 < disk_room (bp_disk (bt_bpm t))" using room by simp
  let ?es = "entries_insert cmp (key, r) (leaf_entries n)"
  let ?k = "fst (?es ! 203)"
  obtain q g h b5 v5 c l rl where S:
    "BPlusTree_Insert key r t = Option.bind (BPlusTree_InsertIntoParent g ?k h (t\<lparr>bt_bpm := b5\<rparr>)) (\<lambda>(res, t4).
       case res of Inl e \<Rightarrow> Some (Inl e, t4)
       | Inr _ \<Rightarrow> Some (Inr True, t4\<lparr>bt_bpm := bp_unpin q True (bp_unpin p True (bt_bpm t4))\<rparr>))"
    "split_ready (t\<lparr>bt_bpm := b5\<rparr>) v5 ((\<lambda>_. 0)(p := 1, q := 1)) g h c (BLeaf p l) (BLeaf q rl)"
    "distinct (map fst ?es) \<Longrightarrow> split_order cmp c (BLeaf p l) ?k (BLeaf q rl)" "tr = bt_plug c (BLeaf p n)" "p \<noteq> q"
    "leaf_entries l = take 203 (entries_insert cmp (key, r) (leaf_entries n))"
    "leaf_entries rl = drop 203 (entries_insert cmp (key, r) (leaf_entries n))" "bh_next_page_id (ln_header l) = q"
    "bh_next_page_id (ln_header rl) = bh_next_page_id (ln_header n)" "bp_pool_size b5 = bp_pool_size (bt_bpm t)"
    "Suc (disk_room (bp_disk b5)) = disk_room (bp_disk (bt_bpm t))"
    "entries_insert cmp (key, r) (bt_entries tr) =
       leaves_entries (ctx_left c) @ entries_insert cmp (key, r) (leaf_entries n) @ leaves_entries (ctx_right c)"
    "footprint (set (bt_pids tr)) (bt_bpm t) (set (p # q # ctx_pids c)) b5"
    by (rule leaf_divided [OF inv cmp find full room1 refl, of r]) (assumption | rule that; assumption)+
  have "distinct (map fst (entries_insert cmp (key, r) (bt_entries tr)))"
  proof -
    have "mset (map fst (entries_insert cmp (key, r) (bt_entries tr))) = mset (key # map fst (bt_entries tr))"
      by (simp add: mset_entries_insert)
    moreover have "distinct (key # map fst (bt_entries tr))" using uniq by simp
    ultimately show ?thesis using mset_eq_imp_distinct_iff by blast
  qed
  then have des: "distinct (map fst ?es)" using S(12) by simp
  note S3 = S(3) [OF des]
  let ?c = "BLeaf p l" and ?d = "BLeaf q rl" and ?P = "(\<lambda>_. 0 :: nat)(p := 1, q := 1)" and ?t5 = "t\<lparr>bt_bpm := b5\<rparr>"
  have len: "length c \<le> bt_height tr" using bt_height_plug [of "BLeaf p n" c] S(4) by simp
  have "pinned_pages b5 \<subseteq> {p, q}" using split_readyD(1) [OF S(2)] by (auto simp: pool_at_def pinned_pages_def split: if_splits)
  then have "card (pinned_pages b5) \<le> 2" using card_mono [of "{p, q}" "pinned_pages b5"] S(5) by simp
  then have "free_frames b5 (2 * length c + 1)" using frames len S(10) by (simp add: free_frames_def)
  moreover have "length c < disk_room (bp_disk b5)" using S(11) room len by simp
  ultimately obtain t6 tr' where J: "BPlusTree_InsertIntoParent g ?k h ?t5 = Some (Inr (), t6)"
    "split_done ?t5 ?P t6 tr' (ctx_left c @ bt_leaves ?c @ bt_leaves ?d @ ctx_right c)"
    "footprint (set (bt_pids ?c @ bt_pids ?d @ ctx_pids c)) b5 (set (bt_pids tr')) (bt_bpm t6)"
    using insert_into_parent [OF S(2), of ?k] S3 cmp by auto
  obtain v6 where v6: "pool_at (bt_bpm t6) v6 ?P" "bt_at v6 tr'" and
    E: "frames_kept b5 (bt_bpm t6)" "bt_parents INVALID_PAGE_ID tr'" "distinct (bt_pids tr')" "bt_ord cmp None None tr'"
      "map leaf_sig (bt_leaves tr') = map leaf_sig (ctx_left c @ bt_leaves ?c @ bt_leaves ?d @ ctx_right c)"
      "bt_root t6 = bt_id tr'" "bt_cmp t6 = cmp" "bt_shape tr'"
    using J(2) cmp by (auto simp: split_done_def)
  let ?b8 = "bp_unpin q True (bp_unpin p True (bt_bpm t6))"
  note U = unpin_two [OF v6(1) refl refl S(5) [symmetric]]
  note p8 = U(1)
  have size8: "bp_pool_size ?b8 = bp_pool_size (bt_bpm t)" using U(3) pool_size_kept [OF E(1)] S(10) by simp
  have "quiet ?b8" using p8 size8 frames by (simp add: quiet_def pool_at_def)
  moreover have "bt_leaves tr = ctx_left c @ (p, n) # ctx_right c" using S(4) by (simp add: bt_leaves_plug)
  then have "leaf_chain (ctx_left c @ (p, l) # (q, rl) # ctx_right c)"
    using leaf_chain_split [of "ctx_left c" p n "ctx_right c" l q rl] I(7) S(8,9) by simp
  then have "leaf_chain (bt_leaves tr')" using leaf_chain_sig [OF E(5)] by simp
  ultimately have "btree_inv (t6\<lparr>bt_bpm := ?b8\<rparr>) tr'"
    using E v6(2) p8 I(1) by (simp add: btree_inv_def pool_at_def)
  moreover have "bt_entries tr' = entries_insert cmp (key, r) (bt_entries tr)"
  proof -
    have "bt_entries tr' = leaves_entries (ctx_left c @ bt_leaves ?c @ bt_leaves ?d @ ctx_right c)"
      unfolding bt_entries_def by (rule leaves_entries_sig [OF E(5)])
    then show ?thesis using S(6,7,12) by (simp add: append_assoc [symmetric] del: append_assoc)
  qed
  moreover have "BPlusTree_Insert key r t = Some (Inr True, t6\<lparr>bt_bpm := ?b8\<rparr>)" using S(1) J(1) by simp
  moreover have "footprint (set (bt_pids tr)) (bt_bpm t) (set (bt_pids tr')) ?b8"
    by (rule footprint_trans [OF S(13) footprint_trans [OF _ U(4)]]) (use J(3) in simp)
  ultimately show ?thesis using that E(7) by simp
qed

lemma insert_first:
  assumes q: "quiet (bt_bpm t)" and cmp: "bt_cmp t = cmp" and root: "bt_root t = INVALID_PAGE_ID"
    and room: "0 < disk_room (bp_disk (bt_bpm t))"
  obtains t' p n where "BPlusTree_Insert key r t = Some (Inr True, t')" "btree_inv t' (BLeaf p n)"
    "leaf_entries n = [(key, r)]" "bt_cmp t' = cmp"
    "Suc (disk_room (bp_disk (bt_bpm t'))) = disk_room (bp_disk (bt_bpm t))" "bp_pool_size (bt_bpm t') = bp_pool_size (bt_bpm t)"
    "footprint {} (bt_bpm t) {p} (bt_bpm t')"
proof -
  have at: "pool_at (bt_bpm t) (bp_view (bt_bpm t)) (\<lambda>_. 0)" "free_frames (bt_bpm t) 1"
    using q pool_at_quiet [of "bt_bpm t"] free_frames_mono [of "bt_bpm t" 2 1] by simp_all
  obtain p f b1 where N: "BufferPoolManager_NewPage (bt_bpm t) = (Inr (Some f), b1)" "bp_view (bt_bpm t) p = None" "p \<noteq> INVALID_PAGE_ID"
    "pool_at b1 ((bp_view (bt_bpm t))(p \<mapsto> page_image (Page_new p))) ((\<lambda>_. 0)(p := 1))" "bp_table b1 p = Some f"
    "frame_page b1 f = Page_new p" "frames_kept (bt_bpm t) b1" "Suc (disk_room (bp_disk b1)) = disk_room (bp_disk (bt_bpm t))"
    by (rule new_held [OF at room])
  let ?n0 = "\<lparr>ln_header = \<lparr>bh_node_type = kLeafNode, bh_parent_page_id = INVALID_PAGE_ID, bh_num_keys = 0,
    bh_next_page_id = INVALID_PAGE_ID\<rparr>, ln_keys = [], ln_rids = []\<rparr>"
  have n0: "leaf_ok ?n0" "sorted_entries (leaf_entries ?n0)" "\<not> LeafNode_IsFull ?n0"
    by (simp_all add: leaf_ok_def leaf_entries_def LeafNode_IsFull_def LeafNode_MAX_KEYS_def)
  obtain n where n: "LeafNode_Insert cmp key r ?n0 = (True, n)" "leaf_ok n"
    "leaf_entries n = entries_insert cmp (key, r) (leaf_entries ?n0)"
    "ln_header n = (ln_header ?n0)\<lparr>bh_num_keys := bh_num_keys (ln_header ?n0) + 1\<rparr>"
    by (rule leaf_insert [OF n0])
  have es: "leaf_entries n = [(key, r)]" using n(3) by (simp add: leaf_entries_def entries_insert_def)
  have ty: "bh_node_type (ln_header n) = kLeafNode" using n(4) by simp
  have "index_page (frame_page b1 f) p" using N(6) by (simp add: index_page_def)
  from put_leaf_held [OF N(4,5) _ this n(2) ty]
  obtain v2 where v2: "pool_at (put_leaf f n b1) v2 ((\<lambda>_. 0)(p := 1))" "leaf_at v2 p n"
    "bp_disk (put_leaf f n b1) = bp_disk b1" "frames_kept b1 (put_leaf f n b1)"
    "\<And>q. q \<noteq> p \<Longrightarrow> v2 q = ((bp_view (bt_bpm t))(p \<mapsto> page_image (Page_new p))) q" by auto
  let ?b3 = "bp_unpin p True (put_leaf f n b1)" and ?t = "t\<lparr>bt_root := p, bt_bpm := bp_unpin p True (put_leaf f n b1)\<rparr>"
  note U = unpin_held [OF v2(1) refl, of p]
  have size: "bp_pool_size ?b3 = bp_pool_size (bt_bpm t)"
    using pool_size_kept [OF v2(4)] pool_size_kept [OF N(7)] by simp
  have "((\<lambda>_. 0 :: nat)(p := 1))(p := ((\<lambda>_. 0)(p := 1)) p - 1) = (\<lambda>_. 0)" by auto
  then have p3: "pool_at ?b3 v2 (\<lambda>_. 0)" using U(1) by simp
  then have "quiet ?b3" using q size by (simp add: quiet_def pool_at_def)
  then have "btree_inv ?t (BLeaf p n)"
    using p3 v2(2) es cmp n(4) key_order_axioms
    by (simp add: btree_inv_def pool_at_def sorted_entries_Cons)
  moreover have "BPlusTree_Insert key r t = Some (Inr True, ?t)"
    using N(1,6) root n(1) cmp by (simp add: BPlusTree_Insert_def Let_def Page_GetPageId_def)
  moreover have "footprint {} (bt_bpm t) {p} ?b3"
    using p3 v2(5) N(2) size by (intro footprint_new) (auto simp: pool_at_def)
  ultimately show ?thesis using that es cmp size v2(3) N(8) by simp
qed

end

end
