(* ===== verification/BTreeProps.thy ===== *)
theory BTreeProps
  imports BTreeInsertion HeapSpec
begin

text \<open>
  The properties of the index: every operation against the ordered list of its entries, the map from keys to
  record ids a client with unique keys sees, and what happens when a split finds no frame.
\<close>

section \<open>Height\<close>

text \<open>Every level multiplies the number of leaves by 254, and a page id has 32 bits.\<close>

lemma foldr_max_const: "xs \<noteq> [] \<Longrightarrow> \<forall>x\<in>set xs. x = h \<Longrightarrow> foldr max xs 0 = (h :: nat)"
proof (induction xs)
  case (Cons x xs)
  then show ?case by (cases "xs = []") auto
qed simp

lemma concat_length_ge: "\<forall>t\<in>set ts. m \<le> length (f t) \<Longrightarrow> length ts * m \<le> length (concat (map f ts))"
  by (induction ts) auto

lemma full_height: "bt_full h t \<Longrightarrow> bt_height t = h"
proof (induction t arbitrary: h)
  case (BNode p n ts)
  then obtain k where k: "h = Suc k" "254 \<le> length ts" "\<forall>t\<in>set ts. bt_full k t" by (cases h) auto
  then have "map bt_height ts \<noteq> []" "\<forall>x\<in>set (map bt_height ts). x = k" using BNode.IH by auto
  then show ?case using k(1) foldr_max_const by simp
qed simp

lemma full_leaves: "bt_full h t \<Longrightarrow> 254 ^ h \<le> length (bt_leaves t)"
proof (induction t arbitrary: h)
  case (BNode p n ts)
  then obtain k where k: "h = Suc k" "254 \<le> length ts" "\<forall>t\<in>set ts. bt_full k t" by (cases h) auto
  have "254 * 254 ^ k \<le> length ts * 254 ^ k" by (rule mult_le_mono1 [OF k(2)])
  also have "\<dots> \<le> length (concat (map bt_leaves ts))" using BNode.IH k(3) by (intro concat_length_ge) blast
  finally show ?case by (simp only: k(1) power_Suc bt_leaves.simps)
qed simp

lemma leaves_le_pids: "length (bt_leaves t) \<le> length (bt_pids t)"
proof (induction t)
  case (BNode p n ts)
  have "(\<forall>t\<in>set us. length (bt_leaves t) \<le> length (bt_pids t)) \<Longrightarrow>
      length (concat (map bt_leaves us)) \<le> length (concat (map bt_pids us))" for us
    by (induction us) auto
  then show ?case using BNode by (simp add: le_SucI)
qed simp

lemma shape_leaves: "bt_shape t \<Longrightarrow> 0 < bt_height t \<Longrightarrow> 2 * 254 ^ (bt_height t - 1) \<le> length (bt_leaves t)"
proof (cases t)
  case (BNode p n ts)
  assume "bt_shape t"
  then obtain h where h: "2 \<le> length ts" "\<forall>t\<in>set ts. bt_full h t" using BNode by auto
  then have "map bt_height ts \<noteq> []" "\<forall>x\<in>set (map bt_height ts). x = h" using full_height by auto
  then have "bt_height t = Suc h" using BNode foldr_max_const by simp
  moreover have "\<forall>t\<in>set ts. 254 ^ h \<le> length (bt_leaves t)" using h(2) full_leaves by blast
  then have "2 * 254 ^ h \<le> length (concat (map bt_leaves ts))"
    by (rule order.trans [OF mult_le_mono1 [OF h(1)] concat_length_ge])
  ultimately show ?thesis by (simp only: BNode diff_Suc_1 bt_leaves.simps)
qed simp

lemma btree_height:
  assumes "btree_inv t tr"
  shows "bt_height tr \<le> 4"
proof (rule ccontr)
  assume h: "\<not> bt_height tr \<le> 4"
  have "card (set (bt_pids tr)) \<le> card (UNIV :: u32 set)" by (intro card_mono) simp_all
  then have "length (bt_pids tr) \<le> 4294967296" using btree_invD(5) [OF assms] by (simp add: distinct_card card_word)
  then have "length (bt_leaves tr) \<le> 4294967296" using leaves_le_pids [of tr] by simp
  moreover have "(254 :: nat) ^ 4 \<le> 254 ^ (bt_height tr - 1)" using h by (intro power_increasing) simp_all
  then have "2 * (254 :: nat) ^ 4 \<le> 2 * 254 ^ (bt_height tr - 1)" by simp
  ultimately show False using shape_leaves [OF btree_invD(9) [OF assms]] h by simp
qed

section \<open>An index, empty or not\<close>

definition btree_of :: "btree \<Rightarrow> bt option \<Rightarrow> bool" where
  "btree_of t T \<longleftrightarrow>
     (case T of
        None \<Rightarrow> bt_root t = INVALID_PAGE_ID \<and> quiet (bt_bpm t) \<and> key_order (bt_cmp t)
      | Some tr \<Rightarrow> btree_inv t tr)"

definition tree_entries :: "bt option \<Rightarrow> entry list" where
  "tree_entries T = (case T of None \<Rightarrow> [] | Some tr \<Rightarrow> bt_entries tr)"

definition tree_pids :: "bt option \<Rightarrow> u32 set" where
  "tree_pids T = (case T of None \<Rightarrow> {} | Some tr \<Rightarrow> set (bt_pids tr))"

lemma tree_pids_simps [simp]: "tree_pids None = {}" "tree_pids (Some tr) = set (bt_pids tr)"
  by (simp_all add: tree_pids_def)

lemma btree_of_simps [simp]:
  "btree_of t None \<longleftrightarrow> bt_root t = INVALID_PAGE_ID \<and> quiet (bt_bpm t) \<and> key_order (bt_cmp t)"
  "btree_of t (Some tr) = btree_inv t tr" "tree_entries None = []" "tree_entries (Some tr) = bt_entries tr"
  by (simp_all add: btree_of_def tree_entries_def)

lemma btree_of_order: "btree_of t T \<Longrightarrow> key_order (bt_cmp t)"
  by (cases T) (auto dest: btree_invD(1))

text \<open>An index on pages of its own.\<close>

definition index_on :: "btree \<Rightarrow> bt option \<Rightarrow> u32 set \<Rightarrow> bpm \<Rightarrow> bool" where
  "index_on t T S b \<longleftrightarrow> S = tree_pids T \<and> btree_of (t\<lparr>bt_bpm := b\<rparr>) T"

interpretation index_client: pool_client "index_on t T" for t T
proof unfold_locales
  fix S b p assume i: "index_on t T S b" "p \<in> S"
  then obtain tr where "T = Some tr" "p \<in> set (bt_pids tr)" by (cases T) (auto simp: index_on_def)
  moreover from this have "bt_at (bp_view b) tr" using i(1) btree_invD(4) [of "t\<lparr>bt_bpm := b\<rparr>" tr] by (simp add: index_on_def)
  ultimately show "bp_view b p \<noteq> None" using bt_at_dom by simp
next
  fix S b b' assume i: "index_on t T S b" "quiet b'" and v: "\<And>p. p \<in> S \<Longrightarrow> bp_view b' p = bp_view b p"
  show "index_on t T S b'"
  proof (cases T)
    case (Some tr)
    then have inv: "btree_inv (t\<lparr>bt_bpm := b\<rparr>) tr" and S: "S = set (bt_pids tr)" using i(1) by (simp_all add: index_on_def)
    have "bt_at (bp_view b) tr" using btree_invD(4) [OF inv] by simp
    then have "bt_at (bp_view b') tr" by (rule bt_at_other) (rule v, simp add: S)
    then show ?thesis using i Some inv by (simp add: index_on_def btree_inv_def)
  qed (use i in \<open>simp add: index_on_def\<close>)
qed

text \<open>
  What an insertion needs: a page for the first leaf; room in the leaf of the key; or, for a split, no key twice, and
  11 frames and 6 disk pages. This is two frames for every level and three more, a disk page for every node on the
  way and a new root, for a tree of height at most 4.
\<close>

definition insert_ok :: "btree \<Rightarrow> bt option \<Rightarrow> u32 \<Rightarrow> bool" where
  "insert_ok t T key \<longleftrightarrow>
     (case T of
        None \<Rightarrow> 0 < disk_room (bp_disk (bt_bpm t))
      | Some tr \<Rightarrow>
          (case bt_find (bt_cmp t) key tr of
             None \<Rightarrow> False
           | Some (p, n) \<Rightarrow> \<not> LeafNode_IsFull n \<or>
               distinct (map fst (bt_entries tr)) \<and> key \<notin> fst ` set (bt_entries tr) \<and>
               11 \<le> unat (bp_pool_size (bt_bpm t)) \<and> 6 \<le> disk_room (bp_disk (bt_bpm t))))"

lemma insert_step:
  assumes of: "btree_of t T" and ok: "insert_ok t T key"
  obtains t' tr where "BPlusTree_Insert key r t = Some (Inr True, t')" "btree_inv t' tr"
    "bt_entries tr = entries_insert (bt_cmp t) (key, r) (tree_entries T)" "bt_cmp t' = bt_cmp t"
    "footprint (tree_pids T) (bt_bpm t) (set (bt_pids tr)) (bt_bpm t')"
proof (cases T)
  case None
  show ?thesis
    by (rule key_order.insert_first [OF btree_of_order [OF of] _ refl, where key = key and r = r])
      (use of ok None that in \<open>auto simp: insert_ok_def bt_entries_def leaves_entries_def entries_insert_def\<close>)
next
  case (Some tr)
  note ord = btree_of_order [OF of]
  have inv: "btree_inv t tr" using of Some by simp
  obtain p n where find: "bt_find (bt_cmp t) key tr = Some (p, n)"
    using ok Some by (auto simp: insert_ok_def split: option.splits)
  show ?thesis
  proof (cases "LeafNode_IsFull n")
    case False
    show ?thesis
      by (rule key_order.insert_room [OF ord inv refl, where key = key and r = r]) (use that find False Some in auto)
  next
    case True
    show ?thesis
      by (rule key_order.insert_split [OF ord inv refl find True, where r = r])
        (use ok find True Some that btree_height [OF inv] in \<open>auto simp: insert_ok_def\<close>)
  qed
qed

lemma lookup_step:
  assumes of: "btree_of t T"
  obtains b where "BPlusTree_Lookup key t = Some (entries_find key (tree_entries T), t\<lparr>bt_bpm := b\<rparr>)"
    "btree_of (t\<lparr>bt_bpm := b\<rparr>) T" "same_frame (bt_bpm t) b" "bp_view b = bp_view (bt_bpm t)"
proof (cases T)
  case None
  then show ?thesis
    using of that [of "bt_bpm t"] quietD(1) by (simp add: BPlusTree_Lookup_def entries_find_def same_frame_def)
next
  case (Some tr)
  have inv: "btree_inv t tr" using of Some by simp
  show ?thesis
    by (rule key_order.lookup_correct [OF btree_of_order [OF of] inv refl, where key = key])
      (use that key_order.same_view_inv [OF btree_of_order [OF of] inv] Some in simp)
qed

lemma range_step:
  assumes of: "btree_of t T"
  obtains b where "BPlusTree_RangeScan low high t = Some (entries_range (bt_cmp t) low high (tree_entries T), t\<lparr>bt_bpm := b\<rparr>)"
    "btree_of (t\<lparr>bt_bpm := b\<rparr>) T" "same_frame (bt_bpm t) b" "bp_view b = bp_view (bt_bpm t)"
proof (cases T)
  case None
  then show ?thesis
    using of that [of "bt_bpm t"] quietD(1) by (simp add: BPlusTree_RangeScan_def same_frame_def)
next
  case (Some tr)
  have inv: "btree_inv t tr" using of Some by simp
  show ?thesis
    by (rule key_order.range_scan_correct [OF btree_of_order [OF of] inv refl, where low = low and high = high])
      (use that key_order.same_view_inv [OF btree_of_order [OF of] inv] Some in simp)
qed

lemma delete_step:
  assumes of: "btree_of t T"
  obtains t' T' where "BPlusTree_Delete key r t = Some ((key, r) \<in> set (tree_entries T), t')" "btree_of t' T'"
    "tree_entries T' = remove1 (key, r) (tree_entries T)" "bt_cmp t' = bt_cmp t" "bt_root t' = bt_root t"
    "footprint (tree_pids T) (bt_bpm t) (tree_pids T') (bt_bpm t')"
proof (cases T)
  case None
  then show ?thesis using of that [of t None] by (simp add: BPlusTree_Delete_def)
next
  case (Some tr)
  have inv: "btree_inv t tr" using of Some by simp
  show ?thesis
    by (rule key_order.delete_correct [OF btree_of_order [OF of] inv refl, where key = key and r = r])
      (use that [of _ "Some _"] Some in simp)
qed

section \<open>Concrete indexes\<close>

text \<open>An index without entries on a pool of \<open>k\<close> frames over a new disk.\<close>

definition new_index :: "u32 \<Rightarrow> btree" where
  "new_index k = BPlusTree_new (BufferPoolManager_new k new_disk) INVALID_PAGE_ID DefaultKeyComparator"

lemma new_index:
  assumes "2 \<le> unat k"
  shows "btree_of (new_index k) None" "bt_cmp (new_index k) = DefaultKeyComparator"
    "disk_room (bp_disk (bt_bpm (new_index k))) = disk_room new_disk" "bp_pool_size (bt_bpm (new_index k)) = k"
proof -
  have d: "disk_inv new_disk" "\<forall>p\<in>disk_used new_disk - {0}. image_ok (disk_page new_disk p)" by simp_all
  have "bpm_inv (BufferPoolManager_new k new_disk)" by (rule new_pool_inv [OF d])
  moreover have "bp_pins (BufferPoolManager_new k new_disk) q = 0" for q by (simp add: bp_pins_def BufferPoolManager_new_def)
  ultimately show "btree_of (new_index k) None" "bt_cmp (new_index k) = DefaultKeyComparator"
    "disk_room (bp_disk (bt_bpm (new_index k))) = disk_room new_disk" "bp_pool_size (bt_bpm (new_index k)) = k"
    using assms default_order.key_order_axioms
    by (simp_all add: new_index_def BPlusTree_new_def quiet_def) (simp_all add: BufferPoolManager_new_def)
qed

lemma single_leaf_room:
  assumes inv: "btree_inv t tr" and n: "length (bt_entries tr) < 406"
    and leaf: "tr = BLeaf p m"
  shows "insert_ok t (Some tr) key"
proof -
  have ok: "leaf_ok m" using btree_invD(4) [OF inv] leaf by (simp add: leaf_at_def leaf_node_at_def)
  have "length (leaf_entries m) < 406" using n leaf by (simp add: bt_entries_def leaves_entries_def)
  then have "\<not> LeafNode_IsFull m"
    using leaf_ok_entries(3) [OF ok] by (simp add: LeafNode_IsFull_def LeafNode_MAX_KEYS_def word_le_nat_alt)
  then show ?thesis using leaf by (simp add: insert_ok_def)
qed

text \<open>An index with the keys 0 to \<open>n - 1\<close> in one leaf.\<close>

definition demo_entries :: "nat \<Rightarrow> entry list" where
  "demo_entries n = map (\<lambda>i. (of_nat i, RID 7 (of_nat i))) [0..<n]"

lemma demo_entries_insert:
  assumes "n < 65536"
  shows "entries_insert DefaultKeyComparator (of_nat n, RID 7 (of_nat n)) (demo_entries n) = demo_entries (Suc n)"
proof -
  have "DefaultKeyComparator (of_nat i) (of_nat n) < 0" if "i < n" for i
    using that assms by (simp add: DefaultKeyComparator_def word_less_nat_alt unat_of_nat_small)
  then have "takeWhile (\<lambda>x. DefaultKeyComparator (fst x) (of_nat n) < 0) (demo_entries n) = demo_entries n"
    by (subst takeWhile_eq_all_conv) (auto simp: demo_entries_def)
  moreover have "dropWhile (\<lambda>x. DefaultKeyComparator (fst x) (of_nat n) < 0) (demo_entries n) = []"
    using calculation by (metis append_Nil2 append_same_eq takeWhile_dropWhile_id same_append_eq)
  ultimately show ?thesis by (simp add: entries_insert_def) (simp add: demo_entries_def)
qed

text \<open>Insertions one after the other.\<close>

fun insert_all :: "entry list \<Rightarrow> btree \<Rightarrow> btree option" where
  "insert_all [] t = Some t"
| "insert_all (e # es) t =
     (case BPlusTree_Insert (fst e) (snd e) t of Some (Inr True, t') \<Rightarrow> insert_all es t' | _ \<Rightarrow> None)"

lemma insert_all_append: "insert_all (xs @ ys) t = Option.bind (insert_all xs t) (insert_all ys)"
  by (induction xs arbitrary: t) (auto split: option.split sum.split prod.split bool.split)

lemma fill_leaf:
  assumes t: "btree_of t None" "bt_cmp t = DefaultKeyComparator" "0 < disk_room (bp_disk (bt_bpm t))" and n: "n < 406"
  obtains t' p m where "insert_all (demo_entries (Suc n)) t = Some t'" "btree_inv t' (BLeaf p m)"
    "leaf_entries m = demo_entries (Suc n)" "bt_cmp t' = DefaultKeyComparator"
    "Suc (disk_room (bp_disk (bt_bpm t'))) = disk_room (bp_disk (bt_bpm t))" "bp_pool_size (bt_bpm t') = bp_pool_size (bt_bpm t)"
proof -
  have "\<exists>t' p m. insert_all (demo_entries (Suc n)) t = Some t' \<and> btree_inv t' (BLeaf p m) \<and>
      leaf_entries m = demo_entries (Suc n) \<and> bt_cmp t' = DefaultKeyComparator \<and>
      Suc (disk_room (bp_disk (bt_bpm t'))) = disk_room (bp_disk (bt_bpm t)) \<and> bp_pool_size (bt_bpm t') = bp_pool_size (bt_bpm t)"
    using n
  proof (induction n)
    case 0
    show ?case
      by (rule default_order.insert_first [where t = t and key = 0 and r = "RID 7 0"])
        (use t in \<open>auto simp: demo_entries_def\<close>)
  next
    case (Suc n)
    then obtain t1 p m where I: "insert_all (demo_entries (Suc n)) t = Some t1" "btree_inv t1 (BLeaf p m)"
      "leaf_entries m = demo_entries (Suc n)" "bt_cmp t1 = DefaultKeyComparator"
      "Suc (disk_room (bp_disk (bt_bpm t1))) = disk_room (bp_disk (bt_bpm t))" "bp_pool_size (bt_bpm t1) = bp_pool_size (bt_bpm t)"
      by auto
    let ?k = "of_nat (Suc n) :: u32" and ?r = "RID 7 (of_nat (Suc n))"
    have es: "bt_entries (BLeaf p m) = demo_entries (Suc n)" using I(3) by (simp add: bt_entries_def leaves_entries_def)
    have "insert_ok t1 (Some (BLeaf p m)) ?k"
      by (rule single_leaf_room [OF I(2) _ refl]) (use es Suc.prems in \<open>simp add: demo_entries_def\<close>)
    then have room: "bt_find DefaultKeyComparator ?k (BLeaf p m) = Some (q, m') \<Longrightarrow> \<not> LeafNode_IsFull m'" for q m'
      using single_leaf_room [OF I(2)] leaf_ok_entries(3) [of m] btree_invD(4) [OF I(2)] es Suc.prems I(3)
      by (auto simp: leaf_at_def leaf_node_at_def LeafNode_IsFull_def LeafNode_MAX_KEYS_def word_le_nat_alt demo_entries_def)
    obtain t2 tr where J: "BPlusTree_Insert ?k ?r t1 = Some (Inr True, t2)" "btree_inv t2 tr"
      "bt_entries tr = entries_insert DefaultKeyComparator (?k, ?r) (bt_entries (BLeaf p m))" "bt_cmp t2 = DefaultKeyComparator"
      "disk_room (bp_disk (bt_bpm t2)) = disk_room (bp_disk (bt_bpm t1))" "bp_pool_size (bt_bpm t2) = bp_pool_size (bt_bpm t1)"
      "bt_height tr = bt_height (BLeaf p m)"
      by (rule default_order.insert_room [OF I(2,4), where key = ?k and r = ?r]) (use room in blast)+
    obtain q m2 where tr: "tr = BLeaf q m2" using J(7) by (cases tr) auto
    have "demo_entries (Suc (Suc n)) = demo_entries (Suc n) @ [(?k, ?r)]" by (simp add: demo_entries_def)
    then have "insert_all (demo_entries (Suc (Suc n))) t = Some t2"
      using I(1) J(1) by (simp add: insert_all_append del: of_nat_Suc)
    moreover have "leaf_entries m2 = demo_entries (Suc (Suc n))"
      using J(3) tr demo_entries_insert [of "Suc n"] Suc.prems es by (simp add: bt_entries_def leaves_entries_def del: of_nat_Suc)
    ultimately show ?case using J(2,4-6) I(5,6) tr by auto
  qed
  then show ?thesis using that by blast
qed

text \<open>A full leaf.\<close>

lemma full_index:
  assumes "2 \<le> unat k"
  obtains t p m where "insert_all (demo_entries 406) (new_index k) = Some t" "btree_inv t (BLeaf p m)" "LeafNode_IsFull m"
    "leaf_entries m = demo_entries 406" "bt_cmp t = DefaultKeyComparator" "bp_pool_size (bt_bpm t) = k"
    "disk_room (bp_disk (bt_bpm t)) = 4294967293"
proof -
  note N = new_index [OF assms]
  have room: "disk_room new_disk = 4294967294" by simp
  have pos: "0 < disk_room (bp_disk (bt_bpm (new_index k)))" and n: "405 < (406 :: nat)" and suc: "Suc 405 = (406 :: nat)"
    using N(3) room by simp_all
  obtain t p m where T: "insert_all (demo_entries 406) (new_index k) = Some t"
    "btree_inv t (BLeaf p m)" "leaf_entries m = demo_entries 406" "bt_cmp t = DefaultKeyComparator"
    "Suc (disk_room (bp_disk (bt_bpm t))) = disk_room (bp_disk (bt_bpm (new_index k)))"
    "bp_pool_size (bt_bpm t) = bp_pool_size (bt_bpm (new_index k))"
    using fill_leaf [OF N(1,2) pos n] unfolding suc by metis
  have "leaf_ok m" using btree_invD(4) [OF T(2)] by (simp add: leaf_at_def leaf_node_at_def)
  then have "LeafNode_IsFull m"
    using leaf_ok_entries(3) [of m] T(3) by (simp add: demo_entries_def LeafNode_IsFull_def LeafNode_MAX_KEYS_def word_le_nat_alt)
  moreover have "disk_room (bp_disk (bt_bpm t)) = 4294967293" using T(5) N(3) room by simp
  moreover have "bp_pool_size (bt_bpm t) = k" using T(6) N(4) by simp
  ultimately show ?thesis using that T(1-4) by blast
qed

lemma demo_entries_unique:
  assumes "n \<le> 65536"
  shows "distinct (map fst (demo_entries n))" "n \<le> unat k \<Longrightarrow> k \<notin> fst ` set (demo_entries n)"
proof -
  have "inj_on (\<lambda>i. of_nat i :: u32) {0..<n}"
    using assms by (intro inj_onI) (auto dest!: arg_cong [of _ _ unat] simp: unat_of_nat_small)
  then show "distinct (map fst (demo_entries n))" by (simp add: demo_entries_def distinct_map comp_def)
  show "k \<notin> fst ` set (demo_entries n)" if "n \<le> unat k"
    using that assms by (auto simp: demo_entries_def unat_of_nat_small)
qed

section \<open>Properties\<close>

text \<open>
  C1. \<open>Insert\<close> returns true and adds the entry in front of the entries whose key is not smaller, and the
  search tree invariant is kept: into an empty index, into a leaf with room, and, when no key occurs twice and frames and
  disk pages suffice, through any number of leaf, internal and root splits.
\<close>

theorem btree_insert_correct:
  assumes "btree_of t T" and "insert_ok t T key"
  shows "\<exists>t' tr. BPlusTree_Insert key r t = Some (Inr True, t') \<and> btree_inv t' tr \<and> bt_cmp t' = bt_cmp t \<and>
    bt_entries tr = entries_insert (bt_cmp t) (key, r) (tree_entries T)"
  by (rule insert_step [OF assms, where r = r]) blast

theorem btree_insert_correct_witness:
  "\<exists>t t' tr. insert_all (demo_entries 406) (new_index 11) = Some t \<and>
     BPlusTree_Insert 406 (RID 7 406) t = Some (Inr True, t') \<and> btree_inv t' tr \<and> bt_entries tr = demo_entries 407"
proof -
  have "2 \<le> unat (11 :: u32)" by simp
  from full_index [OF this] obtain t p m where T: "insert_all (demo_entries 406) (new_index 11) = Some t" "btree_inv t (BLeaf p m)"
    "leaf_entries m = demo_entries 406" "bt_cmp t = DefaultKeyComparator" "bp_pool_size (bt_bpm t) = 11"
    "disk_room (bp_disk (bt_bpm t)) = 4294967293" by blast
  have es: "bt_entries (BLeaf p m) = demo_entries 406" using T(3) by (simp add: bt_entries_def leaves_entries_def)
  have "insert_ok t (Some (BLeaf p m)) 406"
    using T(5,6) es demo_entries_unique(1) [of 406] demo_entries_unique(2) [of 406 406] by (simp add: insert_ok_def)
  then obtain t' tr where "BPlusTree_Insert 406 (RID 7 406) t = Some (Inr True, t')" "btree_inv t' tr"
    "bt_entries tr = entries_insert DefaultKeyComparator (406, RID 7 406) (demo_entries 406)"
    using btree_insert_correct [of t "Some (BLeaf p m)" 406 "RID 7 406"] T(2,4) es by auto
  then show ?thesis using T(1) demo_entries_insert [of 406] by (intro exI [of _ t] exI [of _ t'] exI [of _ tr]) simp
qed

text \<open>The index of the next witnesses: keys 0 to 9.\<close>

lemma demo_index:
  obtains t tr where "insert_all (demo_entries 10) (new_index 2) = Some t" "btree_of t (Some tr)" "bt_entries tr = demo_entries 10"
    "bt_cmp t = DefaultKeyComparator"
proof -
  have two: "2 \<le> unat (2 :: u32)" by simp
  note N = new_index [OF two]
  have pos: "0 < disk_room (bp_disk (bt_bpm (new_index 2)))" and n: "9 < (406 :: nat)" and suc: "Suc 9 = (10 :: nat)"
    using N(3) by simp_all
  obtain t p m where "insert_all (demo_entries 10) (new_index 2) = Some t" "btree_inv t (BLeaf p m)"
    "leaf_entries m = demo_entries 10" "bt_cmp t = DefaultKeyComparator"
    using fill_leaf [OF N(1,2) pos n] unfolding suc by metis
  then show ?thesis using that [of t "BLeaf p m"] by (simp add: bt_entries_def leaves_entries_def)
qed

text \<open>
  C18. \<open>RangeScan\<close> ends and returns exactly the entries with a key between the two bounds, in the order of the index;
  the pages keep their contents.
\<close>

theorem btree_range_scan_correct:
  assumes "btree_of t T"
  shows "\<exists>t'. BPlusTree_RangeScan low high t = Some (entries_range (bt_cmp t) low high (tree_entries T), t') \<and> btree_of t' T \<and>
    bp_view (bt_bpm t') = bp_view (bt_bpm t)"
proof -
  obtain b where "BPlusTree_RangeScan low high t = Some (entries_range (bt_cmp t) low high (tree_entries T), t\<lparr>bt_bpm := b\<rparr>)"
    "btree_of (t\<lparr>bt_bpm := b\<rparr>) T" "bp_view b = bp_view (bt_bpm t)"
    by (rule range_step [OF assms, where low = low and high = high]) blast
  then show ?thesis by simp
qed

theorem btree_range_scan_correct_witness:
  "\<exists>t t'. insert_all (demo_entries 10) (new_index 2) = Some t \<and>
     BPlusTree_RangeScan 3 5 t = Some ([(3, RID 7 3), (4, RID 7 4), (5, RID 7 5)], t')"
proof -
  obtain t tr where T: "insert_all (demo_entries 10) (new_index 2) = Some t" "btree_of t (Some tr)" "bt_entries tr = demo_entries 10"
    "bt_cmp t = DefaultKeyComparator"
    by (rule demo_index)
  have "entries_range DefaultKeyComparator 3 5 (demo_entries 10) = [(3, RID 7 3), (4, RID 7 4), (5, RID 7 5)]"
    by (simp add: entries_range_def demo_entries_def upt_rec DefaultKeyComparator_def)
  then show ?thesis using btree_range_scan_correct [OF T(2), of 3 5] T(1,3,4) by auto
qed

text \<open>
  C20. On a valid search tree \<open>Delete\<close> returns whether the entry was there, removes its first occurrence and nothing else, and keeps the search
  tree invariant; the root stays.
\<close>

theorem btree_delete_correct:
  assumes "btree_of t T"
  shows "\<exists>t' T'. BPlusTree_Delete key r t = Some ((key, r) \<in> set (tree_entries T), t') \<and> btree_of t' T' \<and>
    tree_entries T' = remove1 (key, r) (tree_entries T) \<and> bt_root t' = bt_root t"
  by (rule delete_step [OF assms, where key = key and r = r]) blast

theorem btree_delete_correct_witness:
  "\<exists>t t' T'. insert_all (demo_entries 10) (new_index 2) = Some t \<and> BPlusTree_Delete 9 (RID 7 9) t = Some (True, t') \<and>
     btree_of t' T' \<and> tree_entries T' = demo_entries 9"
proof -
  obtain t tr where T: "insert_all (demo_entries 10) (new_index 2) = Some t" "btree_of t (Some tr)" "bt_entries tr = demo_entries 10"
    by (rule demo_index)
  have "(9, RID 7 9) \<in> set (demo_entries 10)" "remove1 (9, RID 7 9) (demo_entries 10) = demo_entries 9"
    by (simp_all add: demo_entries_def upt_rec)
  then show ?thesis using btree_delete_correct [OF T(2), of 9 "RID 7 9"] T(1,3) by auto
qed

text \<open>
  A node written to a page is read back as it was, and only the bytes from 20 to 4090, those behind the page header,
  are written.
\<close>

theorem btree_node_roundtrip:
  assumes "leaf_ok l" and "internal_ok n"
  shows "LeafNode_DeserializeFromPage (LeafNode_SerializeToPage l pg) = l \<and>
    InternalNode_DeserializeFromPage (InternalNode_SerializeToPage n pg) = n \<and>
    (\<forall>i. i < 20 \<or> 4091 \<le> i \<longrightarrow> p_data (LeafNode_SerializeToPage l pg) i = p_data pg i \<and>
       p_data (InternalNode_SerializeToPage n pg) i = p_data pg i)"
  using leaf_roundtrip [OF assms(1), where pg = pg] internal_roundtrip [OF assms(2), where pg = pg]
    leaf_serialize_other [OF assms(1)] internal_serialize_other [OF assms(2)] by blast

theorem btree_node_roundtrip_witness:
  "\<exists>l n. leaf_entries l = [(5, RID 2 1)] \<and> in_children n = [2, 3] \<and> in_keys n = [5] \<and>
     LeafNode_DeserializeFromPage (LeafNode_SerializeToPage l (Page_new 4)) = l \<and>
     InternalNode_DeserializeFromPage (InternalNode_SerializeToPage n (Page_new 4)) = n"
proof -
  let ?l = "\<lparr>ln_header = \<lparr>bh_node_type = kLeafNode, bh_parent_page_id = 9, bh_num_keys = 1, bh_next_page_id = 8\<rparr>,
    ln_keys = [5], ln_rids = [RID 2 1]\<rparr>"
  let ?n = "\<lparr>in_header = \<lparr>bh_node_type = kInternalNode, bh_parent_page_id = 9, bh_num_keys = 1, bh_next_page_id = 8\<rparr>,
    in_children = [2, 3], in_keys = [5]\<rparr>"
  have "leaf_ok ?l" "internal_ok ?n" by (simp_all add: leaf_ok_def internal_ok_def LeafNode_MAX_KEYS_def InternalNode_MAX_KEYS_def)
  note R = btree_node_roundtrip [OF this, of "Page_new 4"]
  show ?thesis by (rule exI [of _ ?l], rule exI [of _ ?n]) (use R in \<open>simp add: leaf_entries_def\<close>)
qed

end
