(* ===== verification/BTreeClient.thy ===== *)
theory BTreeClient
  imports BTreeProps
begin

text \<open>
  The index as its client sees it: the operations as commands, the map from keys to record ids they act on when no key is
  inserted twice, and the states a client can reach.
\<close>

section \<open>Commands\<close>

datatype index_op = IInsert u32 rid | IDelete u32 rid | ILookup u32 | IRange u32 u32

datatype index_result = RBool bool | RRids "rid list" | REntries "entry list"

fun index_exec :: "index_op \<Rightarrow> btree \<Rightarrow> (index_result \<times> btree) option" where
  "index_exec (IInsert key r) t =
     (case BPlusTree_Insert key r t of Some (Inr b, t') \<Rightarrow> Some (RBool b, t') | _ \<Rightarrow> None)"
| "index_exec (IDelete key r) t = map_option (\<lambda>(b, t'). (RBool b, t')) (BPlusTree_Delete key r t)"
| "index_exec (ILookup key) t = map_option (\<lambda>(rs, t'). (RRids rs, t')) (BPlusTree_Lookup key t)"
| "index_exec (IRange low high) t = map_option (\<lambda>(es, t'). (REntries es, t')) (BPlusTree_RangeScan low high t)"

fun index_legal :: "index_op \<Rightarrow> btree \<Rightarrow> bt option \<Rightarrow> bool" where
  "index_legal (IInsert key r) t T \<longleftrightarrow> insert_ok t T key"
| "index_legal _ t T \<longleftrightarrow> True"

text \<open>The effect on the ordered list of entries.\<close>

fun entries_step :: "(u32 \<Rightarrow> u32 \<Rightarrow> int) \<Rightarrow> index_op \<Rightarrow> entry list \<Rightarrow> index_result \<times> entry list" where
  "entries_step cmp (IInsert key r) es = (RBool True, entries_insert cmp (key, r) es)"
| "entries_step cmp (IDelete key r) es = (RBool ((key, r) \<in> set es), remove1 (key, r) es)"
| "entries_step cmp (ILookup key) es = (RRids (entries_find key es), es)"
| "entries_step cmp (IRange low high) es = (REntries (entries_range cmp low high es), es)"

lemma index_step:
  assumes of: "btree_of t T" and legal: "index_legal c t T"
  obtains t' T' where "index_exec c t = Some (fst (entries_step (bt_cmp t) c (tree_entries T)), t')" "btree_of t' T'"
    "tree_entries T' = snd (entries_step (bt_cmp t) c (tree_entries T))" "bt_cmp t' = bt_cmp t"
proof (cases c)
  case (IInsert key r)
  then have ok: "insert_ok t T key" using legal by simp
  show ?thesis
    by (rule insert_step [OF of ok, where r = r]) (use IInsert that [of _ "Some _"] in simp)
next
  case (IDelete key r)
  show ?thesis
    by (rule delete_step [OF of, where key = key and r = r]) (use IDelete that in simp)
next
  case (ILookup key)
  show ?thesis
    by (rule lookup_step [OF of, where key = key]) (use ILookup that in simp)
next
  case (IRange low high)
  show ?thesis
    by (rule range_step [OF of, where low = low and high = high]) (use IRange that in simp)
qed

section \<open>The map of an index with unique keys\<close>

definition index_map :: "bt option \<Rightarrow> u32 \<rightharpoonup> rid" where
  "index_map T = map_of (tree_entries T)"

definition unique_keys :: "bt option \<Rightarrow> bool" where
  "unique_keys T \<longleftrightarrow> distinct (map fst (tree_entries T))"

text \<open>What a command answers and does to a map.\<close>

fun map_answer :: "(u32 \<Rightarrow> u32 \<Rightarrow> int) \<Rightarrow> index_op \<Rightarrow> (u32 \<rightharpoonup> rid) \<Rightarrow> index_result \<Rightarrow> bool" where
  "map_answer cmp (IInsert key r) m a \<longleftrightarrow> a = RBool True"
| "map_answer cmp (IDelete key r) m a \<longleftrightarrow> a = RBool (m key = Some r)"
| "map_answer cmp (ILookup key) m a \<longleftrightarrow> a = RRids (case m key of None \<Rightarrow> [] | Some r \<Rightarrow> [r])"
| "map_answer cmp (IRange low high) m a \<longleftrightarrow>
     (\<exists>es. a = REntries es \<and> sorted_wrt (\<lambda>x y. cmp (fst x) (fst y) < 0) es \<and>
       set es = {(k, r). m k = Some r \<and> cmp low k \<le> 0 \<and> cmp k high \<le> 0})"

fun map_effect :: "index_op \<Rightarrow> (u32 \<rightharpoonup> rid) \<Rightarrow> (u32 \<rightharpoonup> rid)" where
  "map_effect (IInsert key r) m = m(key \<mapsto> r)"
| "map_effect (IDelete key r) m = (if m key = Some r then m(key := None) else m)"
| "map_effect (ILookup key) m = m"
| "map_effect (IRange low high) m = m"

fun fresh_key :: "index_op \<Rightarrow> (u32 \<rightharpoonup> rid) \<Rightarrow> bool" where
  "fresh_key (IInsert key r) m \<longleftrightarrow> m key = None"
| "fresh_key _ m \<longleftrightarrow> True"

lemma map_of_eqI:
  assumes "distinct (map fst es)" "\<And>k r. (k, r) \<in> set es \<longleftrightarrow> m k = Some r"
  shows "map_of es = m"
proof
  fix k
  show "map_of es k = m k"
    using assms map_of_eq_Some_iff [OF assms(1)] by (metis not_Some_eq)
qed

lemma entries_find_map: "distinct (map fst es) \<Longrightarrow> entries_find key es = (case map_of es key of None \<Rightarrow> [] | Some r \<Rightarrow> [r])"
proof (induction es)
  case (Cons e es)
  have "entries_find key es = []" if "fst e = key"
    using Cons.prems that by (auto simp: entries_find_def filter_empty_conv image_iff)
  then show ?case using Cons by (cases e) (auto simp: entries_find_def)
qed (simp add: entries_find_def)

lemma distinct_fst_remove1: "distinct (map fst es) \<Longrightarrow> distinct (map fst (remove1 x es))"
  by (induction es) (auto dest!: set_remove1_subset [THEN subsetD] intro: rev_image_eqI)

lemma entries_step_map:
  assumes d: "distinct (map fst es)" and s: "entries_sorted cmp es" and ord: "key_order cmp" and f: "fresh_key c (map_of es)"
    and step: "entries_step cmp c es = (a, es')"
  shows "map_answer cmp c (map_of es) a \<and> map_of es' = map_effect c (map_of es) \<and> distinct (map fst es')"
proof (cases c)
  case (IInsert key r)
  have es': "mset es' = mset ((key, r) # es)" using step IInsert mset_entries_insert by auto
  have new: "key \<notin> fst ` set es" using f IInsert by (simp add: map_of_eq_None_iff)
  have "mset (map fst es') = mset (map fst ((key, r) # es))" using es' by simp
  moreover have "distinct (map fst ((key, r) # es))" using d new by simp
  ultimately have d': "distinct (map fst es')" using mset_eq_imp_distinct_iff [of "map fst es'"] by blast
  have "set es' = insert (key, r) (set es)" using step IInsert set_entries_insert by auto
  then have "map_of es' = (map_of es)(key \<mapsto> r)"
    using new by (intro map_of_eqI [OF d']) (auto simp: map_of_eq_Some_iff [OF d] image_iff)
  then show ?thesis using step IInsert d' by auto
next
  case (IDelete key r)
  have es': "es' = remove1 (key, r) es" "a = RBool ((key, r) \<in> set es)" using step IDelete by auto
  have dd: "distinct es" using d by (simp add: distinct_map)
  have d': "distinct (map fst es')"
    using d es'(1) distinct_fst_remove1 by simp
  have "map_of es' = map_effect c (map_of es)"
  proof (rule map_of_eqI [OF d'])
    fix k r'
    have "(k, r') \<in> set es' \<longleftrightarrow> map_of es k = Some r' \<and> (k, r') \<noteq> (key, r)"
      using es'(1) dd by (simp add: set_remove1_eq map_of_eq_Some_iff [OF d])
    then show "(k, r') \<in> set es' \<longleftrightarrow> map_effect c (map_of es) k = Some r'"
      using IDelete by (cases "k = key") auto
  qed
  then show ?thesis using es' IDelete d' by (simp add: map_of_eq_Some_iff [OF d])
next
  case (ILookup key)
  then show ?thesis using step d entries_find_map by auto
next
  case (IRange low high)
  have a: "a = REntries (entries_range cmp low high es)" "es' = es" using step IRange by auto
  have "sorted_wrt (\<lambda>x y. cmp (fst x) (fst y) < 0) es"
    using key_order.halves_order [OF ord s d] by (simp add: sorted_wrt_iff_nth_less)
  then have "sorted_wrt (\<lambda>x y. cmp (fst x) (fst y) < 0) (entries_range cmp low high es)"
    by (simp add: entries_range_def sorted_wrt_filter)
  then show ?thesis using a IRange d by (auto simp: entries_range_def map_of_eq_Some_iff [OF d])
qed

lemma btree_of_sorted: "btree_of t T \<Longrightarrow> entries_sorted (bt_cmp t) (tree_entries T)"
  using key_order.bt_ord_sorted(1) [OF btree_of_order, of t T None None] btree_invD(6)
  by (cases T) (auto simp: entries_sorted_def)

text \<open>
  C2. On an index in which no key occurs twice, every command that inserts only fresh keys answers and acts as the command
  on a map from keys to record ids, and keys stay unique.
\<close>

theorem index_refines_map:
  assumes "btree_of t T" and "unique_keys T" and "index_legal c t T" and "fresh_key c (index_map T)"
  shows "\<exists>a t' T'. index_exec c t = Some (a, t') \<and> btree_of t' T' \<and> unique_keys T' \<and>
    map_answer (bt_cmp t) c (index_map T) a \<and> index_map T' = map_effect c (index_map T)"
proof -
  obtain a es where e: "entries_step (bt_cmp t) c (tree_entries T) = (a, es)" by fastforce
  obtain t' T' where I: "index_exec c t = Some (a, t')" "btree_of t' T'" "tree_entries T' = es"
    by (rule index_step [OF assms(1,3)]) (use e that in simp)
  have "distinct (map fst (tree_entries T))" "fresh_key c (map_of (tree_entries T))"
    using assms(2,4) by (simp_all add: unique_keys_def index_map_def)
  from entries_step_map [OF this(1) btree_of_sorted [OF assms(1)] btree_of_order [OF assms(1)] this(2) e]
  show ?thesis using I by (auto simp: index_map_def unique_keys_def)
qed

theorem index_refines_map_witness:
  "\<exists>t t' T'. insert_all (demo_entries 10) (new_index 2) = Some t \<and>
     index_exec (IDelete 3 (RID 7 3)) t = Some (RBool True, t') \<and> btree_of t' T' \<and>
     index_map T' 3 = None \<and> index_map T' 4 = Some (RID 7 4)"
proof -
  obtain t tr where T: "insert_all (demo_entries 10) (new_index 2) = Some t" "btree_of t (Some tr)" "bt_entries tr = demo_entries 10"
    by (rule demo_index)
  have u: "unique_keys (Some tr)" using T(3) demo_entries_unique(1) [of 10] by (simp add: unique_keys_def)
  have m: "index_map (Some tr) 3 = Some (RID 7 3)" "index_map (Some tr) 4 = Some (RID 7 4)"
    using T(3) by (simp_all add: index_map_def demo_entries_def upt_rec)
  have "index_legal (IDelete 3 (RID 7 3)) t (Some tr)" "fresh_key (IDelete 3 (RID 7 3)) (index_map (Some tr))" by simp_all
  from index_refines_map [OF T(2) u this] obtain a t' T' where "index_exec (IDelete 3 (RID 7 3)) t = Some (a, t')" "btree_of t' T'"
    "a = RBool True" "index_map T' = (index_map (Some tr))(3 := None)" using m by auto
  then show ?thesis using T(1) m by (intro exI [of _ t] exI [of _ t'] exI [of _ T']) simp
qed

section \<open>Reachable states\<close>

text \<open>The tree a state's pages hold is unique, so it can be read off a state that a command has reached.\<close>

definition index_tree :: "btree \<Rightarrow> bt option \<Rightarrow> bool" where
  "index_tree t T \<longleftrightarrow>
     (case T of
        None \<Rightarrow> BPlusTree_IsEmpty t
      | Some tr \<Rightarrow> bt_root t = bt_id tr \<and> bt_at (bp_view (bt_bpm t)) tr)"

lemma bt_at_unique: "bt_at v s \<Longrightarrow> bt_at v t \<Longrightarrow> bt_id s = bt_id t \<Longrightarrow> s = t"
proof (induction s arbitrary: t)
  case (BLeaf p n)
  have "p_data (view_page v p) 20 = kLeafNode" using BLeaf.prems(1) node_type_byte(1) by (auto simp: leaf_at_def)
  then show ?case
    using BLeaf.prems node_type_byte(2) [of "view_page v p" p]
    by (cases t) (auto simp: leaf_at_def internal_at_def leaf_node_at_def kLeafNode_def kInternalNode_def)
next
  case (BNode p n ts)
  have b: "p_data (view_page v p) 20 = kInternalNode" using BNode.prems(1) node_type_byte(2) by (auto simp: internal_at_def)
  obtain us where t: "t = BNode p n us" "\<forall>u\<in>set us. bt_at v u" "map bt_id us = map bt_id ts"
    using BNode.prems b node_type_byte(1) [of "view_page v p" p]
    by (cases t) (auto simp: leaf_at_def internal_at_def internal_node_at_def kLeafNode_def kInternalNode_def)
  have len: "length ts = length us" using map_eq_imp_length_eq [OF t(3)] by simp
  have "ts ! i = us ! i" if "i < length ts" for i
    using BNode.IH [of "ts ! i" "us ! i"] BNode.prems(1) t(2,3) that len by (metis bt_at.simps(2) nth_map nth_mem)
  then show ?case using t(1) len nth_equalityI by blast
qed

lemma index_tree_unique:
  assumes "btree_of t T" "index_tree t T'"
  shows "T' = T"
proof -
  have root: "bt_root t \<noteq> INVALID_PAGE_ID" if "bt_at (bp_view (bt_bpm t)) tr" "bt_root t = bt_id tr" for tr
    using bt_node_valid [of "bt_bpm t" "bt_id tr"] bt_at_node [OF that(1)] that(2) by auto
  show ?thesis
  proof (cases T)
    case None
    then show ?thesis using assms root by (cases T') (auto simp: index_tree_def)
  next
    case (Some tr)
    then have I: "bt_at (bp_view (bt_bpm t)) tr" "bt_root t = bt_id tr" using assms(1) btree_invD(3,4) by auto
    show ?thesis
    proof (cases T')
      case (Some tr')
      then have "tr' = tr"
        using assms(2) I(2) by (intro bt_at_unique [OF _ I(1)]) (simp_all add: index_tree_def)
      then show ?thesis using Some \<open>T = Some tr\<close> by simp
    qed (use assms(2) root [OF I] in \<open>simp add: index_tree_def BPlusTree_IsEmpty_def\<close>)
  qed
qed

inductive index_reachable :: "btree \<Rightarrow> bt option \<Rightarrow> bool" where
  created: "quiet b \<Longrightarrow> key_order cmp \<Longrightarrow> index_reachable (BPlusTree_new b INVALID_PAGE_ID cmp) None"
| command: "index_reachable t T \<Longrightarrow> index_legal c t T \<Longrightarrow> index_exec c t = Some (a, t') \<Longrightarrow> index_tree t' T' \<Longrightarrow>
    index_reachable t' T'"

lemma index_reachable_inv: "index_reachable t T \<Longrightarrow> btree_of t T"
proof (induction rule: index_reachable.induct)
  case (created b cmp)
  then show ?case by (simp add: BPlusTree_new_def)
next
  case (command t T c a t' T')
  obtain t1 T1 where "index_exec c t = Some (fst (entries_step (bt_cmp t) c (tree_entries T)), t1)" "btree_of t1 T1"
    by (rule index_step [OF command.IH command.hyps(2)]) blast
  then show ?case using command.hyps(3,4) index_tree_unique [of t1 T1 T'] by simp
qed

text \<open>What the pages of a tree are: nodes of the type of their type byte, within their capacities, with their keys in order.\<close>

fun bt_typed :: "(u32 \<Rightarrow> u32 \<Rightarrow> int) \<Rightarrow> view \<Rightarrow> bt \<Rightarrow> bool" where
  "bt_typed cmp v (BLeaf p n) \<longleftrightarrow>
     p_data (view_page v p) 20 = kLeafNode \<and> LeafNode_DeserializeFromPage (view_page v p) = n \<and>
     length (ln_keys n) \<le> 406 \<and> length (ln_rids n) = length (ln_keys n) \<and> sorted_wrt (\<lambda>a b. cmp a b \<le> 0) (ln_keys n)"
| "bt_typed cmp v (BNode p n ts) \<longleftrightarrow>
     p_data (view_page v p) 20 = kInternalNode \<and> InternalNode_DeserializeFromPage (view_page v p) = n \<and>
     0 < length (in_keys n) \<and> length (in_keys n) \<le> 507 \<and> length ts = Suc (length (in_keys n)) \<and> in_children n = map bt_id ts \<and>
     sorted_wrt (\<lambda>a b. cmp a b \<le> 0) (in_keys n) \<and> (\<forall>t\<in>set ts. bt_typed cmp v t)"

lemma bt_at_typed: "key_order cmp \<Longrightarrow> bt_at v t \<Longrightarrow> bt_ord cmp lo hi t \<Longrightarrow> bt_typed cmp v t"
proof (induction t arbitrary: lo hi)
  case (BLeaf p n)
  then have l: "leaf_node_at (view_page v p) p n" by (simp add: leaf_at_def)
  have ok: "leaf_ok n" "LeafNode_DeserializeFromPage (view_page v p) = n" using l by (simp_all add: leaf_node_at_def)
  show ?case
    using node_type_byte(1) [OF l] ok BLeaf.prems(3) leaf_ok_entries(1) [OF ok(1)]
    by (simp add: leaf_ok_def LeafNode_MAX_KEYS_def entries_sorted_def)
next
  case (BNode p n ts)
  then have i: "internal_node_at (view_page v p) p n" by (simp add: internal_at_def)
  have ord: "bts_ord cmp lo hi (in_keys n) ts" using BNode.prems(3) by simp
  have "\<exists>lo hi. bt_ord cmp lo hi t" if "t \<in> set ts" for t
    using key_order.bts_ord_child [OF BNode.prems(1) ord that] .
  then have "\<forall>t\<in>set ts. bt_typed cmp v t" using BNode by fastforce
  then show ?case
    using node_type_byte(2) [OF i] i BNode.prems(2) key_order.bts_ord_keys [OF BNode.prems(1) ord] bts_ord_length [OF ord]
    by (auto simp: internal_node_at_def internal_ok_def InternalNode_MAX_KEYS_def)
qed

text \<open>A reachable index with one entry.\<close>

lemma demo_reachable:
  obtains t p n where "index_exec (IInsert 5 (RID 7 5)) (new_index 2) = Some (RBool True, t)" "index_reachable t (Some (BLeaf p n))"
proof -
  have two: "2 \<le> unat (2 :: u32)" by simp
  note N = new_index [OF two]
  have start: "index_reachable (new_index 2) None"
    using N(1) by (simp add: new_index_def) (rule index_reachable.created; simp add: BPlusTree_new_def)
  have legal: "index_legal (IInsert 5 (RID 7 5)) (new_index 2) None" using N(3) by (simp add: insert_ok_def)
  have q: "quiet (bt_bpm (new_index 2))" "bt_root (new_index 2) = INVALID_PAGE_ID" "0 < disk_room (bp_disk (bt_bpm (new_index 2)))"
    using N(1,3) by simp_all
  obtain t p n where T: "BPlusTree_Insert 5 (RID 7 5) (new_index 2) = Some (Inr True, t)" "btree_inv t (BLeaf p n)"
    by (rule default_order.insert_first [OF q(1) N(2) q(2,3), where key = 5 and r = "RID 7 5"]) blast
  have e: "index_exec (IInsert 5 (RID 7 5)) (new_index 2) = Some (RBool True, t)" using T(1) by simp
  have "index_tree t (Some (BLeaf p n))" using btree_invD(3,4) [OF T(2)] by (simp add: index_tree_def)
  from index_reachable.command [OF start legal e this] show ?thesis using that e by simp
qed

text \<open>
  C17. In every state a client can reach, with duplicate keys or without, as long as duplicates are inserted into leaves
  with room: each page of the index decodes to a node of the type its type byte names, within the
  capacity of the type, with sorted keys and one more child than keys; no page occurs twice.
\<close>

theorem index_pages_typed:
  assumes "index_reachable t (Some tr)"
  shows "bt_root t = bt_id tr \<and> bt_typed (bt_cmp t) (bp_view (bt_bpm t)) tr \<and> distinct (bt_pids tr) \<and>
    set (bt_pids tr) \<subseteq> bp_data (bt_bpm t)"
proof -
  have inv: "btree_inv t tr" using index_reachable_inv [OF assms] by simp
  note I = btree_invD [OF inv]
  have "set (bt_pids tr) \<subseteq> bp_data (bt_bpm t)" using bt_at_dom [OF I(4)] dom_bp_view [of "bt_bpm t"] by blast
  then show ?thesis using I(3,5) bt_at_typed [OF I(1,4,6)] by blast
qed

theorem index_pages_typed_witness:
  "\<exists>t. index_exec (IInsert 5 (RID 7 5)) (new_index 2) = Some (RBool True, t) \<and>
     p_data (view_page (bp_view (bt_bpm t)) (bt_root t)) 20 = kLeafNode"
proof -
  obtain t p n where T: "index_exec (IInsert 5 (RID 7 5)) (new_index 2) = Some (RBool True, t)" "index_reachable t (Some (BLeaf p n))"
    by (rule demo_reachable)
  show ?thesis using index_pages_typed [OF T(2)] T(1) by auto
qed

text \<open>
  C32. In every reachable state all leaves are at the same depth, which is at most 4, every internal node but the root
  has at least 254 children, and the leaves are chained from left to right with their keys in order.
\<close>

theorem index_balanced:
  assumes "index_reachable t (Some tr)"
  shows "bt_shape tr \<and> bt_height tr \<le> 4 \<and> leaf_chain (bt_leaves tr) \<and> entries_sorted (bt_cmp t) (bt_entries tr) \<and>
    (\<forall>p. bp_pins (bt_bpm t) p = 0)"
proof -
  have of: "btree_of t (Some tr)" by (rule index_reachable_inv [OF assms])
  then have inv: "btree_inv t tr" by simp
  show ?thesis using btree_invD(2,7,9) [OF inv] btree_height [OF inv] btree_of_sorted [OF of] by (simp add: quiet_def)
qed

theorem index_balanced_witness:
  "\<exists>t tr. index_exec (IInsert 5 (RID 7 5)) (new_index 2) = Some (RBool True, t) \<and> btree_of t (Some tr) \<and> bt_height tr \<le> 4"
proof -
  obtain t p n where T: "index_exec (IInsert 5 (RID 7 5)) (new_index 2) = Some (RBool True, t)" "index_reachable t (Some (BLeaf p n))"
    by (rule demo_reachable)
  show ?thesis using index_balanced [OF T(2)] index_reachable_inv [OF T(2)] T(1) by blast
qed

end
