(* ===== verification/BTreeLimits.thy ===== *)
theory BTreeLimits
  imports BTreeClient
begin

text \<open>
  Lookup and its limits: what it returns on any chain of leaves, and where the index loses entries though \<open>Insert\<close> returned
  true, namely at a root split that finds no frame for the new root, and with equal keys that a split puts on both sides
  of a separator.
\<close>

section \<open>A pool with all frames pinned\<close>

lemma pinned_le_frames:
  assumes ok: "bpm_inv b"
  shows "card (pinned_pages b) \<le> unat (bp_pool_size b)"
proof -
  let ?f = "\<lambda>p. the (bp_table b p)" and ?F = "{f :: u32. unat f < unat (bp_pool_size b)}"
  have t: "bp_table b p = Some (?f p)" if "p \<in> pinned_pages b" for p
    using that bp_pins_pos_table [of b p] by (auto simp: pinned_pages_def)
  have "inj_on ?f (pinned_pages b)"
    by (rule inj_onI) (metis bp_table_frame(3) [OF ok] t)
  moreover have "?f ` pinned_pages b \<subseteq> ?F" using bp_table_frame(1) [OF ok] t by auto
  ultimately have "card (pinned_pages b) \<le> card ?F" using card_inj_on_le [of ?f "pinned_pages b" ?F] by simp
  then show ?thesis by (simp add: card_frames)
qed

lemma new_no_frame:
  assumes ok: "bpm_inv b" and room: "0 < disk_room (bp_disk b)" and full: "card (pinned_pages b) = unat (bp_pool_size b)"
  shows "BufferPoolManager_NewPage b = (Inr None, b)"
proof -
  obtain r b1 where new: "BufferPoolManager_NewPage b = (r, b1)" by fastforce
  show ?thesis
  proof (cases rule: new_page [OF ok room new])
    case 1
    then show ?thesis using new by simp
  next
    case (2 p f)
    have "bp_pins b p = 0"
      using bp_pins_pos_table [of b p] bp_table_frame(4) [OF ok] 2(3) by (metis gr0I)
    then have "pinned_pages b1 = insert p (pinned_pages b)" "p \<notin> pinned_pages b"
      using 2(7) by (auto simp: pinned_pages_def)
    then have "card (pinned_pages b1) = Suc (card (pinned_pages b))" by simp
    then show ?thesis using pinned_le_frames [OF 2(2)] full 2(13) by simp
  qed
qed

lemma plug_leaf: "bt_plug c t = BLeaf p n \<Longrightarrow> c = []"
proof (induction c arbitrary: t)
  case (Cons x c)
  obtain q m ls rs where x: "x = (q, m, ls, rs)" by (cases x)
  then have "c = []" using Cons by simp
  then show ?case using Cons.prems x by simp
qed simp

context key_order begin

text \<open>The pool after the two unpins that follow the call into the parent.\<close>

lemma unpin_halves:
  assumes "pool_at b v P'" "P' = (\<lambda>_. 0)(p := 1, q := 1)" "p \<noteq> q"
  shows "pool_at (bp_unpin q True (bp_unpin p True b)) v (\<lambda>_. 0)"
    "bp_pool_size (bp_unpin q True (bp_unpin p True b)) = bp_pool_size b"
proof -
  note U = unpin_held [OF assms(1) refl, of p]
  note U' = unpin_held [OF U(1) refl, of q]
  have "P'(p := P' p - 1, q := (P'(p := P' p - 1)) q - 1) = (\<lambda>_. 0)" using assms(2,3) by (auto simp: fun_eq_iff)
  then show "pool_at (bp_unpin q True (bp_unpin p True b)) v (\<lambda>_. 0)" using U'(1) by simp
qed simp

text \<open>
  A root split that finds no frame: the root stays the left half \<open>l\<close>, whose next leaf is the right half \<open>rl\<close>.
\<close>

lemma split_no_frame:
  assumes inv: "btree_inv t (BLeaf p n)" and cmp: "bt_cmp t = cmp" and full: "LeafNode_IsFull n"
    and size: "unat (bp_pool_size (bt_bpm t)) = 2" and room: "2 \<le> disk_room (bp_disk (bt_bpm t))"
    and es: "es = entries_insert cmp (key, r) (leaf_entries n)"
  obtains t' l q rl where "BPlusTree_Insert key r t = Some (Inr True, t')" "bt_root t' = bt_root t" "bt_cmp t' = cmp"
    "search_pages t' (BLeaf p l)" "\<forall>k. leaf_run t' k (BLeaf p l) [(p, l), (q, rl)]"
    "leaf_entries l = take 203 es" "leaf_entries rl = drop 203 es" "length es = 407"
proof -
  have find: "bt_find cmp key (BLeaf p n) = Some (p, n)" by simp
  have room1: "0 < disk_room (bp_disk (bt_bpm t))" using room by simp
  obtain q g h b5 v5 c l rl where S:
    "BPlusTree_Insert key r t = Option.bind (BPlusTree_InsertIntoParent g (fst (es ! 203)) h (t\<lparr>bt_bpm := b5\<rparr>)) (\<lambda>(res, t4).
       case res of Inl e \<Rightarrow> Some (Inl e, t4)
       | Inr _ \<Rightarrow> Some (Inr True, t4\<lparr>bt_bpm := bp_unpin q True (bp_unpin p True (bt_bpm t4))\<rparr>))"
    "split_ready (t\<lparr>bt_bpm := b5\<rparr>) v5 ((\<lambda>_. 0)(p := 1, q := 1)) g h c (BLeaf p l) (BLeaf q rl)"
    "BLeaf p n = bt_plug c (BLeaf p n)" "p \<noteq> q" "leaf_entries l = take 203 es" "leaf_entries rl = drop 203 es"
    "bh_next_page_id (ln_header l) = q" "bh_next_page_id (ln_header rl) = bh_next_page_id (ln_header n)"
    "bp_pool_size b5 = bp_pool_size (bt_bpm t)"
    "Suc (disk_room (bp_disk b5)) = disk_room (bp_disk (bt_bpm t))" "sorted_entries es" "length es = 407"
    by (rule leaf_divided [OF inv cmp find full room1 es]) (assumption | rule that; assumption)+
  have c: "c = []" using plug_leaf [OF S(3) [symmetric]] .
  note D = split_readyD [OF S(2) [unfolded c], simplified]
  have at: "pool_at b5 v5 ((\<lambda>_. 0)(p := 1, q := 1))" using D(1) by simp
  then have "pinned_pages b5 = {p, q}" by (auto simp: pool_at_def pinned_pages_def)
  then have "card (pinned_pages b5) = unat (bp_pool_size b5)" using S(4,9) size by simp
  then have new: "BufferPoolManager_NewPage b5 = (Inr None, b5)"
    using at S(10) room by (intro new_no_frame) (simp_all add: pool_at_def)
  have parent: "BPlusTree_InsertIntoParent g (fst (es ! 203)) h (t\<lparr>bt_bpm := b5\<rparr>) = Some (Inr (), t\<lparr>bt_bpm := b5\<rparr>)"
    using split_frames [OF S(2)] new c
    by (subst BPlusTree_InsertIntoParent.simps) (simp add: Let_def BPlusTree_CreateNewRoot_def)
  let ?b = "bp_unpin q True (bp_unpin p True b5)"
  let ?t = "t\<lparr>bt_bpm := bp_unpin q True (bp_unpin p True b5)\<rparr>"
  note U = unpin_halves [OF at refl S(4)]
  have "quiet ?b" using U size S(9) by (simp add: quiet_def pool_at_def)
  moreover have leaves: "leaf_at (bp_view ?b) p l" "leaf_at (bp_view ?b) q rl" using U(1) D(8,9) by (simp_all add: pool_at_def)
  ultimately have "search_pages ?t (BLeaf p l)" using btree_invD(3) [OF inv] by (simp add: search_pages_def)
  moreover have "bh_next_page_id (ln_header rl) = INVALID_PAGE_ID" using btree_invD(7) [OF inv] S(8) by simp
  then have "\<forall>k. leaf_run ?t k (BLeaf p l) [(p, l), (q, rl)]"
    using leaves S(5-7,11) cmp by (simp add: leaf_run_def)
  moreover have "BPlusTree_Insert key r t = Some (Inr True, ?t)" using S(1) parent by simp
  ultimately show ?thesis using that [of ?t l q rl] S(5,6,12) cmp by simp
qed

lemma split_without_frame:
  assumes inv: "btree_inv t (BLeaf p n)" and cmp: "bt_cmp t = cmp" and full: "LeafNode_IsFull n"
    and size: "unat (bp_pool_size (bt_bpm t)) = 2" and room: "2 \<le> disk_room (bp_disk (bt_bpm t))"
    and es: "es = entries_insert cmp (key, r) (leaf_entries n)" and d: "distinct (map fst es)"
  shows "\<exists>t'. BPlusTree_Insert key r t = Some (Inr True, t') \<and> bt_root t' = bt_root t \<and>
    (\<forall>e\<in>set (drop 203 es). \<exists>t''. BPlusTree_Lookup (fst e) t' = Some ([], t''))"
proof -
  obtain t' l q rl where S: "BPlusTree_Insert key r t = Some (Inr True, t')" "bt_root t' = bt_root t" "bt_cmp t' = cmp"
    "search_pages t' (BLeaf p l)" "\<forall>k. leaf_run t' k (BLeaf p l) [(p, l), (q, rl)]" "leaf_entries l = take 203 es"
    "leaf_entries rl = drop 203 es" "length es = 407"
    by (rule split_no_frame [OF inv cmp full size room es])
  have "\<exists>t''. BPlusTree_Lookup (fst e) t' = Some ([], t'')" if e: "e \<in> set (drop 203 es)" for e
  proof -
    have "distinct (map fst (take 203 es @ drop 203 es))" using d by (simp only: append_take_drop_id)
    then have "fst ` set (take 203 es) \<inter> fst ` set (drop 203 es) = {}" by (simp only: map_append distinct_append set_map)
    then have none: "entries_find (fst e) (leaf_entries l) = []"
      using e S(6) by (auto simp: entries_find_def filter_empty_conv)
    show ?thesis by (rule lookup_run [OF S(4,3) spec [OF S(5)], of "fst e"]) (use none in auto)
  qed
  then show ?thesis using S(1,2) by blast
qed

lemma split_duplicates:
  assumes inv: "btree_inv t (BLeaf p n)" and cmp: "bt_cmp t = cmp" and full: "LeafNode_IsFull n"
    and size: "3 \<le> unat (bp_pool_size (bt_bpm t))" and room: "2 \<le> disk_room (bp_disk (bt_bpm t))"
    and es: "es = entries_insert cmp (key, r) (leaf_entries n)" and k: "k = fst (es ! 203)"
  shows "\<exists>t' t''. BPlusTree_Insert key r t = Some (Inr True, t') \<and>
    BPlusTree_Lookup k t' = Some (entries_find k (drop 203 es), t'')"
proof -
  have find: "bt_find cmp key (BLeaf p n) = Some (p, n)" by simp
  have room1: "0 < disk_room (bp_disk (bt_bpm t))" using room by simp
  obtain q g h b5 v5 c l rl where S:
    "BPlusTree_Insert key r t = Option.bind (BPlusTree_InsertIntoParent g (fst (es ! 203)) h (t\<lparr>bt_bpm := b5\<rparr>)) (\<lambda>(res, t4).
       case res of Inl e \<Rightarrow> Some (Inl e, t4)
       | Inr _ \<Rightarrow> Some (Inr True, t4\<lparr>bt_bpm := bp_unpin q True (bp_unpin p True (bt_bpm t4))\<rparr>))"
    "split_ready (t\<lparr>bt_bpm := b5\<rparr>) v5 ((\<lambda>_. 0)(p := 1, q := 1)) g h c (BLeaf p l) (BLeaf q rl)"
    "BLeaf p n = bt_plug c (BLeaf p n)" "p \<noteq> q" "leaf_entries rl = drop 203 es" "bp_pool_size b5 = bp_pool_size (bt_bpm t)"
    "Suc (disk_room (bp_disk b5)) = disk_room (bp_disk (bt_bpm t))" "sorted_entries es"
    "bh_next_page_id (ln_header rl) = bh_next_page_id (ln_header n)"
    by (rule leaf_divided [OF inv cmp find full room1 es]) (assumption | rule that; assumption)+
  have c: "c = []" using plug_leaf [OF S(3) [symmetric]] .
  note R = S(2) [unfolded c]
  let ?t5 = "t\<lparr>bt_bpm := b5\<rparr>"
  have at: "pool_at b5 v5 ((\<lambda>_. 0)(p := 1, q := 1))" using split_readyD(1) [OF R] by simp
  then have "pinned_pages b5 = {p, q}" by (auto simp: pool_at_def pinned_pages_def)
  then have fr: "free_frames (bt_bpm ?t5) 1" using S(4,6) size by (simp add: free_frames_def)
  have rm: "0 < disk_room (bp_disk (bt_bpm ?t5))" using S(7) room by simp
  obtain b pr N v where C: "BPlusTree_CreateNewRoot p k q ?t5 = (Inr (), ?t5\<lparr>bt_root := pr, bt_bpm := b\<rparr>)"
    "bt_at v (BNode pr N [bt_reparent pr (BLeaf p l), bt_reparent pr (BLeaf q rl)])" "in_keys N = [k]"
    "pool_at b v ((\<lambda>_. 0)(p := 1, q := 1))" "frames_kept (bt_bpm ?t5) b"
    by (rule create_root_pages [OF R fr rm, where k = k, unfolded bt_id.simps]) (rule that; assumption)
  let ?tr = "BNode pr N [bt_reparent pr (BLeaf p l), bt_reparent pr (BLeaf q rl)]"
  have parent: "BPlusTree_InsertIntoParent g (fst (es ! 203)) h ?t5 = Some (Inr (), ?t5\<lparr>bt_root := pr, bt_bpm := b\<rparr>)"
    using split_frames [OF R] C(1) k by (subst BPlusTree_InsertIntoParent.simps) (simp add: Let_def)
  let ?b = "bp_unpin q True (bp_unpin p True b)" and ?t = "?t5\<lparr>bt_root := pr, bt_bpm := bp_unpin q True (bp_unpin p True b)\<rparr>"
  note U = unpin_halves [OF C(4) refl S(4)]
  have "quiet (bt_bpm ?t)" using U size pool_size_kept [OF C(5)] S(6) by (simp add: quiet_def pool_at_def)
  moreover have tree: "bt_at (bp_view (bt_bpm ?t)) ?tr" using U(1) C(2) by (simp add: pool_at_def)
  ultimately have pages: "search_pages ?t ?tr" using C(3) by (simp add: search_pages_def)
  let ?rl = "rl\<lparr>ln_header := (ln_header rl)\<lparr>bh_parent_page_id := pr\<rparr>\<rparr>"
  have e: "leaf_entries ?rl = drop 203 es" using S(5) by (simp add: leaf_entries_def)
  have "sorted_entries (take 203 es @ drop 203 es)" using S(8) by (simp only: append_take_drop_id)
  then have srt: "sorted_entries (leaf_entries ?rl)" using e by (simp only: sorted_entries_append)
  have "bh_next_page_id (ln_header ?rl) = INVALID_PAGE_ID" using btree_invD(7) [OF inv] S(9) by simp
  then have run: "leaf_run ?t k ?tr [(q, ?rl)]" using C(3) cmp tree srt by (simp add: leaf_run_def)
  obtain b' where "BPlusTree_Lookup k ?t = Some (if entries_find k (leaf_entries ?rl) = [] then []
      else entries_find k (leaves_entries [(q, ?rl)]), ?t\<lparr>bt_bpm := b'\<rparr>)"
    by (rule lookup_run [OF pages _ run]) (use cmp in simp_all)
  moreover have "BPlusTree_Insert key r t = Some (Inr True, ?t)" using S(1) parent by simp
  ultimately show ?thesis using e by auto
qed

end

section \<open>Equal keys around the split\<close>

text \<open>The keys 0 to 405 and a second entry for 202: the split puts one entry for 202 on either side.\<close>

lemma demo_duplicates:
  defines "es \<equiv> entries_insert DefaultKeyComparator (202, RID 9 9) (demo_entries 406)"
  shows "fst (es ! 202) = 202" "fst (es ! 203) = 202" "entries_find 202 (take 203 es) = [RID 9 9]"
    "entries_find 202 (drop 203 es) = [RID 7 202]"
proof -
  have split: "demo_entries 406 = demo_entries 202 @ (202, RID 7 202) # map (\<lambda>i. (of_nat i, RID 7 (of_nat i))) [203..<406]"
  proof -
    have "[0..<406] = [0..<202] @ 202 # [203..<406]" using upt_add_eq_append [of 0 202 204] upt_conv_Cons [of 202 406] by simp
    then show ?thesis by (simp add: demo_entries_def del: upt_rec_numeral)
  qed
  have below: "DefaultKeyComparator (fst x) 202 < 0" if "x \<in> set (demo_entries 202)" for x
    using that by (auto simp: demo_entries_def DefaultKeyComparator_def word_less_nat_alt unat_of_nat_small)
  have es: "es = demo_entries 202 @ (202, RID 9 9) # (202, RID 7 202) # map (\<lambda>i. (of_nat i, RID 7 (of_nat i))) [203..<406]"
    unfolding es_def split entries_insert_def using below
    by (simp add: takeWhile_append2 dropWhile_append2 DefaultKeyComparator_def del: upt_rec_numeral)
  have l: "length (demo_entries 202) = 202" by (simp add: demo_entries_def)
  show "fst (es ! 202) = 202" "fst (es ! 203) = 202" unfolding es by (simp_all add: nth_append l)
  have "x \<in> set (demo_entries 202) \<Longrightarrow> fst x \<noteq> 202" for x using below [of x] by (auto simp: DefaultKeyComparator_def)
  then show "entries_find 202 (take 203 es) = [RID 9 9]"
    unfolding es by (auto simp: l entries_find_def filter_empty_conv simp del: upt_rec_numeral)
  have "(of_nat i :: u32) \<noteq> 202" if "203 \<le> i" "i < 406" for i
    using that by (auto dest!: arg_cong [of _ _ unat] simp: unat_of_nat_small)
  then show "entries_find 202 (drop 203 es) = [RID 7 202]"
    unfolding es by (simp add: l entries_find_def filter_empty_conv del: upt_rec_numeral)
qed

section \<open>Properties\<close>

text \<open>
  C19. \<open>Lookup\<close> ends and leaves the contents of the pages alone. On a valid search tree, where a key is in one leaf, it returns
  the record ids of exactly the entries with that key, in order. On any pages the descent can follow, with a key on several
  leaves of a sorted chain, it returns nothing when the leaf the descent ends in does not have the key, and otherwise
  the record ids of that leaf and of the following leaves up to the first empty one.
\<close>

theorem btree_lookup_correct:
  "(btree_of t T \<longrightarrow> (\<exists>t'. BPlusTree_Lookup key t = Some (entries_find key (tree_entries T), t') \<and> btree_of t' T \<and>
     bp_view (bt_bpm t') = bp_view (bt_bpm t))) \<and>
   (key_order (bt_cmp t) \<and> search_pages t tr \<and> leaf_run t key tr ((p, n) # ls) \<longrightarrow>
     (\<exists>t'. BPlusTree_Lookup key t = Some (if entries_find key (leaf_entries n) = [] then []
          else entries_find key (leaves_entries ((p, n) # filled_leaves ls)), t') \<and>
        search_pages t' tr \<and> bp_view (bt_bpm t') = bp_view (bt_bpm t)))"
proof (intro conjI impI)
  assume "btree_of t T"
  from lookup_step [OF this, where key = key] show "\<exists>t'. BPlusTree_Lookup key t = Some (entries_find key (tree_entries T), t') \<and>
      btree_of t' T \<and> bp_view (bt_bpm t') = bp_view (bt_bpm t)" by (metis btree.select_convs(1) btree.surjective btree.update_convs(1))
next
  assume a: "key_order (bt_cmp t) \<and> search_pages t tr \<and> leaf_run t key tr ((p, n) # ls)"
  then obtain b' where L: "BPlusTree_Lookup key t = Some (if entries_find key (leaf_entries n) = [] then []
      else entries_find key (leaves_entries ((p, n) # filled_leaves ls)), t\<lparr>bt_bpm := b'\<rparr>)"
    "same_frame (bt_bpm t) b'" "bp_view b' = bp_view (bt_bpm t)"
    using key_order.lookup_run [of "bt_cmp t" t tr key p n ls] by blast
  have "search_pages (t\<lparr>bt_bpm := b'\<rparr>) tr"
    using a quiet_same_frame [OF _ L(2)] L(3) by (simp add: search_pages_def)
  then show "\<exists>t'. BPlusTree_Lookup key t = Some (if entries_find key (leaf_entries n) = [] then []
      else entries_find key (leaves_entries ((p, n) # filled_leaves ls)), t') \<and> search_pages t' tr \<and>
      bp_view (bt_bpm t') = bp_view (bt_bpm t)" using L by (intro exI [of _ "t\<lparr>bt_bpm := b'\<rparr>"]) simp
qed

theorem btree_lookup_correct_witness:
  "(\<exists>t t'. insert_all (demo_entries 10) (new_index 2) = Some t \<and> BPlusTree_Lookup 4 t = Some ([RID 7 4], t')) \<and>
   (\<exists>t t' t''. insert_all (demo_entries 406) (new_index 2) = Some t \<and>
     BPlusTree_Insert 202 (RID 9 9) t = Some (Inr True, t') \<and> BPlusTree_Lookup 202 t' = Some ([RID 9 9, RID 7 202], t''))"
proof
  obtain t tr where T: "insert_all (demo_entries 10) (new_index 2) = Some t" "btree_of t (Some tr)" "bt_entries tr = demo_entries 10"
    by (rule demo_index)
  have "entries_find 4 (demo_entries 10) = [RID 7 4]" by (simp add: entries_find_def demo_entries_def upt_rec)
  then show "\<exists>t t'. insert_all (demo_entries 10) (new_index 2) = Some t \<and> BPlusTree_Lookup 4 t = Some ([RID 7 4], t')"
    using mp [OF conjunct1 [OF btree_lookup_correct] T(2), of 4] T(1,3) by auto
next
  have "2 \<le> unat (2 :: u32)" by simp
  from full_index [OF this] obtain t p m where T: "insert_all (demo_entries 406) (new_index 2) = Some t" "btree_inv t (BLeaf p m)"
    "LeafNode_IsFull m" "leaf_entries m = demo_entries 406" "bt_cmp t = DefaultKeyComparator" "bp_pool_size (bt_bpm t) = 2"
    "disk_room (bp_disk (bt_bpm t)) = 4294967293" by blast
  let ?es = "entries_insert DefaultKeyComparator (202, RID 9 9) (demo_entries 406)"
  have size: "unat (bp_pool_size (bt_bpm t)) = 2" "2 \<le> disk_room (bp_disk (bt_bpm t))" using T(6,7) by simp_all
  obtain t' l q rl where S: "BPlusTree_Insert 202 (RID 9 9) t = Some (Inr True, t')" "bt_cmp t' = DefaultKeyComparator"
    "search_pages t' (BLeaf p l)" "\<forall>k. leaf_run t' k (BLeaf p l) [(p, l), (q, rl)]"
    "leaf_entries l = take 203 ?es" "leaf_entries rl = drop 203 ?es" "length ?es = 407"
    by (rule default_order.split_no_frame [OF T(2,5,3) size, of ?es 202 "RID 9 9"]) (simp add: T(4), blast)
  have "entries_find 202 (leaf_entries l) = [RID 9 9]" "entries_find 202 (leaf_entries rl) = [RID 7 202]"
    using S(5,6) demo_duplicates(3,4) by simp_all
  moreover from this have "leaf_entries rl \<noteq> []" by (auto simp: entries_find_def)
  ultimately have rs: "(if entries_find 202 (leaf_entries l) = [] then []
      else entries_find 202 (leaves_entries ((p, l) # filled_leaves [(q, rl)]))) = [RID 9 9, RID 7 202]"
    by simp
  have "key_order (bt_cmp t')" using default_order.key_order_axioms S(2) by simp
  then show "\<exists>t t' t''. insert_all (demo_entries 406) (new_index 2) = Some t \<and>
     BPlusTree_Insert 202 (RID 9 9) t = Some (Inr True, t') \<and> BPlusTree_Lookup 202 t' = Some ([RID 9 9, RID 7 202], t'')"
    using conjunct2 [OF btree_lookup_correct [of t' None 202 "BLeaf p l" p l "[(q, rl)]", unfolded rs]] S(1,3,4) T(1) by blast
qed

text \<open>
  C36. When the root is a full leaf and the pool has no frame left for a new root, \<open>Insert\<close> still returns true and the
  root stays as it is: every lookup of a key of the right half, the new key included if it is there, comes back empty.
\<close>

theorem btree_split_without_frame:
  assumes "btree_inv t (BLeaf p n)" and "LeafNode_IsFull n" and "distinct (map fst (leaf_entries n))" and
    "key \<notin> fst ` set (leaf_entries n)" and "unat (bp_pool_size (bt_bpm t)) = 2" and "2 \<le> disk_room (bp_disk (bt_bpm t))"
  shows "\<exists>t'. BPlusTree_Insert key r t = Some (Inr True, t') \<and> bt_root t' = bt_root t \<and>
    (\<forall>e\<in>set (drop 203 (entries_insert (bt_cmp t) (key, r) (leaf_entries n))). \<exists>t''. BPlusTree_Lookup (fst e) t' = Some ([], t''))"
proof -
  have "mset (map fst (entries_insert (bt_cmp t) (key, r) (leaf_entries n))) = mset (key # map fst (leaf_entries n))"
    by (simp add: mset_entries_insert)
  moreover have "distinct (key # map fst (leaf_entries n))" using assms(3,4) by simp
  ultimately have "distinct (map fst (entries_insert (bt_cmp t) (key, r) (leaf_entries n)))"
    using mset_eq_imp_distinct_iff by blast
  from key_order.split_without_frame [OF btree_invD(1) [OF assms(1)] assms(1) refl assms(2,5,6) refl this]
  show ?thesis .
qed

theorem btree_split_without_frame_witness:
  "\<exists>t t' t''. insert_all (demo_entries 406) (new_index 2) = Some t \<and>
     BPlusTree_Insert 406 (RID 7 406) t = Some (Inr True, t') \<and> BPlusTree_Lookup 406 t' = Some ([], t'')"
proof -
  have "2 \<le> unat (2 :: u32)" by simp
  from full_index [OF this] obtain t p m where T: "insert_all (demo_entries 406) (new_index 2) = Some t" "btree_inv t (BLeaf p m)"
    "LeafNode_IsFull m" "leaf_entries m = demo_entries 406" "bt_cmp t = DefaultKeyComparator" "bp_pool_size (bt_bpm t) = 2"
    "disk_room (bp_disk (bt_bpm t)) = 4294967293" by blast
  have u: "distinct (map fst (leaf_entries m))" "406 \<notin> fst ` set (leaf_entries m)" "unat (bp_pool_size (bt_bpm t)) = 2"
    "2 \<le> disk_room (bp_disk (bt_bpm t))"
    using T(4,6,7) demo_entries_unique(1) [of 406] demo_entries_unique(2) [of 406 406] by simp_all
  have es: "entries_insert (bt_cmp t) (406, RID 7 406) (leaf_entries m) = demo_entries 407"
    using demo_entries_insert [of 406] T(4,5) by simp
  have "drop 203 (demo_entries 407) ! 203 = demo_entries 407 ! 406" "203 < length (drop 203 (demo_entries 407))"
    by (simp_all add: demo_entries_def)
  then have "demo_entries 407 ! 406 \<in> set (drop 203 (demo_entries 407))" using nth_mem by metis
  then have "(406, RID 7 406) \<in> set (drop 203 (demo_entries 407))" by (simp add: demo_entries_def)
  then show ?thesis
    using btree_split_without_frame [OF T(2,3) u, of "RID 7 406"] T(1) unfolding es by fastforce
qed

text \<open>
  C37. A split puts the first 203 entries to the left and the key of entry 203 above: when the entry before it has the
  same key, \<open>Insert\<close> returns true, but \<open>Lookup\<close> of that key descends to the right half only and misses the entries that
  went to the left.
\<close>

theorem btree_duplicates_missed:
  assumes "btree_inv t (BLeaf p n)" and "LeafNode_IsFull n" and "3 \<le> unat (bp_pool_size (bt_bpm t))" and
    "2 \<le> disk_room (bp_disk (bt_bpm t))" and "es = entries_insert (bt_cmp t) (key, r) (leaf_entries n)" and
    "fst (es ! 202) = k" and "fst (es ! 203) = k"
  shows "\<exists>rs t' t''. BPlusTree_Insert key r t = Some (Inr True, t') \<and> BPlusTree_Lookup k t' = Some (rs, t'') \<and>
    rs = entries_find k (drop 203 es) \<and> length rs < length (entries_find k es)"
proof -
  have ok: "leaf_ok n" using btree_invD(4) [OF assms(1)] by (simp add: leaf_at_def leaf_node_at_def)
  have "length es = Suc (length (leaf_entries n))"
    using arg_cong [OF mset_entries_insert [of "bt_cmp t" "(key, r)" "leaf_entries n"], of size] assms(5) by simp
  moreover have "length (leaf_entries n) = 406"
    using ok assms(2) leaf_ok_entries(3) [OF ok] by (simp add: leaf_ok_def LeafNode_IsFull_def LeafNode_MAX_KEYS_def word_le_nat_alt)
  ultimately have len: "length es = 407" by simp
  have "es ! 202 \<in> set (take 203 es)" using len nth_mem [of 202 "take 203 es"] by simp
  then have "entries_find k (take 203 es) \<noteq> []" using assms(6) by (auto simp: entries_find_def filter_empty_conv)
  moreover have "entries_find k es = entries_find k (take 203 es) @ entries_find k (drop 203 es)"
    by (simp add: entries_find_def flip: map_append filter_append)
  ultimately have less: "length (entries_find k (drop 203 es)) < length (entries_find k es)" by simp
  from key_order.split_duplicates [OF btree_invD(1) [OF assms(1)] assms(1) refl assms(2-5), of k] less assms(7)
  show ?thesis by auto
qed

theorem btree_duplicates_missed_witness:
  "\<exists>t t' t''. insert_all (demo_entries 406) (new_index 3) = Some t \<and>
     BPlusTree_Insert 202 (RID 9 9) t = Some (Inr True, t') \<and> BPlusTree_Lookup 202 t' = Some ([RID 7 202], t'')"
proof -
  have "2 \<le> unat (3 :: u32)" by simp
  from full_index [OF this] obtain t p m where T: "insert_all (demo_entries 406) (new_index 3) = Some t" "btree_inv t (BLeaf p m)"
    "LeafNode_IsFull m" "leaf_entries m = demo_entries 406" "bt_cmp t = DefaultKeyComparator" "bp_pool_size (bt_bpm t) = 3"
    "disk_room (bp_disk (bt_bpm t)) = 4294967293" by blast
  let ?es = "entries_insert DefaultKeyComparator (202, RID 9 9) (demo_entries 406)"
  have "fst (?es ! 202) = 202" "fst (?es ! 203) = 202" "entries_find 202 (drop 203 ?es) = [RID 7 202]"
    by (rule demo_duplicates)+
  moreover have "3 \<le> unat (bp_pool_size (bt_bpm t))" "2 \<le> disk_room (bp_disk (bt_bpm t))" using T(6,7) by simp_all
  ultimately show ?thesis
    using btree_duplicates_missed [OF T(2,3), of ?es 202 "RID 9 9" 202] T(1,4,5) by auto
qed

end
