(* ===== verification/Volcano.thy ===== *)
theory Volcano
  imports NbaRecord "HOL-Library.AList"
begin

text \<open>
  The operators of \<open>src/query/executor.cpp\<close> that work on a child operator: filter, projection, sort, limit, top-N and
  aggregation. The abstract class \<open>Executor\<close> is the record of its virtual methods, an operator class is a function from
  the methods of its child to its own. \<open>Next\<close> has an out parameter: the model passes its old value and returns
  the new one. \<open>None\<close> is a call that does not return or fails an assertion. Predicates, projections,
  comparators and extractors (\<open>std::function\<close>) are pure functions.
\<close>

type_synonym tuple = nba_record

section \<open>The interface of all operators\<close>

record 's executor =
  ex_Init :: "'s \<Rightarrow> 's option"
  ex_Next :: "'s \<Rightarrow> tuple \<Rightarrow> (bool \<times> tuple \<times> 's) option"

definition Executor_Reset :: "'s executor \<Rightarrow> 's \<Rightarrow> 's option" where
  "Executor_Reset E s = ex_Init E s"

text \<open>What \<open>std::move\<close> leaves of a tuple: the strings are empty, the numbers are copied.\<close>

definition moved_from :: "tuple \<Rightarrow> tuple" where
  "moved_from t = t\<lparr>nr_game_id := [], nr_clock := [], nr_team := [], nr_player := [], nr_description := []\<rparr>"

text \<open>The loop \<open>while (child_->Next(&tuple)) tuples.push_back(std::move(tuple))\<close>.\<close>

partial_function (option) drain :: "'c executor \<Rightarrow> 'c \<Rightarrow> tuple \<Rightarrow> (tuple list \<times> 'c) option" where
  "drain C c tuple =
     Option.bind (ex_Next C c tuple) (\<lambda>(ok, tuple, c).
       if ok then Option.bind (drain C c (moved_from tuple)) (\<lambda>(ts, c). Some (tuple # ts, c))
       else Some ([], c))"

section \<open>Filter\<close>

record 'c filter_executor =
  fe_child :: 'c
  fe_predicate :: "tuple \<Rightarrow> bool"

definition FilterExecutor_new :: "'c \<Rightarrow> (tuple \<Rightarrow> bool) \<Rightarrow> 'c filter_executor" where
  "FilterExecutor_new child predicate = \<lparr>fe_child = child, fe_predicate = predicate\<rparr>"

definition FilterExecutor_Init :: "'c executor \<Rightarrow> 'c filter_executor \<Rightarrow> 'c filter_executor option" where
  "FilterExecutor_Init C e = map_option (\<lambda>c. e\<lparr>fe_child := c\<rparr>) (ex_Init C (fe_child e))"

partial_function (option) filter_loop :: "'c executor \<Rightarrow> (tuple \<Rightarrow> bool) \<Rightarrow> 'c \<Rightarrow> tuple \<Rightarrow> (tuple option \<times> 'c) option" where
  "filter_loop C predicate c tuple =
     Option.bind (ex_Next C c tuple) (\<lambda>(ok, tuple, c).
       if \<not> ok then Some (None, c)
       else if predicate tuple then Some (Some tuple, c)
       else filter_loop C predicate c tuple)"

definition FilterExecutor_Next :: "'c executor \<Rightarrow> 'c filter_executor \<Rightarrow> tuple \<Rightarrow> (bool \<times> tuple \<times> 'c filter_executor) option" where
  "FilterExecutor_Next C e output =
     Option.bind (filter_loop C (fe_predicate e) (fe_child e) NBARecord_default) (\<lambda>(r, c).
       case r of
         None \<Rightarrow> Some (False, output, e\<lparr>fe_child := c\<rparr>)
       | Some tuple \<Rightarrow> Some (True, tuple, e\<lparr>fe_child := c\<rparr>))"

definition FilterExecutor :: "'c executor \<Rightarrow> 'c filter_executor executor" where
  "FilterExecutor C = \<lparr>ex_Init = FilterExecutor_Init C, ex_Next = FilterExecutor_Next C\<rparr>"

section \<open>Projection\<close>

record 'c projection_executor =
  pe_child :: 'c
  pe_projection :: "tuple \<Rightarrow> tuple"

definition ProjectionExecutor_new :: "'c \<Rightarrow> (tuple \<Rightarrow> tuple) \<Rightarrow> 'c projection_executor" where
  "ProjectionExecutor_new child projection = \<lparr>pe_child = child, pe_projection = projection\<rparr>"

definition ProjectionExecutor_Init :: "'c executor \<Rightarrow> 'c projection_executor \<Rightarrow> 'c projection_executor option" where
  "ProjectionExecutor_Init C e = map_option (\<lambda>c. e\<lparr>pe_child := c\<rparr>) (ex_Init C (pe_child e))"

definition ProjectionExecutor_Next ::
  "'c executor \<Rightarrow> 'c projection_executor \<Rightarrow> tuple \<Rightarrow> (bool \<times> tuple \<times> 'c projection_executor) option" where
  "ProjectionExecutor_Next C e output =
     Option.bind (ex_Next C (pe_child e) NBARecord_default) (\<lambda>(ok, tuple, c).
       if ok then Some (True, pe_projection e tuple, e\<lparr>pe_child := c\<rparr>)
       else Some (False, output, e\<lparr>pe_child := c\<rparr>))"

definition ProjectionExecutor :: "'c executor \<Rightarrow> 'c projection_executor executor" where
  "ProjectionExecutor C = \<lparr>ex_Init = ProjectionExecutor_Init C, ex_Next = ProjectionExecutor_Next C\<rparr>"

section \<open>Limit\<close>

record 'c limit_executor =
  le_child :: 'c
  le_limit :: u32
  le_emitted :: u32

definition LimitExecutor_new :: "'c \<Rightarrow> u32 \<Rightarrow> 'c limit_executor" where
  "LimitExecutor_new child limit = \<lparr>le_child = child, le_limit = limit, le_emitted = 0\<rparr>"

definition LimitExecutor_Init :: "'c executor \<Rightarrow> 'c limit_executor \<Rightarrow> 'c limit_executor option" where
  "LimitExecutor_Init C e = map_option (\<lambda>c. e\<lparr>le_child := c, le_emitted := 0\<rparr>) (ex_Init C (le_child e))"

definition LimitExecutor_Next :: "'c executor \<Rightarrow> 'c limit_executor \<Rightarrow> tuple \<Rightarrow> (bool \<times> tuple \<times> 'c limit_executor) option" where
  "LimitExecutor_Next C e output =
     (if le_limit e \<le> le_emitted e then Some (False, output, e)
      else Option.bind (ex_Next C (le_child e) NBARecord_default) (\<lambda>(ok, tuple, c).
        if ok then Some (True, tuple, e\<lparr>le_child := c, le_emitted := le_emitted e + 1\<rparr>)
        else Some (False, output, e\<lparr>le_child := c\<rparr>)))"

definition LimitExecutor :: "'c executor \<Rightarrow> 'c limit_executor executor" where
  "LimitExecutor C = \<lparr>ex_Init = LimitExecutor_Init C, ex_Next = LimitExecutor_Next C\<rparr>"

section \<open>Sort and top-N\<close>

text \<open>
  \<open>std::sort\<close> and \<open>std::partial_sort\<close> leave the order of equivalent elements open, so they are arguments of the model.
\<close>

type_synonym sort_fn = "(tuple \<Rightarrow> tuple \<Rightarrow> bool) \<Rightarrow> tuple list \<Rightarrow> tuple list"

type_synonym partial_sort_fn = "(tuple \<Rightarrow> tuple \<Rightarrow> bool) \<Rightarrow> nat \<Rightarrow> tuple list \<Rightarrow> tuple list"

record 'c sort_executor =
  se_child :: 'c
  se_comparator :: "tuple \<Rightarrow> tuple \<Rightarrow> bool"
  se_sorted_tuples :: "tuple list"
  se_current_idx :: nat

definition SortExecutor_new :: "'c \<Rightarrow> (tuple \<Rightarrow> tuple \<Rightarrow> bool) \<Rightarrow> 'c sort_executor" where
  "SortExecutor_new child comparator =
     \<lparr>se_child = child, se_comparator = comparator, se_sorted_tuples = [], se_current_idx = 0\<rparr>"

definition SortExecutor_Init :: "sort_fn \<Rightarrow> 'c executor \<Rightarrow> 'c sort_executor \<Rightarrow> 'c sort_executor option" where
  "SortExecutor_Init sorter C e =
     Option.bind (ex_Init C (se_child e)) (\<lambda>c.
       Option.bind (drain C c NBARecord_default) (\<lambda>(ts, c).
         Some (e\<lparr>se_child := c, se_sorted_tuples := sorter (se_comparator e) ts, se_current_idx := 0\<rparr>)))"

definition SortExecutor_Next :: "'c sort_executor \<Rightarrow> tuple \<Rightarrow> (bool \<times> tuple \<times> 'c sort_executor) option" where
  "SortExecutor_Next e output =
     (if se_current_idx e < length (se_sorted_tuples e)
      then Some (True, se_sorted_tuples e ! se_current_idx e, e\<lparr>se_current_idx := Suc (se_current_idx e)\<rparr>)
      else Some (False, output, e))"

definition SortExecutor :: "sort_fn \<Rightarrow> 'c executor \<Rightarrow> 'c sort_executor executor" where
  "SortExecutor sorter C = \<lparr>ex_Init = SortExecutor_Init sorter C, ex_Next = SortExecutor_Next\<rparr>"

record 'c top_n_executor =
  tn_child :: 'c
  tn_comparator :: "tuple \<Rightarrow> tuple \<Rightarrow> bool"
  tn_limit :: u32
  tn_top_tuples :: "tuple list"
  tn_current_idx :: nat

definition TopNExecutor_new :: "'c \<Rightarrow> (tuple \<Rightarrow> tuple \<Rightarrow> bool) \<Rightarrow> u32 \<Rightarrow> 'c top_n_executor" where
  "TopNExecutor_new child comparator limit =
     \<lparr>tn_child = child, tn_comparator = comparator, tn_limit = limit, tn_top_tuples = [], tn_current_idx = 0\<rparr>"

text \<open>The number of input tuples is cast to \<open>uint32_t\<close>.\<close>

definition TopNExecutor_Init :: "partial_sort_fn \<Rightarrow> 'c executor \<Rightarrow> 'c top_n_executor \<Rightarrow> 'c top_n_executor option" where
  "TopNExecutor_Init partial_sorter C e =
     Option.bind (ex_Init C (tn_child e)) (\<lambda>c.
       Option.bind (drain C c NBARecord_default) (\<lambda>(all_tuples, c).
         let k = unat (min (tn_limit e) (of_nat (length all_tuples)))
         in Some (e\<lparr>tn_child := c, tn_current_idx := 0,
              tn_top_tuples := (if 0 < k then take k (partial_sorter (tn_comparator e) k all_tuples) else [])\<rparr>)))"

definition TopNExecutor_Next :: "'c top_n_executor \<Rightarrow> tuple \<Rightarrow> (bool \<times> tuple \<times> 'c top_n_executor) option" where
  "TopNExecutor_Next e output =
     (if tn_current_idx e < length (tn_top_tuples e)
      then Some (True, tn_top_tuples e ! tn_current_idx e, e\<lparr>tn_current_idx := Suc (tn_current_idx e)\<rparr>)
      else Some (False, output, e))"

definition TopNExecutor :: "partial_sort_fn \<Rightarrow> 'c executor \<Rightarrow> 'c top_n_executor executor" where
  "TopNExecutor partial_sorter C = \<lparr>ex_Init = TopNExecutor_Init partial_sorter C, ex_Next = TopNExecutor_Next\<rparr>"

section \<open>Aggregation\<close>

text \<open>
  The arithmetic on \<open>double\<close> is an argument: the operations the code applies and the two limits, for any representation
  \<open>'d\<close>. So is the order in which the iteration over the \<open>std::unordered_map\<close> visits the groups.
\<close>

record 'd double_ops =
  d_zero :: 'd
  d_add :: "'d \<Rightarrow> 'd \<Rightarrow> 'd"
  d_div :: "'d \<Rightarrow> 'd \<Rightarrow> 'd"
  d_less :: "'d \<Rightarrow> 'd \<Rightarrow> bool"
  d_of_u64 :: "u64 \<Rightarrow> 'd"
  d_to_u16 :: "'d \<Rightarrow> u16"
  d_max :: 'd
  d_lowest :: 'd

datatype agg_type = kCount | kSum | kAvg | kMin | kMax

record 'd agg_spec =
  as_type :: agg_type
  as_value_extractor :: "tuple \<Rightarrow> 'd"
  as_result_name :: cstring

record 'd agg_result =
  ar_group_key :: cstring
  ar_values :: "'d list"

record 'd group_accumulator =
  ga_count :: u64
  ga_sums :: "'d list"
  ga_mins :: "'d list"
  ga_maxs :: "'d list"

record ('c, 'd) aggregation_executor =
  ae_child :: 'c
  ae_group_key_extractor :: "tuple \<Rightarrow> cstring"
  ae_agg_specs :: "'d agg_spec list"
  ae_results :: "'d agg_result list"
  ae_current_idx :: nat

definition AggregationExecutor_new ::
  "'c \<Rightarrow> (tuple \<Rightarrow> cstring) \<Rightarrow> 'd agg_spec list \<Rightarrow> ('c, 'd) aggregation_executor" where
  "AggregationExecutor_new child group_key_extractor agg_specs =
     \<lparr>ae_child = child, ae_group_key_extractor = group_key_extractor, ae_agg_specs = agg_specs, ae_results = [],
      ae_current_idx = 0\<rparr>"

text \<open>A new group, and one tuple added to a group (\<open>std::min(a, b)\<close> is \<open>b < a ? b : a\<close>).\<close>

definition new_group :: "'d double_ops \<Rightarrow> nat \<Rightarrow> 'd group_accumulator" where
  "new_group D num_aggs =
     \<lparr>ga_count = 0, ga_sums = replicate num_aggs (d_zero D), ga_mins = replicate num_aggs (d_max D),
      ga_maxs = replicate num_aggs (d_lowest D)\<rparr>"

definition d_min2 :: "'d double_ops \<Rightarrow> 'd \<Rightarrow> 'd \<Rightarrow> 'd" where
  "d_min2 D a b = (if d_less D b a then b else a)"

definition d_max2 :: "'d double_ops \<Rightarrow> 'd \<Rightarrow> 'd \<Rightarrow> 'd" where
  "d_max2 D a b = (if d_less D a b then b else a)"

definition add_tuple :: "'d double_ops \<Rightarrow> 'd agg_spec list \<Rightarrow> tuple \<Rightarrow> 'd group_accumulator \<Rightarrow> 'd group_accumulator" where
  "add_tuple D specs tuple acc =
     (let vals = map (\<lambda>s. as_value_extractor s tuple) specs
      in \<lparr>ga_count = ga_count acc + 1, ga_sums = map2 (d_add D) (ga_sums acc) vals,
          ga_mins = map2 (d_min2 D) (ga_mins acc) vals, ga_maxs = map2 (d_max2 D) (ga_maxs acc) vals\<rparr>)"

definition add_to_groups ::
  "'d double_ops \<Rightarrow> 'd agg_spec list \<Rightarrow> cstring \<Rightarrow> tuple \<Rightarrow> (cstring \<times> 'd group_accumulator) list \<Rightarrow>
   (cstring \<times> 'd group_accumulator) list" where
  "add_to_groups D specs group_key tuple groups =
     (let acc = (case map_of groups group_key of None \<Rightarrow> new_group D (length specs) | Some acc \<Rightarrow> acc)
      in AList.update group_key (add_tuple D specs tuple acc) groups)"

partial_function (option) agg_loop ::
  "'d double_ops \<Rightarrow> 'c executor \<Rightarrow> (tuple \<Rightarrow> cstring) \<Rightarrow> 'd agg_spec list \<Rightarrow> (cstring \<times> 'd group_accumulator) list \<Rightarrow>
   'c \<Rightarrow> tuple \<Rightarrow> ((cstring \<times> 'd group_accumulator) list \<times> 'c) option" where
  "agg_loop D C key specs groups c tuple =
     Option.bind (ex_Next C c tuple) (\<lambda>(ok, tuple, c).
       if ok then agg_loop D C key specs (add_to_groups D specs (key tuple) tuple groups) c tuple
       else Some (groups, c))"

definition agg_value :: "'d double_ops \<Rightarrow> agg_type \<Rightarrow> nat \<Rightarrow> 'd group_accumulator \<Rightarrow> 'd" where
  "agg_value D ty i acc =
     (case ty of
        kCount \<Rightarrow> d_of_u64 D (ga_count acc)
      | kSum \<Rightarrow> ga_sums acc ! i
      | kAvg \<Rightarrow> (if 0 < ga_count acc then d_div D (ga_sums acc ! i) (d_of_u64 D (ga_count acc)) else d_zero D)
      | kMin \<Rightarrow> ga_mins acc ! i
      | kMax \<Rightarrow> ga_maxs acc ! i)"

definition agg_result_of :: "'d double_ops \<Rightarrow> 'd agg_spec list \<Rightarrow> cstring \<times> 'd group_accumulator \<Rightarrow> 'd agg_result" where
  "agg_result_of D specs g =
     \<lparr>ar_group_key = fst g, ar_values = map (\<lambda>i. agg_value D (as_type (specs ! i)) i (snd g)) [0..<length specs]\<rparr>"

type_synonym 'd group_order = "(cstring \<times> 'd group_accumulator) list \<Rightarrow> (cstring \<times> 'd group_accumulator) list"

definition AggregationExecutor_Init ::
  "'d double_ops \<Rightarrow> 'd group_order \<Rightarrow> 'c executor \<Rightarrow> ('c, 'd) aggregation_executor \<Rightarrow> ('c, 'd) aggregation_executor option" where
  "AggregationExecutor_Init D map_order C e =
     Option.bind (ex_Init C (ae_child e)) (\<lambda>c.
       Option.bind (agg_loop D C (ae_group_key_extractor e) (ae_agg_specs e) [] c NBARecord_default) (\<lambda>(groups, c).
         Some (e\<lparr>ae_child := c, ae_current_idx := 0,
           ae_results := map (agg_result_of D (ae_agg_specs e)) (map_order groups)\<rparr>)))"

text \<open>One result as a tuple: only these fields of \<open>*output\<close> are assigned.\<close>

definition pack_result :: "'d double_ops \<Rightarrow> 'd agg_result \<Rightarrow> tuple \<Rightarrow> tuple" where
  "pack_result D result output =
     (let vs = ar_values result;
          t1 = output\<lparr>nr_game_id := [], nr_team := ar_group_key result, nr_description := []\<rparr>;
          t2 = (if 0 < length vs then t1\<lparr>nr_home_score := d_to_u16 D (vs ! 0)\<rparr> else t1);
          t3 = (if 1 < length vs then t2\<lparr>nr_away_score := d_to_u16 D (vs ! 1)\<rparr> else t2);
          t4 = (if 2 < length vs then t3\<lparr>nr_shot_distance := d_to_u16 D (vs ! 2)\<rparr> else t3)
      in t4\<lparr>nr_season := d_to_u16 D (if vs = [] then d_zero D else vs ! 0)\<rparr>)"

definition AggregationExecutor_Next ::
  "'d double_ops \<Rightarrow> ('c, 'd) aggregation_executor \<Rightarrow> tuple \<Rightarrow> (bool \<times> tuple \<times> ('c, 'd) aggregation_executor) option" where
  "AggregationExecutor_Next D e output =
     (if ae_current_idx e < length (ae_results e)
      then Some (True, pack_result D (ae_results e ! ae_current_idx e) output, e\<lparr>ae_current_idx := Suc (ae_current_idx e)\<rparr>)
      else Some (False, output, e))"

definition AggregationExecutor_GetResults :: "('c, 'd) aggregation_executor \<Rightarrow> 'd agg_result list" where
  "AggregationExecutor_GetResults e = ae_results e"

definition AggregationExecutor :: "'d double_ops \<Rightarrow> 'd group_order \<Rightarrow> 'c executor \<Rightarrow> ('c, 'd) aggregation_executor executor" where
  "AggregationExecutor D map_order C = \<lparr>ex_Init = AggregationExecutor_Init D map_order C, ex_Next = AggregationExecutor_Next D\<rparr>"

end
