(* ===== verification/VolcanoSpec.thy ===== *)
theory VolcanoSpec
  imports Volcano
begin

text \<open>
  The contract between operators as a locale: from a state whose source holds the tuples \<open>xs\<close>, \<open>Init\<close> and then
  \<open>Next\<close>, call by call, delivers exactly \<open>xs\<close>, and then returns false for good. Each operator over a child that
  satisfies the contract satisfies it with its own list of tuples.
\<close>

section \<open>The contract\<close>

text \<open>
  \<open>src s xs\<close>: initialising from \<open>s\<close> will deliver \<open>xs\<close>. \<open>rest zs s xs\<close>: of the \<open>zs\<close> that are delivered in all, the
  \<open>xs\<close> are still to come. \<open>clean\<close> tuples may be passed as the old value of the out parameter; an operator that does
  not assign every field needs it.
\<close>

locale volcano =
  fixes E :: "'s executor" and src :: "'s \<Rightarrow> tuple list \<Rightarrow> bool" and rest :: "tuple list \<Rightarrow> 's \<Rightarrow> tuple list \<Rightarrow> bool"
    and clean :: "tuple \<Rightarrow> bool"
  assumes init: "src s xs \<Longrightarrow> \<exists>s'. ex_Init E s = Some s' \<and> rest xs s' xs"
    and next_end: "rest zs s [] \<Longrightarrow> clean out \<Longrightarrow> \<exists>s'. ex_Next E s out = Some (False, out, s') \<and> rest zs s' []"
    and next_more: "rest zs s (x # xs) \<Longrightarrow> clean out \<Longrightarrow> \<exists>s'. ex_Next E s out = Some (True, x, s') \<and> rest zs s' xs"
    and clean_default: "clean NBARecord_default"
    and clean_more: "rest zs s (x # xs) \<Longrightarrow> clean x \<and> clean (moved_from x)"

text \<open>An operator that can be reset once \<open>Next\<close> has returned false, and one that can be reset at any time.\<close>

locale rescannable = volcano +
  assumes again: "rest zs s [] \<Longrightarrow> clean out \<Longrightarrow> ex_Next E s out = Some (False, out, s') \<Longrightarrow> src s' zs"

locale materialized = volcano +
  assumes anytime: "rest zs s xs \<Longrightarrow> src s zs"

sublocale materialized \<subseteq> rescannable
  by unfold_locales (metis Pair_inject next_end option.inject anytime)

text \<open>A client that pulls everything: \<open>Init(); while (Next(&tuple)) ...\<close>.\<close>

partial_function (option) pull_all :: "'s executor \<Rightarrow> 's \<Rightarrow> tuple \<Rightarrow> (tuple list \<times> 's) option" where
  "pull_all E s tuple =
     Option.bind (ex_Next E s tuple) (\<lambda>(ok, tuple, s).
       if ok then Option.bind (pull_all E s tuple) (\<lambda>(ts, s). Some (tuple # ts, s)) else Some ([], s))"

definition run_query :: "'s executor \<Rightarrow> 's \<Rightarrow> (tuple list \<times> 's) option" where
  "run_query E s = Option.bind (ex_Init E s) (\<lambda>s. pull_all E s NBARecord_default)"

context volcano begin

lemma pull_rest: "rest zs s xs \<Longrightarrow> clean out \<Longrightarrow> \<exists>s'. pull_all E s out = Some (xs, s') \<and> rest zs s' []"
proof (induction xs arbitrary: s out)
  case Nil
  from next_end [OF Nil] show ?case by (subst pull_all.simps) auto
next
  case (Cons x xs)
  obtain s1 where n: "ex_Next E s out = Some (True, x, s1)" "rest zs s1 xs" using next_more [OF Cons.prems] by blast
  have "clean x" using clean_more [OF Cons.prems(1)] by simp
  from Cons.IH [OF n(2) this] n(1) show ?case by (subst pull_all.simps) auto
qed

lemma run_src: "src s xs \<Longrightarrow> \<exists>s'. run_query E s = Some (xs, s') \<and> rest xs s' []"
  using init [of s xs] pull_rest [OF _ clean_default] by (fastforce simp: run_query_def)

lemma drain_rest: "rest zs s xs \<Longrightarrow> clean out \<Longrightarrow> \<exists>s'. drain E s out = Some (xs, s') \<and> rest zs s' []"
proof (induction xs arbitrary: s out)
  case Nil
  from next_end [OF Nil] show ?case by (subst drain.simps) auto
next
  case (Cons x xs)
  obtain s1 where n: "ex_Next E s out = Some (True, x, s1)" "rest zs s1 xs" using next_more [OF Cons.prems] by blast
  have "clean (moved_from x)" using clean_more [OF Cons.prems(1)] by simp
  from Cons.IH [OF n(2) this] n(1) show ?case by (subst drain.simps) auto
qed

lemma init_drain:
  "src s xs \<Longrightarrow> \<exists>s1 s2. ex_Init E s = Some s1 \<and> drain E s1 NBARecord_default = Some (xs, s2) \<and> rest xs s2 []"
  using init drain_rest [OF _ clean_default] by blast

end

context rescannable begin

lemma drain_src: "rest zs s xs \<Longrightarrow> clean out \<Longrightarrow> \<exists>s'. drain E s out = Some (xs, s') \<and> src s' zs"
proof (induction xs arbitrary: s out)
  case Nil
  from next_end [OF Nil] again [OF Nil] show ?case by (subst drain.simps) auto
next
  case (Cons x xs)
  obtain s1 where n: "ex_Next E s out = Some (True, x, s1)" "rest zs s1 xs" using next_more [OF Cons.prems] by blast
  have "clean (moved_from x)" using clean_more [OF Cons.prems(1)] by simp
  from Cons.IH [OF n(2) this] n(1) show ?case by (subst drain.simps) auto
qed

lemma init_drain_src:
  "src s xs \<Longrightarrow> \<exists>s1 s2. ex_Init E s = Some s1 \<and> drain E s1 NBARecord_default = Some (xs, s2) \<and> src s2 xs"
  using init drain_src [OF _ clean_default] by blast

lemma pull_src: "rest zs s xs \<Longrightarrow> clean out \<Longrightarrow> \<exists>s'. pull_all E s out = Some (xs, s') \<and> src s' zs"
proof (induction xs arbitrary: s out)
  case Nil
  from next_end [OF Nil] again [OF Nil] show ?case by (subst pull_all.simps) auto
next
  case (Cons x xs)
  obtain s1 where n: "ex_Next E s out = Some (True, x, s1)" "rest zs s1 xs" using next_more [OF Cons.prems] by blast
  have "clean x" using clean_more [OF Cons.prems(1)] by simp
  from Cons.IH [OF n(2) this] n(1) show ?case by (subst pull_all.simps) auto
qed

lemma run_again: "src s xs \<Longrightarrow> \<exists>s'. run_query E s = Some (xs, s') \<and> src s' xs"
  using init [of s xs] pull_src [OF _ clean_default] by (fastforce simp: run_query_def)

end

section \<open>Filter, projection and limit\<close>

definition filter_src :: "('c \<Rightarrow> tuple list \<Rightarrow> bool) \<Rightarrow> 'c filter_executor \<Rightarrow> tuple list \<Rightarrow> bool" where
  "filter_src src e ys \<longleftrightarrow> (\<exists>xs. src (fe_child e) xs \<and> ys = filter (fe_predicate e) xs)"

definition filter_rest :: "(tuple list \<Rightarrow> 'c \<Rightarrow> tuple list \<Rightarrow> bool) \<Rightarrow> tuple list \<Rightarrow> 'c filter_executor \<Rightarrow> tuple list \<Rightarrow> bool" where
  "filter_rest rest zs e ys \<longleftrightarrow>
     (\<exists>ws xs. rest ws (fe_child e) xs \<and> zs = filter (fe_predicate e) ws \<and> ys = filter (fe_predicate e) xs)"

definition projection_src :: "('c \<Rightarrow> tuple list \<Rightarrow> bool) \<Rightarrow> 'c projection_executor \<Rightarrow> tuple list \<Rightarrow> bool" where
  "projection_src src e ys \<longleftrightarrow> (\<exists>xs. src (pe_child e) xs \<and> ys = map (pe_projection e) xs)"

definition projection_rest ::
  "(tuple list \<Rightarrow> 'c \<Rightarrow> tuple list \<Rightarrow> bool) \<Rightarrow> tuple list \<Rightarrow> 'c projection_executor \<Rightarrow> tuple list \<Rightarrow> bool" where
  "projection_rest rest zs e ys \<longleftrightarrow>
     (\<exists>ws xs. rest ws (pe_child e) xs \<and> zs = map (pe_projection e) ws \<and> ys = map (pe_projection e) xs)"

definition limit_src :: "('c \<Rightarrow> tuple list \<Rightarrow> bool) \<Rightarrow> 'c limit_executor \<Rightarrow> tuple list \<Rightarrow> bool" where
  "limit_src src e ys \<longleftrightarrow> (\<exists>xs. src (le_child e) xs \<and> ys = take (unat (le_limit e)) xs)"

definition limit_rest :: "(tuple list \<Rightarrow> 'c \<Rightarrow> tuple list \<Rightarrow> bool) \<Rightarrow> tuple list \<Rightarrow> 'c limit_executor \<Rightarrow> tuple list \<Rightarrow> bool" where
  "limit_rest rest zs e ys \<longleftrightarrow>
     (\<exists>ws xs. rest ws (le_child e) xs \<and> zs = take (unat (le_limit e)) ws \<and>
       ys = take (unat (le_limit e) - unat (le_emitted e)) xs)"

context volcano begin

lemma filter_loop_rest:
  "rest zs c xs \<Longrightarrow> clean t \<Longrightarrow>
   \<exists>c'. (case filter p xs of
           [] \<Rightarrow> filter_loop E p c t = Some (None, c') \<and> rest zs c' []
         | y # ys \<Rightarrow> filter_loop E p c t = Some (Some y, c') \<and> (\<exists>xs'. rest zs c' xs' \<and> filter p xs' = ys))"
proof (induction xs arbitrary: c t)
  case Nil
  from next_end [OF Nil] show ?case by (subst filter_loop.simps) auto
next
  case (Cons x xs)
  obtain c1 where n: "ex_Next E c t = Some (True, x, c1)" "rest zs c1 xs" using next_more [OF Cons.prems] by blast
  show ?case
  proof (cases "p x")
    case True
    then show ?thesis using n by (subst filter_loop.simps) auto
  next
    case False
    have "clean x" using clean_more [OF Cons.prems(1)] by simp
    moreover have "filter_loop E p c t = filter_loop E p c1 x" using n(1) False by (subst filter_loop.simps) simp
    ultimately show ?thesis using Cons.IH [OF n(2), of x] False by (cases "filter p xs") simp_all
  qed
qed

lemma filter_volcano: "volcano (FilterExecutor E) (filter_src src) (filter_rest rest) (\<lambda>_. True)"
proof
  fix s xs assume "filter_src src s xs"
  then show "\<exists>s'. ex_Init (FilterExecutor E) s = Some s' \<and> filter_rest rest xs s' xs"
    using init by (fastforce simp: filter_src_def filter_rest_def FilterExecutor_def FilterExecutor_Init_def)
next
  fix zs s out assume "filter_rest rest zs s []"
  then obtain ws xs where r: "rest ws (fe_child s) xs" "zs = filter (fe_predicate s) ws" "filter (fe_predicate s) xs = []"
    by (auto simp: filter_rest_def)
  then obtain c where c: "filter_loop E (fe_predicate s) (fe_child s) NBARecord_default = Some (None, c)" "rest ws c []"
    using filter_loop_rest [OF r(1) clean_default, of "fe_predicate s"] by auto
  then have "filter_rest rest zs (s\<lparr>fe_child := c\<rparr>) []"
    unfolding filter_rest_def using r(2) by (intro exI [of _ ws] exI [of _ "[]"]) simp
  then show "\<exists>s'. ex_Next (FilterExecutor E) s out = Some (False, out, s') \<and> filter_rest rest zs s' []"
    using c(1) by (simp add: FilterExecutor_def FilterExecutor_Next_def)
next
  fix zs s x xs out assume "filter_rest rest zs s (x # xs)"
  then obtain ws ys where r: "rest ws (fe_child s) ys" "zs = filter (fe_predicate s) ws" "filter (fe_predicate s) ys = x # xs"
    by (auto simp: filter_rest_def)
  then obtain c ys' where c: "filter_loop E (fe_predicate s) (fe_child s) NBARecord_default = Some (Some x, c)" "rest ws c ys'"
    "filter (fe_predicate s) ys' = xs"
    using filter_loop_rest [OF r(1) clean_default, of "fe_predicate s"] by auto
  then have "filter_rest rest zs (s\<lparr>fe_child := c\<rparr>) xs"
    unfolding filter_rest_def using r(2) by (intro exI [of _ ws] exI [of _ ys']) simp
  then show "\<exists>s'. ex_Next (FilterExecutor E) s out = Some (True, x, s') \<and> filter_rest rest zs s' xs"
    using c(1) by (simp add: FilterExecutor_def FilterExecutor_Next_def)
qed simp_all

lemma projection_volcano: "volcano (ProjectionExecutor E) (projection_src src) (projection_rest rest) (\<lambda>_. True)"
proof
  fix s xs assume "projection_src src s xs"
  then show "\<exists>s'. ex_Init (ProjectionExecutor E) s = Some s' \<and> projection_rest rest xs s' xs"
    using init by (fastforce simp: projection_src_def projection_rest_def ProjectionExecutor_def ProjectionExecutor_Init_def)
next
  fix zs s out assume "projection_rest rest zs s []"
  then show "\<exists>s'. ex_Next (ProjectionExecutor E) s out = Some (False, out, s') \<and> projection_rest rest zs s' []"
    using next_end [OF _ clean_default]
    by (fastforce simp: projection_rest_def ProjectionExecutor_def ProjectionExecutor_Next_def)
next
  fix zs s x xs out assume "projection_rest rest zs s (x # xs)"
  then obtain ws y ys where r: "rest ws (pe_child s) (y # ys)" "zs = map (pe_projection s) ws" "x = pe_projection s y"
    "xs = map (pe_projection s) ys"
    by (auto simp: projection_rest_def Cons_eq_map_conv)
  obtain c where c: "ex_Next E (pe_child s) NBARecord_default = Some (True, y, c)" "rest ws c ys"
    using next_more [OF r(1) clean_default] by blast
  then have "projection_rest rest zs (s\<lparr>pe_child := c\<rparr>) xs"
    unfolding projection_rest_def using r(2,4) by (intro exI [of _ ws] exI [of _ ys]) simp
  then show "\<exists>s'. ex_Next (ProjectionExecutor E) s out = Some (True, x, s') \<and> projection_rest rest zs s' xs"
    using c(1) r(3) by (simp add: ProjectionExecutor_def ProjectionExecutor_Next_def)
qed simp_all

lemma limit_volcano: "volcano (LimitExecutor E) (limit_src src) (limit_rest rest) (\<lambda>_. True)"
proof
  fix s xs assume "limit_src src s xs"
  then show "\<exists>s'. ex_Init (LimitExecutor E) s = Some s' \<and> limit_rest rest xs s' xs"
    using init by (fastforce simp: limit_src_def limit_rest_def LimitExecutor_def LimitExecutor_Init_def)
next
  fix zs s out assume R: "limit_rest rest zs s []"
  then obtain ws xs where r: "rest ws (le_child s) xs" "zs = take (unat (le_limit s)) ws"
    "xs = [] \<or> le_limit s \<le> le_emitted s"
    by (auto simp: limit_rest_def word_le_nat_alt)
  show "\<exists>s'. ex_Next (LimitExecutor E) s out = Some (False, out, s') \<and> limit_rest rest zs s' []"
  proof (cases "le_limit s \<le> le_emitted s")
    case True
    then show ?thesis using R by (simp add: LimitExecutor_def LimitExecutor_Next_def)
  next
    case False
    then obtain c where "ex_Next E (le_child s) NBARecord_default = Some (False, NBARecord_default, c)" "rest ws c []"
      using r next_end [OF _ clean_default] by blast
    then show ?thesis using r(2) False by (auto simp: limit_rest_def LimitExecutor_def LimitExecutor_Next_def)
  qed
next
  fix zs s x xs out assume "limit_rest rest zs s (x # xs)"
  then obtain ws ys where r: "rest ws (le_child s) (x # ys)" "zs = take (unat (le_limit s)) ws"
    "le_emitted s < le_limit s" "xs = take (unat (le_limit s) - Suc (unat (le_emitted s))) ys"
    by (auto simp: limit_rest_def take_Cons' word_less_nat_alt split: if_splits) (case_tac xsa; auto simp: take_Cons' split: if_splits)
  have e: "unat (le_emitted s + 1) = Suc (unat (le_emitted s))"
    using r(3) unat32_lt [of "le_limit s"] by (simp add: unat_word_ariths word_less_nat_alt del: unat32_lt)
  obtain c where c: "ex_Next E (le_child s) NBARecord_default = Some (True, x, c)" "rest ws c ys"
    using next_more [OF r(1) clean_default] by blast
  let ?s = "s\<lparr>le_child := c, le_emitted := le_emitted s + 1\<rparr>"
  have "limit_rest rest zs ?s xs"
    unfolding limit_rest_def using c(2) r(2,4) e by (intro exI [of _ ws] exI [of _ ys]) simp
  then show "\<exists>s'. ex_Next (LimitExecutor E) s out = Some (True, x, s') \<and> limit_rest rest zs s' xs"
    using c(1) r(3) by (intro exI [of _ ?s]) (simp add: LimitExecutor_def LimitExecutor_Next_def)
qed simp_all

end

text \<open>A reset after the last tuple, where the child allows it.\<close>

context rescannable begin

lemma filter_loop_end:
  "rest zs c xs \<Longrightarrow> filter p xs = [] \<Longrightarrow> clean t \<Longrightarrow> filter_loop E p c t = Some (None, c') \<Longrightarrow> src c' zs"
proof (induction xs arbitrary: c t)
  case Nil
  obtain c1 where n: "ex_Next E c t = Some (False, t, c1)" using next_end [OF Nil(1,3)] by blast
  then have "c1 = c'" using Nil(4) by (subst (asm) filter_loop.simps) simp
  then show ?case using again [OF Nil(1,3) n] by simp
next
  case (Cons x xs)
  obtain c1 where n: "ex_Next E c t = Some (True, x, c1)" "rest zs c1 xs" using next_more [OF Cons.prems(1,3)] by blast
  have "clean x" using clean_more [OF Cons.prems(1)] by simp
  moreover have "filter_loop E p c1 x = Some (None, c')" using n(1) Cons.prems(2,4) by (subst (asm) filter_loop.simps) (simp split: if_splits)
  ultimately show ?case using Cons.IH [OF n(2)] Cons.prems(2) by (simp split: if_splits)
qed

lemma filter_rescannable: "rescannable (FilterExecutor E) (filter_src src) (filter_rest rest) (\<lambda>_. True)"
proof (rule rescannable.intro [OF filter_volcano], unfold_locales)
  fix zs s out s'
  assume R: "filter_rest rest zs s []" and n: "ex_Next (FilterExecutor E) s out = Some (False, out, s')"
  obtain ws xs where r: "rest ws (fe_child s) xs" "zs = filter (fe_predicate s) ws" "filter (fe_predicate s) xs = []"
    using R by (auto simp: filter_rest_def)
  obtain c where c: "filter_loop E (fe_predicate s) (fe_child s) NBARecord_default = Some (None, c)" "s' = s\<lparr>fe_child := c\<rparr>"
    using n by (auto simp: FilterExecutor_def FilterExecutor_Next_def bind_eq_Some_conv split: option.splits)
  show "filter_src src s' zs"
    using filter_loop_end [OF r(1,3) clean_default c(1)] r(2) c(2) by (auto simp: filter_src_def)
qed

lemma projection_rescannable: "rescannable (ProjectionExecutor E) (projection_src src) (projection_rest rest) (\<lambda>_. True)"
proof (rule rescannable.intro [OF projection_volcano], unfold_locales)
  fix zs s out s'
  assume R: "projection_rest rest zs s []" and n: "ex_Next (ProjectionExecutor E) s out = Some (False, out, s')"
  obtain ws where r: "rest ws (pe_child s) []" "zs = map (pe_projection s) ws" using R by (auto simp: projection_rest_def)
  obtain c where c: "ex_Next E (pe_child s) NBARecord_default = Some (False, NBARecord_default, c)"
    using next_end [OF r(1) clean_default] by blast
  have "s' = s\<lparr>pe_child := c\<rparr>" using n c by (simp add: ProjectionExecutor_def ProjectionExecutor_Next_def)
  then show "projection_src src s' zs" using again [OF r(1) clean_default c] r(2) by (auto simp: projection_src_def)
qed

end

context materialized begin

lemma filter_materialized: "materialized (FilterExecutor E) (filter_src src) (filter_rest rest) (\<lambda>_. True)"
  by (rule materialized.intro [OF filter_volcano], unfold_locales) (auto simp: filter_rest_def filter_src_def dest: anytime)

lemma projection_materialized: "materialized (ProjectionExecutor E) (projection_src src) (projection_rest rest) (\<lambda>_. True)"
  by (rule materialized.intro [OF projection_volcano], unfold_locales) (auto simp: projection_rest_def projection_src_def dest: anytime)

lemma limit_materialized: "materialized (LimitExecutor E) (limit_src src) (limit_rest rest) (\<lambda>_. True)"
  by (rule materialized.intro [OF limit_volcano], unfold_locales) (auto simp: limit_rest_def limit_src_def dest: anytime)

end

end
