(* ===== verification/VolcanoSort.thy ===== *)
theory VolcanoSort
  imports VolcanoSpec
begin

text \<open>
  Sorting operators: what the standard promises of \<open>std::sort\<close> and \<open>std::partial_sort\<close> as locales, the
  operators over any functions that keep the promise, and top-N against sort and limit.
\<close>

section \<open>Strict weak orders and sorts\<close>

lemma strict_weakD:
  assumes "strict_weak_order lt"
  shows "lt a b \<Longrightarrow> \<not> lt b a" "lt a c \<Longrightarrow> \<not> lt b c \<Longrightarrow> lt a b" "lt a c \<Longrightarrow> \<not> lt a b \<Longrightarrow> lt b c" "\<not> lt a a"
  using strict_weak_order.asym [OF assms] strict_weak_order.neg_trans [OF assms] by blast+

lemma strict_weak_trans: "strict_weak_order lt \<Longrightarrow> lt a b \<Longrightarrow> lt b c \<Longrightarrow> lt a c"
  by (metis strict_weakD(1,2))

lemma not_less_trans: "strict_weak_order lt \<Longrightarrow> \<not> lt b a \<Longrightarrow> \<not> lt c b \<Longrightarrow> \<not> lt c a"
  by (metis strict_weakD(2))

abbreviation in_order :: "('a \<Rightarrow> 'a \<Rightarrow> bool) \<Rightarrow> 'a list \<Rightarrow> bool" where
  "in_order lt \<equiv> sorted_wrt (\<lambda>a b. \<not> lt b a)"

locale sort_contract =
  fixes sorter :: sort_fn
  assumes sort_perm: "strict_weak_order lt \<Longrightarrow> mset (sorter lt xs) = mset xs"
    and sort_order: "strict_weak_order lt \<Longrightarrow> in_order lt (sorter lt xs)"

locale partial_sort_contract =
  fixes partial_sorter :: partial_sort_fn
  assumes partial_perm: "strict_weak_order lt \<Longrightarrow> mset (partial_sorter lt k xs) = mset xs"
    and partial_order: "strict_weak_order lt \<Longrightarrow> in_order lt (take k (partial_sorter lt k xs))"
    and partial_least: "strict_weak_order lt \<Longrightarrow> a \<in> set (take k (partial_sorter lt k xs)) \<Longrightarrow>
      b \<in> set (drop k (partial_sorter lt k xs)) \<Longrightarrow> \<not> lt b a"

text \<open>A full sort is a partial sort.\<close>

lemma in_order_take: "in_order lt xs \<Longrightarrow> in_order lt (take k xs)"
  by (metis append_take_drop_id sorted_wrt_append)

lemma in_order_least: "in_order lt xs \<Longrightarrow> a \<in> set (take k xs) \<Longrightarrow> b \<in> set (drop k xs) \<Longrightarrow> \<not> lt b a"
  by (metis append_take_drop_id sorted_wrt_append)

sublocale sort_contract \<subseteq> full: partial_sort_contract "\<lambda>lt k. sorter lt"
proof
  fix lt :: "tuple \<Rightarrow> tuple \<Rightarrow> bool" and k xs a b
  assume sw: "strict_weak_order lt"
  show "mset (sorter lt xs) = mset xs" by (rule sort_perm [OF sw])
  show "in_order lt (take k (sorter lt xs))" by (rule in_order_take [OF sort_order [OF sw]])
  show "a \<in> set (take k (sorter lt xs)) \<Longrightarrow> b \<in> set (drop k (sorter lt xs)) \<Longrightarrow> \<not> lt b a"
    by (rule in_order_least [OF sort_order [OF sw]])
qed

text \<open>The sort of the prelude keeps both promises.\<close>

interpretation insertion: sort_contract std_sort
  by unfold_locales (auto intro: strict_weak_order.sorted_std_sort)

text \<open>Two sorted lists with the same elements, and their prefixes, agree up to the order of equivalent elements.\<close>

definition equivalent :: "('a \<Rightarrow> 'a \<Rightarrow> bool) \<Rightarrow> 'a \<Rightarrow> 'a \<Rightarrow> bool" where
  "equivalent lt a b \<longleftrightarrow> \<not> lt a b \<and> \<not> lt b a"

abbreviation count_below :: "('a \<Rightarrow> 'a \<Rightarrow> bool) \<Rightarrow> 'a list \<Rightarrow> 'a \<Rightarrow> nat" where
  "count_below lt xs a \<equiv> length (filter (\<lambda>x. lt x a) xs)"

lemma equivalent_below: "strict_weak_order lt \<Longrightarrow> equivalent lt a b \<Longrightarrow> lt a c = lt b c"
  unfolding equivalent_def by (metis strict_weakD(2,3))

lemma sorted_equivalent:
  assumes sw: "strict_weak_order lt"
  shows "in_order lt xs \<Longrightarrow> in_order lt ys \<Longrightarrow> length xs = length ys \<Longrightarrow> (\<And>a. count_below lt xs a = count_below lt ys a) \<Longrightarrow>
    list_all2 (equivalent lt) xs ys"
proof (induction xs arbitrary: ys)
  case (Cons x xs)
  then obtain y zs where ys: "ys = y # zs" by (cases ys) auto
  have none: "filter (\<lambda>z. lt z b) (b # bs) = []" if "in_order lt (b # bs)" for b bs
    using that strict_weakD(4) [OF sw] by (auto simp: filter_empty_conv)
  have "\<not> lt x y" using Cons.prems(4) [of y] none [of y zs] Cons.prems(2) ys by auto
  moreover have "\<not> lt y x" using Cons.prems(4) [of x] none [of x xs] Cons.prems(1) ys by auto
  ultimately have e: "equivalent lt x y" by (simp add: equivalent_def)
  have "count_below lt xs a = count_below lt zs a" for a
    using Cons.prems(4) [of a] equivalent_below [OF sw e, of a] ys by (auto split: if_splits)
  then show ?case using Cons.IH [of zs] Cons.prems(1-3) ys e by simp
qed simp

lemma mset_count_below: "mset xs = mset ys \<Longrightarrow> count_below lt xs a = count_below lt ys a"
  by (metis mset_filter size_mset)

lemma partial_equivalent:
  assumes sw: "strict_weak_order lt" and xs: "in_order lt xs" and ys: "in_order lt (take k ys)"
    "\<And>a b. a \<in> set (take k ys) \<Longrightarrow> b \<in> set (drop k ys) \<Longrightarrow> \<not> lt b a" and p: "mset xs = mset ys"
  shows "list_all2 (equivalent lt) (take k xs) (take k ys)"
proof -
  let ?zs = "take k ys @ std_sort lt (drop k ys)"
  have perm: "mset (std_sort lt zs) = mset zs" and ord: "in_order lt (std_sort lt zs)" for zs
    by (simp, rule strict_weak_order.sorted_std_sort [OF sw])
  have "set (std_sort lt (drop k ys)) = set (drop k ys)" using perm mset_eq_setD by blast
  then have "in_order lt ?zs" using ys ord by (auto simp: sorted_wrt_append)
  moreover have "mset ?zs = mset (take k ys @ drop k ys)" using perm by (simp only: mset_append)
  then have m: "mset ?zs = mset xs" using p by simp
  then have "length xs = length ?zs" by (metis size_mset)
  ultimately have "list_all2 (equivalent lt) xs ?zs"
    using sorted_equivalent [OF sw xs] mset_count_below [OF m [symmetric]] by blast
  then have "list_all2 (equivalent lt) (take k xs) (take k ?zs)" by (rule list_all2_takeI)
  moreover have "take k ?zs = take k ys"
  proof (cases "k \<le> length ys")
    case False
    then show ?thesis by simp
  qed simp
  ultimately show ?thesis by metis
qed

section \<open>The operators\<close>

text \<open>\<open>Q ws c\<close> is what is known of the child after it has delivered \<open>ws\<close>.\<close>

definition sort_src :: "sort_fn \<Rightarrow> ('c \<Rightarrow> tuple list \<Rightarrow> bool) \<Rightarrow> 'c sort_executor \<Rightarrow> tuple list \<Rightarrow> bool" where
  "sort_src sorter src e ys \<longleftrightarrow> (\<exists>xs. src (se_child e) xs \<and> ys = sorter (se_comparator e) xs)"

definition sort_rest ::
  "sort_fn \<Rightarrow> (tuple list \<Rightarrow> 'c \<Rightarrow> bool) \<Rightarrow> tuple list \<Rightarrow> 'c sort_executor \<Rightarrow> tuple list \<Rightarrow> bool" where
  "sort_rest sorter Q zs e ys \<longleftrightarrow>
     (\<exists>ws. Q ws (se_child e) \<and> zs = sorter (se_comparator e) ws) \<and>
     se_sorted_tuples e = zs \<and> ys = drop (se_current_idx e) zs"

definition top_rows :: "partial_sort_fn \<Rightarrow> (tuple \<Rightarrow> tuple \<Rightarrow> bool) \<Rightarrow> u32 \<Rightarrow> tuple list \<Rightarrow> tuple list" where
  "top_rows partial_sorter cmp limit xs =
     (let k = unat (min limit (of_nat (length xs))) in if 0 < k then take k (partial_sorter cmp k xs) else [])"

definition top_n_src :: "partial_sort_fn \<Rightarrow> ('c \<Rightarrow> tuple list \<Rightarrow> bool) \<Rightarrow> 'c top_n_executor \<Rightarrow> tuple list \<Rightarrow> bool" where
  "top_n_src partial_sorter src e ys \<longleftrightarrow>
     (\<exists>xs. src (tn_child e) xs \<and> ys = top_rows partial_sorter (tn_comparator e) (tn_limit e) xs)"

definition top_n_rest ::
  "partial_sort_fn \<Rightarrow> (tuple list \<Rightarrow> 'c \<Rightarrow> bool) \<Rightarrow> tuple list \<Rightarrow> 'c top_n_executor \<Rightarrow> tuple list \<Rightarrow> bool" where
  "top_n_rest partial_sorter Q zs e ys \<longleftrightarrow>
     (\<exists>ws. Q ws (tn_child e) \<and> zs = top_rows partial_sorter (tn_comparator e) (tn_limit e) ws) \<and>
     tn_top_tuples e = zs \<and> ys = drop (tn_current_idx e) zs"

lemma drop_head: "drop i xs = y # ys \<Longrightarrow> i < length xs \<and> xs ! i = y \<and> drop (Suc i) xs = ys"
  by (metis Cons_nth_drop_Suc drop_eq_Nil linorder_not_less list.distinct(1) list.inject)

lemma sort_over:
  assumes child: "\<And>s xs. src s xs \<Longrightarrow> \<exists>c c'. ex_Init E s = Some c \<and> drain E c NBARecord_default = Some (xs, c') \<and> Q xs c'"
  shows "volcano (SortExecutor sorter E) (sort_src sorter src) (sort_rest sorter Q) (\<lambda>_. True)"
proof
  fix s ys assume "sort_src sorter src s ys"
  then obtain xs where xs: "src (se_child s) xs" "ys = sorter (se_comparator s) xs" by (auto simp: sort_src_def)
  obtain c1 c2 where c: "ex_Init E (se_child s) = Some c1" "drain E c1 NBARecord_default = Some (xs, c2)" "Q xs c2"
    using child [OF xs(1)] by blast
  then show "\<exists>s'. ex_Init (SortExecutor sorter E) s = Some s' \<and> sort_rest sorter Q ys s' ys"
    using xs(2) by (auto simp: sort_rest_def SortExecutor_def SortExecutor_Init_def)
next
  fix zs s out assume "sort_rest sorter Q zs s []"
  then show "\<exists>s'. ex_Next (SortExecutor sorter E) s out = Some (False, out, s') \<and> sort_rest sorter Q zs s' []"
    by (auto simp: sort_rest_def SortExecutor_def SortExecutor_Next_def)
next
  fix zs s x xs out assume R: "sort_rest sorter Q zs s (x # xs)"
  then have "drop (se_current_idx s) (se_sorted_tuples s) = x # xs" by (simp add: sort_rest_def)
  from drop_head [OF this] show "\<exists>s'. ex_Next (SortExecutor sorter E) s out = Some (True, x, s') \<and> sort_rest sorter Q zs s' xs"
    using R by (auto simp: sort_rest_def SortExecutor_def SortExecutor_Next_def)
qed simp_all

lemma top_n_over:
  assumes child: "\<And>s xs. src s xs \<Longrightarrow> \<exists>c c'. ex_Init E s = Some c \<and> drain E c NBARecord_default = Some (xs, c') \<and> Q xs c'"
  shows "volcano (TopNExecutor partial_sorter E) (top_n_src partial_sorter src) (top_n_rest partial_sorter Q) (\<lambda>_. True)"
proof
  fix s ys assume "top_n_src partial_sorter src s ys"
  then obtain xs where xs: "src (tn_child s) xs" "ys = top_rows partial_sorter (tn_comparator s) (tn_limit s) xs"
    by (auto simp: top_n_src_def)
  obtain c1 c2 where c: "ex_Init E (tn_child s) = Some c1" "drain E c1 NBARecord_default = Some (xs, c2)" "Q xs c2"
    using child [OF xs(1)] by blast
  then show "\<exists>s'. ex_Init (TopNExecutor partial_sorter E) s = Some s' \<and> top_n_rest partial_sorter Q ys s' ys"
    using xs(2) by (auto simp: top_n_rest_def top_rows_def Let_def TopNExecutor_def TopNExecutor_Init_def)
next
  fix zs s out assume "top_n_rest partial_sorter Q zs s []"
  then show "\<exists>s'. ex_Next (TopNExecutor partial_sorter E) s out = Some (False, out, s') \<and> top_n_rest partial_sorter Q zs s' []"
    by (auto simp: top_n_rest_def TopNExecutor_def TopNExecutor_Next_def)
next
  fix zs s x xs out assume R: "top_n_rest partial_sorter Q zs s (x # xs)"
  then have "drop (tn_current_idx s) (tn_top_tuples s) = x # xs" by (simp add: top_n_rest_def)
  from drop_head [OF this] show "\<exists>s'. ex_Next (TopNExecutor partial_sorter E) s out = Some (True, x, s') \<and>
      top_n_rest partial_sorter Q zs s' xs"
    using R by (auto simp: top_n_rest_def TopNExecutor_def TopNExecutor_Next_def)
qed simp_all

context volcano begin

lemma sort_volcano: "volcano (SortExecutor sorter E) (sort_src sorter src) (sort_rest sorter (\<lambda>ws c. rest ws c [])) (\<lambda>_. True)"
  by (rule sort_over [OF init_drain])

lemma top_n_volcano:
  "volcano (TopNExecutor partial_sorter E) (top_n_src partial_sorter src) (top_n_rest partial_sorter (\<lambda>ws c. rest ws c [])) (\<lambda>_. True)"
  by (rule top_n_over [OF init_drain])

end

context rescannable begin

lemma sort_materialized: "materialized (SortExecutor sorter E) (sort_src sorter src) (sort_rest sorter (\<lambda>ws c. src c ws)) (\<lambda>_. True)"
  by (rule materialized.intro [OF sort_over [OF init_drain_src]], unfold_locales) (auto simp: sort_rest_def sort_src_def)

lemma top_n_materialized:
  "materialized (TopNExecutor partial_sorter E) (top_n_src partial_sorter src) (top_n_rest partial_sorter (\<lambda>ws c. src c ws)) (\<lambda>_. True)"
  by (rule materialized.intro [OF top_n_over [OF init_drain_src]], unfold_locales) (auto simp: top_n_rest_def top_n_src_def)

end

text \<open>What the two operators deliver.\<close>

context sort_contract begin

lemma sorted_rows: "strict_weak_order cmp \<Longrightarrow> mset (sorter cmp xs) = mset xs \<and> in_order cmp (sorter cmp xs)"
  using sort_perm sort_order by blast

lemma sort_take_equivalent:
  assumes "partial_sort_contract partial_sorter" and sw: "strict_weak_order cmp" and small: "length xs < 4294967296"
  shows "list_all2 (equivalent cmp) (take (unat limit) (sorter cmp xs)) (top_rows partial_sorter cmp limit xs)"
proof -
  let ?k = "unat (min limit (of_nat (length xs)))"
  have k: "?k = min (unat limit) (length xs)"
    using small by (simp add: min_def word_le_nat_alt unat_of_nat_small)
  have len: "length (sorter cmp xs) = length xs" using sort_perm [OF sw] by (metis size_mset)
  have "take (unat limit) (sorter cmp xs) = take ?k (sorter cmp xs)" using k len by (simp add: min_def)
  moreover have "top_rows partial_sorter cmp limit xs = take ?k (partial_sorter cmp ?k xs)"
    by (simp add: top_rows_def Let_def)
  moreover have "list_all2 (equivalent cmp) (take ?k (sorter cmp xs)) (take ?k (partial_sorter cmp ?k xs))"
    using partial_sort_contract.partial_order [OF assms(1) sw] partial_sort_contract.partial_least [OF assms(1) sw]
      partial_sort_contract.partial_perm [OF assms(1) sw] sort_perm [OF sw]
    by (intro partial_equivalent [OF sw sort_order [OF sw]]) auto
  ultimately show ?thesis by simp
qed

end

end
