(* ===== verification/VolcanoAgg.thy ===== *)
theory VolcanoAgg
  imports VolcanoSort
begin

text \<open>
  The aggregation operator against a direct definition of \<open>GROUP BY\<close>: one row for each key of the input, its values the
  left folds of the aggregated column over the tuples of the group in input order. The iteration order of
  \<open>std::unordered_map\<close> is any permutation. \<open>double\<close> arithmetic is an argument, nothing is assumed of it.
\<close>

locale group_iteration =
  fixes map_order :: "'d group_order"
  assumes order_perm: "mset (map_order gs) = mset gs"

text \<open>Insertion order, and its reverse, are such orders.\<close>

interpretation insertion_order: group_iteration "\<lambda>gs. gs"
  by unfold_locales simp

interpretation reverse_order: group_iteration rev
  by unfold_locales simp

section \<open>The groups\<close>

definition groups_of ::
  "'d double_ops \<Rightarrow> (tuple \<Rightarrow> cstring) \<Rightarrow> 'd agg_spec list \<Rightarrow> (cstring \<times> 'd group_accumulator) list \<Rightarrow> tuple list \<Rightarrow>
   (cstring \<times> 'd group_accumulator) list" where
  "groups_of D key specs groups xs = fold (\<lambda>t. add_to_groups D specs (key t) t) xs groups"

definition members :: "(tuple \<Rightarrow> cstring) \<Rightarrow> cstring \<Rightarrow> tuple list \<Rightarrow> tuple list" where
  "members key k xs = filter (\<lambda>t. key t = k) xs"

lemma members_simps [simp]:
  "members key k [] = []"
  "members key k (x # xs) = (if key x = k then x # members key k xs else members key k xs)"
  by (simp_all add: members_def)

lemma members_Nil: "members key k xs = [] \<longleftrightarrow> k \<notin> key ` set xs"
  by (auto simp: members_def filter_empty_conv)

lemma groups_of_simps [simp]:
  "groups_of D key specs groups [] = groups"
  "groups_of D key specs groups (x # xs) = groups_of D key specs (add_to_groups D specs (key x) x groups) xs"
  by (simp_all add: groups_of_def)

lemma map_of_add_to_groups:
  "map_of (add_to_groups D specs k t groups) =
   (map_of groups)(k \<mapsto> add_tuple D specs t (case map_of groups k of None \<Rightarrow> new_group D (length specs) | Some acc \<Rightarrow> acc))"
  by (simp add: add_to_groups_def Let_def update_conv')

lemma distinct_add_to_groups: "distinct (map fst groups) \<Longrightarrow> distinct (map fst (add_to_groups D specs k t groups))"
  by (simp add: add_to_groups_def Let_def distinct_update)

lemma distinct_groups_of: "distinct (map fst groups) \<Longrightarrow> distinct (map fst (groups_of D key specs groups xs))"
  by (induction xs arbitrary: groups) (simp_all add: distinct_add_to_groups)

lemma map_of_groups_of:
  "map_of (groups_of D key specs groups xs) k =
   (if members key k xs = [] then map_of groups k
    else Some (fold (add_tuple D specs) (members key k xs)
      (case map_of groups k of None \<Rightarrow> new_group D (length specs) | Some acc \<Rightarrow> acc)))"
  by (induction xs arbitrary: groups) (auto simp: map_of_add_to_groups)

context volcano begin

lemma agg_loop_rest:
  "rest zs c xs \<Longrightarrow> clean t \<Longrightarrow>
   \<exists>c'. agg_loop D E key specs groups c t = Some (groups_of D key specs groups xs, c') \<and> rest zs c' []"
proof (induction xs arbitrary: c t groups)
  case Nil
  from next_end [OF Nil] show ?case by (subst agg_loop.simps) auto
next
  case (Cons x xs)
  obtain c1 where n: "ex_Next E c t = Some (True, x, c1)" "rest zs c1 xs" using next_more [OF Cons.prems] by blast
  then have "agg_loop D E key specs groups c t = agg_loop D E key specs (add_to_groups D specs (key x) x groups) c1 x"
    by (subst agg_loop.simps) simp
  then show ?case using Cons.IH [OF n(2), of x] clean_more [OF Cons.prems(1)] by simp
qed

lemma init_agg:
  "src s xs \<Longrightarrow> \<exists>c c'. ex_Init E s = Some c \<and>
     agg_loop D E key specs [] c NBARecord_default = Some (groups_of D key specs [] xs, c') \<and> rest xs c' []"
  using init agg_loop_rest [OF _ clean_default] by blast

end

context rescannable begin

lemma agg_loop_src:
  "rest zs c xs \<Longrightarrow> clean t \<Longrightarrow>
   \<exists>c'. agg_loop D E key specs groups c t = Some (groups_of D key specs groups xs, c') \<and> src c' zs"
proof (induction xs arbitrary: c t groups)
  case Nil
  from next_end [OF Nil] again [OF Nil] show ?case by (subst agg_loop.simps) auto
next
  case (Cons x xs)
  obtain c1 where n: "ex_Next E c t = Some (True, x, c1)" "rest zs c1 xs" using next_more [OF Cons.prems] by blast
  then have "agg_loop D E key specs groups c t = agg_loop D E key specs (add_to_groups D specs (key x) x groups) c1 x"
    by (subst agg_loop.simps) simp
  then show ?case using Cons.IH [OF n(2), of x] clean_more [OF Cons.prems(1)] by simp
qed

lemma init_agg_src:
  "src s xs \<Longrightarrow> \<exists>c c'. ex_Init E s = Some c \<and>
     agg_loop D E key specs [] c NBARecord_default = Some (groups_of D key specs [] xs, c') \<and> src c' xs"
  using init agg_loop_src [OF _ clean_default] by blast

end

section \<open>The reference definition\<close>

definition agg_reference :: "'d double_ops \<Rightarrow> 'd agg_spec \<Rightarrow> tuple list \<Rightarrow> 'd" where
  "agg_reference D s ts =
     (let vals = map (as_value_extractor s) ts; n = d_of_u64 D (of_nat (length ts)) in
      case as_type s of
        kCount \<Rightarrow> n
      | kSum \<Rightarrow> foldl (d_add D) (d_zero D) vals
      | kAvg \<Rightarrow> d_div D (foldl (d_add D) (d_zero D) vals) n
      | kMin \<Rightarrow> foldl (d_min2 D) (d_max D) vals
      | kMax \<Rightarrow> foldl (d_max2 D) (d_lowest D) vals)"

definition group_row :: "'d double_ops \<Rightarrow> (tuple \<Rightarrow> cstring) \<Rightarrow> 'd agg_spec list \<Rightarrow> tuple list \<Rightarrow> cstring \<Rightarrow> 'd agg_result" where
  "group_row D key specs xs k = \<lparr>ar_group_key = k, ar_values = map (\<lambda>s. agg_reference D s (members key k xs)) specs\<rparr>"

definition acc_ok :: "nat \<Rightarrow> 'd group_accumulator \<Rightarrow> bool" where
  "acc_ok n acc \<longleftrightarrow> length (ga_sums acc) = n \<and> length (ga_mins acc) = n \<and> length (ga_maxs acc) = n"

lemma acc_ok_new [simp]: "acc_ok n (new_group D n)"
  by (simp add: acc_ok_def new_group_def)

lemma acc_ok_add: "acc_ok (length specs) acc \<Longrightarrow> acc_ok (length specs) (add_tuple D specs t acc)"
  by (simp add: acc_ok_def add_tuple_def Let_def)

lemma fold_add_tuple:
  assumes "acc_ok (length specs) acc"
  shows "ga_count (fold (add_tuple D specs) ts acc) = ga_count acc + of_nat (length ts)"
    and "i < length specs \<Longrightarrow>
      ga_sums (fold (add_tuple D specs) ts acc) ! i = foldl (d_add D) (ga_sums acc ! i) (map (as_value_extractor (specs ! i)) ts) \<and>
      ga_mins (fold (add_tuple D specs) ts acc) ! i = foldl (d_min2 D) (ga_mins acc ! i) (map (as_value_extractor (specs ! i)) ts) \<and>
      ga_maxs (fold (add_tuple D specs) ts acc) ! i = foldl (d_max2 D) (ga_maxs acc ! i) (map (as_value_extractor (specs ! i)) ts)"
  using assms
proof (induction ts arbitrary: acc)
  case (Cons t ts)
  { case 1 with Cons.IH(1) [OF acc_ok_add] show ?case by (simp add: add_tuple_def Let_def) }
  { case 2 with Cons.IH(2) [OF _ acc_ok_add] show ?case by (simp add: add_tuple_def Let_def acc_ok_def) }
qed simp_all

lemma agg_result_reference:
  assumes ts: "ts \<noteq> []" "length ts < 2 ^ 64"
  shows "agg_result_of D specs (k, fold (add_tuple D specs) ts (new_group D (length specs))) =
    \<lparr>ar_group_key = k, ar_values = map (\<lambda>s. agg_reference D s ts) specs\<rparr>"
proof -
  let ?acc = "fold (add_tuple D specs) ts (new_group D (length specs))"
  have c: "ga_count ?acc = of_nat (length ts)" using fold_add_tuple(1) [OF acc_ok_new] by (simp add: new_group_def)
  have "unat (of_nat (length ts) :: u64) = length ts" using ts(2) by (simp add: unat_of_nat)
  then have "0 < ga_count ?acc" using ts(1) c by (simp add: word_less_nat_alt)
  then have "agg_value D (as_type (specs ! i)) i ?acc = agg_reference D (specs ! i) ts" if "i < length specs" for i
    using fold_add_tuple(2) [OF acc_ok_new that, of D ts D] c that
    by (simp add: agg_value_def agg_reference_def Let_def new_group_def split: agg_type.split)
  then show ?thesis by (auto simp: agg_result_of_def intro!: nth_equalityI)
qed

text \<open>The rows \<open>Init\<close> computes, whatever the order: one for each key, and the reference value of it.\<close>

definition agg_rows ::
  "'d double_ops \<Rightarrow> 'd group_order \<Rightarrow> (tuple \<Rightarrow> cstring) \<Rightarrow> 'd agg_spec list \<Rightarrow> tuple list \<Rightarrow> 'd agg_result list" where
  "agg_rows D map_order key specs xs = map (agg_result_of D specs) (map_order (groups_of D key specs [] xs))"

context group_iteration begin

lemma rows_reference:
  assumes small: "length xs < 2 ^ 64"
  shows "distinct (map ar_group_key (agg_rows D map_order key specs xs)) \<and>
    set (agg_rows D map_order key specs xs) = group_row D key specs xs ` key ` set xs"
proof
  let ?gs = "groups_of D key specs [] xs"
  have perm: "set (map_order ?gs) = set ?gs" "mset (map fst (map_order ?gs)) = mset (map fst ?gs)"
    using order_perm mset_eq_setD by (metis, simp)
  have d: "distinct (map fst ?gs)" using distinct_groups_of [of "[]"] by simp
  have keys: "map ar_group_key (map (agg_result_of D specs) gs) = map fst gs" for gs
    by (simp add: agg_result_of_def)
  show "distinct (map ar_group_key (agg_rows D map_order key specs xs))"
    unfolding agg_rows_def keys using d mset_eq_imp_distinct_iff [OF perm(2)] by simp
  have row: "agg_result_of D specs (k, fold (add_tuple D specs) (members key k xs) (new_group D (length specs))) =
      group_row D key specs xs k" if "members key k xs \<noteq> []" for k
  proof -
    have "length (members key k xs) < 2 ^ 64"
      using small length_filter_le [of "\<lambda>t. key t = k" xs] unfolding members_def by linarith
    from agg_result_reference [OF that this] show ?thesis by (simp add: group_row_def)
  qed
  have g: "set ?gs = (\<lambda>k. (k, fold (add_tuple D specs) (members key k xs) (new_group D (length specs)))) ` key ` set xs"
    (is "_ = ?h ` _")
  proof (intro set_eqI iffI)
    fix g assume "g \<in> set ?gs"
    then have "map_of ?gs (fst g) = Some (snd g)" using d by simp
    then show "g \<in> ?h ` key ` set xs"
      by (auto simp: map_of_groups_of members_Nil split: if_splits intro!: image_eqI [where x = "fst g"] prod_eqI)
  next
    fix g assume "g \<in> ?h ` key ` set xs"
    then have "map_of ?gs (fst g) = Some (snd g)" by (auto simp: map_of_groups_of members_Nil)
    then show "g \<in> set ?gs" using map_of_SomeD by fastforce
  qed
  show "set (agg_rows D map_order key specs xs) = group_row D key specs xs ` key ` set xs"
    unfolding agg_rows_def set_map perm(1) g image_image
    by (rule image_cong [OF refl]) (rule row, simp add: members_Nil)
qed

end

section \<open>The operator\<close>

text \<open>The fields of the output that \<open>Next\<close> does not assign when there are \<open>n\<close> aggregates.\<close>

definition agg_clean :: "nat \<Rightarrow> tuple \<Rightarrow> bool" where
  "agg_clean n t \<longleftrightarrow> nr_quarter t = 0 \<and> nr_clock t = [] \<and> nr_player t = [] \<and> nr_event_type t = 0 \<and> nr_points t = 0 \<and>
     (n < 1 \<longrightarrow> nr_home_score t = 0) \<and> (n < 2 \<longrightarrow> nr_away_score t = 0) \<and> (n < 3 \<longrightarrow> nr_shot_distance t = 0)"

lemma pack_clean:
  assumes "agg_clean (length (ar_values r)) out"
  shows "pack_result D r out = pack_result D r NBARecord_default"
  using assms by (cases out) (auto simp: pack_result_def Let_def agg_clean_def NBARecord_default_def)

lemma clean_pack: "length (ar_values r) = n \<Longrightarrow>
    agg_clean n (pack_result D r NBARecord_default) \<and> agg_clean n (moved_from (pack_result D r NBARecord_default))"
  by (auto simp: pack_result_def Let_def agg_clean_def NBARecord_default_def moved_from_def)

definition agg_src ::
  "'d double_ops \<Rightarrow> 'd group_order \<Rightarrow> nat \<Rightarrow> ('c \<Rightarrow> tuple list \<Rightarrow> bool) \<Rightarrow> ('c, 'd) aggregation_executor \<Rightarrow> tuple list \<Rightarrow> bool" where
  "agg_src D map_order n src e ys \<longleftrightarrow> length (ae_agg_specs e) = n \<and> (\<exists>xs. src (ae_child e) xs \<and>
     ys = map (\<lambda>r. pack_result D r NBARecord_default)
       (agg_rows D map_order (ae_group_key_extractor e) (ae_agg_specs e) xs))"

definition agg_rest ::
  "'d double_ops \<Rightarrow> 'd group_order \<Rightarrow> nat \<Rightarrow> (tuple list \<Rightarrow> 'c \<Rightarrow> bool) \<Rightarrow> tuple list \<Rightarrow> ('c, 'd) aggregation_executor \<Rightarrow>
   tuple list \<Rightarrow> bool" where
  "agg_rest D map_order n Q zs e ys \<longleftrightarrow> length (ae_agg_specs e) = n \<and>
     (\<exists>ws. Q ws (ae_child e) \<and> ae_results e = agg_rows D map_order (ae_group_key_extractor e) (ae_agg_specs e) ws) \<and>
     zs = map (\<lambda>r. pack_result D r NBARecord_default) (ae_results e) \<and> ys = drop (ae_current_idx e) zs"

lemma agg_rest_length: "agg_rest D map_order n Q zs e ys \<Longrightarrow> r \<in> set (ae_results e) \<Longrightarrow> length (ar_values r) = n"
  by (auto simp: agg_rest_def agg_rows_def agg_result_of_def)

lemma agg_over:
  assumes child: "\<And>s xs key specs. src s xs \<Longrightarrow> \<exists>c c'. ex_Init E s = Some c \<and>
      agg_loop D E key specs [] c NBARecord_default = Some (groups_of D key specs [] xs, c') \<and> Q xs c'"
  shows "volcano (AggregationExecutor D map_order E) (agg_src D map_order n src) (agg_rest D map_order n Q) (agg_clean n)"
proof
  fix s ys assume "agg_src D map_order n src s ys"
  then obtain xs where xs: "length (ae_agg_specs s) = n" "src (ae_child s) xs" "ys = map (\<lambda>r. pack_result D r NBARecord_default)
      (agg_rows D map_order (ae_group_key_extractor s) (ae_agg_specs s) xs)"
    by (auto simp: agg_src_def)
  obtain c1 c2 where c: "ex_Init E (ae_child s) = Some c1" "agg_loop D E (ae_group_key_extractor s) (ae_agg_specs s) [] c1
      NBARecord_default = Some (groups_of D (ae_group_key_extractor s) (ae_agg_specs s) [] xs, c2)" "Q xs c2"
    using child [OF xs(2)] by blast
  then show "\<exists>s'. ex_Init (AggregationExecutor D map_order E) s = Some s' \<and> agg_rest D map_order n Q ys s' ys"
    using xs(1,3) by (auto simp: agg_rest_def agg_rows_def AggregationExecutor_def AggregationExecutor_Init_def)
next
  fix zs s out assume "agg_rest D map_order n Q zs s []"
  then show "\<exists>s'. ex_Next (AggregationExecutor D map_order E) s out = Some (False, out, s') \<and> agg_rest D map_order n Q zs s' []"
    by (auto simp: agg_rest_def AggregationExecutor_def AggregationExecutor_Next_def)
next
  fix zs s x xs out assume R: "agg_rest D map_order n Q zs s (x # xs)" and c: "agg_clean n out"
  then have "drop (ae_current_idx s) (map (\<lambda>r. pack_result D r NBARecord_default) (ae_results s)) = x # xs" by (simp add: agg_rest_def)
  note d = drop_head [OF this]
  then have "length (ar_values (ae_results s ! ae_current_idx s)) = n" using agg_rest_length [OF R] by simp
  then have "pack_result D (ae_results s ! ae_current_idx s) out = x"
    using pack_clean [of "ae_results s ! ae_current_idx s" out D] c d by auto
  then show "\<exists>s'. ex_Next (AggregationExecutor D map_order E) s out = Some (True, x, s') \<and> agg_rest D map_order n Q zs s' xs"
    using R d by (auto simp: agg_rest_def AggregationExecutor_def AggregationExecutor_Next_def)
next
  show "agg_clean n NBARecord_default" by (simp add: agg_clean_def NBARecord_default_def)
next
  fix zs s x xs assume R: "agg_rest D map_order n Q zs s (x # xs)"
  then have "x \<in> set (map (\<lambda>r. pack_result D r NBARecord_default) (ae_results s))"
    by (metis agg_rest_def in_set_dropD list.set_intros(1))
  then show "agg_clean n x \<and> agg_clean n (moved_from x)" using agg_rest_length [OF R] by (auto simp: clean_pack)
qed

context volcano begin

lemma agg_volcano: "volcano (AggregationExecutor D map_order E) (agg_src D map_order n src)
    (agg_rest D map_order n (\<lambda>ws c. rest ws c [])) (agg_clean n)"
  by (rule agg_over [OF init_agg])

end

context rescannable begin

lemma agg_materialized: "materialized (AggregationExecutor D map_order E) (agg_src D map_order n src)
    (agg_rest D map_order n (\<lambda>ws c. src c ws)) (agg_clean n)"
  by (rule materialized.intro [OF agg_over [OF init_agg_src]], unfold_locales) (auto simp: agg_rest_def agg_src_def)

end

end
