(* ===== verification/ScanExecutor.thy ===== *)
theory ScanExecutor
  imports VolcanoAgg BTreeProps
begin

text \<open>
  The two operators of \<open>src/query/executor.cpp\<close> that read records: \<open>TableScanExecutor\<close> walks a heap file with a
  \<open>HeapFileIterator\<close>, \<open>IndexScanExecutor\<close> asks the B+ tree for record ids and fetches them from the heap file. Both
  satisfy the contract of the operators, for the rows that the heap file holds.
\<close>

section \<open>Table scan\<close>

record table_scan_executor =
  ts_heap_file :: heap_file
  ts_iterator :: heap_iter
  ts_initialized :: bool

definition HeapFileIterator_default :: heap_iter where
  "HeapFileIterator_default =
     \<lparr>hi_page_id = INVALID_PAGE_ID, hi_slot = 0, hi_page = None, hi_rid = RID_default, hi_valid = False\<rparr>"

definition TableScanExecutor_new :: "heap_file \<Rightarrow> table_scan_executor" where
  "TableScanExecutor_new heap_file =
     \<lparr>ts_heap_file = heap_file, ts_iterator = HeapFileIterator_default, ts_initialized = False\<rparr>"

definition TableScanExecutor_Init :: "table_scan_executor \<Rightarrow> table_scan_executor option" where
  "TableScanExecutor_Init e =
     Option.bind (HeapFile_Begin (ts_heap_file e)) (\<lambda>(it, b).
       Some (e\<lparr>ts_heap_file := (ts_heap_file e)\<lparr>hf_bpm := b\<rparr>, ts_iterator := it, ts_initialized := True\<rparr>))"

text \<open>The pointer and the length that \<open>iterator_.GetRecord()\<close> returns: the data area of the frame from the record on.\<close>

definition HeapFileIterator_data :: "heap_iter \<Rightarrow> bpm \<Rightarrow> (buf \<times> u16) option" where
  "HeapFileIterator_data it b =
     (case hi_page it of
        None \<Rightarrow> None
      | Some f \<Rightarrow>
          if \<not> hi_valid it then None
          else map_option (\<lambda>(off, len). (\<lambda>i. p_data (frame_page b f) (unat off + i), len))
                 (Page_GetRecord (hi_slot it) (frame_page b f)))"

definition TableScanExecutor_Next :: "table_scan_executor \<Rightarrow> tuple \<Rightarrow> (bool \<times> tuple \<times> table_scan_executor) option" where
  "TableScanExecutor_Next e output =
     Option.bind (if \<not> ts_initialized e then TableScanExecutor_Init e else Some e) (\<lambda>e.
       let it = ts_iterator e; b = hf_bpm (ts_heap_file e) in
       if hi_valid it then
         Option.bind (HeapFileIterator_data it b) (\<lambda>(data, len).
           Option.bind (RecordSerializer_Deserialize data len) (\<lambda>t.
             Option.bind (HeapFileIterator_Next it b) (\<lambda>(it, b).
               Some (True, t, e\<lparr>ts_heap_file := (ts_heap_file e)\<lparr>hf_bpm := b\<rparr>, ts_iterator := it\<rparr>))))
       else Some (False, output, e))"

definition TableScanExecutor :: "table_scan_executor executor" where
  "TableScanExecutor = \<lparr>ex_Init = TableScanExecutor_Init, ex_Next = TableScanExecutor_Next\<rparr>"

section \<open>Index scan\<close>

text \<open>
  The index and the heap file share the buffer pool. The model keeps it in the heap file, hands it to the index for an
  operation and takes it back.
\<close>

record index_scan_executor =
  is_index :: btree
  is_heap_file :: heap_file
  is_low_key :: u32
  is_high_key :: u32
  is_is_range :: bool
  is_results :: "(u32 \<times> rid) list"
  is_current_idx :: nat

definition IndexScanExecutor_point :: "btree \<Rightarrow> heap_file \<Rightarrow> u32 \<Rightarrow> index_scan_executor" where
  "IndexScanExecutor_point index heap_file key =
     \<lparr>is_index = index, is_heap_file = heap_file, is_low_key = key, is_high_key = key, is_is_range = False,
      is_results = [], is_current_idx = 0\<rparr>"

definition IndexScanExecutor_range :: "btree \<Rightarrow> heap_file \<Rightarrow> u32 \<Rightarrow> u32 \<Rightarrow> index_scan_executor" where
  "IndexScanExecutor_range index heap_file low high =
     \<lparr>is_index = index, is_heap_file = heap_file, is_low_key = low, is_high_key = high, is_is_range = True,
      is_results = [], is_current_idx = 0\<rparr>"

definition on_index ::
  "(btree \<Rightarrow> ('r \<times> btree) option) \<Rightarrow> index_scan_executor \<Rightarrow> ('r \<times> index_scan_executor) option" where
  "on_index f e =
     map_option (\<lambda>(r, t). (r, e\<lparr>is_index := t, is_heap_file := (is_heap_file e)\<lparr>hf_bpm := bt_bpm t\<rparr>\<rparr>))
       (f ((is_index e)\<lparr>bt_bpm := hf_bpm (is_heap_file e)\<rparr>))"

definition IndexScanExecutor_Init :: "index_scan_executor \<Rightarrow> index_scan_executor option" where
  "IndexScanExecutor_Init e =
     (let e = e\<lparr>is_current_idx := 0\<rparr> in
      if is_is_range e
      then map_option (\<lambda>(rs, e). e\<lparr>is_results := rs\<rparr>) (on_index (BPlusTree_RangeScan (is_low_key e) (is_high_key e)) e)
      else map_option (\<lambda>(rids, e). e\<lparr>is_results := map (\<lambda>r. (is_low_key e, r)) rids\<rparr>)
             (on_index (BPlusTree_Lookup (is_low_key e)) e))"

partial_function (option) IndexScanExecutor_Next ::
  "index_scan_executor \<Rightarrow> tuple \<Rightarrow> (bool \<times> tuple \<times> index_scan_executor) option" where
  "IndexScanExecutor_Next e output =
     (if is_current_idx e < length (is_results e) then
        let rid = snd (is_results e ! is_current_idx e); e = e\<lparr>is_current_idx := Suc (is_current_idx e)\<rparr> in
        case HeapFile_GetRecord rid (is_heap_file e) of
          (None, h) \<Rightarrow> IndexScanExecutor_Next (e\<lparr>is_heap_file := h\<rparr>) output
        | (Some (f, off, len), h) \<Rightarrow>
            Option.bind (RecordSerializer_Deserialize (\<lambda>i. p_data (hf_page h f) (unat off + i)) len) (\<lambda>t.
              Some (True, t, e\<lparr>is_heap_file := hf_unpin (rid_page_id rid) False h\<rparr>))
      else Some (False, output, e))"

definition IndexScanExecutor :: "index_scan_executor executor" where
  "IndexScanExecutor = \<lparr>ex_Init = IndexScanExecutor_Init, ex_Next = IndexScanExecutor_Next\<rparr>"

section \<open>The rows of a heap file\<close>

text \<open>\<open>M\<close> maps the ids of the live records to their rows: every record is a serialized row.\<close>

definition holds_rows :: "heap_file \<Rightarrow> u32 list \<Rightarrow> (rid \<rightharpoonup> tuple) \<Rightarrow> bool" where
  "holds_rows h ps M \<longleftrightarrow> heap_inv h ps \<and> heap_recs h ps = (\<lambda>r. map_option RecordSerializer_Serialize (M r))"

definition heap_rids :: "heap_file \<Rightarrow> u32 list \<Rightarrow> rid list" where
  "heap_rids h ps = map fst (chain_list (hf_bpm h) ps)"

definition heap_rows :: "heap_file \<Rightarrow> u32 list \<Rightarrow> (rid \<rightharpoonup> tuple) \<Rightarrow> tuple list" where
  "heap_rows h ps M = map (\<lambda>r. the (M r)) (heap_rids h ps)"

lemma buf_read_shift: "buf_read (\<lambda>i. d (off + i)) 0 n = buf_read d off n"
  by (intro nth_equalityI) (simp_all add: buf_read_def)

lemma Deserialize_stored:
  assumes "buf_read d 0 (unat len) = RecordSerializer_Serialize r"
  shows "RecordSerializer_Deserialize d len = Some r"
proof -
  have "unat len = record_size r" using arg_cong [OF assms, of length] by (simp add: length_Serialize)
  then show ?thesis using assms by (intro Deserialize_Serialize_record) (simp_all add: holds_def length_Serialize)
qed

lemma Serialize_inj: "length (RecordSerializer_Serialize r) < 65536 \<Longrightarrow>
    RecordSerializer_Serialize r = RecordSerializer_Serialize r' \<Longrightarrow> r = r'"
proof -
  assume small: "length (RecordSerializer_Serialize r) < 65536" and eq: "RecordSerializer_Serialize r = RecordSerializer_Serialize r'"
  let ?d = "\<lambda>i. RecordSerializer_Serialize r ! i" and ?l = "of_nat (record_size r) :: u16"
  have n: "unat ?l = record_size r" using small by (simp add: length_Serialize unat16_of_nat)
  have "buf_read ?d 0 (unat ?l) = RecordSerializer_Serialize r"
    using n by (intro nth_equalityI) (simp_all add: length_Serialize)
  then have "RecordSerializer_Deserialize ?d ?l = Some r" "RecordSerializer_Deserialize ?d ?l = Some r'"
    using Deserialize_stored eq by metis+
  then show "r = r'" by simp
qed

text \<open>Only the pages of the heap file matter.\<close>

lemma heap_inv_pages:
  assumes inv: "heap_inv (h\<lparr>hf_bpm := b0\<rparr>) ps" and q: "quiet b" and v: "\<And>p. p \<in> set ps \<Longrightarrow> bp_view b p = bp_view b0 p"
  shows "heap_inv (h\<lparr>hf_bpm := b\<rparr>) ps" "heap_recs (h\<lparr>hf_bpm := b\<rparr>) ps = heap_recs (h\<lparr>hf_bpm := b0\<rparr>) ps"
    "chain_list b ps = chain_list b0 ps"
proof -
  have hp: "hp_page b p = hp_page b0 p" if "p \<in> set ps" for p using v [OF that] by (simp add: hp_page_def)
  have core: "heap_core b0 (hf_first h) ps" using heap_inv_core [OF inv] by simp
  have ok: "p \<in> bp_data b \<and> page_inv (hp_page b p)" if "p \<in> set ps" for p
  proof -
    have "bp_view b p \<noteq> None" using heap_coreD(7) [OF core that] v [OF that] by simp
    then have "p \<in> bp_data b" using dom_bp_view [of b] by blast
    then show ?thesis using heap_coreD(6) [OF core that] hp [OF that] by simp
  qed
  have "heap_chain b (hf_first h) ps" by (rule heap_chain_cong [OF heap_coreD(4) [OF core]]) (use ok hp in metis)
  moreover have "chain_records b ps = chain_records b0 ps"
    unfolding chain_records_def by (rule arg_cong [of _ _ sum_list], rule map_cong) (simp_all add: hp)
  ultimately show "heap_inv (h\<lparr>hf_bpm := b\<rparr>) ps" using inv q by (simp add: heap_inv_def)
  show "heap_recs (h\<lparr>hf_bpm := b\<rparr>) ps = heap_recs (h\<lparr>hf_bpm := b0\<rparr>) ps" by (auto simp: heap_recs_def hp fun_eq_iff)
  show "chain_list b ps = chain_list b0 ps"
    unfolding chain_list_def by (rule arg_cong [of _ _ concat], rule map_cong) (simp_all add: hp)
qed

lemma holds_rows_pages:
  assumes "holds_rows (h\<lparr>hf_bpm := b0\<rparr>) ps M" "quiet b" "\<And>p. p \<in> set ps \<Longrightarrow> bp_view b p = bp_view b0 p"
  shows "holds_rows (h\<lparr>hf_bpm := b\<rparr>) ps M" "heap_rids (h\<lparr>hf_bpm := b\<rparr>) ps = heap_rids (h\<lparr>hf_bpm := b0\<rparr>) ps"
    "heap_rows (h\<lparr>hf_bpm := b\<rparr>) ps M = heap_rows (h\<lparr>hf_bpm := b0\<rparr>) ps M"
proof -
  have inv: "heap_inv (h\<lparr>hf_bpm := b0\<rparr>) ps" using assms(1) by (simp add: holds_rows_def)
  note V = heap_inv_pages [OF inv assms(2,3)]
  show "holds_rows (h\<lparr>hf_bpm := b\<rparr>) ps M" using V(1,2) assms(1) by (simp add: holds_rows_def)
  show "heap_rids (h\<lparr>hf_bpm := b\<rparr>) ps = heap_rids (h\<lparr>hf_bpm := b0\<rparr>) ps"
    "heap_rows (h\<lparr>hf_bpm := b\<rparr>) ps M = heap_rows (h\<lparr>hf_bpm := b0\<rparr>) ps M"
    using V(3) by (simp_all add: heap_rids_def heap_rows_def)
qed

lemma holds_rows_view:
  assumes "holds_rows (h\<lparr>hf_bpm := b0\<rparr>) ps M" "quiet b" "bp_view b = bp_view b0"
  shows "holds_rows (h\<lparr>hf_bpm := b\<rparr>) ps M" "heap_rows (h\<lparr>hf_bpm := b\<rparr>) ps M = heap_rows (h\<lparr>hf_bpm := b0\<rparr>) ps M"
  using holds_rows_pages [OF assms(1,2)] assms(3) by simp_all

lemma heap_rids:
  assumes "holds_rows h ps M"
  shows "distinct (heap_rids h ps)" "set (heap_rids h ps) = dom M"
proof -
  have inv: "heap_inv h ps" using assms by (simp add: holds_rows_def)
  show "distinct (heap_rids h ps)" using chain_list_map(2) [OF inv] by (simp add: heap_rids_def)
  have "set (heap_rids h ps) = dom (heap_recs h ps)"
    by (simp add: heap_rids_def dom_map_of_conv_image_fst flip: chain_list_map(1) [OF inv])
  then show "set (heap_rids h ps) = dom M" using assms by (auto simp: holds_rows_def dom_def)
qed

text \<open>A heap file with rows, on pages of its own.\<close>

definition rows_on :: "heap_file \<Rightarrow> u32 list \<Rightarrow> (rid \<rightharpoonup> tuple) \<Rightarrow> u32 set \<Rightarrow> bpm \<Rightarrow> bool" where
  "rows_on h ps M S b \<longleftrightarrow> S = set ps \<and> holds_rows (h\<lparr>hf_bpm := b\<rparr>) ps M"

interpretation rows_client: pool_client "rows_on h ps M" for h ps M
proof unfold_locales
  fix S b p assume "rows_on h ps M S b" "p \<in> S"
  then show "bp_view b p \<noteq> None"
    using heap_coreD(7) [OF heap_inv_core, of "h\<lparr>hf_bpm := b\<rparr>" ps p] by (simp add: rows_on_def holds_rows_def)
next
  fix S b b' assume "rows_on h ps M S b" "quiet b'" "\<And>p. p \<in> S \<Longrightarrow> bp_view b' p = bp_view b p"
  then show "rows_on h ps M S b'" using holds_rows_pages(1) [where h = h and ?b0.0 = b and b = b'] by (simp add: rows_on_def)
qed

section \<open>The table scan satisfies the contract\<close>

definition table_scan_src :: "table_scan_executor \<Rightarrow> tuple list \<Rightarrow> bool" where
  "table_scan_src e xs \<longleftrightarrow> (\<exists>ps M. holds_rows (ts_heap_file e) ps M \<and> xs = heap_rows (ts_heap_file e) ps M)"

definition table_scan_rest :: "tuple list \<Rightarrow> table_scan_executor \<Rightarrow> tuple list \<Rightarrow> bool" where
  "table_scan_rest zs e ys \<longleftrightarrow> ts_initialized e \<and>
     (\<exists>b0 ps M xs. holds_rows ((ts_heap_file e)\<lparr>hf_bpm := b0\<rparr>) ps M \<and>
        zs = heap_rows ((ts_heap_file e)\<lparr>hf_bpm := b0\<rparr>) ps M \<and>
        iter_rest b0 (hf_first (ts_heap_file e)) ps (ts_iterator e) (hf_bpm (ts_heap_file e)) xs \<and>
        (\<forall>x\<in>set xs. map_option RecordSerializer_Serialize (M (fst x)) = Some (snd x)) \<and> ys = map (\<lambda>x. the (M (fst x))) xs)"

lemma chain_list_rows:
  assumes "holds_rows h ps M" "x \<in> set (chain_list (hf_bpm h) ps)"
  shows "map_option RecordSerializer_Serialize (M (fst x)) = Some (snd x)"
proof -
  have inv: "heap_inv h ps" using assms(1) by (simp add: holds_rows_def)
  have "map_of (chain_list (hf_bpm h) ps) (fst x) = Some (snd x)"
    using chain_list_map(2) [OF inv] assms(2) by (simp add: map_of_eq_Some_iff)
  then show ?thesis using chain_list_map(1) [OF inv] assms(1) by (simp add: holds_rows_def)
qed

lemma HeapFileIterator_GetRecord_data:
  "HeapFileIterator_GetRecord it b = map_option (\<lambda>(d, len). buf_read d 0 (unat len)) (HeapFileIterator_data it b)"
  by (cases "Page_GetRecord (hi_slot it) (frame_page b (the (hi_page it)))")
    (auto simp: HeapFileIterator_GetRecord_def HeapFileIterator_data_def buf_read_shift split: option.split)

lemma table_scan_init:
  assumes "table_scan_src e xs"
  shows "\<exists>e'. TableScanExecutor_Init e = Some e' \<and> table_scan_rest xs e' xs"
proof -
  let ?h = "ts_heap_file e"
  obtain ps M where H: "holds_rows ?h ps M" "xs = heap_rows ?h ps M" using assms by (auto simp: table_scan_src_def)
  obtain it b where B: "HeapFile_Begin ?h = Some (it, b)"
    "iter_rest (hf_bpm ?h) (hf_first ?h) ps it b (chain_list (hf_bpm ?h) ps)"
    using begin_rest [of ?h ps] H(1) by (auto simp: holds_rows_def)
  let ?e = "e\<lparr>ts_heap_file := ?h\<lparr>hf_bpm := b\<rparr>, ts_iterator := it, ts_initialized := True\<rparr>"
  have "table_scan_rest xs ?e xs"
    unfolding table_scan_rest_def
    by (rule conjI, simp, rule exI [of _ "hf_bpm ?h"], rule exI [of _ ps], rule exI [of _ M],
        rule exI [of _ "chain_list (hf_bpm ?h) ps"])
      (use H B(2) chain_list_rows [OF H(1)] in \<open>simp add: heap_rows_def heap_rids_def\<close>)
  then show ?thesis using B(1) by (intro exI [of _ ?e]) (simp add: TableScanExecutor_Init_def)
qed

lemma table_scan_end:
  assumes "table_scan_rest zs e []"
  shows "TableScanExecutor_Next e out = Some (False, out, e) \<and> table_scan_src e zs"
proof -
  let ?h = "ts_heap_file e"
  obtain b0 ps M where R: "ts_initialized e" "holds_rows (?h\<lparr>hf_bpm := b0\<rparr>) ps M" "zs = heap_rows (?h\<lparr>hf_bpm := b0\<rparr>) ps M"
    "iter_rest b0 (hf_first ?h) ps (ts_iterator e) (hf_bpm ?h) []"
    using assms by (auto simp: table_scan_rest_def)
  have v: "\<not> hi_valid (ts_iterator e)" and q: "scan_quiet b0 (hf_first ?h) ps (hf_bpm ?h)"
    using R(4) by (auto simp: iter_rest_def split: if_splits)
  have "quiet (hf_bpm ?h)" "bp_view (hf_bpm ?h) = bp_view b0"
    using q by (simp_all add: scan_quiet_def heap_core_def)
  note V = holds_rows_view [OF R(2) this]
  have "table_scan_src e zs"
    unfolding table_scan_src_def by (rule exI [of _ ps], rule exI [of _ M]) (use V R(3) in simp)
  then show ?thesis using R(1) v by (simp add: TableScanExecutor_Next_def)
qed

lemma table_scan_more:
  assumes "table_scan_rest zs e (y # ys)"
  shows "\<exists>e'. TableScanExecutor_Next e out = Some (True, y, e') \<and> table_scan_rest zs e' ys"
proof -
  let ?h = "ts_heap_file e"
  obtain b0 ps M xs0 where R: "ts_initialized e" "holds_rows (?h\<lparr>hf_bpm := b0\<rparr>) ps M" "zs = heap_rows (?h\<lparr>hf_bpm := b0\<rparr>) ps M"
    "iter_rest b0 (hf_first ?h) ps (ts_iterator e) (hf_bpm ?h) xs0"
    "\<forall>x\<in>set xs0. map_option RecordSerializer_Serialize (M (fst x)) = Some (snd x)" "y # ys = map (\<lambda>x. the (M (fst x))) xs0"
    using assms unfolding table_scan_rest_def by (elim conjE exE) (rule that)
  obtain x xs where xs: "xs0 = x # xs" "y = the (M (fst x))" "ys = map (\<lambda>x. the (M (fst x))) xs" using R(6) by (cases xs0) auto
  note N = next_rest [OF R(4) [unfolded xs(1)]]
  obtain it' b' where n: "HeapFileIterator_Next (ts_iterator e) (hf_bpm ?h) = Some (it', b')" "iter_rest b0 (hf_first ?h) ps it' b' xs"
    using N by blast
  obtain d len where d: "HeapFileIterator_data (ts_iterator e) (hf_bpm ?h) = Some (d, len)" "buf_read d 0 (unat len) = snd x"
    using N by (auto simp: HeapFileIterator_GetRecord_data)
  have "RecordSerializer_Deserialize d len = Some y"
    using R(5) d(2) xs(1,2) by (intro Deserialize_stored) auto
  moreover let ?e = "e\<lparr>ts_heap_file := ?h\<lparr>hf_bpm := b'\<rparr>, ts_iterator := it'\<rparr>"
  have "table_scan_rest zs ?e ys"
    unfolding table_scan_rest_def
    by (rule conjI, use R(1) in simp, rule exI [of _ b0], rule exI [of _ ps], rule exI [of _ M], rule exI [of _ xs])
      (use R(2,3,5) n(2) xs in simp)
  ultimately show ?thesis using N R(1) n(1) d(1) by (intro exI [of _ ?e]) (simp add: TableScanExecutor_Next_def Let_def)
qed

interpretation table_scan: rescannable TableScanExecutor table_scan_src table_scan_rest "\<lambda>_. True"
proof
  fix zs s out s' assume "table_scan_rest zs s []" and "ex_Next TableScanExecutor s out = Some (False, out, s')"
  then show "table_scan_src s' zs" using table_scan_end [of zs s out] by (simp add: TableScanExecutor_def)
qed (simp_all add: TableScanExecutor_def table_scan_init table_scan_more, use table_scan_end in blast)

text \<open>While the iterator stands on a record, its page is pinned; the operator has no destructor to unpin it.\<close>

lemma table_scan_pinned:
  assumes "table_scan_rest zs e (y # ys)"
  shows "bp_pins (hf_bpm (ts_heap_file e)) = (\<lambda>_. 0)(hi_page_id (ts_iterator e) := 1)"
  using assms by (auto simp: table_scan_rest_def iter_rest_def scan_at_def split: if_splits)

section \<open>The index scan satisfies the contract\<close>

lemma get_row:
  assumes rows: "holds_rows h ps M" and p: "rid_page_id r \<in> set ps"
  obtains (row) f off len b y where "HeapFile_GetRecord r h = (Some (f, off, len), h\<lparr>hf_bpm := b\<rparr>)" "M r = Some y"
      "RecordSerializer_Deserialize (\<lambda>i. p_data (frame_page b f) (unat off + i)) len = Some y"
      "same_frame (hf_bpm h) (snd (BufferPoolManager_UnpinPage (rid_page_id r) False b))"
      "bp_view (snd (BufferPoolManager_UnpinPage (rid_page_id r) False b)) = bp_view (hf_bpm h)"
  | (none) b where "HeapFile_GetRecord r h = (None, h\<lparr>hf_bpm := b\<rparr>)" "M r = None" "same_frame (hf_bpm h) b" "bp_view b = bp_view (hf_bpm h)"
proof -
  have inv: "heap_inv h ps" using rows by (simp add: holds_rows_def)
  obtain f h1 where F: "hf_fetch (rid_page_id r) h = (Some f, h1)" "h1 = h\<lparr>hf_bpm := hf_bpm h1\<rparr>"
    "\<And>b2. b2 = snd (BufferPoolManager_UnpinPage (rid_page_id r) False (hf_bpm h1)) \<Longrightarrow>
       heap_core b2 (hf_first h) ps \<and> bp_view b2 = bp_view (hf_bpm h) \<and> same_frame (hf_bpm h) b2"
    by (rule heap_visit [OF heap_inv_core [OF inv] p]) blast
  let ?b2 = "snd (BufferPoolManager_UnpinPage (rid_page_id r) False (hf_bpm h1))"
  have valid: "RID_IsValid r" using heap_coreD(8) [OF heap_inv_core [OF inv] p] by (simp add: RID_IsValid_def)
  show thesis
  proof (cases "Page_GetRecord (rid_slot_id r) (hf_page h1 f)")
    case None
    then have g: "HeapFile_GetRecord r h = (None, h\<lparr>hf_bpm := ?b2\<rparr>)"
      using F(1,2) valid by (simp add: HeapFile_GetRecord_def hf_unpin_def) (metis heap_file.update_convs(1) heap_file.surjective)
    then have "M r = None" using heap_get(1) [OF inv p g] rows by (simp add: holds_rows_def)
    then show ?thesis using none [OF g] F(3) by simp
  next
    case (Some ol)
    obtain off len where ol: "ol = (off, len)" by (cases ol)
    have g: "HeapFile_GetRecord r h = (Some (f, off, len), h\<lparr>hf_bpm := hf_bpm h1\<rparr>)"
      using F(1,2) valid Some ol by (simp add: HeapFile_GetRecord_def)
    have "heap_recs h ps r = Some (buf_read (p_data (hf_page h1 f)) (unat off) (unat len))"
      using heap_get(1) [OF inv p g] by simp
    then obtain y where y: "M r = Some y" "buf_read (p_data (hf_page h1 f)) (unat off) (unat len) = RecordSerializer_Serialize y"
      using rows by (auto simp: holds_rows_def)
    then have "RecordSerializer_Deserialize (\<lambda>i. p_data (hf_page h1 f) (unat off + i)) len = Some y"
      by (intro Deserialize_stored) (simp add: buf_read_shift)
    then show ?thesis using row [OF g y(1)] F(3) by simp
  qed
qed

text \<open>
  The index entries point into the pages of the heap file. The ids of records that are gone are skipped, so the rows are
  those of the entries that are still there.
\<close>

definition scan_entries :: "index_scan_executor \<Rightarrow> bt option \<Rightarrow> rid list" where
  "scan_entries e T =
     (if is_is_range e then map snd (entries_range (bt_cmp (is_index e)) (is_low_key e) (is_high_key e) (tree_entries T))
      else entries_find (is_low_key e) (tree_entries T))"

definition index_scan_at :: "index_scan_executor \<Rightarrow> bpm \<Rightarrow> u32 list \<Rightarrow> (rid \<rightharpoonup> tuple) \<Rightarrow> bt option \<Rightarrow> bool" where
  "index_scan_at e b ps M T \<longleftrightarrow>
     holds_rows ((is_heap_file e)\<lparr>hf_bpm := b\<rparr>) ps M \<and> btree_of ((is_index e)\<lparr>bt_bpm := b\<rparr>) T \<and>
     (\<forall>r\<in>set (scan_entries e T). rid_page_id r \<in> set ps)"

definition index_scan_src :: "index_scan_executor \<Rightarrow> tuple list \<Rightarrow> bool" where
  "index_scan_src e xs \<longleftrightarrow>
     (\<exists>ps M T. index_scan_at e (hf_bpm (is_heap_file e)) ps M T \<and> xs = List.map_filter M (scan_entries e T))"

definition index_scan_rest :: "tuple list \<Rightarrow> index_scan_executor \<Rightarrow> tuple list \<Rightarrow> bool" where
  "index_scan_rest zs e ys \<longleftrightarrow>
     (\<exists>ps M T. index_scan_at e (hf_bpm (is_heap_file e)) ps M T \<and> zs = List.map_filter M (scan_entries e T) \<and>
        map snd (is_results e) = scan_entries e T \<and> ys = List.map_filter M (drop (is_current_idx e) (scan_entries e T)))"

lemma index_scan_at_view:
  assumes at: "index_scan_at e b0 ps M T" and e: "is_heap_file e' = (is_heap_file e)\<lparr>hf_bpm := b\<rparr>"
    "is_index e' = (is_index e)\<lparr>bt_bpm := b'\<rparr>" "is_is_range e' = is_is_range e" "is_low_key e' = is_low_key e"
    "is_high_key e' = is_high_key e"
    and sf: "same_frame b0 b" and v: "bp_view b = bp_view b0"
  shows "index_scan_at e' b ps M T" "scan_entries e' T = scan_entries e T"
proof -
  note A = at [unfolded index_scan_at_def]
  have q0: "quiet b0" using A by (auto simp: holds_rows_def heap_inv_def)
  have q: "quiet b" by (rule quiet_same_frame [OF q0 sf])
  have "btree_of ((is_index e)\<lparr>bt_bpm := b\<rparr>) T"
  proof (cases T)
    case None
    then show ?thesis using A q by simp
  next
    case (Some tr)
    then have inv: "btree_inv ((is_index e)\<lparr>bt_bpm := b0\<rparr>) tr" using A by simp
    show ?thesis
      using key_order.same_view_inv [OF btree_invD(1) [OF inv] inv, of b] sf v Some by simp
  qed
  moreover show es: "scan_entries e' T = scan_entries e T" using e by (simp add: scan_entries_def)
  ultimately show "index_scan_at e' b ps M T"
    using holds_rows_view(1) [OF _ q v] A e by (simp add: index_scan_at_def)
qed

lemma index_scan_init:
  assumes "index_scan_src e xs"
  shows "\<exists>e'. IndexScanExecutor_Init e = Some e' \<and> index_scan_rest xs e' xs"
proof -
  let ?b = "hf_bpm (is_heap_file e)" and ?e0 = "e\<lparr>is_current_idx := 0\<rparr>"
  let ?t = "(is_index e)\<lparr>bt_bpm := ?b\<rparr>"
  obtain ps M T where S: "index_scan_at e ?b ps M T" "xs = List.map_filter M (scan_entries e T)"
    using assms by (auto simp: index_scan_src_def)
  have of: "btree_of ?t T" using S(1) by (simp add: index_scan_at_def)
  obtain b rs where B: "IndexScanExecutor_Init e = Some (?e0\<lparr>is_index := ?t\<lparr>bt_bpm := b\<rparr>,
      is_heap_file := (is_heap_file e)\<lparr>hf_bpm := b\<rparr>, is_results := rs\<rparr>)" "map snd rs = scan_entries e T"
    "same_frame ?b b" "bp_view b = bp_view ?b"
  proof (cases "is_is_range e")
    case True
    obtain b where "BPlusTree_RangeScan (is_low_key e) (is_high_key e) ?t =
        Some (entries_range (bt_cmp ?t) (is_low_key e) (is_high_key e) (tree_entries T), ?t\<lparr>bt_bpm := b\<rparr>)"
      "same_frame (bt_bpm ?t) b" "bp_view b = bp_view (bt_bpm ?t)"
      by (rule range_step [OF of, where low = "is_low_key e" and high = "is_high_key e"]) (erule that; assumption)
    then show ?thesis
      using True by (intro that [of "entries_range (bt_cmp (is_index e)) (is_low_key e) (is_high_key e) (tree_entries T)" b]) (simp_all add: IndexScanExecutor_Init_def Let_def on_index_def scan_entries_def)
  next
    case False
    obtain b where "BPlusTree_Lookup (is_low_key e) ?t = Some (entries_find (is_low_key e) (tree_entries T), ?t\<lparr>bt_bpm := b\<rparr>)"
      "same_frame (bt_bpm ?t) b" "bp_view b = bp_view (bt_bpm ?t)"
      by (rule lookup_step [OF of, where key = "is_low_key e"]) (erule that; assumption)
    then show ?thesis
      using False by (intro that [of "map (\<lambda>r. (is_low_key e, r)) (entries_find (is_low_key e) (tree_entries T))" b]) (simp_all add: IndexScanExecutor_Init_def Let_def on_index_def scan_entries_def comp_def)
  qed
  let ?e = "?e0\<lparr>is_index := ?t\<lparr>bt_bpm := b\<rparr>, is_heap_file := (is_heap_file e)\<lparr>hf_bpm := b\<rparr>, is_results := rs\<rparr>"
  have at: "index_scan_at ?e b ps M T" "scan_entries ?e T = scan_entries e T"
    by (rule index_scan_at_view [OF S(1) _ _ _ _ _ B(3,4)]; simp)+
  have "index_scan_rest xs ?e xs"
    unfolding index_scan_rest_def by (rule exI [of _ ps], rule exI [of _ M], rule exI [of _ T]) (use at B(2) S(2) in simp)
  then show ?thesis using B(1) by blast
qed

lemma index_scan_next:
  assumes "index_scan_rest zs e ys"
  shows "\<exists>e'. (case ys of
      [] \<Rightarrow> IndexScanExecutor_Next e out = Some (False, out, e') \<and> index_scan_rest zs e' []
    | y # ys \<Rightarrow> IndexScanExecutor_Next e out = Some (True, y, e') \<and> index_scan_rest zs e' ys)"
  using assms
proof (induction "length (is_results e) - is_current_idx e" arbitrary: e)
  case 0
  then have "ys = []" by (auto simp: index_scan_rest_def map_filter_simps dest!: arg_cong [of "map snd _" _ length])
  then show ?case using 0 by (intro exI [of _ e]) (simp add: IndexScanExecutor_Next.simps)
next
  case (Suc n)
  let ?h = "is_heap_file e" and ?i = "is_current_idx e" and ?e1 = "e\<lparr>is_current_idx := Suc (is_current_idx e)\<rparr>"
  obtain ps M T where R: "index_scan_at e (hf_bpm ?h) ps M T" "zs = List.map_filter M (scan_entries e T)"
    "map snd (is_results e) = scan_entries e T" "ys = List.map_filter M (drop ?i (scan_entries e T))"
    using Suc.prems unfolding index_scan_rest_def by blast
  define r where "r = snd (is_results e ! ?i)"
  have i: "?i < length (is_results e)" using Suc(2) by simp
  then have d: "drop ?i (scan_entries e T) = r # drop (Suc ?i) (scan_entries e T)" and mem: "r \<in> set (scan_entries e T)"
    unfolding r_def R(3) [symmetric] by (simp_all add: Cons_nth_drop_Suc drop_map flip: list.map(2))
  have rows: "holds_rows ?h ps M" and p: "rid_page_id r \<in> set ps" using R(1) mem by (simp_all add: index_scan_at_def)
  have rest: "index_scan_rest zs (?e1\<lparr>is_heap_file := ?h\<lparr>hf_bpm := b\<rparr>\<rparr>) (List.map_filter M (drop (Suc ?i) (scan_entries e T)))"
    if "same_frame (hf_bpm ?h) b" "bp_view b = bp_view (hf_bpm ?h)" for b
  proof -
    let ?e = "?e1\<lparr>is_heap_file := ?h\<lparr>hf_bpm := b\<rparr>\<rparr>"
    have "index_scan_at ?e b ps M T" "scan_entries ?e T = scan_entries e T"
      by (rule index_scan_at_view [OF R(1) _ _ _ _ _ that, of _ "bt_bpm (is_index e)"]; simp)+
    then show ?thesis
      unfolding index_scan_rest_def by (intro exI [of _ ps] exI [of _ M] exI [of _ T]) (use R(2,3) in simp)
  qed
  from rows p show ?case
  proof (cases rule: get_row)
    case (row f off len b y)
    let ?b = "snd (BufferPoolManager_UnpinPage (rid_page_id r) False b)"
    have "IndexScanExecutor_Next e out = Some (True, y, ?e1\<lparr>is_heap_file := ?h\<lparr>hf_bpm := ?b\<rparr>\<rparr>)"
      using i row(1,3) by (subst IndexScanExecutor_Next.simps) (simp add: Let_def r_def hf_unpin_def)
    moreover have "ys = y # List.map_filter M (drop (Suc ?i) (scan_entries e T))"
      using R(4) d row(2) by (simp add: map_filter_simps)
    ultimately show ?thesis using rest [OF row(4,5)] by auto
  next
    case (none b)
    let ?e = "?e1\<lparr>is_heap_file := ?h\<lparr>hf_bpm := b\<rparr>\<rparr>"
    have "IndexScanExecutor_Next e out = IndexScanExecutor_Next ?e out"
      using i none(1) by (subst IndexScanExecutor_Next.simps) (simp add: Let_def r_def)
    moreover have "ys = List.map_filter M (drop (Suc ?i) (scan_entries e T))"
      using R(4) d none(2) by (simp add: map_filter_simps)
    then have r': "index_scan_rest zs ?e ys" using rest [OF none(3,4)] by simp
    have "n = length (is_results ?e) - is_current_idx ?e" using Suc(2) by simp
    note Suc(1) [OF this r']
    ultimately show ?thesis by (simp only:)
  qed
qed

interpretation index_scan: materialized IndexScanExecutor index_scan_src index_scan_rest "\<lambda>_. True"
proof
  fix zs s x xs out
  show "index_scan_rest zs s [] \<Longrightarrow> \<exists>s'. ex_Next IndexScanExecutor s out = Some (False, out, s') \<and> index_scan_rest zs s' []"
    using index_scan_next [of zs s "[]" out] by (simp add: IndexScanExecutor_def)
  show "index_scan_rest zs s (x # xs) \<Longrightarrow> \<exists>s'. ex_Next IndexScanExecutor s out = Some (True, x, s') \<and> index_scan_rest zs s' xs"
    using index_scan_next [of zs s "x # xs" out] by (simp add: IndexScanExecutor_def)
  show "index_scan_rest zs s xs \<Longrightarrow> index_scan_src s zs"
    by (auto simp: index_scan_rest_def index_scan_src_def)
qed (simp_all add: IndexScanExecutor_def index_scan_init)

end
