(* ===== verification/QueryProps.thy ===== *)
theory QueryProps
  imports ScanExecutor BTreeClient
begin

text \<open>
  The properties of the query executor, on plans over a heap file: what each operator delivers, the plans that are
  equivalent, and what a \<open>LIMIT\<close> leaves behind in the buffer pool.
\<close>

section \<open>Calls of a client\<close>

text \<open>\<open>Next\<close>, at most \<open>k\<close> times.\<close>

primrec next_n :: "'s executor \<Rightarrow> nat \<Rightarrow> 's \<Rightarrow> tuple \<Rightarrow> (tuple list \<times> 's) option" where
  "next_n E 0 s t = Some ([], s)"
| "next_n E (Suc k) s t =
     Option.bind (ex_Next E s t) (\<lambda>(ok, t, s).
       if ok then Option.bind (next_n E k s t) (\<lambda>(ts, s). Some (t # ts, s)) else Some ([], s))"

text \<open>\<open>Reset\<close> and then \<open>Next\<close> until it returns false.\<close>

definition reset_query :: "'s executor \<Rightarrow> 's \<Rightarrow> (tuple list \<times> 's) option" where
  "reset_query E s = Option.bind (Executor_Reset E s) (\<lambda>s. pull_all E s NBARecord_default)"

lemma reset_query: "reset_query E s = run_query E s"
  by (simp add: reset_query_def run_query_def Executor_Reset_def)

context volcano begin

lemma next_n_rest: "rest zs s xs \<Longrightarrow> clean out \<Longrightarrow> \<exists>s'. next_n E k s out = Some (take k xs, s') \<and> rest zs s' (drop k xs)"
proof (induction k arbitrary: s xs out)
  case (Suc k)
  show ?case
  proof (cases xs)
    case Nil
    then show ?thesis using next_end [of zs s out] Suc.prems by auto
  next
    case (Cons x ys)
    obtain s1 where n: "ex_Next E s out = Some (True, x, s1)" "rest zs s1 ys"
      using next_more [of zs s x ys out] Suc.prems Cons by auto
    have "clean x" using clean_more [of zs s x ys] Suc.prems(1) Cons by simp
    from Suc.IH [OF n(2) this] show ?thesis using n(1) Cons by auto
  qed
qed simp

end

context volcano begin

lemma limit_pull:
  "rest zs (le_child e) xs \<Longrightarrow> le_emitted e \<le> le_limit e \<Longrightarrow> unat (le_limit e) - unat (le_emitted e) \<le> length xs \<Longrightarrow>
   \<exists>c k. pull_all (LimitExecutor E) e out =
     Some (take (unat (le_limit e) - unat (le_emitted e)) xs, e\<lparr>le_child := c, le_emitted := k\<rparr>) \<and>
     rest zs c (drop (unat (le_limit e) - unat (le_emitted e)) xs)"
proof (induction "unat (le_limit e) - unat (le_emitted e)" arbitrary: e xs out)
  case 0
  then have "le_limit e \<le> le_emitted e" by (simp add: word_le_nat_alt)
  then have "pull_all (LimitExecutor E) e out = Some ([], e\<lparr>le_child := le_child e, le_emitted := le_emitted e\<rparr>)"
    by (subst pull_all.simps) (simp add: LimitExecutor_def LimitExecutor_Next_def)
  then show ?case using 0 by (intro exI [of _ "le_child e"] exI [of _ "le_emitted e"]) simp
next
  case (Suc m)
  have lt: "le_emitted e < le_limit e" using Suc(2) by (simp add: word_less_nat_alt)
  obtain x ys where xs: "xs = x # ys" using Suc.prems(3) Suc(2) by (cases xs) auto
  obtain c where c: "ex_Next E (le_child e) NBARecord_default = Some (True, x, c)" "rest zs c ys"
    using next_more [OF Suc.prems(1) [unfolded xs] clean_default] by blast
  let ?e = "e\<lparr>le_child := c, le_emitted := le_emitted e + 1\<rparr>"
  have u: "unat (le_emitted e + 1) = Suc (unat (le_emitted e))"
    using lt unat32_lt [of "le_limit e"] by (simp add: unat_word_ariths word_less_nat_alt del: unat32_lt)
  have m: "m = unat (le_limit ?e) - unat (le_emitted ?e)" using Suc(2) u by simp
  have le: "le_emitted ?e \<le> le_limit ?e" using lt u by (simp add: word_le_nat_alt word_less_nat_alt)
  have r: "rest zs (le_child ?e) ys" and l: "unat (le_limit ?e) - unat (le_emitted ?e) \<le> length ys"
    using c(2) Suc.prems(3) xs u by simp_all
  obtain c' k where I: "pull_all (LimitExecutor E) ?e x = Some (take m ys, ?e\<lparr>le_child := c', le_emitted := k\<rparr>)"
    "rest zs c' (drop m ys)"
    using Suc(1) [OF m r le l, of x] m by auto
  have "ex_Next (LimitExecutor E) e out = Some (True, x, ?e)"
    using lt c(1) by (simp add: LimitExecutor_def LimitExecutor_Next_def)
  then have "pull_all (LimitExecutor E) e out = Some (x # take m ys, e\<lparr>le_child := c', le_emitted := k\<rparr>)"
    using I(1) by (subst pull_all.simps) simp
  then show ?case using I(2) xs Suc(2) [symmetric] by (intro exI [of _ c'] exI [of _ k]) simp
qed

end

context materialized begin

lemma reset_midway:
  assumes "src s xs"
  shows "\<exists>s1 s2 s3. ex_Init E s = Some s1 \<and> next_n E k s1 NBARecord_default = Some (take k xs, s2) \<and> reset_query E s2 = Some (xs, s3)"
proof -
  obtain s1 where i: "ex_Init E s = Some s1" "rest xs s1 xs" using init [OF assms] by blast
  obtain s2 where n: "next_n E k s1 NBARecord_default = Some (take k xs, s2)" "rest xs s2 (drop k xs)"
    using next_n_rest [OF i(2) clean_default] by blast
  from run_src [OF anytime [OF n(2)]] show ?thesis using i(1) n(1) by (auto simp: reset_query)
qed

end

section \<open>Plans\<close>

abbreviation scan_plan :: "heap_file \<Rightarrow> table_scan_executor" where
  "scan_plan h \<equiv> TableScanExecutor_new h"

definition select_plan ::
  "sort_fn \<Rightarrow> table_scan_executor filter_executor sort_executor projection_executor limit_executor executor" where
  "select_plan sorter = LimitExecutor (ProjectionExecutor (SortExecutor sorter (FilterExecutor TableScanExecutor)))"

definition select_query ::
  "heap_file \<Rightarrow> (tuple \<Rightarrow> bool) \<Rightarrow> (tuple \<Rightarrow> tuple \<Rightarrow> bool) \<Rightarrow> (tuple \<Rightarrow> tuple) \<Rightarrow> u32 \<Rightarrow>
   table_scan_executor filter_executor sort_executor projection_executor limit_executor" where
  "select_query h p cmp f n =
     LimitExecutor_new (ProjectionExecutor_new (SortExecutor_new (FilterExecutor_new (scan_plan h) p) cmp) f) n"

lemma scan_plan_src: "holds_rows h ps M \<Longrightarrow> table_scan_src (scan_plan h) (heap_rows h ps M)"
  by (auto simp: table_scan_src_def TableScanExecutor_new_def)

lemma heap_rows_mset: "holds_rows h ps M \<Longrightarrow> mset (heap_rows h ps M) = image_mset (\<lambda>r. the (M r)) (mset_set (dom M))"
  using heap_rids [of h ps M] by (simp add: heap_rows_def mset_set_set flip: mset_set_set)

lemma length_rids: "distinct rids \<Longrightarrow> length (rids :: rid list) < 2 ^ 64"
proof -
  assume "distinct rids"
  then have "distinct (map (\<lambda>r. (rid_page_id r, rid_slot_id r)) rids)"
    by (simp add: distinct_map inj_on_def rid.expand)
  then have "length rids \<le> card (UNIV :: (u32 \<times> u16) set)"
    using card_mono [of UNIV "set (map (\<lambda>r. (rid_page_id r, rid_slot_id r)) rids)"] distinct_card by fastforce
  then show ?thesis by (simp add: card_word flip: UNIV_Times_UNIV)
qed

lemma length_heap_rows: "holds_rows h ps M \<Longrightarrow> length (heap_rows h ps M) < 2 ^ 64"
  using heap_rids(1) length_rids by (simp add: heap_rows_def)

section \<open>A concrete table\<close>

text \<open>Two rows in a heap file on a pool of two frames, and an index with one of them on the same pool.\<close>

definition row_a :: tuple where
  "row_a = NBARecord_default\<lparr>nr_team := [76, 65, 76], nr_points := 3, nr_season := 2024\<rparr>"

definition row_b :: tuple where
  "row_b = NBARecord_default\<lparr>nr_team := [66, 79, 83], nr_points := 2, nr_season := 2023\<rparr>"

lemma rows_differ: "row_a \<noteq> row_b"
  by (simp add: row_a_def row_b_def NBARecord_default_def)

lemma insert_row:
  assumes rows: "holds_rows h ps M" and room: "2 \<le> heap_room h" and small: "record_size y \<le> 4072"
  obtains r h' new where
    "HeapFile_InsertRecord (Some (RecordSerializer_Serialize y)) (of_nat (length (RecordSerializer_Serialize y))) h = (Inr r, h')"
    "holds_rows h' (ps @ new) (M(r \<mapsto> y))" "heap_room h \<le> heap_room h' + 2" "M r = None"
    "rid_page_id r \<in> set (ps @ new)" "footprint (set ps) (hf_bpm h) (set (ps @ new)) (hf_bpm h')"
proof -
  let ?bs = "RecordSerializer_Serialize y" and ?len = "of_nat (length (RecordSerializer_Serialize y)) :: u16"
  have inv: "heap_inv h ps" and recs: "heap_recs h ps = (\<lambda>r. map_option RecordSerializer_Serialize (M r))"
    using rows by (simp_all add: holds_rows_def)
  have n: "unat ?len = length ?bs" "length ?bs = record_size y" using small by (simp_all add: length_Serialize unat16_of_nat)
  have pos: "?len \<noteq> 0" using n by (auto simp: record_size_def)
  have le: "unat ?len \<le> length ?bs" using n by simp
  obtain r h' new where I: "HeapFile_InsertRecord (Some ?bs) ?len h = (Inr r, h')" "heap_inv h' (ps @ new)"
    "heap_room h \<le> heap_room h' + 2" "footprint (set ps) (hf_bpm h) (set (ps @ new)) (hf_bpm h')"
    "?len \<noteq> 0 \<and> unat ?len \<le> 4072 \<Longrightarrow> RID_IsValid r \<and> heap_recs h ps r = None \<and>
       heap_recs h' (ps @ new) = (heap_recs h ps)(r \<mapsto> take (unat ?len) ?bs)"
    by (rule heap_insert [OF inv room le]) blast
  have s: "heap_recs h ps r = None" "heap_recs h' (ps @ new) = (heap_recs h ps)(r \<mapsto> ?bs)"
    using I(5) n small pos by simp_all
  then have "heap_recs h' (ps @ new) r \<noteq> None" by simp
  then have "rid_page_id r \<in> set (ps @ new)" by (auto simp: heap_recs_def split: if_splits)
  moreover have "holds_rows h' (ps @ new) (M(r \<mapsto> y))"
    using I(2) s recs by (auto simp: holds_rows_def fun_eq_iff)
  ultimately show ?thesis using that [OF I(1) _ I(3) _ _ I(4)] s(1) recs by auto
qed

lemma demo_table:
  obtains h ps ra rb where "holds_rows h ps [ra \<mapsto> row_a, rb \<mapsto> row_b]" "ra \<noteq> rb" "0 < heap_room h"
    "rid_page_id ra \<in> set ps" "rid_page_id rb \<in> set ps"
proof -
  obtain h p where H: "heap_inv h [p]" "heap_recs h [p] = (\<lambda>_. None)" "heap_room h = 4294967293" by (rule demo_heap) blast
  then have h: "holds_rows h [p] (\<lambda>_. None)" "2 \<le> heap_room h" by (simp_all add: holds_rows_def)
  have small: "record_size row_a \<le> 4072" "record_size row_b \<le> 4072"
    by (simp_all add: record_size_def row_a_def row_b_def NBARecord_default_def)
  obtain rb h1 n1 where A: "holds_rows h1 ([p] @ n1) [rb \<mapsto> row_b]" "heap_room h \<le> heap_room h1 + 2"
    "rid_page_id rb \<in> set ([p] @ n1)"
    by (rule insert_row [OF h small(2)]) blast
  have room: "2 \<le> heap_room h1" using A(2) H(3) by simp
  obtain ra h2 n2 where B: "holds_rows h2 (([p] @ n1) @ n2) ([rb \<mapsto> row_b](ra \<mapsto> row_a))" "heap_room h1 \<le> heap_room h2 + 2"
    "[rb \<mapsto> row_b] ra = None" "rid_page_id ra \<in> set (([p] @ n1) @ n2)"
    by (rule insert_row [OF A(1) room small(1)]) blast
  have ne: "ra \<noteq> rb" using B(3) by auto
  then have "[rb \<mapsto> row_b](ra \<mapsto> row_a) = [ra \<mapsto> row_a, rb \<mapsto> row_b]" by auto
  moreover have "0 < heap_room h2" "rid_page_id rb \<in> set (([p] @ n1) @ n2)" using A(2,3) B(2) H(3) by auto
  moreover have "holds_rows h2 (([p] @ n1) @ n2) [ra \<mapsto> row_a, rb \<mapsto> row_b]" using B(1) calculation(1) by (simp only:)
  ultimately show ?thesis by (intro that [OF _ ne _ B(4)])
qed

lemma demo_rows:
  assumes "set rids = {ra, rb}" "distinct rids" "ra \<noteq> rb"
  shows "map (\<lambda>r. the ([ra \<mapsto> row_a, rb \<mapsto> row_b] r)) rids \<in> {[row_a, row_b], [row_b, row_a]}"
proof -
  have "length rids = 2" using distinct_card [OF assms(2)] assms(1,3) by simp
  then obtain x y where "rids = [x, y]" by (auto simp: numeral_2_eq_2 length_Suc_conv)
  then show ?thesis using assms by (auto simp: doubleton_eq_iff)
qed

definition by_points :: "tuple \<Rightarrow> tuple \<Rightarrow> bool" where
  "by_points x y \<longleftrightarrow> nr_points x < nr_points y"

lemma by_points: "strict_weak_order by_points" "equivalent by_points x y \<longleftrightarrow> nr_points x = nr_points y"
  by (unfold_locales, auto simp: by_points_def equivalent_def)

abbreviation season :: "tuple \<Rightarrow> u32" where
  "season t \<equiv> ucast (nr_season t)"

text \<open>One row, and an index with its entry on the same pool.\<close>

lemma demo_indexed:
  obtains h ps ra t tr where "holds_rows h ps [ra \<mapsto> row_a]" "rid_page_id ra \<in> set ps" "bt_cmp t = DefaultKeyComparator"
    "btree_of (t\<lparr>bt_bpm := hf_bpm h\<rparr>) (Some tr)" "bt_entries tr = [(season row_a, ra)]"
proof -
  obtain h0 p0 where H: "heap_inv h0 [p0]" "heap_recs h0 [p0] = (\<lambda>_. None)" "heap_room h0 = 4294967293" by (rule demo_heap) blast
  then have h0: "holds_rows h0 [p0] (\<lambda>_. None)" "2 \<le> heap_room h0" by (simp_all add: holds_rows_def)
  have small: "record_size row_a \<le> 4072" by (simp add: record_size_def row_a_def NBARecord_default_def)
  obtain ra h new where A: "holds_rows h ([p0] @ new) [ra \<mapsto> row_a]" "heap_room h0 \<le> heap_room h + 2"
    "rid_page_id ra \<in> set ([p0] @ new)"
    by (rule insert_row [OF h0 small]) blast
  define ps where "ps = [p0] @ new"
  have inv: "heap_inv h ps" and rows: "holds_rows h ps [ra \<mapsto> row_a]" using A(1) by (simp_all add: holds_rows_def ps_def)
  then have q: "quiet (hf_bpm h)" by (simp add: heap_inv_def)
  let ?t = "BPlusTree_new (hf_bpm h) INVALID_PAGE_ID DefaultKeyComparator"
  have t0: "quiet (bt_bpm ?t)" "bt_cmp ?t = DefaultKeyComparator" "bt_root ?t = INVALID_PAGE_ID" "0 < disk_room (bp_disk (bt_bpm ?t))"
    using q A(2) H(3) by (simp_all add: BPlusTree_new_def)
  obtain t p n where T: "btree_inv t (BLeaf p n)" "leaf_entries n = [(season row_a, ra)]" "bt_cmp t = DefaultKeyComparator"
    "footprint {} (bt_bpm ?t) {p} (bt_bpm t)"
    by (rule default_order.insert_first [OF t0, where key = "season row_a" and r = ra]) (erule that; assumption)
  have b: "bt_bpm ?t = hf_bpm h" by (simp add: BPlusTree_new_def)
  let ?h = "h\<lparr>hf_bpm := bt_bpm t\<rparr>"
  have "bp_view (bt_bpm t) x = bp_view (hf_bpm h) x" if "x \<in> set ps" for x
    using footprint_apart(1) [OF T(4), of "set ps" x] heap_coreD(7) [OF heap_inv_core [OF inv]] that b by simp
  then have "holds_rows ?h ps [ra \<mapsto> row_a]"
    using holds_rows_pages(1) [where h = h and ?b0.0 = "hf_bpm h" and b = "bt_bpm t"] rows btree_invD(2) [OF T(1)] by simp
  moreover have "btree_of (t\<lparr>bt_bpm := hf_bpm ?h\<rparr>) (Some (BLeaf p n))" using T(1) by simp
  ultimately show ?thesis
    using that [of ?h ps ra t "BLeaf p n"] A(3) T(2,3) by (simp add: bt_entries_def leaves_entries_def ps_def)
qed

section \<open>Scans\<close>

text \<open>
  C23. A table scan ends and returns every row of the heap file once, and no page stays pinned; run again, it returns the
  same.
\<close>

theorem table_scan_correct:
  assumes "holds_rows h ps M"
  shows "\<exists>rids e e'. run_query TableScanExecutor (scan_plan h) = Some (map (\<lambda>r. the (M r)) rids, e) \<and>
    distinct rids \<and> set rids = dom M \<and> (\<forall>p. bp_pins (hf_bpm (ts_heap_file e)) p = 0) \<and>
    reset_query TableScanExecutor e = Some (map (\<lambda>r. the (M r)) rids, e')"
proof -
  obtain e where E: "run_query TableScanExecutor (scan_plan h) = Some (heap_rows h ps M, e)" "table_scan_src e (heap_rows h ps M)"
    using table_scan.run_again [OF scan_plan_src [OF assms]] by blast
  obtain e' where "run_query TableScanExecutor e = Some (heap_rows h ps M, e')" using table_scan.run_again [OF E(2)] by blast
  moreover have "bp_pins (hf_bpm (ts_heap_file e)) p = 0" for p
    using E(2) by (auto simp: table_scan_src_def holds_rows_def heap_inv_def quiet_def)
  ultimately show ?thesis using E(1) heap_rids [OF assms] by (auto simp: heap_rows_def reset_query)
qed

theorem table_scan_correct_witness:
  "\<exists>h xs e. run_query TableScanExecutor (scan_plan h) = Some (xs, e) \<and> mset xs = {#row_a, row_b#}"
proof -
  obtain h ps ra rb where H: "holds_rows h ps [ra \<mapsto> row_a, rb \<mapsto> row_b]" "ra \<noteq> rb" by (rule demo_table) blast
  obtain rids e where R: "run_query TableScanExecutor (scan_plan h) = Some (map (\<lambda>r. the ([ra \<mapsto> row_a, rb \<mapsto> row_b] r)) rids, e)"
    "distinct rids" "set rids = dom [ra \<mapsto> row_a, rb \<mapsto> row_b]"
    using table_scan_correct [OF H(1)] by blast
  have "set rids = {ra, rb}" using R(3) by auto
  from demo_rows [OF this R(2) H(2)] have "mset (map (\<lambda>r. the ([ra \<mapsto> row_a, rb \<mapsto> row_b] r)) rids) = {#row_a, row_b#}"
    unfolding insert_iff empty_iff by (elim disjE) (simp_all only: mset.simps add_mset_commute)
  then show ?thesis using R(1) by blast
qed

lemma index_plan_src:
  assumes "holds_rows h ps M" "btree_of (t\<lparr>bt_bpm := hf_bpm h\<rparr>) T" "\<forall>e\<in>set (tree_entries T). rid_page_id (snd e) \<in> set ps"
  shows "index_scan_src (IndexScanExecutor_range t h low high)
      (List.map_filter M (map snd (entries_range (bt_cmp t) low high (tree_entries T))))"
    "index_scan_src (IndexScanExecutor_point t h key) (List.map_filter M (entries_find key (tree_entries T)))"
proof -
  note defs = IndexScanExecutor_range_def IndexScanExecutor_point_def scan_entries_def entries_range_def entries_find_def
  show "index_scan_src (IndexScanExecutor_range t h low high)
      (List.map_filter M (map snd (entries_range (bt_cmp t) low high (tree_entries T))))"
    unfolding index_scan_src_def index_scan_at_def
    by (rule exI [of _ ps], rule exI [of _ M], rule exI [of _ T]) (use assms in \<open>auto simp: defs\<close>)
  show "index_scan_src (IndexScanExecutor_point t h key) (List.map_filter M (entries_find key (tree_entries T)))"
    unfolding index_scan_src_def index_scan_at_def
    by (rule exI [of _ ps], rule exI [of _ M], rule exI [of _ T]) (use assms in \<open>auto simp: defs\<close>)
qed

text \<open>
  C24. An index scan returns the rows of the entries of its key, or of its range in the order of the index; the entries of
  records that were deleted are skipped. Reset in the middle starts over.
\<close>

theorem index_scan_correct:
  assumes "holds_rows h ps M" and "btree_of (t\<lparr>bt_bpm := hf_bpm h\<rparr>) T"
    and "\<forall>e\<in>set (tree_entries T). rid_page_id (snd e) \<in> set ps"
  shows "\<exists>e e1 e2 e3. run_query IndexScanExecutor (IndexScanExecutor_point t h key) =
      Some (List.map_filter M (entries_find key (tree_entries T)), e) \<and>
    (let rows = List.map_filter M (map snd (entries_range (bt_cmp t) low high (tree_entries T))) in
     ex_Init IndexScanExecutor (IndexScanExecutor_range t h low high) = Some e1 \<and>
     next_n IndexScanExecutor k e1 NBARecord_default = Some (take k rows, e2) \<and>
     reset_query IndexScanExecutor e2 = Some (rows, e3))"
  using index_scan.run_src [OF index_plan_src(2) [OF assms, of key]]
    index_scan.reset_midway [OF index_plan_src(1) [OF assms, of low high], of k]
  unfolding Let_def by blast

theorem index_scan_correct_witness:
  "\<exists>h t e. run_query IndexScanExecutor (IndexScanExecutor_point t h (season row_a)) = Some ([row_a], e)"
proof -
  obtain h ps ra t tr where H: "holds_rows h ps [ra \<mapsto> row_a]" "rid_page_id ra \<in> set ps"
    "btree_of (t\<lparr>bt_bpm := hf_bpm h\<rparr>) (Some tr)" "bt_entries tr = [(season row_a, ra)]" by (rule demo_indexed) blast
  have "\<forall>e\<in>set (tree_entries (Some tr)). rid_page_id (snd e) \<in> set ps" using H(2,4) by simp
  from index_scan_correct [OF H(1,3) this, of "season row_a"] obtain e where
    "run_query IndexScanExecutor (IndexScanExecutor_point t h (season row_a)) =
      Some (List.map_filter [ra \<mapsto> row_a] (entries_find (season row_a) (tree_entries (Some tr))), e)"
    by blast
  moreover have "List.map_filter [ra \<mapsto> row_a] (entries_find (season row_a) (tree_entries (Some tr))) = [row_a]"
    using H(4) by (simp add: entries_find_def map_filter_simps)
  ultimately show ?thesis by metis
qed

lemma in_range: "(DefaultKeyComparator low k \<le> 0 \<and> DefaultKeyComparator k high \<le> 0) \<longleftrightarrow> low \<le> k \<and> k \<le> high"
  by (auto simp: DefaultKeyComparator_def)

lemma map_filter_all: "\<forall>x\<in>set xs. f x \<noteq> None \<Longrightarrow> List.map_filter f xs = map (\<lambda>x. the (f x)) xs"
  by (induction xs) (auto simp: map_filter_simps)

lemma rows_pages: "holds_rows h ps M \<Longrightarrow> r \<in> dom M \<Longrightarrow> rid_page_id r \<in> set ps"
  by (metis (no_types, lifting) domIff heap_recs_def holds_rows_def option.map_disc_iff)

text \<open>The index holds one entry for each row, under the key of the row.\<close>

definition indexes_rows :: "(tuple \<Rightarrow> u32) \<Rightarrow> bt option \<Rightarrow> (rid \<rightharpoonup> tuple) \<Rightarrow> bool" where
  "indexes_rows key T M \<longleftrightarrow> mset (tree_entries T) = image_mset (\<lambda>r. (key (the (M r)), r)) (mset_set (dom M))"

definition table_rows :: "(rid \<rightharpoonup> tuple) \<Rightarrow> tuple multiset" where
  "table_rows M = image_mset (\<lambda>r. the (M r)) (mset_set (dom M))"

lemma index_range_rows:
  assumes "holds_rows h ps M" and "btree_of (t\<lparr>bt_bpm := hf_bpm h\<rparr>) T" and "bt_cmp t = DefaultKeyComparator"
    and "indexes_rows key T M"
  shows "\<exists>xs e. run_query IndexScanExecutor (IndexScanExecutor_range t h low high) = Some (xs, e) \<and>
    mset xs = filter_mset (\<lambda>t. low \<le> key t \<and> key t \<le> high) (table_rows M) \<and> sorted (map key xs)"
proof -
  let ?es = "tree_entries T" and ?p = "\<lambda>t. low \<le> key t \<and> key t \<le> high"
  let ?rs = "entries_range DefaultKeyComparator low high ?es"
  have fin: "finite (dom M)" using heap_rids [OF assms(1)] by (metis List.finite_set)
  have ms: "mset ?es = image_mset (\<lambda>r. (key (the (M r)), r)) (mset_set (dom M))" using assms(4) by (simp add: indexes_rows_def)
  have es: "e \<in> set ?es \<Longrightarrow> snd e \<in> dom M \<and> fst e = key (the (M (snd e)))" for e
    using arg_cong [OF ms, of set_mset] fin by auto
  have rids: "\<forall>e\<in>set ?es. rid_page_id (snd e) \<in> set ps" using es rows_pages [OF assms(1)] by blast
  have xs: "List.map_filter M (map snd ?rs) = map (\<lambda>e. the (M (snd e))) ?rs"
    using es by (subst map_filter_all) (fastforce simp: entries_range_def comp_def)+
  have "?rs = filter (\<lambda>e. ?p (the (M (snd e)))) ?es"
    unfolding entries_range_def in_range by (rule filter_cong [OF refl]) (use es in simp)
  then have "mset (map (\<lambda>e. the (M (snd e))) ?rs) = filter_mset ?p (image_mset (\<lambda>e. the (M (snd e))) (mset ?es))"
    by (simp add: filter_mset_image_mset)
  also have "image_mset (\<lambda>e. the (M (snd e))) (mset ?es) = table_rows M"
    by (simp add: ms image_mset.compositionality comp_def table_rows_def)
  finally have perm: "mset (map (\<lambda>e. the (M (snd e))) ?rs) = filter_mset ?p (table_rows M)" .
  have "entries_sorted DefaultKeyComparator ?es" using btree_of_sorted [OF assms(2)] assms(3) by simp
  then have "sorted (map fst ?rs)"
    by (auto simp: entries_sorted_def entries_range_def DefaultKeyComparator_def sorted_wrt_map sorted_map
        intro!: sorted_wrt_filter elim!: sorted_wrt_mono_rel [rotated] split: if_splits)
  moreover have "map fst ?rs = map key (map (\<lambda>e. the (M (snd e))) ?rs)" using es by (auto simp: entries_range_def)
  ultimately show ?thesis
    using index_scan.run_src [OF index_plan_src(1) [OF assms(1,2) rids, of low high]] perm assms(3) xs by auto
qed

lemma filter_scan_rows:
  assumes "holds_rows h ps M"
  shows "\<exists>ys e. run_query (FilterExecutor TableScanExecutor) (FilterExecutor_new (scan_plan h) p) = Some (ys, e) \<and>
    mset ys = filter_mset p (table_rows M)"
proof -
  have "filter_src table_scan_src (FilterExecutor_new (scan_plan h) p) (filter p (heap_rows h ps M))"
    using scan_plan_src [OF assms] by (auto simp: filter_src_def FilterExecutor_new_def)
  from volcano.run_src [OF table_scan.filter_volcano this] show ?thesis
    by (auto simp: heap_rows_mset [OF assms] table_rows_def)
qed

text \<open>
  C6. An index that holds one entry for each row, under the key of the row, answers a range query with the rows that a
  filter over the table scan returns, sorted by key.
\<close>

theorem index_scan_equals_filter:
  assumes "holds_rows h ps M" and "btree_of (t\<lparr>bt_bpm := hf_bpm h\<rparr>) T" and "bt_cmp t = DefaultKeyComparator"
    and "indexes_rows key T M"
  shows "\<exists>xs ys e1 e2. run_query IndexScanExecutor (IndexScanExecutor_range t h low high) = Some (xs, e1) \<and>
    run_query (FilterExecutor TableScanExecutor) (FilterExecutor_new (scan_plan h) (\<lambda>t. low \<le> key t \<and> key t \<le> high)) = Some (ys, e2) \<and>
    mset xs = mset ys \<and> sorted (map key xs)"
  using index_range_rows [OF assms, of low high] filter_scan_rows [OF assms(1), of "\<lambda>t. low \<le> key t \<and> key t \<le> high"] by auto

theorem index_scan_equals_filter_witness:
  "\<exists>h t xs ys e1 e2. run_query IndexScanExecutor (IndexScanExecutor_range t h 2000 2024) = Some (xs, e1) \<and>
     run_query (FilterExecutor TableScanExecutor) (FilterExecutor_new (scan_plan h) (\<lambda>t. 2000 \<le> season t \<and> season t \<le> 2024)) = Some (ys, e2) \<and>
     mset xs = mset ys"
proof -
  obtain h ps ra t tr where H: "holds_rows h ps [ra \<mapsto> row_a]" "bt_cmp t = DefaultKeyComparator"
    "btree_of (t\<lparr>bt_bpm := hf_bpm h\<rparr>) (Some tr)" "bt_entries tr = [(season row_a, ra)]" by (rule demo_indexed) blast
  have "indexes_rows season (Some tr) [ra \<mapsto> row_a]" using H(4) by (simp add: indexes_rows_def)
  from index_scan_equals_filter [OF H(1,3,2) this, of 2000 2024] show ?thesis by blast
qed

section \<open>Sort, limit and top-N\<close>

text \<open>
  C12. \<open>SELECT f ... WHERE p ORDER BY cmp LIMIT n\<close>: filter, sort, projection and limit over a table scan return the
  projections of the first \<open>n\<close> of the rows that satisfy \<open>p\<close>, sorted by \<open>cmp\<close>.
\<close>

theorem select_correct:
  assumes "holds_rows h ps M" and "sort_contract sorter" and "strict_weak_order cmp"
  shows "\<exists>rows e. run_query (select_plan sorter) (select_query h p cmp f n) = Some (take (unat n) (map f rows), e) \<and>
    in_order cmp rows \<and> mset rows = filter_mset p (image_mset (\<lambda>r. the (M r)) (mset_set (dom M)))"
proof -
  let ?rows = "sorter cmp (filter p (heap_rows h ps M))"
  note plan = materialized.limit_materialized [OF materialized.projection_materialized
      [OF rescannable.sort_materialized [OF table_scan.filter_rescannable, of sorter]]]
  have "limit_src (projection_src (sort_src sorter (filter_src table_scan_src))) (select_query h p cmp f n) (take (unat n) (map f ?rows))"
    using scan_plan_src [OF assms(1)]
    by (fastforce simp: select_query_def limit_src_def projection_src_def sort_src_def filter_src_def LimitExecutor_new_def
        ProjectionExecutor_new_def SortExecutor_new_def FilterExecutor_new_def)
  from volcano.run_src [OF materialized.axioms(1) [OF plan] this]
  obtain e where "run_query (select_plan sorter) (select_query h p cmp f n) = Some (take (unat n) (map f ?rows), e)"
    by (auto simp: select_plan_def)
  then show ?thesis
    using sort_contract.sort_perm [OF assms(2,3)] sort_contract.sort_order [OF assms(2,3)] heap_rows_mset [OF assms(1)]
    by (intro exI [of _ ?rows]) simp
qed

theorem select_correct_witness:
  "\<exists>h rows e. run_query (select_plan std_sort) (select_query h (\<lambda>_. True) by_points (\<lambda>t. t\<lparr>nr_season := 0\<rparr>) 1) =
     Some ([row_b\<lparr>nr_season := 0\<rparr>], e) \<and> mset rows = {#row_a, row_b#} \<and> in_order by_points rows"
proof -
  obtain h ps ra rb where H: "holds_rows h ps [ra \<mapsto> row_a, rb \<mapsto> row_b]" "ra \<noteq> rb" by (rule demo_table) blast
  obtain rows e where R: "run_query (select_plan std_sort) (select_query h (\<lambda>_. True) by_points (\<lambda>t. t\<lparr>nr_season := 0\<rparr>) 1) =
      Some (take (unat (1 :: u32)) (map (\<lambda>t. t\<lparr>nr_season := 0\<rparr>) rows), e)" "in_order by_points rows"
    "mset rows = filter_mset (\<lambda>_. True) (image_mset (\<lambda>r. the ([ra \<mapsto> row_a, rb \<mapsto> row_b] r)) (mset_set (dom [ra \<mapsto> row_a, rb \<mapsto> row_b])))"
    using select_correct [OF H(1) insertion.sort_contract_axioms by_points(1)] by blast
  have "dom [ra \<mapsto> row_a, rb \<mapsto> row_b] = {ra, rb}" by auto
  then have m: "mset rows = {#row_a, row_b#}" using R(3) H(2) by (simp add: add_mset_commute)
  then have "length rows = 2" by (metis size_mset size_add_mset size_empty One_nat_def numeral_2_eq_2)
  then obtain x y where xy: "rows = [x, y]" by (auto simp: numeral_2_eq_2 length_Suc_conv)
  then have "x = row_a \<and> y = row_b \<or> x = row_b \<and> y = row_a" using m by (auto simp: add_eq_conv_ex)
  moreover have "\<not> by_points y x" using R(2) xy by simp
  moreover have "by_points row_b row_a" by (simp add: by_points_def row_a_def row_b_def)
  ultimately have "rows = [row_b, row_a]" using xy by auto
  then show ?thesis using R(1,2) m by (intro exI [of _ h] exI [of _ rows] exI [of _ e]) simp
qed

text \<open>
  C15. Top-N is sort and limit: on up to \<open>2 ^ 32 - 1\<close> rows the two plans return lists of the same length that agree up to
  rows the comparator does not tell apart, whatever order \<open>std::sort\<close> and \<open>std::partial_sort\<close> leave those in.
\<close>

theorem top_n_equals_sort_limit:
  assumes "holds_rows h ps M" and "card (dom M) < 2 ^ 32" and "sort_contract sorter" and "partial_sort_contract partial_sorter"
    and "strict_weak_order cmp"
  shows "\<exists>xs ys e1 e2.
    run_query (LimitExecutor (SortExecutor sorter TableScanExecutor)) (LimitExecutor_new (SortExecutor_new (scan_plan h) cmp) n) = Some (xs, e1) \<and>
    run_query (TopNExecutor partial_sorter TableScanExecutor) (TopNExecutor_new (scan_plan h) cmp n) = Some (ys, e2) \<and>
    list_all2 (equivalent cmp) xs ys"
proof -
  let ?rows = "heap_rows h ps M"
  note src = scan_plan_src [OF assms(1)]
  have "limit_src (sort_src sorter table_scan_src) (LimitExecutor_new (SortExecutor_new (scan_plan h) cmp) n)
      (take (unat n) (sorter cmp ?rows))"
    using src by (fastforce simp: limit_src_def sort_src_def LimitExecutor_new_def SortExecutor_new_def)
  note xs = volcano.run_src [OF materialized.axioms(1) [OF materialized.limit_materialized [OF table_scan.sort_materialized]] this]
  have "top_n_src partial_sorter table_scan_src (TopNExecutor_new (scan_plan h) cmp n) (top_rows partial_sorter cmp n ?rows)"
    using src by (fastforce simp: top_n_src_def TopNExecutor_new_def)
  note ys = volcano.run_src [OF table_scan.top_n_volcano this]
  have "length ?rows < 4294967296"
    using assms(2) heap_rids [OF assms(1)] distinct_card [of "heap_rids h ps"] by (simp add: heap_rows_def)
  then have "list_all2 (equivalent cmp) (take (unat n) (sorter cmp ?rows)) (top_rows partial_sorter cmp n ?rows)"
    by (rule sort_contract.sort_take_equivalent [OF assms(3-5)])
  then show ?thesis using xs ys by blast
qed

theorem top_n_equals_sort_limit_witness:
  "\<exists>h xs ys e1 e2.
     run_query (LimitExecutor (SortExecutor std_sort TableScanExecutor)) (LimitExecutor_new (SortExecutor_new (scan_plan h) by_points) 1) = Some (xs, e1) \<and>
     run_query (TopNExecutor (\<lambda>lt k. std_sort lt) TableScanExecutor) (TopNExecutor_new (scan_plan h) by_points 1) = Some (ys, e2) \<and>
     map nr_points xs = map nr_points ys"
proof -
  obtain h ps ra rb where H: "holds_rows h ps [ra \<mapsto> row_a, rb \<mapsto> row_b]" "ra \<noteq> rb" by (rule demo_table) blast
  have "dom [ra \<mapsto> row_a, rb \<mapsto> row_b] = {ra, rb}" by auto
  then have "card (dom [ra \<mapsto> row_a, rb \<mapsto> row_b]) < 2 ^ 32" using H(2) by simp
  note T = top_n_equals_sort_limit [OF H(1) this insertion.sort_contract_axioms insertion.full.partial_sort_contract_axioms by_points(1), of 1]
  have eq: "list_all2 (equivalent by_points) xs ys \<Longrightarrow> map nr_points xs = map nr_points ys" for xs ys
    by (induction rule: list_all2_induct) (simp_all add: by_points(2))
  show ?thesis using T eq by blast
qed

section \<open>Aggregation\<close>

text \<open>
  C14. Aggregation over a table scan computes one result for each group key among the rows: the count, and the sum,
  average, minimum and maximum as the code folds them, over the rows of the group in scan order. \<open>Next\<close> returns each
  result once.
\<close>

theorem aggregation_correct:
  assumes "holds_rows h ps M" and "group_iteration map_order"
  shows "\<exists>rids e e'. distinct rids \<and> set rids = dom M \<and>
    (let rows = map (\<lambda>r. the (M r)) rids; A = AggregationExecutor D map_order TableScanExecutor;
         q = AggregationExecutor_new (scan_plan h) key specs in
     ex_Init A q = Some e \<and> distinct (map ar_group_key (AggregationExecutor_GetResults e)) \<and>
     set (AggregationExecutor_GetResults e) = group_row D key specs rows ` key ` set rows \<and>
     run_query A q = Some (map (\<lambda>r. pack_result D r NBARecord_default) (AggregationExecutor_GetResults e), e'))"
proof -
  let ?rows = "heap_rows h ps M" and ?q = "AggregationExecutor_new (scan_plan h) key specs"
  let ?rs = "agg_rows D map_order key specs ?rows"
  note src = scan_plan_src [OF assms(1)]
  obtain c c' where "ex_Init TableScanExecutor (scan_plan h) = Some c"
    "agg_loop D TableScanExecutor key specs [] c NBARecord_default = Some (groups_of D key specs [] ?rows, c')"
    using table_scan.init_agg [OF src] by blast
  then obtain e where e: "ex_Init (AggregationExecutor D map_order TableScanExecutor) ?q = Some e" "ae_results e = ?rs"
    by (simp add: AggregationExecutor_def AggregationExecutor_Init_def AggregationExecutor_new_def agg_rows_def)
  have "agg_src D map_order (length specs) table_scan_src ?q (map (\<lambda>r. pack_result D r NBARecord_default) ?rs)"
    using src by (fastforce simp: agg_src_def AggregationExecutor_new_def)
  from volcano.run_src [OF table_scan.agg_volcano this]
  obtain e' where "run_query (AggregationExecutor D map_order TableScanExecutor) ?q =
      Some (map (\<lambda>r. pack_result D r NBARecord_default) ?rs, e')" by blast
  then show ?thesis
    using e group_iteration.rows_reference [OF assms(2) length_heap_rows [OF assms(1)]] heap_rids [OF assms(1)]
    by (intro exI [of _ "heap_rids h ps"] exI [of _ e] exI [of _ e'])
      (simp add: AggregationExecutor_GetResults_def Let_def flip: heap_rows_def)
qed

text \<open>Natural numbers in place of \<open>double\<close>.\<close>

definition nat_ops :: "nat double_ops" where
  "nat_ops = \<lparr>d_zero = 0, d_add = (+), d_div = (div), d_less = (<), d_of_u64 = unat, d_to_u16 = of_nat, d_max = 255, d_lowest = 0\<rparr>"

theorem aggregation_correct_witness:
  "\<exists>h e. ex_Init (AggregationExecutor nat_ops (\<lambda>gs. gs) TableScanExecutor) (AggregationExecutor_new (scan_plan h) (\<lambda>_. [])
       [\<lparr>as_type = kSum, as_value_extractor = (\<lambda>t. unat (nr_points t)), as_result_name = []\<rparr>]) = Some e \<and>
     AggregationExecutor_GetResults e = [\<lparr>ar_group_key = [], ar_values = [5]\<rparr>]"
proof -
  obtain h ps ra rb where H: "holds_rows h ps [ra \<mapsto> row_a, rb \<mapsto> row_b]" "ra \<noteq> rb" by (rule demo_table) blast
  let ?M = "[ra \<mapsto> row_a, rb \<mapsto> row_b]"
    and ?specs = "[\<lparr>as_type = kSum, as_value_extractor = (\<lambda>t. unat (nr_points t)), as_result_name = []\<rparr>]"
  let ?A = "AggregationExecutor nat_ops (\<lambda>gs. gs) TableScanExecutor"
  obtain rids e where R: "distinct rids" "set rids = dom ?M"
    "ex_Init ?A (AggregationExecutor_new (scan_plan h) (\<lambda>_. []) ?specs) = Some e"
    "distinct (map ar_group_key (AggregationExecutor_GetResults e))"
    "set (AggregationExecutor_GetResults e) =
      group_row nat_ops (\<lambda>_. []) ?specs (map (\<lambda>r. the (?M r)) rids) ` (\<lambda>_. []) ` set (map (\<lambda>r. the (?M r)) rids)"
    using aggregation_correct [OF H(1) insertion_order.group_iteration_axioms, of nat_ops "\<lambda>_. []" ?specs] unfolding Let_def by blast
  have "set rids = {ra, rb}" using R(2) by auto
  note rows = demo_rows [OF this R(1) H(2)]
  have row: "group_row nat_ops (\<lambda>_. []) ?specs rows [] = \<lparr>ar_group_key = [], ar_values = [5]\<rparr>"
    if "rows \<in> {[row_a, row_b], [row_b, row_a]}" for rows
    using that by (auto simp: group_row_def agg_reference_def Let_def nat_ops_def row_a_def row_b_def)
  have "set (AggregationExecutor_GetResults e) = {\<lparr>ar_group_key = [], ar_values = [5]\<rparr>}"
    using R(5) rows row [OF rows] by (auto simp: image_constant_conv)
  moreover have "distinct (AggregationExecutor_GetResults e)" using R(4) by (simp add: distinct_map)
  moreover have "xs = [x]" if "set xs = {x}" "distinct xs" for xs and x :: "nat agg_result"
    using that by (cases xs) (auto simp: subset_singleton_iff)
  ultimately have "AggregationExecutor_GetResults e = [\<lparr>ar_group_key = [], ar_values = [5]\<rparr>]" by blast
  then show ?thesis using R(3) by blast
qed

section \<open>A limit over a table scan\<close>

text \<open>
  C40. A \<open>LIMIT\<close> that stops a table scan before its end returns the first rows, but the page the iterator stands on
  stays pinned: nothing ends the scan.
\<close>

theorem limit_leaves_pin:
  assumes "holds_rows h ps M" and "unat n < card (dom M)"
  shows "\<exists>rids e p. run_query (LimitExecutor TableScanExecutor) (LimitExecutor_new (scan_plan h) n) =
      Some (map (\<lambda>r. the (M r)) (take (unat n) rids), e) \<and> distinct rids \<and> set rids = dom M \<and>
    bp_pins (hf_bpm (ts_heap_file (le_child e))) = (\<lambda>_. 0)(p := 1)"
proof -
  let ?rows = "heap_rows h ps M"
  have len: "unat n < length ?rows"
    using assms(2) heap_rids [OF assms(1)] distinct_card [of "heap_rids h ps"] by (simp add: heap_rows_def)
  obtain c where c: "ex_Init TableScanExecutor (scan_plan h) = Some c" "table_scan_rest ?rows c ?rows"
    using table_scan.init [OF scan_plan_src [OF assms(1)]] by blast
  let ?e = "\<lparr>le_child = c, le_limit = n, le_emitted = 0\<rparr>"
  obtain c' k where p: "pull_all (LimitExecutor TableScanExecutor) ?e NBARecord_default =
      Some (take (unat n) ?rows, ?e\<lparr>le_child := c', le_emitted := k\<rparr>)" "table_scan_rest ?rows c' (drop (unat n) ?rows)"
    using table_scan.limit_pull [of ?rows ?e ?rows NBARecord_default] c(2) len by auto
  obtain y ys where "drop (unat n) ?rows = y # ys" using len by (cases "drop (unat n) ?rows") auto
  then have "bp_pins (hf_bpm (ts_heap_file c')) = (\<lambda>_. 0)(hi_page_id (ts_iterator c') := 1)"
    using table_scan_pinned p(2) by simp
  moreover have "run_query (LimitExecutor TableScanExecutor) (LimitExecutor_new (scan_plan h) n) =
      Some (take (unat n) ?rows, ?e\<lparr>le_child := c', le_emitted := k\<rparr>)"
    using c(1) p(1) by (simp add: run_query_def LimitExecutor_new_def LimitExecutor_def LimitExecutor_Init_def)
  ultimately show ?thesis
    using heap_rids [OF assms(1)] by (intro exI [of _ "heap_rids h ps"]) (auto simp: heap_rows_def take_map)
qed

theorem limit_leaves_pin_witness:
  "\<exists>h xs e p. run_query (LimitExecutor TableScanExecutor) (LimitExecutor_new (scan_plan h) 1) = Some (xs, e) \<and> length xs = 1 \<and>
     (\<forall>q. bp_pins (hf_bpm h) q = 0) \<and> bp_pins (hf_bpm (ts_heap_file (le_child e))) p = 1"
proof -
  obtain h ps ra rb where H: "holds_rows h ps [ra \<mapsto> row_a, rb \<mapsto> row_b]" "ra \<noteq> rb" by (rule demo_table) blast
  have d: "dom [ra \<mapsto> row_a, rb \<mapsto> row_b] = {ra, rb}" by auto
  then have "unat (1 :: u32) < card (dom [ra \<mapsto> row_a, rb \<mapsto> row_b])" using H(2) by simp
  from limit_leaves_pin [OF H(1) this] obtain rids e p where R:
    "run_query (LimitExecutor TableScanExecutor) (LimitExecutor_new (scan_plan h) 1) =
      Some (map (\<lambda>r. the ([ra \<mapsto> row_a, rb \<mapsto> row_b] r)) (take (unat (1 :: u32)) rids), e)" "distinct rids" "set rids = {ra, rb}"
    "bp_pins (hf_bpm (ts_heap_file (le_child e))) = (\<lambda>_. 0)(p := 1)"
    unfolding d by blast
  have "length rids = 2" using distinct_card [OF R(2)] R(3) H(2) by simp
  moreover have "bp_pins (hf_bpm h) q = 0" for q using H(1) by (auto simp: holds_rows_def heap_inv_def quiet_def)
  moreover have "bp_pins (hf_bpm (ts_heap_file (le_child e))) p = 1" using R(4) by simp
  ultimately show ?thesis using R(1) by (intro exI [of _ h] exI conjI) (assumption, simp_all)
qed

end
