(* ===== verification/IndexedTable.thy ===== *)
theory IndexedTable
  imports QueryProps
begin

text \<open>
  A table and an index on one of its fields, on one buffer pool: a row is inserted into the heap file and then, with the record
  id it got, into the index, and deleted from both. The pool keeps the two apart, so that the index holds one entry for
  each row in every state a client can reach, and a query can use either of them.
\<close>

section \<open>Insertion and deletion of a row\<close>

text \<open>The heap file carries the state of the pool; the index takes it for the time of its operations.\<close>

definition with_index :: "heap_file \<Rightarrow> btree \<Rightarrow> heap_file \<times> btree" where
  "with_index h t = (h\<lparr>hf_bpm := bt_bpm t\<rparr>, t)"

definition table_insert :: "(tuple \<Rightarrow> u32) \<Rightarrow> tuple \<Rightarrow> heap_file \<Rightarrow> btree \<Rightarrow> (rid \<times> heap_file \<times> btree) option" where
  "table_insert key y h t =
     (let bytes = RecordSerializer_Serialize y in
      case HeapFile_InsertRecord (Some bytes) (of_nat (length bytes)) h of
        (Inl e, h) \<Rightarrow> None
      | (Inr r, h) \<Rightarrow>
          (case BPlusTree_Insert (key y) r (t\<lparr>bt_bpm := hf_bpm h\<rparr>) of
             Some (Inr True, t) \<Rightarrow> Some (r, with_index h t)
           | _ \<Rightarrow> None))"

definition table_delete :: "(tuple \<Rightarrow> u32) \<Rightarrow> rid \<Rightarrow> heap_file \<Rightarrow> btree \<Rightarrow> (bool \<times> heap_file \<times> btree) option" where
  "table_delete key r h t =
     (case HeapFile_GetRecord r h of
        (None, h) \<Rightarrow> Some (False, h, t)
      | (Some (f, off, len), h) \<Rightarrow>
          Option.bind (RecordSerializer_Deserialize (\<lambda>i. p_data (hf_page h f) (unat off + i)) len) (\<lambda>y.
            let (ok, h) = HeapFile_DeleteRecord r (hf_unpin (rid_page_id r) False h) in
            map_option (\<lambda>(found, t). (ok \<and> found, with_index h t)) (BPlusTree_Delete (key y) r (t\<lparr>bt_bpm := hf_bpm h\<rparr>))))"

section \<open>The invariant\<close>

definition indexed :: "(tuple \<Rightarrow> u32) \<Rightarrow> heap_file \<Rightarrow> btree \<Rightarrow> u32 list \<Rightarrow> bt option \<Rightarrow> (rid \<rightharpoonup> tuple) \<Rightarrow> bool" where
  "indexed key h t ps T M \<longleftrightarrow>
     holds_rows h ps M \<and> btree_of (t\<lparr>bt_bpm := hf_bpm h\<rparr>) T \<and> tree_pids T \<inter> set ps = {} \<and>
     bt_cmp t = DefaultKeyComparator \<and> indexes_rows key T M"

lemma indexedD:
  assumes "indexed key h t ps T M"
  shows "holds_rows h ps M" "btree_of (t\<lparr>bt_bpm := hf_bpm h\<rparr>) T" "tree_pids T \<inter> set ps = {}" "bt_cmp t = DefaultKeyComparator"
    "indexes_rows key T M" "heap_inv h ps" "quiet (hf_bpm h)" "finite (dom M)"
    "rows_on h ps M (set ps) (hf_bpm h)" "index_on t T (tree_pids T) (hf_bpm h)"
proof -
  show h: "holds_rows h ps M" and "btree_of (t\<lparr>bt_bpm := hf_bpm h\<rparr>) T" "tree_pids T \<inter> set ps = {}" "bt_cmp t = DefaultKeyComparator"
    "indexes_rows key T M" "rows_on h ps M (set ps) (hf_bpm h)" "index_on t T (tree_pids T) (hf_bpm h)"
    using assms by (simp_all add: indexed_def rows_on_def index_on_def)
  then show "heap_inv h ps" "quiet (hf_bpm h)" by (simp_all add: holds_rows_def heap_inv_def)
  show "finite (dom M)" using heap_rids [OF h] by (metis List.finite_set)
qed

text \<open>After an operation of the index, whose footprint is its own pages, the rows are as before.\<close>

lemma after_index:
  assumes rows: "holds_rows h ps M" and apart: "tree_pids T \<inter> set ps = {}" and of: "btree_of t' T'"
    and foot: "footprint (tree_pids T) (hf_bpm h) (tree_pids T') (bt_bpm t')"
    and cmp: "bt_cmp t' = DefaultKeyComparator" and entries: "indexes_rows key T' M"
  shows "indexed key (fst (with_index h t')) (snd (with_index h t')) ps T' M"
proof -
  have on: "rows_on h ps M (set ps) (hf_bpm h)" using rows by (simp add: rows_on_def)
  have q: "quiet (bt_bpm t')" using of by (cases T') (auto dest: btree_invD(2))
  note U = rows_client.undisturbed [OF on foot q apart]
  show ?thesis using U of cmp entries by (simp add: indexed_def with_index_def rows_on_def)
qed

text \<open>After an operation of the heap file the index is as before.\<close>

lemma after_heap:
  assumes I: "indexed key h t ps T M" and rows: "holds_rows h' ps' M'"
    and foot: "footprint (set ps) (hf_bpm h) (set ps') (hf_bpm h')"
  shows "btree_of (t\<lparr>bt_bpm := hf_bpm h'\<rparr>) T" "tree_pids T \<inter> set ps' = {}"
proof -
  have q: "quiet (hf_bpm h')" using rows by (simp add: holds_rows_def heap_inv_def)
  have "set ps \<inter> tree_pids T = {}" using indexedD(3) [OF I] by blast
  note U = index_client.undisturbed [OF indexedD(10) [OF I] foot q this]
  show "btree_of (t\<lparr>bt_bpm := hf_bpm h'\<rparr>) T" "tree_pids T \<inter> set ps' = {}" using U by (auto simp: index_on_def)
qed

lemma indexes_rows_insert:
  assumes "indexes_rows key T M" "M r = None" "finite (dom M)" "mset (tree_entries T') = add_mset (key y, r) (mset (tree_entries T))"
  shows "indexes_rows key T' (M(r \<mapsto> y))"
proof -
  have r: "r \<notin> dom M" using assms(2) by auto
  have "image_mset (\<lambda>q. (key (the ((M(r \<mapsto> y)) q)), q)) (mset_set (dom M)) = image_mset (\<lambda>q. (key (the (M q)), q)) (mset_set (dom M))"
    using r assms(3) by (intro image_mset_cong) auto
  then show ?thesis using assms r by (simp add: indexes_rows_def)
qed

lemma indexes_rows_delete:
  assumes "indexes_rows key T M" "M r = Some y" "finite (dom M)" "tree_entries T' = remove1 (key y, r) (tree_entries T)"
  shows "(key y, r) \<in> set (tree_entries T)" "indexes_rows key T' (M(r := None))"
proof -
  have dom: "mset_set (dom M) = add_mset r (mset_set (dom M - {r}))"
    using assms(2,3) by (subst mset_set.remove [of _ r]) auto
  then have es: "mset (tree_entries T) = add_mset (key y, r) (image_mset (\<lambda>q. (key (the (M q)), q)) (mset_set (dom M - {r})))"
    using assms(1,2) by (simp add: indexes_rows_def)
  show "(key y, r) \<in> set (tree_entries T)" using arg_cong [OF es, of set_mset] by simp
  have "image_mset (\<lambda>q. (key (the ((M(r := None)) q)), q)) (mset_set (dom M - {r})) =
      image_mset (\<lambda>q. (key (the (M q)), q)) (mset_set (dom M - {r}))"
    using assms(3) by (intro image_mset_cong) auto
  then show "indexes_rows key T' (M(r := None))" using assms(4) es by (simp add: indexes_rows_def)
qed

section \<open>The operations keep the invariant\<close>

text \<open>
  What an insertion needs: the record fits a page, and eight disk pages are free, two of them for the heap file and six for
  the splits of the index. For the index itself, see \<open>insert_ok\<close>.
\<close>

definition insert_legal :: "(tuple \<Rightarrow> u32) \<Rightarrow> tuple \<Rightarrow> heap_file \<Rightarrow> btree \<Rightarrow> bool" where
  "insert_legal key y h t \<longleftrightarrow>
     record_size y \<le> 4072 \<and> 8 \<le> heap_room h \<and>
     (\<forall>T. btree_of (t\<lparr>bt_bpm := hf_bpm h\<rparr>) T \<longrightarrow> insert_ok (t\<lparr>bt_bpm := hf_bpm h\<rparr>) T (key y))"

lemma insert_ok_later:
  assumes "insert_ok (t\<lparr>bt_bpm := b\<rparr>) T k" "bp_pool_size b' = bp_pool_size b" "6 \<le> disk_room (bp_disk b')"
  shows "insert_ok (t\<lparr>bt_bpm := b'\<rparr>) T k"
  using assms by (auto simp: insert_ok_def split: option.splits)

lemma table_insert_step:
  assumes I: "indexed key h t ps T M" and legal: "insert_legal key y h t"
  obtains r h' t' ps' T' where "table_insert key y h t = Some (r, h', t')" "M r = None" "indexed key h' t' ps' T' (M(r \<mapsto> y))"
    "tree_entries T' = entries_insert (bt_cmp t) (key y, r) (tree_entries T)"
proof -
  note D = indexedD [OF I]
  have room: "2 \<le> heap_room h" "record_size y \<le> 4072" "8 \<le> heap_room h" using legal by (simp_all add: insert_legal_def)
  obtain r h1 new where H:
    "HeapFile_InsertRecord (Some (RecordSerializer_Serialize y)) (of_nat (length (RecordSerializer_Serialize y))) h = (Inr r, h1)"
    "holds_rows h1 (ps @ new) (M(r \<mapsto> y))" "heap_room h \<le> heap_room h1 + 2" "M r = None"
    "footprint (set ps) (hf_bpm h) (set (ps @ new)) (hf_bpm h1)"
    by (rule insert_row [OF D(1) room(1,2)]) blast
  note A = after_heap [OF I H(2,5)]
  have "insert_ok (t\<lparr>bt_bpm := hf_bpm h\<rparr>) T (key y)" using legal D(2) by (simp add: insert_legal_def)
  then have ok: "insert_ok (t\<lparr>bt_bpm := hf_bpm h1\<rparr>) T (key y)"
    by (rule insert_ok_later) (use footprint_size [OF H(5)] H(3) room(3) in simp_all)
  obtain t' tr where B: "BPlusTree_Insert (key y) r (t\<lparr>bt_bpm := hf_bpm h1\<rparr>) = Some (Inr True, t')" "btree_inv t' tr"
    "bt_entries tr = entries_insert (bt_cmp t) (key y, r) (tree_entries T)" "bt_cmp t' = bt_cmp t"
    "footprint (tree_pids T) (hf_bpm h1) (set (bt_pids tr)) (bt_bpm t')"
    by (rule insert_step [OF A(1) ok, where r = r]) (use that in simp)
  have "mset (tree_entries (Some tr)) = add_mset (key y, r) (mset (tree_entries T))"
    by (simp add: B(3) mset_entries_insert)
  note R = indexes_rows_insert [OF D(5) H(4) D(8) this]
  have "table_insert key y h t = Some (r, with_index h1 t')" using H(1) B(1) by (simp add: table_insert_def)
  moreover have "btree_of t' (Some tr)" using B(2) by simp
  note after_index [OF H(2) A(2) this _ _ R]
  ultimately show ?thesis using that [of r _ _ _ "Some tr"] B(3-5) D(4) H(4) by (simp add: with_index_def)
qed

lemma table_delete_step:
  assumes I: "indexed key h t ps T M" and row: "M r = Some y"
  obtains h' t' T' where "table_delete key r h t = Some (True, h', t')" "indexed key h' t' ps T' (M(r := None))"
    "(key y, r) \<in> set (tree_entries T)" "tree_entries T' = remove1 (key y, r) (tree_entries T)"
proof -
  note D = indexedD [OF I]
  have p: "rid_page_id r \<in> set ps" using rows_pages [OF D(1)] row by blast
  obtain f off len b where G: "HeapFile_GetRecord r h = (Some (f, off, len), h\<lparr>hf_bpm := b\<rparr>)"
    "RecordSerializer_Deserialize (\<lambda>i. p_data (frame_page b f) (unat off + i)) len = Some y"
    "same_frame (hf_bpm h) (bp_unpin (rid_page_id r) False b)" "bp_view (bp_unpin (rid_page_id r) False b) = bp_view (hf_bpm h)"
    by (rule get_row [OF D(1) p]) (use row in auto)
  let ?h1 = "hf_unpin (rid_page_id r) False (h\<lparr>hf_bpm := b\<rparr>)"
  have h1: "?h1 = h\<lparr>hf_bpm := bp_unpin (rid_page_id r) False b\<rparr>" by (simp add: hf_unpin_def)
  have q1: "quiet (bp_unpin (rid_page_id r) False b)" by (rule quiet_same_frame [OF D(7) G(3)])
  have rows1: "holds_rows ?h1 ps M"
    unfolding h1 using holds_rows_view(1) [OF _ q1 G(4), of h ps M] D(1) by simp
  then have inv1: "heap_inv ?h1 ps" by (simp add: holds_rows_def)
  obtain ok h2 where del: "HeapFile_DeleteRecord r ?h1 = (ok, h2)" by fastforce
  note H = heap_delete [OF inv1 p del]
  have ok: "ok" using H(1) rows1 row by (simp add: holds_rows_def)
  have rows2: "holds_rows h2 ps (M(r := None))" using H(2,3) rows1 by (auto simp: holds_rows_def)
  have "footprint (set ps) (hf_bpm h) (set ps) (hf_bpm ?h1)"
    unfolding h1 using G(3,4) by (intro footprint_write) (simp_all add: same_frame_def)
  note foot = footprint_trans [OF this H(5)]
  note A = after_heap [OF I rows2 foot]
  obtain t' T' where B: "BPlusTree_Delete (key y) r (t\<lparr>bt_bpm := hf_bpm h2\<rparr>) = Some ((key y, r) \<in> set (tree_entries T), t')"
    "btree_of t' T'" "tree_entries T' = remove1 (key y, r) (tree_entries T)" "bt_cmp t' = bt_cmp t"
    "footprint (tree_pids T) (hf_bpm h2) (tree_pids T') (bt_bpm t')"
    by (rule delete_step [OF A(1), where key = "key y" and r = r]) (use that in simp)
  note R = indexes_rows_delete [OF D(5) row D(8) B(3)]
  have "table_delete key r h t = Some (True, with_index h2 t')"
    using G(1,2) del B(1) R(1) ok by (simp add: table_delete_def)
  then show ?thesis using that after_index [OF rows2 A(2) B(2,5) _ R(2)] B(3,4) D(4) R(1) by (simp add: with_index_def)
qed

section \<open>Reachable states\<close>

lemma btree_of_unique: "btree_of t T \<Longrightarrow> btree_of t T' \<Longrightarrow> T' = T"
proof -
  assume "btree_of t T" and T': "btree_of t T'"
  moreover from T' have "index_tree t T'"
    by (cases T') (auto simp: index_tree_def BPlusTree_IsEmpty_def btree_inv_def)
  ultimately show ?thesis using index_tree_unique by blast
qed

text \<open>With a unique key and eleven frames, every insertion of a new key is legal.\<close>

lemma unique_key_legal:
  assumes I: "indexed key h t ps T M" and uniq: "inj_on (\<lambda>r. key (the (M r))) (dom M)" "key y \<notin> (\<lambda>r. key (the (M r))) ` dom M"
    and res: "record_size y \<le> 4072" "8 \<le> heap_room h" "11 \<le> unat (bp_pool_size (hf_bpm h))"
  shows "insert_legal key y h t"
proof -
  note D = indexedD [OF I]
  let ?t = "t\<lparr>bt_bpm := hf_bpm h\<rparr>"
  have keys: "mset (map fst (tree_entries T)) = mset_set ((\<lambda>r. key (the (M r))) ` dom M)"
    using D(5) uniq(1) by (simp add: indexes_rows_def image_mset.compositionality comp_def image_mset_mset_set)
  obtain ks where ks: "set ks = (\<lambda>r. key (the (M r))) ` dom M" "distinct ks"
    using finite_distinct_list [of "(\<lambda>r. key (the (M r))) ` dom M"] D(8) by blast
  have "mset (map fst (tree_entries T)) = mset ks" using keys mset_set_set [OF ks(2)] ks(1) by simp
  then have dist: "distinct (map fst (tree_entries T))" using mset_eq_imp_distinct_iff ks(2) by blast
  have new: "key y \<notin> fst ` set (tree_entries T)"
    using arg_cong [OF keys, of set_mset] D(8) uniq(2) by simp
  have "insert_ok ?t T (key y)"
  proof (cases T)
    case None
    then show ?thesis using res(2) by (simp add: insert_ok_def)
  next
    case (Some tr)
    have inv: "btree_inv ?t tr" using D(2) Some by simp
    obtain p n where "bt_find (bt_cmp t) (key y) tr = Some (p, n)"
      by (rule key_order.find_leaf [OF btree_invD(1) [OF inv] inv refl, where key = "key y"]) auto
    then show ?thesis using Some dist new res by (simp add: insert_ok_def)
  qed
  then show ?thesis using res btree_of_unique [OF D(2)] by (auto simp: insert_legal_def)
qed

inductive table_reachable :: "(tuple \<Rightarrow> u32) \<Rightarrow> heap_file \<Rightarrow> btree \<Rightarrow> (rid \<rightharpoonup> tuple) \<Rightarrow> bool" for key where
  created: "quiet b \<Longrightarrow> 0 < disk_room (bp_disk b) \<Longrightarrow> HeapFile_new b INVALID_PAGE_ID = Some (Inr (), h) \<Longrightarrow>
    table_reachable key h (BPlusTree_new (hf_bpm h) INVALID_PAGE_ID DefaultKeyComparator) (\<lambda>_. None)"
| inserted: "table_reachable key h t M \<Longrightarrow> insert_legal key y h t \<Longrightarrow> table_insert key y h t = Some (r, h', t') \<Longrightarrow>
    table_reachable key h' t' (M(r \<mapsto> y))"
| deleted: "table_reachable key h t M \<Longrightarrow> r \<in> dom M \<Longrightarrow> table_delete key r h t = Some (ok, h', t') \<Longrightarrow>
    table_reachable key h' t' (M(r := None))"

lemma reachable_indexed: "table_reachable key h t M \<Longrightarrow> \<exists>ps T. indexed key h t ps T M"
proof (induction rule: table_reachable.induct)
  case (created b h)
  obtain p h0 where H: "HeapFile_new b INVALID_PAGE_ID = Some (Inr (), h0)" "heap_inv h0 [p]" "heap_recs h0 [p] = (\<lambda>_. None)"
    by (rule heap_new_fresh [OF created(1,2)]) blast
  have "holds_rows h [p] (\<lambda>_. None)" "quiet (hf_bpm h)" using H created(3) by (auto simp: holds_rows_def heap_inv_def)
  then have "indexed key h (BPlusTree_new (hf_bpm h) INVALID_PAGE_ID DefaultKeyComparator) [p] None (\<lambda>_. None)"
    using default_order.key_order_axioms by (simp add: indexed_def BPlusTree_new_def indexes_rows_def)
  then show ?case by blast
next
  case (inserted h t M y r h' t')
  then obtain ps T where I: "indexed key h t ps T M" by blast
  obtain r1 h1 t1 ps' T' where "table_insert key y h t = Some (r1, h1, t1)" "indexed key h1 t1 ps' T' (M(r1 \<mapsto> y))"
    by (rule table_insert_step [OF I inserted.hyps(2)]) blast
  then show ?case using inserted.hyps(3) by (metis Pair_inject option.inject)
next
  case (deleted h t M r ok h' t')
  then obtain ps T y where I: "indexed key h t ps T M" "M r = Some y" by blast
  obtain h1 t1 T' where "table_delete key r h t = Some (True, h1, t1)" "indexed key h1 t1 ps T' (M(r := None))"
    by (rule table_delete_step [OF I]) blast
  then show ?case using deleted.hyps(3) by (metis Pair_inject option.inject)
qed

text \<open>A new table with one row.\<close>

lemma demo_indexed_table:
  obtains h0 r h t where "HeapFile_new demo_pool INVALID_PAGE_ID = Some (Inr (), h0)"
    "table_insert season row_a h0 (BPlusTree_new (hf_bpm h0) INVALID_PAGE_ID DefaultKeyComparator) = Some (r, h, t)"
    "table_reachable season h t [r \<mapsto> row_a]"
proof -
  obtain h0 p where H: "HeapFile_new demo_pool INVALID_PAGE_ID = Some (Inr (), h0)" "heap_room h0 = 4294967293"
    by (rule demo_heap) blast
  let ?t0 = "BPlusTree_new (hf_bpm h0) INVALID_PAGE_ID DefaultKeyComparator"
  have R: "table_reachable season h0 ?t0 (\<lambda>_. None)" by (rule created [OF demo_pool_quiet H(1)])
  then obtain ps T where I: "indexed season h0 ?t0 ps T (\<lambda>_. None)" using reachable_indexed by blast
  have "quiet (hf_bpm h0)" by (rule indexedD(7) [OF I])
  then have of: "btree_of (?t0\<lparr>bt_bpm := hf_bpm h0\<rparr>) None"
    using default_order.key_order_axioms by (simp add: BPlusTree_new_def)
  have "insert_ok (?t0\<lparr>bt_bpm := hf_bpm h0\<rparr>) None (season row_a)" using H(2) by (simp add: insert_ok_def)
  then have legal: "insert_legal season row_a h0 ?t0"
    using btree_of_unique [OF of] H(2)
    by (auto simp: insert_legal_def record_size_def row_a_def NBARecord_default_def)
  obtain r h t where "table_insert season row_a h0 ?t0 = Some (r, h, t)"
    by (rule table_insert_step [OF I legal]) blast
  then show ?thesis using that [OF H(1)] inserted [OF R legal] by simp
qed

text \<open>
  C7. In every state that legal insertions and deletions of rows lead to, the table and its index agree: a range query over
  the index and a filter over the table scan return the same rows, those that were inserted and not deleted. An insertion
  is legal (\<open>insert_legal\<close>) when the record fits a page, disk pages are free, and either the leaf of its key has room or
  the key is new and no key occurs twice; a split among equal keys, which the index does not survive, is left out.
\<close>

theorem indexed_table_agrees:
  assumes "table_reachable key h t M"
  shows "\<exists>xs ys e1 e2. run_query IndexScanExecutor (IndexScanExecutor_range t h low high) = Some (xs, e1) \<and>
    run_query (FilterExecutor TableScanExecutor) (FilterExecutor_new (scan_plan h) (\<lambda>t. low \<le> key t \<and> key t \<le> high)) = Some (ys, e2) \<and>
    mset xs = filter_mset (\<lambda>t. low \<le> key t \<and> key t \<le> high) (table_rows M) \<and> mset ys = mset xs \<and> sorted (map key xs)"
proof -
  obtain ps T where I: "indexed key h t ps T M" using reachable_indexed [OF assms] by blast
  note D = indexedD [OF I]
  show ?thesis
    using index_range_rows [OF D(1,2,4,5), of low high] filter_scan_rows [OF D(1), of "\<lambda>t. low \<le> key t \<and> key t \<le> high"] by auto
qed

theorem indexed_table_agrees_witness:
  "\<exists>h0 r h t e. HeapFile_new demo_pool INVALID_PAGE_ID = Some (Inr (), h0) \<and>
     table_insert season row_a h0 (BPlusTree_new (hf_bpm h0) INVALID_PAGE_ID DefaultKeyComparator) = Some (r, h, t) \<and>
     run_query IndexScanExecutor (IndexScanExecutor_range t h 2000 2024) = Some ([row_a], e)"
proof -
  obtain h0 r h t where T: "HeapFile_new demo_pool INVALID_PAGE_ID = Some (Inr (), h0)"
    "table_insert season row_a h0 (BPlusTree_new (hf_bpm h0) INVALID_PAGE_ID DefaultKeyComparator) = Some (r, h, t)"
    "table_reachable season h t [r \<mapsto> row_a]"
    by (rule demo_indexed_table)
  obtain xs e where X: "run_query IndexScanExecutor (IndexScanExecutor_range t h 2000 2024) = Some (xs, e)"
    "mset xs = filter_mset (\<lambda>t. 2000 \<le> season t \<and> season t \<le> 2024) (table_rows [r \<mapsto> row_a])"
    using indexed_table_agrees [OF T(3), of 2000 2024] by blast
  have "mset xs = {#row_a#}" using X(2) by (simp add: table_rows_def row_a_def)
  then show ?thesis using T X(1) by auto
qed

text \<open>
  C8. In every such state the heap file holds exactly the rows of \<open>M\<close> and the index one entry for each (\<open>indexed\<close>). A
  legal insertion returns a record id that was not in use, stores the encoded row under it and adds one entry with its key
  to the index; the deletion of a row answers true, removes its record and its index entry, and nothing else.
\<close>

theorem indexed_table_updates:
  assumes "table_reachable key h t M"
  shows "\<exists>ps T. indexed key h t ps T M \<and>
    (insert_legal key y h t \<longrightarrow> (\<exists>r h' t' ps' T'. table_insert key y h t = Some (r, h', t') \<and> M r = None \<and>
       heap_recs h' ps' = (heap_recs h ps)(r \<mapsto> RecordSerializer_Serialize y) \<and>
       tree_entries T' = entries_insert (bt_cmp t) (key y, r) (tree_entries T) \<and> indexed key h' t' ps' T' (M(r \<mapsto> y)))) \<and>
    (M q = Some z \<longrightarrow> (\<exists>h' t' T'. table_delete key q h t = Some (True, h', t') \<and>
       heap_recs h' ps = (heap_recs h ps)(q := None) \<and>
       (key z, q) \<in> set (tree_entries T) \<and> tree_entries T' = remove1 (key z, q) (tree_entries T) \<and>
       indexed key h' t' ps T' (M(q := None))))"
proof -
  obtain ps T where I: "indexed key h t ps T M" using reachable_indexed [OF assms] by blast
  have recs: "heap_recs h' ps' = (\<lambda>r. map_option RecordSerializer_Serialize (M' r))" if "indexed key h' t' ps' T' M'"
    for h' t' ps' T' M' using indexedD(1) [OF that] by (simp add: holds_rows_def)
  have "\<exists>r h' t' ps' T'. table_insert key y h t = Some (r, h', t') \<and> M r = None \<and>
       heap_recs h' ps' = (heap_recs h ps)(r \<mapsto> RecordSerializer_Serialize y) \<and>
       tree_entries T' = entries_insert (bt_cmp t) (key y, r) (tree_entries T) \<and> indexed key h' t' ps' T' (M(r \<mapsto> y))"
    if legal: "insert_legal key y h t"
  proof -
    obtain r h' t' ps' T' where S: "table_insert key y h t = Some (r, h', t')" "M r = None" "indexed key h' t' ps' T' (M(r \<mapsto> y))"
      "tree_entries T' = entries_insert (bt_cmp t) (key y, r) (tree_entries T)"
      by (rule table_insert_step [OF I legal])
    have "heap_recs h' ps' = (heap_recs h ps)(r \<mapsto> RecordSerializer_Serialize y)"
      unfolding recs [OF S(3)] recs [OF I] by auto
    then show ?thesis using S by blast
  qed
  moreover have "\<exists>h' t' T'. table_delete key q h t = Some (True, h', t') \<and> heap_recs h' ps = (heap_recs h ps)(q := None) \<and>
       (key z, q) \<in> set (tree_entries T) \<and> tree_entries T' = remove1 (key z, q) (tree_entries T) \<and>
       indexed key h' t' ps T' (M(q := None))" if row: "M q = Some z"
  proof -
    obtain h' t' T' where S: "table_delete key q h t = Some (True, h', t')" "indexed key h' t' ps T' (M(q := None))"
      "(key z, q) \<in> set (tree_entries T)" "tree_entries T' = remove1 (key z, q) (tree_entries T)"
      by (rule table_delete_step [OF I row])
    have "heap_recs h' ps = (heap_recs h ps)(q := None)" unfolding recs [OF S(2)] recs [OF I] by auto
    then show ?thesis using S by blast
  qed
  ultimately show ?thesis using I by blast
qed

theorem indexed_table_updates_witness:
  "\<exists>h0 r h t h' t' ps T. HeapFile_new demo_pool INVALID_PAGE_ID = Some (Inr (), h0) \<and>
     table_insert season row_a h0 (BPlusTree_new (hf_bpm h0) INVALID_PAGE_ID DefaultKeyComparator) = Some (r, h, t) \<and>
     table_delete season r h t = Some (True, h', t') \<and> heap_recs h' ps = (\<lambda>_. None) \<and>
     btree_of (t'\<lparr>bt_bpm := hf_bpm h'\<rparr>) T \<and> tree_entries T = []"
proof -
  obtain h0 r h t where T: "HeapFile_new demo_pool INVALID_PAGE_ID = Some (Inr (), h0)"
    "table_insert season row_a h0 (BPlusTree_new (hf_bpm h0) INVALID_PAGE_ID DefaultKeyComparator) = Some (r, h, t)"
    "table_reachable season h t [r \<mapsto> row_a]"
    by (rule demo_indexed_table)
  obtain ps T h' t' T' where U: "indexed season h t ps T [r \<mapsto> row_a]" "table_delete season r h t = Some (True, h', t')"
    "heap_recs h' ps = (heap_recs h ps)(r := None)" "indexed season h' t' ps T' ([r \<mapsto> row_a](r := None))"
    using indexed_table_updates [OF T(3), of row_a r row_a] by auto
  have M: "[r \<mapsto> row_a](r := None) = (\<lambda>_. None)" by (simp add: fun_eq_iff)
  have "heap_recs h' ps = (\<lambda>_. None)" "tree_entries T' = []" "btree_of (t'\<lparr>bt_bpm := hf_bpm h'\<rparr>) T'"
    using indexedD(1,2,5) [OF U(4) [unfolded M]] by (simp_all add: holds_rows_def indexes_rows_def)
  then show ?thesis using T(1,2) U(2) by blast
qed

end
