(* ===== verification/Spec2Isabelle.thy ===== *)
theory Spec2Isabelle
  imports CrashRecovery BTreeLimits IndexedTable
begin

text \<open>
  CourtDB, a small database for basketball play-by-play records (C++17): a disk manager, a buffer pool, slotted pages,
  heap files, a B+ tree index, a write-ahead log with redo recovery, and a Volcano query executor. This development
  translates \<open>src/\<close> and \<open>include/\<close> into HOL functions, operation by operation, and proves what the parts promise
  each other.

  \<^bold>\<open>Conventions.\<close> A class is a record of its fields and a method is a function from the old to the new record,
  named \<open>Class_Method\<close>. Fixed-width integers are words (\<open>u8\<close> to \<open>u64\<close>) and wrap. Memory behind a pointer is a
  function from offsets to bytes (\<open>buf\<close>), a file is a list of bytes, a \<open>Page*\<close> is the number of a frame. An exception
  is \<open>Inl\<close> of a sum; a null pointer or an empty optional is \<open>None\<close>. A \<open>partial_function (option)\<close> gives \<open>None\<close> for a
  loop that does not end or an assertion that fails: the theorems state \<open>= Some ...\<close>, so they include that the call
  returns. There is no fuel. Calls through a reference or pointer pass the callee's state in and out; parts that share a
  buffer pool hold it in one place (\<open>hf_bpm\<close>, \<open>bt_bpm\<close>). Mutexes are dropped: a run is a sequence of whole operations.

  \<^bold>\<open>The parts, from the bottom up.\<close>

  \<^item> \<open>Prelude\<close>: bytes in memory and files, word arithmetic without wrap-around, \<open>std::sort\<close>, and the collections of
    lemmas the other theories use.
  \<^item> \<open>Page\<close> (\<open>storage/page.cpp\<close>): the slotted page, with \<open>page_inv\<close> (slots inside the page, below the free space, pairwise
    disjoint) and its contract \<open>page_recs\<close>, a map from slots to bytes; compaction and the on-disk image.
  \<^item> \<open>NbaRecord\<close> (\<open>storage/record.cpp\<close>): record ids, records and their serialization.
  \<^item> \<open>DiskManager\<close> (\<open>disk/disk_manager.cpp\<close>): pages in a file with a header page and a free list threaded through the free
    pages; the result of every \<open>pread\<close> and \<open>pwrite\<close> is scripted in the state, so errors are covered. \<open>disk_inv\<close> says
    that the free list is a proper chain.
  \<^item> \<open>BufferPool\<close> (\<open>buffer/buffer_pool_manager.cpp\<close>): LRU replacer (refined to the history of accesses) and pool.
    \<open>bpm_inv\<close> relates page table, free list, replacer and metadata; \<open>bp_view\<close> is the abstract store of page
    contents, \<open>bp_pins\<close> the pin counts. \<open>PageSession\<close> and \<open>PoolPins\<close> package fetch, change, unpin for the clients;
    \<open>footprint\<close> says which pages a run of a client may change, and the locale \<open>pool_client\<close> that clients with separate
    pages do not disturb each other (interpreted by the heap file and the index).
  \<^item> \<open>HeapFile\<close>, \<open>HeapScan\<close>, \<open>HeapBulk\<close>, \<open>HeapSpec\<close> (\<open>storage/heap_file.cpp\<close>): a chain of pages with a free space
    directory, the iterator, bulk insertion; \<open>heap_inv\<close>, and the contract \<open>heap_recs\<close>, a map from record ids to bytes.
  \<^item> \<open>BTreeNode\<close> (node search, change and serialization), \<open>BPlusTree\<close> (the operations), \<open>BTreePages\<close> (nodes in pages),
    \<open>BTreeSpec\<close> (search trees \<open>bt\<close> and their invariant \<open>btree_inv\<close>), \<open>BTreeOps\<close> (lookup, range scan, deletion, insertion
    with room), \<open>BTreeSplitPages\<close>, \<open>BTreeContext\<close>, \<open>BTreeInsert\<close>, \<open>BTreeDivide\<close>, \<open>BTreeInsertion\<close> (splits up to the root),
    \<open>BTreeProps\<close>, \<open>BTreeClient\<close>, \<open>BTreeLimits\<close> (properties; lookup over several leaves is in the last): \<open>index/btree.cpp\<close>. A context is the path from the root to a
    hole, so that a split is an induction on the path.
  \<^item> \<open>LogRecord\<close>, \<open>LogManager\<close>, \<open>Recovery\<close> (\<open>recovery/\<close>): the log file, its buffer, partial writes and torn tails; redo on
    top of heap pages and buffer pool.
  \<^item> \<open>WriteBack\<close>, \<open>RedoInsertions\<close>, \<open>CrashRecovery\<close>: log, pool and disk in use and in a crash. The pool writes a page
    back whenever it needs a frame (\<open>written_back\<close>), so the file a crash leaves (\<open>survives\<close>: each page as last synced or
    last written) has pages from different times. \<open>wal_run\<close> is a run of logged insertions, reads, write-backs,
    log syncs and checkpoints; its invariant \<open>wal_inv\<close> says that each page on disk is a state of the log's history. Redo of
    insertions brings such pages to the end of the surviving log.
  \<^item> \<open>Volcano\<close> (filter, projection, sort, limit, top-N, aggregation), \<open>ScanExecutor\<close> (table and index scan): the operators
    of \<open>query/executor.cpp\<close>. \<open>VolcanoSpec\<close> states the contract between operators as the locale \<open>volcano\<close> (Init and Next
    deliver a list of tuples, then false for good), with \<open>rescannable\<close> and \<open>materialized\<close> for operators that can be reset
    at the end or at any time; each operator over a child with the contract has the contract. \<open>VolcanoSort\<close> and
    \<open>VolcanoAgg\<close> do this for the operators that materialize, \<open>QueryProps\<close> holds the properties of whole plans.
  \<^item> \<open>IndexedTable\<close>: heap file, index and executor together, as the \<open>README\<close> uses them: rows are inserted into and
    deleted from a heap file and an index on one pool.

  \<^bold>\<open>What is shown.\<close> The pool refines a store of page contents, heap file and index refine maps, and recovery replays the
  logged history: of a log with all kinds of records on pages as they were before it, and of a log of insertions after a
  crash at any time. Every operation has its functional behaviour on each branch, the invariants hold in
  every reachable state, what is written is read back (records, pages, nodes, log records, disk), the loops end, and plans
  that should be equivalent are. A table and its index agree in every state that legal insertions and deletions lead to.
  The properties of the index are about valid search trees, where a key is in one leaf; a split among equal keys leaves
  these, and \<open>btree_duplicates_missed\<close> says what is missed then. \<open>Lookup\<close> is characterized for keys on several leaves, too.
  Some properties are about limits of the code: writes that fail
  unnoticed, splits without a frame, duplicates across leaves, updates that overwrite the slot directory, redo of an
  operation that was already applied, pins that a \<open>LIMIT\<close> leaves behind.

  \<^bold>\<open>Bounds.\<close> A heap file operation needs two frames and up to two free disk pages. A split needs 11
  frames and 6 disk pages, which covers a tree of height 4, and more levels do not fit 32-bit page ids (\<open>btree_height\<close>).
  A run before a crash has up to \<open>2 ^ 40\<close> operations, so that the log stays below \<open>2 ^ 63\<close> bytes.
  Top-N counts its input in 32 bits, aggregation in 64.

  \<^bold>\<open>Parameters.\<close> Comparators, predicates, projections and extractors are arbitrary functions; a key comparator is a linear
  order whose result is 0 only on equal keys (locale \<open>key_order\<close>), a tuple comparator a strict weak order. \<open>std::sort\<close>,
  \<open>std::partial_sort\<close> and the iteration order of \<open>std::unordered_map\<close> are arguments with the promise of the standard as a
  locale. Arithmetic on \<open>double\<close> is an argument about which nothing is assumed.

  \<^bold>\<open>Not modelled.\<close> File names, permissions, alignment, reservation of capacity and display code
  (\<open>Stats::HitRate\<close>); concurrent interleavings inside an operation; callables that throw or have side effects;
  the conversion of a \<open>double\<close> outside the range of \<open>uint16_t\<close>, which is undefined. A page write that fails transfers nothing:
  a short \<open>pwrite\<close> that changes a part of the page is not represented. The assertions of the pool's constructor (it has a
  frame) and of \<open>EvictFrame\<close> (the page is not pinned) are left out: the theorems ask for frames, and \<open>bpm_inv\<close>
  implies the second wherever \<open>EvictFrame\<close> is called. \<open>SplitLeaf\<close> and \<open>SplitInternal\<close> are
  declared and never defined. Tests, benchmarks and the build hold no logic of the database.
\<close>

end
